(* ===== verification/Prelude.thy ===== *)
theory Prelude
  imports Main "HOL-Library.Monad_Syntax" "HOL-Library.Multiset"
begin

text \<open>
  Shared vocabulary of the development: Go slices with their bounds checks, the loops
  over them that several components share, counting lemmas for majorities, and the
  collections of simplification rules.

  A Go runtime panic is the value \<open>None\<close>: every slice access goes through \<open>idx\<close>,
  \<open>slice_from\<close>, \<open>slice_to\<close> or \<open>update_at\<close>, and the handlers are composed with the
  option monad, so that "the handler does not panic" is a statement \<open>\<exists>r. f x = Some r\<close>
  that has to be proved. Go's \<open>int\<close> is \<open>int\<close>: the counters of the program (terms, log
  indices, sequence numbers) grow by one per operation and do not reach \<open>2 ^ 63\<close>.
\<close>

named_theorems slice_simps \<open>in-range slice accesses\<close>
named_theorems raft_defs \<open>definitions of the Raft handlers\<close>
named_theorems frame_simps \<open>fields an operation leaves alone\<close>

section \<open>Go slices\<close>

definition idx :: "'a list \<Rightarrow> int \<Rightarrow> 'a option" where
  "idx xs i = (if 0 \<le> i \<and> i < int (length xs) then Some (xs ! nat i) else None)"

definition slice_from :: "'a list \<Rightarrow> int \<Rightarrow> 'a list option" where
  "slice_from xs i = (if 0 \<le> i \<and> i \<le> int (length xs) then Some (drop (nat i) xs) else None)"

definition slice_to :: "'a list \<Rightarrow> int \<Rightarrow> 'a list option" where
  "slice_to xs i = (if 0 \<le> i \<and> i \<le> int (length xs) then Some (take (nat i) xs) else None)"

definition update_at :: "'a list \<Rightarrow> int \<Rightarrow> 'a \<Rightarrow> 'a list option" where
  "update_at xs i v = (if 0 \<le> i \<and> i < int (length xs) then Some (xs[nat i := v]) else None)"

definition last_elem :: "'a list \<Rightarrow> 'a option" where
  "last_elem xs = idx xs (int (length xs) - 1)"

lemma idx_in [slice_simps]: "0 \<le> i \<Longrightarrow> i < int (length xs) \<Longrightarrow> idx xs i = Some (xs ! nat i)"
  by (simp add: idx_def)

lemma idx_SomeD: "idx xs i = Some x \<Longrightarrow> 0 \<le> i \<and> i < int (length xs) \<and> x = xs ! nat i"
  by (auto simp: idx_def split: if_splits)

lemma idx_of_nat [simp]: "k < length xs \<Longrightarrow> idx xs (int k) = Some (xs ! k)"
  by (simp add: idx_def)

lemma slice_from_in [slice_simps]:
  "0 \<le> i \<Longrightarrow> i \<le> int (length xs) \<Longrightarrow> slice_from xs i = Some (drop (nat i) xs)"
  by (simp add: slice_from_def)

lemma slice_to_in [slice_simps]:
  "0 \<le> i \<Longrightarrow> i \<le> int (length xs) \<Longrightarrow> slice_to xs i = Some (take (nat i) xs)"
  by (simp add: slice_to_def)

lemma slice_of_nat [simp]:
  "n \<le> length xs \<Longrightarrow> slice_from xs (int n) = Some (drop n xs)"
  "n \<le> length xs \<Longrightarrow> slice_to xs (int n) = Some (take n xs)"
  by (simp_all add: slice_from_def slice_to_def)

lemma update_at_in [slice_simps]:
  "0 \<le> i \<Longrightarrow> i < int (length xs) \<Longrightarrow> update_at xs i v = Some (xs[nat i := v])"
  by (simp add: update_at_def)

lemma update_at_SomeD:
  "update_at xs i v = Some ys \<Longrightarrow> 0 \<le> i \<and> i < int (length xs) \<and> ys = xs[nat i := v]"
  by (auto simp: update_at_def split: if_splits)

lemma last_elem_in [simp]: "xs \<noteq> [] \<Longrightarrow> last_elem xs = Some (last xs)"
  by (auto simp: last_elem_def idx_def last_conv_nth nat_diff_distrib
      intro!: arg_cong [where f = "(!) xs"] simp flip: One_nat_def)

lemma last_elem_eq_None [simp]: "last_elem xs = None \<longleftrightarrow> xs = []"
  by (cases xs) (auto simp: last_elem_def idx_def)

section \<open>Majorities\<close>

text \<open>
  \<open>majorityNum := sumNum/2 + 1\<close> of \<open>RunForElection\<close>: the interface the safety argument
  needs from it is that two sets of that size over the same servers meet.
\<close>

locale quorum_system =
  fixes servers :: "'a set" and quorum :: "'a set \<Rightarrow> bool"
  assumes quorum_within: "quorum Q \<Longrightarrow> Q \<subseteq> servers"
    and quorum_meet: "quorum Q \<Longrightarrow> quorum Q' \<Longrightarrow> Q \<inter> Q' \<noteq> {}"
begin

lemma quorum_nonempty: "quorum Q \<Longrightarrow> Q \<noteq> {}"
  using quorum_meet [of Q Q] by auto

text \<open>Two quorums that each back one value, where no server backs two, back the same value.\<close>

lemma quorums_agree:
  assumes "quorum Q" and "quorum Q'"
    and "\<And>j. j \<in> Q \<Longrightarrow> backs j c" and "\<And>j. j \<in> Q' \<Longrightarrow> backs j c'"
    and "\<And>j. backs j c \<Longrightarrow> backs j c' \<Longrightarrow> c = c'"
  shows "c = c'"
proof -
  from quorum_meet [OF assms(1,2)] obtain j where "j \<in> Q" "j \<in> Q'" by blast
  with assms(3-5) show ?thesis by blast
qed

end

lemma majority_meet:
  assumes "finite S" and "A \<subseteq> S" and "B \<subseteq> S"
    and "card S div 2 + 1 \<le> card A" and "card S div 2 + 1 \<le> card B"
  shows "A \<inter> B \<noteq> {}"
proof
  assume disj: "A \<inter> B = {}"
  from assms have fin: "finite A" "finite B" by (auto intro: finite_subset)
  have "card A + card B = card (A \<union> B)"
    using fin disj by (simp add: card_Un_disjoint)
  also have "\<dots> \<le> card S" using assms by (intro card_mono) auto
  finally show False using assms(4,5) by linarith
qed

section \<open>Running a machine over a list of events\<close>

text \<open>
  A component is a step function that takes an event and a state and either panics or
  gives the next state. An invariant of the step holds after any run, and so does any
  reflexive transitive relation between the states before and after a step; the
  components instantiate this with their own step functions.
\<close>

fun run_steps :: "('e \<Rightarrow> 's \<Rightarrow> 's option) \<Rightarrow> 'e list \<Rightarrow> 's \<Rightarrow> 's option" where
  "run_steps f [] s = Some s"
| "run_steps f (e # es) s = Option.bind (f e s) (run_steps f es)"

lemma run_steps_append:
  "run_steps f (xs @ ys) s = Option.bind (run_steps f xs s) (run_steps f ys)"
  by (induction xs arbitrary: s) (auto split: Option.bind_splits)

locale step_machine =
  fixes step :: "'e \<Rightarrow> 's \<Rightarrow> 's option" and inv :: "'s \<Rightarrow> bool"
  assumes step_inv: "inv s \<Longrightarrow> step e s = Some s' \<Longrightarrow> inv s'"
begin

lemma run_inv: "inv s \<Longrightarrow> run_steps step es s = Some s' \<Longrightarrow> inv s'"
proof (induction es arbitrary: s)
  case (Cons e es)
  then show ?case by (auto simp: bind_eq_Some_conv intro: step_inv)
qed simp

lemma run_rel:
  assumes "\<And>s e s'. inv s \<Longrightarrow> step e s = Some s' \<Longrightarrow> R s s'"
    and "\<And>s. R s s" and "\<And>a b c. R a b \<Longrightarrow> R b c \<Longrightarrow> R a c"
    and "inv s" and "run_steps step es s = Some s'"
  shows "R s s'"
  using assms(4,5)
proof (induction es arbitrary: s)
  case Nil
  then show ?case using assms(2) by simp
next
  case (Cons e es)
  then obtain t where t: "step e s = Some t" "run_steps step es t = Some s'"
    by (auto simp: bind_eq_Some_conv)
  with Cons.prems(1) have "inv t" by (blast intro: step_inv)
  from Cons.IH [OF this t(2)] assms(1) [OF Cons.prems(1) t(1)] show ?case
    using assms(3) by blast
qed

end

end
