(* ===== verification/RaftTypes.thy ===== *)
theory RaftTypes
  imports Prelude
begin

text \<open>
  The data of \<open>src/raft/raft.go\<close> and \<open>src/raft/persister.go\<close>: log entries, RPC arguments
  and replies, the messages sent to the service, the persister, and the state of one Raft
  peer. \<open>'c\<close> is the type of commands, \<open>'s\<close> the type of what a snapshot encodes.

  Bytes: \<open>persist\<close> hands the gob encoding of five fields to the persister, and
  \<open>readPersist\<close> decodes it. The model keeps the encoded tuple itself (\<open>RaftState\<close>) in
  place of its bytes, an empty byte slice being \<open>None\<close>; gob decoding returns what was
  encoded. The size in bytes is a parameter where a component reads it.

  Ghost fields of the peer: \<open>timerResets\<close> counts \<open>rf.timer.Stop(); rf.timer.Reset(..)\<close>,
  \<open>timeoutLoops\<close> counts \<open>go rf.HandleTimeout()\<close>, and \<open>applyCh\<close> lists the messages
  handed to the channel in the order they are sent.
\<close>

datatype ServerState = Follower | Candidate | Leader

record 'c LogEntry =
  le_Command :: "'c option" \<comment> \<open>\<open>nil\<close> for the placeholder entry\<close>
  le_Term :: int
  le_Index :: int

record ('c, 's) ApplyMsg =
  am_CommandValid :: bool
  am_Command :: "'c option"
  am_CommandIndex :: int
  am_CommandTerm :: int
  am_SnapshotValid :: bool
  am_SnapshotIndex :: int
  am_StateMachineState :: "'s option"

definition command_msg :: "'c option \<Rightarrow> int \<Rightarrow> int \<Rightarrow> ('c, 's) ApplyMsg" where
  "command_msg c i t = \<lparr>am_CommandValid = True, am_Command = c, am_CommandIndex = i,
     am_CommandTerm = t, am_SnapshotValid = False, am_SnapshotIndex = 0,
     am_StateMachineState = None\<rparr>"

definition snapshot_msg :: "int \<Rightarrow> 's option \<Rightarrow> ('c, 's) ApplyMsg" where
  "snapshot_msg i d = \<lparr>am_CommandValid = False, am_Command = None, am_CommandIndex = 0,
     am_CommandTerm = 0, am_SnapshotValid = True, am_SnapshotIndex = i,
     am_StateMachineState = d\<rparr>"

section \<open>The persister\<close>

record 'c RaftState =
  rs_currentTerm :: int
  rs_votedFor :: int
  rs_log :: "'c LogEntry list"
  rs_lastIncludedIndex :: int
  rs_lastIncludedTerm :: int

record ('c, 's) Persister =
  raftstate :: "'c RaftState option"
  snapshot :: "'s option"

definition MakePersister :: "('c, 's) Persister" where
  "MakePersister = \<lparr>raftstate = None, snapshot = None\<rparr>"

definition Persister_Copy :: "('c, 's) Persister \<Rightarrow> ('c, 's) Persister" where
  "Persister_Copy ps = MakePersister\<lparr>raftstate := raftstate ps, snapshot := snapshot ps\<rparr>"

definition SaveRaftState :: "'c RaftState option \<Rightarrow> ('c, 's) Persister \<Rightarrow> ('c, 's) Persister" where
  "SaveRaftState st ps = ps\<lparr>raftstate := st\<rparr>"

definition ReadRaftState :: "('c, 's) Persister \<Rightarrow> 'c RaftState option" where
  "ReadRaftState ps = raftstate ps"

definition RaftStateSize :: "('c RaftState option \<Rightarrow> int) \<Rightarrow> ('c, 's) Persister \<Rightarrow> int" where
  "RaftStateSize sz ps = sz (raftstate ps)"

definition SaveStateAndSnapshot ::
  "'c RaftState option \<Rightarrow> 's option \<Rightarrow> ('c, 's) Persister \<Rightarrow> ('c, 's) Persister" where
  "SaveStateAndSnapshot st snap ps = ps\<lparr>raftstate := st, snapshot := snap\<rparr>"

definition ReadSnapshot :: "('c, 's) Persister \<Rightarrow> 's option" where
  "ReadSnapshot ps = snapshot ps"

definition SnapshotSize :: "('s option \<Rightarrow> int) \<Rightarrow> ('c, 's) Persister \<Rightarrow> int" where
  "SnapshotSize sz ps = sz (snapshot ps)"

lemmas persister_defs [raft_defs] =
  MakePersister_def Persister_Copy_def SaveRaftState_def ReadRaftState_def RaftStateSize_def
  SaveStateAndSnapshot_def ReadSnapshot_def SnapshotSize_def

section \<open>RPC arguments and replies\<close>

record RequestVoteArgs =
  rv_Term :: int
  rv_CandidatedId :: int
  rv_LastLogIndex :: int
  rv_LastLogTerm :: int

record RequestVoteReply =
  rvr_Term :: int
  rvr_VoteGranted :: bool

record 'c AppendEntriesArgs =
  ae_Term :: int
  ae_LeaderId :: int
  ae_PreLogIndex :: int
  ae_PreLogTerm :: int
  ae_Entries :: "'c LogEntry list"
  ae_LeaderCommit :: int

record AppendEntriesReply =
  aer_Term :: int
  aer_Success :: bool
  aer_ConflictIndex :: int
  aer_ConflictTerm :: int

record 's InstallSnapshotArgs =
  is_Term :: int
  is_LeaderId :: int
  is_LastIncludedIndex :: int
  is_LastIncludedTerm :: int
  is_SnapshotData :: "'s option"

record InstallSnapshotReply =
  isr_Term :: int
  isr_Accept :: bool

text \<open>The zero values a caller (or \<open>labrpc\<close>) passes for the handler to fill in.\<close>

definition zero_rvr :: RequestVoteReply where
  "zero_rvr = \<lparr>rvr_Term = 0, rvr_VoteGranted = False\<rparr>"

definition zero_aer :: AppendEntriesReply where
  "zero_aer = \<lparr>aer_Term = 0, aer_Success = False, aer_ConflictIndex = 0, aer_ConflictTerm = 0\<rparr>"

definition zero_isr :: InstallSnapshotReply where
  "zero_isr = \<lparr>isr_Term = 0, isr_Accept = False\<rparr>"

lemmas zero_replies = zero_rvr_def zero_aer_def zero_isr_def

section \<open>The state of a peer\<close>

text \<open>
  The struct \<open>Raft\<close>. \<open>applyCh\<close> is the list of messages this incarnation of the peer has sent.
  The fields after it that the struct does not have hold the local state of its goroutines:
  \<open>recoverMsg\<close> and \<open>applierMsg\<close> the message that the goroutine of \<open>recoverFromSnap\<close> and the
  applier have in hand and still have to send, the two counters how often the timer was reset
  and how often the loop of timeouts was started.
\<close>

record ('c, 's) Raft =
  npeers :: nat \<comment> \<open>\<open>len(rf.peers)\<close>\<close>
  persister :: "('c, 's) Persister"
  me :: nat
  dead :: int
  currentTerm :: int
  votedFor :: int
  leaderId :: int
  log :: "'c LogEntry list"
  commitIndex :: int
  lastApplied :: int
  nextIndex :: "int list"
  matchIndex :: "int list"
  state :: ServerState
  ready :: bool
  applyCh :: "('c, 's) ApplyMsg list"
  recoverMsg :: "('c, 's) ApplyMsg option"
  applierMsg :: "('c, 's) ApplyMsg option"
  lastIncludedIndex :: int
  lastIncludedTerm :: int
  passiveSnapshotting :: bool
  activeSnapshotting :: bool
  timerResets :: nat
  timeoutLoops :: nat

definition resetTimer :: "('c, 's) Raft \<Rightarrow> ('c, 's) Raft" where
  "resetTimer rf = rf\<lparr>timerResets := Suc (timerResets rf)\<rparr>"

definition goHandleTimeout :: "('c, 's) Raft \<Rightarrow> ('c, 's) Raft" where
  "goHandleTimeout rf = rf\<lparr>timeoutLoops := Suc (timeoutLoops rf)\<rparr>"

definition sendApply :: "('c, 's) ApplyMsg \<Rightarrow> ('c, 's) Raft \<Rightarrow> ('c, 's) Raft" where
  "sendApply m rf = rf\<lparr>applyCh := applyCh rf @ [m]\<rparr>"

lemmas effect_defs = resetTimer_def goHandleTimeout_def sendApply_def

end
