(* ===== verification/RaftNode.thy ===== *)
theory RaftNode
  imports RaftTypes
begin

text \<open>
  The operations of one Raft peer, from \<open>src/raft/raft.go\<close>. A function of the source that
  holds \<open>rf.mu\<close> from its first to its last line is one definition; a function that
  releases the lock in the middle (to wait for an RPC or a channel) is one definition per
  critical section, named after the function with a suffix, because other handlers may run
  in between. Reading or writing a slice out of range makes the definition \<open>None\<close>.
\<close>

section \<open>Small accessors\<close>

definition GetState :: "('c, 's) Raft \<Rightarrow> int \<times> bool" where
  "GetState rf = (currentTerm rf, state rf = Leader)"

definition GetPassiveFlagAndSetActiveFlag :: "('c, 's) Raft \<Rightarrow> ('c, 's) Raft \<times> bool" where
  "GetPassiveFlagAndSetActiveFlag rf =
     (if \<not> passiveSnapshotting rf then rf\<lparr>activeSnapshotting := True\<rparr> else rf,
      passiveSnapshotting rf)"

definition SetPassiveSnapshottingFlag :: "bool \<Rightarrow> ('c, 's) Raft \<Rightarrow> ('c, 's) Raft" where
  "SetPassiveSnapshottingFlag flag rf = rf\<lparr>passiveSnapshotting := flag\<rparr>"

definition SetActiveSnapshottingFlag :: "bool \<Rightarrow> ('c, 's) Raft \<Rightarrow> ('c, 's) Raft" where
  "SetActiveSnapshottingFlag flag rf = rf\<lparr>activeSnapshotting := flag\<rparr>"

definition GetRaftStateSize :: "('c RaftState option \<Rightarrow> int) \<Rightarrow> ('c, 's) Raft \<Rightarrow> int" where
  "GetRaftStateSize sz rf = RaftStateSize sz (persister rf)"

definition CheckCurrentTermLog :: "('c, 's) Raft \<Rightarrow> bool option" where
  "CheckCurrentTermLog rf =
     do { latestLog \<leftarrow> last_elem (log rf); Some (currentTerm rf = le_Term latestLog) }"

definition Kill :: "('c, 's) Raft \<Rightarrow> ('c, 's) Raft" where
  "Kill rf = rf\<lparr>dead := 1\<rparr>"

definition killed :: "('c, 's) Raft \<Rightarrow> bool" where
  "killed rf \<longleftrightarrow> dead rf = 1"

definition max_int :: "int \<Rightarrow> int \<Rightarrow> int" where
  "max_int a b = (if a \<ge> b then a else b)"

definition min_int :: "int \<Rightarrow> int \<Rightarrow> int" where
  "min_int a b = (if a \<le> b then a else b)"

lemma max_int_max [simp]: "max_int a b = max a b" and min_int_min [simp]: "min_int a b = min a b"
  by (simp_all add: max_int_def min_int_def max_def min_def)

section \<open>Persistence\<close>

text \<open>The five fields \<open>persist\<close> encodes, in its order.\<close>

definition durable :: "('c, 's) Raft \<Rightarrow> 'c RaftState" where
  "durable rf = \<lparr>rs_currentTerm = currentTerm rf, rs_votedFor = votedFor rf, rs_log = log rf,
     rs_lastIncludedIndex = lastIncludedIndex rf, rs_lastIncludedTerm = lastIncludedTerm rf\<rparr>"

definition persist :: "('c, 's) Raft \<Rightarrow> ('c, 's) Raft" where
  "persist rf = rf\<lparr>persister := SaveRaftState (Some (durable rf)) (persister rf)\<rparr>"

definition readPersist :: "'c RaftState option \<Rightarrow> ('c, 's) Raft \<Rightarrow> ('c, 's) Raft" where
  "readPersist data rf =
     (case data of
        None \<Rightarrow> rf
      | Some d \<Rightarrow> rf\<lparr>currentTerm := rs_currentTerm d, votedFor := rs_votedFor d,
                     log := rs_log d, lastIncludedIndex := rs_lastIncludedIndex d,
                     lastIncludedTerm := rs_lastIncludedTerm d\<rparr>)"

definition recoverFromSnap :: "'s option \<Rightarrow> ('c, 's) Raft \<Rightarrow> ('c, 's) Raft" where
  "recoverFromSnap snap rf =
     (case snap of
        None \<Rightarrow> rf
      | Some _ \<Rightarrow>
          rf\<lparr>lastApplied := lastIncludedIndex rf, commitIndex := lastIncludedIndex rf,
             recoverMsg := Some (snapshot_msg (lastIncludedIndex rf) snap)\<rparr>)"

text \<open>The goroutine that \<open>recoverFromSnap\<close> starts sends the snapshot when it gets to run.\<close>

definition recover_send :: "('c, 's) Raft \<Rightarrow> ('c, 's) Raft option" where
  "recover_send rf =
     (case recoverMsg rf of None \<Rightarrow> None | Some m \<Rightarrow> Some ((sendApply m rf)\<lparr>recoverMsg := None\<rparr>))"

definition SaveStateAndSnapshot_rf :: "'s option \<Rightarrow> ('c, 's) Raft \<Rightarrow> ('c, 's) Raft" where
  \<comment> \<open>\<open>rf.persister.SaveStateAndSnapshot(rf.persister.ReadRaftState(), snapshot)\<close>\<close>
  "SaveStateAndSnapshot_rf snap rf =
     rf\<lparr>persister := SaveStateAndSnapshot (ReadRaftState (persister rf)) snap (persister rf)\<rparr>"

definition Make :: "nat \<Rightarrow> nat \<Rightarrow> ('c, 's) Persister \<Rightarrow> ('c, 's) Raft" where
  "Make peers i ps =
     (let rf = \<lparr>npeers = peers, persister = ps, me = i, dead = 0, currentTerm = 0,
           votedFor = -1, leaderId = -1,
           log = [\<lparr>le_Command = None, le_Term = -1, le_Index = 0\<rparr>],
           commitIndex = 0, lastApplied = 0, nextIndex = [], matchIndex = [],
           state = Follower, ready = False, applyCh = [], recoverMsg = None, applierMsg = None,
           lastIncludedIndex = 0, lastIncludedTerm = -1,
           passiveSnapshotting = False, activeSnapshotting = False,
           timerResets = 0, timeoutLoops = 0\<rparr>;
        rf = readPersist (ReadRaftState ps) rf;
        rf = recoverFromSnap (ReadSnapshot ps) rf;
        rf = persist rf
      in goHandleTimeout rf)"

section \<open>Elections, candidate side\<close>

definition Convert2Candidate :: "('c, 's) Raft \<Rightarrow> ('c, 's) Raft" where
  "Convert2Candidate rf =
     persist (rf\<lparr>state := Candidate, currentTerm := currentTerm rf + 1,
                 votedFor := int (me rf), leaderId := -1\<rparr>)"

text \<open>The critical section of \<open>Convert2Leader\<close>; the heartbeat loop it starts is \<open>heartbeat_tick\<close>.\<close>

definition Convert2Leader :: "('c, 's) Raft \<Rightarrow> ('c, 's) Raft option" where
  "Convert2Leader rf =
     do { l \<leftarrow> last_elem (log rf);
          Some (rf\<lparr>state := Leader, leaderId := int (me rf),
                   nextIndex := replicate (npeers rf) (le_Index l + 1),
                   matchIndex := replicate (npeers rf) 0\<rparr>) }"

datatype heartbeat_action = SendHeartbeats | StopHeartbeats

definition heartbeat_tick :: "('c, 's) Raft \<Rightarrow> ('c, 's) Raft \<times> heartbeat_action" where
  "heartbeat_tick rf =
     (if killed rf then (rf, StopHeartbeats)
      else if state rf = Leader then (rf, SendHeartbeats)
      else (goHandleTimeout (resetTimer rf), StopHeartbeats))"

text \<open>
  \<open>HandleTimeout\<close> reads the role in one critical section and, for a candidate, \<open>ready\<close> in a
  second one.
\<close>

datatype timeout_action = LoopReturns | LoopContinues | RunsForElection | ChecksReady

definition HandleTimeout_fire :: "('c, 's) Raft \<Rightarrow> ('c, 's) Raft \<times> timeout_action" where
  "HandleTimeout_fire rf =
     (if killed rf then (rf, LoopReturns)
      else case state rf of
             Follower \<Rightarrow> (resetTimer rf, RunsForElection)
           | Candidate \<Rightarrow> (resetTimer rf, ChecksReady)
           | Leader \<Rightarrow> (rf, LoopReturns))"

definition HandleTimeout_ready :: "('c, 's) Raft \<Rightarrow> ('c, 's) Raft \<times> timeout_action" where
  "HandleTimeout_ready rf =
     (if ready rf then (rf, RunsForElection) else (rf\<lparr>ready := True\<rparr>, LoopContinues))"

text \<open>
  \<open>RunForElection\<close>: after \<open>Convert2Candidate\<close> it takes the lock again to copy the term
  (\<open>RunForElection_copyTerm\<close>), then once per peer to test that it is still a candidate
  (\<open>RunForElection_stillCandidate\<close>), once in each goroutine to build the arguments
  (\<open>RunForElection_args\<close>) and once to look at the reply (\<open>RunForElection_reply\<close>).
\<close>

definition RunForElection_copyTerm :: "('c, 's) Raft \<Rightarrow> ('c, 's) Raft \<times> int" where
  "RunForElection_copyTerm rf = (rf\<lparr>ready := False\<rparr>, currentTerm rf)"

definition RunForElection_stillCandidate :: "('c, 's) Raft \<Rightarrow> bool" where
  "RunForElection_stillCandidate rf \<longleftrightarrow> \<not> killed rf \<and> state rf = Candidate"

definition RunForElection_args :: "int \<Rightarrow> ('c, 's) Raft \<Rightarrow> RequestVoteArgs option" where
  "RunForElection_args sameTerm rf =
     do { l \<leftarrow> last_elem (log rf);
          Some \<lparr>rv_Term = sameTerm, rv_CandidatedId = int (me rf),
                rv_LastLogIndex = le_Index l, rv_LastLogTerm = le_Term l\<rparr> }"

datatype vote_action = Dropped | SteppedDown | Counted bool

definition RunForElection_reply ::
  "RequestVoteArgs \<Rightarrow> RequestVoteReply \<Rightarrow> ('c, 's) Raft \<Rightarrow> ('c, 's) Raft \<times> vote_action" where
  "RunForElection_reply args reply rf =
     (if state rf \<noteq> Candidate \<or> currentTerm rf \<noteq> rv_Term args then (rf, Dropped)
      else if currentTerm rf < rvr_Term reply then
        (resetTimer (persist (rf\<lparr>votedFor := -1, state := Follower,
                                 currentTerm := rvr_Term reply\<rparr>)), SteppedDown)
      else (rf, Counted (rvr_VoteGranted reply)))"

definition majorityNum :: "nat \<Rightarrow> nat" where
  "majorityNum sumNum = sumNum div 2 + 1"

datatype election_action = KeepsWaiting | GivesUp | Wins | Loses

text \<open>
  The wait loop at the end of \<open>RunForElection\<close>: what it does when it evaluates its
  condition with these counters. \<open>still\<close> is \<open>None\<close> on the first evaluation and the value
  of \<open>stillCandidate\<close> read after a wake-up otherwise.
\<close>

definition RunForElection_wait :: "nat \<Rightarrow> nat \<Rightarrow> nat \<Rightarrow> bool option \<Rightarrow> election_action" where
  "RunForElection_wait sumNum votes finished still =
     (if still = Some False then GivesUp
      else if votes < majorityNum sumNum \<and> finished \<noteq> sumNum then KeepsWaiting
      else if votes \<ge> majorityNum sumNum then Wins
      else Loses)"

section \<open>RequestVote handler\<close>

definition RequestVote_adoptTerm :: "RequestVoteArgs \<Rightarrow> ('c, 's) Raft \<Rightarrow> ('c, 's) Raft" where
  "RequestVote_adoptTerm args rf =
     (if currentTerm rf < rv_Term args then
        persist (rf\<lparr>votedFor := -1, leaderId := -1, state := Follower,
                    currentTerm := rv_Term args\<rparr>)
      else rf)"

definition uptodate :: "RequestVoteArgs \<Rightarrow> 'c LogEntry \<Rightarrow> bool" where
  "uptodate args voterLastLog \<longleftrightarrow>
     rv_LastLogTerm args > le_Term voterLastLog \<or>
     rv_LastLogTerm args = le_Term voterLastLog \<and> rv_LastLogIndex args \<ge> le_Index voterLastLog"

definition RequestVote ::
  "RequestVoteArgs \<Rightarrow> ('c, 's) Raft \<Rightarrow> (('c, 's) Raft \<times> RequestVoteReply) option" where
  "RequestVote args rf =
     (if rv_Term args < currentTerm rf then
        Some (rf, zero_rvr\<lparr>rvr_VoteGranted := False, rvr_Term := currentTerm rf\<rparr>)
      else do {
        let rf = RequestVote_adoptTerm args rf;
        voterLastLog \<leftarrow> last_elem (log rf);
        if (votedFor rf = -1 \<or> votedFor rf = rv_CandidatedId args) \<and> uptodate args voterLastLog
        then do {
          let rf = resetTimer (persist (rf\<lparr>votedFor := rv_CandidatedId args, leaderId := -1\<rparr>));
          Some (rf, zero_rvr\<lparr>rvr_VoteGranted := True, rvr_Term := currentTerm rf\<rparr>) }
        else Some (rf, zero_rvr\<lparr>rvr_VoteGranted := False, rvr_Term := currentTerm rf\<rparr>) })"

section \<open>AppendEntries handler\<close>

text \<open>From the term check to the (re)start of the timeout loop.\<close>

definition AppendEntries_follow :: "int \<Rightarrow> int \<Rightarrow> ('c, 's) Raft \<Rightarrow> ('c, 's) Raft" where
  "AppendEntries_follow term leader rf =
     (let wasLeader = (state rf = Leader);
          rf = (if term > currentTerm rf then persist (rf\<lparr>votedFor := -1, currentTerm := term\<rparr>)
                else rf);
          rf = rf\<lparr>state := Follower, leaderId := leader\<rparr>;
          rf = resetTimer rf
      in if wasLeader then goHandleTimeout rf else rf)"

text \<open>
  The snapshot part: \<open>Inl\<close> is the early return for a segment that ends inside the
  snapshot, \<open>Inr\<close> the (possibly shortened) arguments.
\<close>

definition AppendEntries_trim ::
  "'c AppendEntriesArgs \<Rightarrow> ('c, 's) Raft \<Rightarrow> (unit + 'c AppendEntriesArgs) option" where
  "AppendEntries_trim args rf =
     (if ae_PreLogIndex args < lastIncludedIndex rf then
        if ae_Entries args = [] then Some (Inl ())
        else do {
          l \<leftarrow> last_elem (ae_Entries args);
          if le_Index l \<le> lastIncludedIndex rf then Some (Inl ())
          else do {
            es \<leftarrow> slice_from (ae_Entries args) (lastIncludedIndex rf - ae_PreLogIndex args);
            Some (Inr (args\<lparr>ae_Entries := es, ae_PreLogIndex := lastIncludedIndex rf,
                            ae_PreLogTerm := lastIncludedTerm rf\<rparr>)) } }
      else Some (Inr args))"

text \<open>The loop that looks for the first entry of the conflicting term, walking back from \<open>i\<close>.\<close>

function scanBack :: "'c LogEntry list \<Rightarrow> int \<Rightarrow> int \<Rightarrow> int option" where
  "scanBack lg t i =
     (if i \<ge> 0 then do { e \<leftarrow> idx lg i;
                         if le_Term e = t then scanBack lg t (i - 1) else Some i }
      else Some i)"
  by pat_completeness auto
termination
  by (relation "measure (\<lambda>(lg, t, i). nat (i + 1))") auto

declare scanBack.simps [simp del]

definition AppendEntries_conflict ::
  "'c AppendEntriesArgs \<Rightarrow> ('c, 's) Raft \<Rightarrow> AppendEntriesReply option" where
  "AppendEntries_conflict args rf =
     do { l \<leftarrow> last_elem (log rf);
          r \<leftarrow> (if le_Index l < ae_PreLogIndex args then
                  Some (zero_aer\<lparr>aer_ConflictIndex := le_Index l + 1, aer_ConflictTerm := -1\<rparr>)
                else do {
                  e \<leftarrow> idx (log rf) (ae_PreLogIndex args - lastIncludedIndex rf);
                  i \<leftarrow> scanBack (log rf) (le_Term e)
                         (ae_PreLogIndex args - 1 - lastIncludedIndex rf);
                  Some (zero_aer\<lparr>aer_ConflictTerm := le_Term e,
                                 aer_ConflictIndex := i + 1 + lastIncludedIndex rf\<rparr>) });
          Some (r\<lparr>aer_Success := False, aer_Term := currentTerm rf\<rparr>) }"

text \<open>
  The search for the first entry that the log does not have with the same term:
  \<open>misMatchIndex\<close>, or \<open>-1\<close>. \<open>i\<close> is the position in \<open>args.Entries\<close>.
\<close>

fun findMismatch ::
  "('c, 's) Raft \<Rightarrow> int \<Rightarrow> int \<Rightarrow> 'c LogEntry list \<Rightarrow> int option" where
  "findMismatch rf pre i [] = Some (-1)"
| "findMismatch rf pre i (entry # es) =
     do { l \<leftarrow> last_elem (log rf);
          if pre + 1 + i > le_Index l then Some (pre + 1 + i)
          else do {
            e \<leftarrow> idx (log rf) (pre - lastIncludedIndex rf + 1 + i);
            if le_Term e \<noteq> le_Term entry then Some (pre + 1 + i)
            else findMismatch rf pre (i + 1) es } }"

definition AppendEntries_repair ::
  "'c AppendEntriesArgs \<Rightarrow> ('c, 's) Raft \<Rightarrow> ('c, 's) Raft option" where
  "AppendEntries_repair args rf =
     do { misMatchIndex \<leftarrow> findMismatch rf (ae_PreLogIndex args) 0 (ae_Entries args);
          if misMatchIndex \<noteq> -1 then do {
            keep \<leftarrow> slice_to (log rf) (misMatchIndex - lastIncludedIndex rf);
            new \<leftarrow> slice_from (ae_Entries args) (misMatchIndex - ae_PreLogIndex args - 1);
            Some (rf\<lparr>log := keep @ new\<rparr>) }
          else Some rf }"

definition AppendEntries_commit ::
  "'c AppendEntriesArgs \<Rightarrow> ('c, 's) Raft \<Rightarrow> ('c, 's) Raft option" where
  "AppendEntries_commit args rf =
     (if ae_LeaderCommit args > commitIndex rf then do {
        l \<leftarrow> last_elem (log rf);
        Some (rf\<lparr>commitIndex := min_int (ae_LeaderCommit args) (le_Index l)\<rparr>) }
      else Some rf)"

definition AppendEntries_mismatch :: "'c AppendEntriesArgs \<Rightarrow> ('c, 's) Raft \<Rightarrow> bool option" where
  "AppendEntries_mismatch args rf =
     do { l \<leftarrow> last_elem (log rf);
          if le_Index l < ae_PreLogIndex args then Some True
          else do { e \<leftarrow> idx (log rf) (ae_PreLogIndex args - lastIncludedIndex rf);
                    Some (le_Term e \<noteq> ae_PreLogTerm args) } }"

definition AppendEntries ::
  "'c AppendEntriesArgs \<Rightarrow> ('c, 's) Raft \<Rightarrow> (('c, 's) Raft \<times> AppendEntriesReply) option" where
  "AppendEntries args rf =
     (if ae_Term args < currentTerm rf then
        Some (rf, zero_aer\<lparr>aer_Success := False, aer_Term := currentTerm rf\<rparr>)
      else do {
        let rf = AppendEntries_follow (ae_Term args) (ae_LeaderId args) rf;
        t \<leftarrow> AppendEntries_trim args rf;
        case t of
          Inl _ \<Rightarrow> Some (rf, zero_aer\<lparr>aer_Success := True, aer_Term := currentTerm rf\<rparr>)
        | Inr args \<Rightarrow> do {
            bad \<leftarrow> AppendEntries_mismatch args rf;
            if bad then do { reply \<leftarrow> AppendEntries_conflict args rf; Some (rf, reply) }
            else do {
              rf \<leftarrow> AppendEntries_repair args rf;
              rf \<leftarrow> AppendEntries_commit args (persist rf);
              Some (rf, zero_aer\<lparr>aer_Success := True, aer_Term := currentTerm rf\<rparr>) } } })"

section \<open>LeaderAppendEntries\<close>

definition LeaderAppendEntries_self :: "('c, 's) Raft \<Rightarrow> (('c, 's) Raft \<times> int) option" where
  "LeaderAppendEntries_self rf =
     do { l \<leftarrow> last_elem (log rf);
          ms \<leftarrow> update_at (matchIndex rf) (int (me rf)) (le_Index l);
          ns \<leftarrow> update_at (nextIndex rf) (int (me rf)) (le_Index l + 1);
          Some (rf\<lparr>matchIndex := ms, nextIndex := ns\<rparr>, currentTerm rf) }"

datatype ('c, 's) append_action =
  NothingSent | SnapshotInstead "'s option" | SendsAppend "'c AppendEntriesArgs"

definition LeaderAppendEntries_args ::
  "int \<Rightarrow> int \<Rightarrow> ('c, 's) Raft \<Rightarrow> ('c, 's) append_action option" where
  "LeaderAppendEntries_args i sameTerm rf =
     (if killed rf \<or> state rf \<noteq> Leader then Some NothingSent
      else do {
        nextIdx \<leftarrow> idx (nextIndex rf) i;
        if nextIdx \<le> lastIncludedIndex rf then
          Some (SnapshotInstead (ReadSnapshot (persister rf)))
        else do {
          l \<leftarrow> last_elem (log rf);
          appendLogs \<leftarrow> (if le_Index l \<ge> nextIdx
                          then slice_from (log rf) (nextIdx - lastIncludedIndex rf)
                          else Some []);
          preLog \<leftarrow> idx (log rf) (nextIdx - lastIncludedIndex rf - 1);
          Some (SendsAppend \<lparr>ae_Term = sameTerm, ae_LeaderId = int (me rf),
                  ae_PreLogIndex = le_Index preLog, ae_PreLogTerm = le_Term preLog,
                  ae_Entries = appendLogs, ae_LeaderCommit = commitIndex rf\<rparr>) } })"

text \<open>The search for the last entry of the conflicting term: \<open>k\<close> from the end down to 1.\<close>

fun findConflictTerm :: "'c LogEntry list \<Rightarrow> int \<Rightarrow> nat \<Rightarrow> nat option" where
  "findConflictTerm lg t 0 = None"
| "findConflictTerm lg t (Suc k) =
     (if le_Term (lg ! Suc k) = t then Some (Suc k) else findConflictTerm lg t k)"

definition LeaderAppendEntries_backtrack ::
  "int \<Rightarrow> AppendEntriesReply \<Rightarrow> ('c, 's) Raft \<Rightarrow> ('c, 's) Raft option" where
  "LeaderAppendEntries_backtrack i reply rf =
     do { possibleNextIdx \<leftarrow>
            (if aer_ConflictTerm reply = -1 then Some (aer_ConflictIndex reply)
             else case findConflictTerm (log rf) (aer_ConflictTerm reply) (length (log rf) - 1) of
                    Some k \<Rightarrow> do { e \<leftarrow> idx (log rf) (int k + 1); Some (le_Index e) }
                  | None \<Rightarrow> Some (aer_ConflictIndex reply));
          n \<leftarrow> idx (nextIndex rf) i;
          m \<leftarrow> idx (matchIndex rf) i;
          if possibleNextIdx < n \<and> possibleNextIdx > m then do {
            ns \<leftarrow> update_at (nextIndex rf) i possibleNextIdx;
            Some (rf\<lparr>nextIndex := ns\<rparr>) }
          else Some rf }"

text \<open>The commit rule: from \<open>maxN\<close> down, the first entry of the current term above \<open>commitIndex\<close>.\<close>

function advanceCommit :: "int \<Rightarrow> ('c, 's) Raft \<Rightarrow> ('c, 's) Raft option" where
  "advanceCommit n rf =
     (if n > commitIndex rf then do {
        e \<leftarrow> idx (log rf) (n - lastIncludedIndex rf);
        if le_Term e = currentTerm rf then Some (rf\<lparr>commitIndex := n\<rparr>)
        else advanceCommit (n - 1) rf }
      else Some rf)"
  by pat_completeness auto
termination
  by (relation "measure (\<lambda>(n, rf). nat (n - commitIndex rf))") auto

declare advanceCommit.simps [simp del]

definition recordMatch :: "int \<Rightarrow> int \<Rightarrow> ('c, 's) Raft \<Rightarrow> ('c, 's) Raft option" where
  "recordMatch i possibleMatchIdx rf =
     do { m \<leftarrow> idx (matchIndex rf) i;
          ms \<leftarrow> update_at (matchIndex rf) i (max_int possibleMatchIdx m);
          m' \<leftarrow> idx ms i;
          ns \<leftarrow> update_at (nextIndex rf) i (m' + 1);
          Some (rf\<lparr>matchIndex := ms, nextIndex := ns\<rparr>) }"

definition majorityMatch :: "('c, 's) Raft \<Rightarrow> int option" where
  \<comment> \<open>\<open>copy\<close> into a fresh slice of \<open>len(rf.peers)\<close> zeros, then sort it\<close>
  "majorityMatch rf =
     (let sortMatchIndex = sort (take (npeers rf) (matchIndex rf @ replicate (npeers rf) 0))
      in idx sortMatchIndex (int ((length sortMatchIndex - 1) div 2)))"

definition LeaderAppendEntries_success ::
  "int \<Rightarrow> 'c AppendEntriesArgs \<Rightarrow> ('c, 's) Raft \<Rightarrow> ('c, 's) Raft option" where
  "LeaderAppendEntries_success i args rf =
     do { rf \<leftarrow> recordMatch i (ae_PreLogIndex args + int (length (ae_Entries args))) rf;
          maxN \<leftarrow> majorityMatch rf;
          advanceCommit maxN rf }"

definition leaderStepDown :: "int \<Rightarrow> ('c, 's) Raft \<Rightarrow> ('c, 's) Raft" where
  "leaderStepDown term rf = persist (rf\<lparr>votedFor := -1, state := Follower, currentTerm := term\<rparr>)"

definition LeaderAppendEntries_reply ::
  "int \<Rightarrow> 'c AppendEntriesArgs \<Rightarrow> AppendEntriesReply \<Rightarrow> ('c, 's) Raft \<Rightarrow> ('c, 's) Raft option" where
  "LeaderAppendEntries_reply i args reply rf =
     (if state rf \<noteq> Leader \<or> currentTerm rf \<noteq> ae_Term args then Some rf
      else if currentTerm rf < aer_Term reply then Some (leaderStepDown (aer_Term reply) rf)
      else if \<not> aer_Success reply then LeaderAppendEntries_backtrack i reply rf
      else LeaderAppendEntries_success i args rf)"

section \<open>Snapshots\<close>

definition LeaderSendSnapshot_copyTerm :: "('c, 's) Raft \<Rightarrow> int" where
  "LeaderSendSnapshot_copyTerm rf = currentTerm rf"

definition LeaderSendSnapshot_args ::
  "int \<Rightarrow> 's option \<Rightarrow> ('c, 's) Raft \<Rightarrow> 's InstallSnapshotArgs option" where
  \<comment> \<open>\<open>None\<close>: the goroutine returns without sending\<close>
  "LeaderSendSnapshot_args sameTerm snap rf =
     (if killed rf \<or> state rf \<noteq> Leader then None
      else Some \<lparr>is_Term = sameTerm, is_LeaderId = int (me rf),
                 is_LastIncludedIndex = lastIncludedIndex rf,
                 is_LastIncludedTerm = lastIncludedTerm rf, is_SnapshotData = snap\<rparr>)"

definition LeaderSendSnapshot_reply ::
  "int \<Rightarrow> 's InstallSnapshotArgs \<Rightarrow> InstallSnapshotReply \<Rightarrow> ('c, 's) Raft \<Rightarrow> ('c, 's) Raft option" where
  "LeaderSendSnapshot_reply i args reply rf =
     (if state rf \<noteq> Leader \<or> currentTerm rf \<noteq> is_Term args then Some rf
      else if currentTerm rf < isr_Term reply then Some (leaderStepDown (isr_Term reply) rf)
      else if isr_Accept reply then recordMatch i (is_LastIncludedIndex args) rf
      else Some rf)"

definition placeholder :: "int \<Rightarrow> int \<Rightarrow> 'c LogEntry" where
  "placeholder term i = \<lparr>le_Command = None, le_Term = term, le_Index = i\<rparr>"

text \<open>The log and commit index after a snapshot is accepted.\<close>

definition CondInstallSnap_log ::
  "'s InstallSnapshotArgs \<Rightarrow> ('c, 's) Raft \<Rightarrow> ('c LogEntry list \<times> int) option" where
  "CondInstallSnap_log args rf =
     (let snapshotIndex = is_LastIncludedIndex args; snapshotTerm = is_LastIncludedTerm args
      in do {
        l \<leftarrow> last_elem (log rf);
        if snapshotIndex < le_Index l then do {
          e \<leftarrow> idx (log rf) (snapshotIndex - lastIncludedIndex rf);
          if le_Term e \<noteq> snapshotTerm then
            Some ([placeholder snapshotTerm snapshotIndex], snapshotIndex)
          else do {
            rest \<leftarrow> slice_from (log rf) (snapshotIndex - lastIncludedIndex rf + 1);
            Some (placeholder snapshotTerm snapshotIndex # rest,
                  max_int (commitIndex rf) snapshotIndex) } }
        else Some ([placeholder snapshotTerm snapshotIndex], snapshotIndex) })"

definition InstallSnapFromLeader :: "int \<Rightarrow> 's option \<Rightarrow> ('c, 's) Raft \<Rightarrow> ('c, 's) Raft" where
  "InstallSnapFromLeader snapshotIndex snap rf = sendApply (snapshot_msg snapshotIndex snap) rf"

definition CondInstallSnap ::
  "'s InstallSnapshotArgs \<Rightarrow> ('c, 's) Raft \<Rightarrow> (('c, 's) Raft \<times> InstallSnapshotReply) option" where
  "CondInstallSnap args rf =
     (if is_Term args < currentTerm rf \<or> activeSnapshotting rf then
        Some (rf, zero_isr\<lparr>isr_Term := currentTerm rf, isr_Accept := False\<rparr>)
      else do {
        let rf = AppendEntries_follow (is_Term args) (is_LeaderId args) rf;
        let reply = zero_isr\<lparr>isr_Term := currentTerm rf\<rparr>;
        if is_LastIncludedIndex args \<le> lastIncludedIndex rf then
          Some (rf, reply\<lparr>isr_Accept := False\<rparr>)
        else do {
          (newLog, newCommit) \<leftarrow> CondInstallSnap_log args rf;
          let rf = rf\<lparr>lastApplied := is_LastIncludedIndex args, commitIndex := newCommit,
                      lastIncludedIndex := is_LastIncludedIndex args,
                      lastIncludedTerm := is_LastIncludedTerm args,
                      log := newLog, passiveSnapshotting := True\<rparr>;
          let rf = SaveStateAndSnapshot_rf (is_SnapshotData args) (persist rf);
          let rf = InstallSnapFromLeader (is_LastIncludedIndex args) (is_SnapshotData args) rf;
          Some (rf, reply\<lparr>isr_Accept := True\<rparr>) } })"

text \<open>
  \<open>Snapshot\<close> up to \<open>rf.mu.Unlock()\<close>. The two writes to the persister are two steps of
  the source: \<open>Snapshot_trimmed\<close> is the state between them.
\<close>

definition Snapshot_trimmed :: "int \<Rightarrow> ('c, 's) Raft \<Rightarrow> ('c, 's) Raft option" where
  "Snapshot_trimmed index rf =
     do { e \<leftarrow> idx (log rf) (index - lastIncludedIndex rf);
          rest \<leftarrow> slice_from (log rf) (index - lastIncludedIndex rf + 1);
          let newLog = placeholder (le_Term e) index # rest;
          Some (persist (rf\<lparr>log := newLog, lastIncludedIndex := le_Index (hd newLog),
                            lastIncludedTerm := le_Term (hd newLog)\<rparr>)) }"

definition Snapshot :: "int \<Rightarrow> 's option \<Rightarrow> ('c, 's) Raft \<Rightarrow> ('c, 's) Raft option" where
  "Snapshot index snap rf =
     (if index \<le> lastIncludedIndex rf then Some rf
      else do { rf \<leftarrow> Snapshot_trimmed index rf; Some (SaveStateAndSnapshot_rf snap rf) })"

text \<open>The peers a leader then sends the snapshot to.\<close>

definition Snapshot_targets :: "int \<Rightarrow> ('c, 's) Raft \<Rightarrow> ('c, 's) Raft \<Rightarrow> nat list" where
  "Snapshot_targets index before after =
     (if index \<le> lastIncludedIndex before \<or> state after \<noteq> Leader then []
      else filter (\<lambda>i. i \<noteq> me after) [0..<npeers after])"

section \<open>Start and the applier\<close>

text \<open>
  \<open>Start\<close> reads the term and role in one critical section (\<open>GetState\<close>) and appends in a
  second one; \<open>Start_append\<close> is the second, given what the first returned. \<open>Start\<close> is the
  run in which nothing happens in between.
\<close>

definition Start_append ::
  "'c \<Rightarrow> int \<Rightarrow> bool \<Rightarrow> ('c, 's) Raft \<Rightarrow> (('c, 's) Raft \<times> int \<times> int \<times> bool) option" where
  "Start_append command term isLeader rf =
     do { l \<leftarrow> last_elem (log rf);
          let index = le_Index l + 1;
          if \<not> isLeader then Some (rf, index, term, False)
          else Some (persist (rf\<lparr>log := log rf @
                       [\<lparr>le_Command = Some command, le_Term = term, le_Index = index\<rparr>]\<rparr>),
                     index, term, True) }"

definition Start :: "'c \<Rightarrow> ('c, 's) Raft \<Rightarrow> (('c, 's) Raft \<times> int \<times> int \<times> bool) option" where
  "Start command rf = (case GetState rf of (term, isLeader) \<Rightarrow> Start_append command term isLeader rf)"

text \<open>
  A turn of the loop of \<open>applier\<close>: its critical section takes the next command, if there is
  one (\<open>True\<close>), and after it, without the lock, the message is sent; no other turn starts before.
\<close>

definition applier_turn :: "('c, 's) Raft \<Rightarrow> (('c, 's) Raft \<times> bool) option" where
  "applier_turn rf =
     (if applierMsg rf \<noteq> None then None
      else if lastApplied rf < commitIndex rf then
        let rf = rf\<lparr>lastApplied := lastApplied rf + 1\<rparr> in
        if lastApplied rf \<le> lastIncludedIndex rf then
          Some (rf\<lparr>lastApplied := lastIncludedIndex rf\<rparr>, False)
        else do {
          e \<leftarrow> idx (log rf) (lastApplied rf - lastIncludedIndex rf);
          Some (rf\<lparr>applierMsg := Some (command_msg (le_Command e) (lastApplied rf) (le_Term e))\<rparr>, True) }
      else Some (rf, False))"

definition applier_send :: "('c, 's) Raft \<Rightarrow> ('c, 's) Raft option" where
  "applier_send rf =
     (case applierMsg rf of None \<Rightarrow> None | Some m \<Rightarrow> Some ((sendApply m rf)\<lparr>applierMsg := None\<rparr>))"

end
