(* ===== verification/RaftLog.thy ===== *)
theory RaftLog
  imports RaftNode
begin

text \<open>
  The log of a peer: its well-formedness invariant, the reference description of what
  \<open>AppendEntries\<close> does to it (\<open>mergeLog\<close>), and the proof that the index arithmetic of the
  handlers never leaves the slice.
\<close>

section \<open>Well-formed peers\<close>

definition contiguous :: "int \<Rightarrow> 'c LogEntry list \<Rightarrow> bool" where
  "contiguous i es \<longleftrightarrow> (\<forall>k < length es. le_Index (es ! k) = i + int k)"

definition lastIndex :: "('c, 's) Raft \<Rightarrow> int" where
  "lastIndex rf = lastIncludedIndex rf + int (length (log rf)) - 1"

definition log_wf :: "('c, 's) Raft \<Rightarrow> bool" where
  "log_wf rf \<longleftrightarrow> log rf \<noteq> [] \<and> contiguous (lastIncludedIndex rf) (log rf) \<and>
     le_Term (hd (log rf)) = lastIncludedTerm rf \<and> 0 \<le> lastIncludedIndex rf"

definition raft_wf :: "('c, 's) Raft \<Rightarrow> bool" where
  "raft_wf rf \<longleftrightarrow> log_wf rf \<and>
     lastIncludedIndex rf \<le> lastApplied rf \<and> lastApplied rf \<le> commitIndex rf \<and>
     commitIndex rf \<le> lastIndex rf"

lemma contiguous_Nil [simp]: "contiguous i []"
  by (simp add: contiguous_def)

lemma contiguous_Cons [simp]: "contiguous i (e # es) \<longleftrightarrow> le_Index e = i \<and> contiguous (i + 1) es"
  unfolding contiguous_def by (auto simp: nth_Cons' less_Suc_eq_0_disj gr0_conv_Suc)

lemma contiguous_append [simp]:
  "contiguous i (xs @ ys) \<longleftrightarrow> contiguous i xs \<and> contiguous (i + int (length xs)) ys"
  by (induction xs arbitrary: i) (auto simp: add.assoc add.commute)

lemma contiguous_take [intro]: "contiguous i es \<Longrightarrow> contiguous i (take n es)"
  by (simp add: contiguous_def)

lemma contiguous_drop [intro]: "contiguous i es \<Longrightarrow> n \<le> length es \<Longrightarrow> contiguous (i + int n) (drop n es)"
  by (auto simp: contiguous_def)

lemma contiguous_last: "contiguous i es \<Longrightarrow> es \<noteq> [] \<Longrightarrow> le_Index (last es) = i + int (length es) - 1"
  by (simp add: contiguous_def last_conv_nth of_nat_diff Suc_leI)

lemma log_wf_last:
  "log_wf rf \<Longrightarrow> le_Index (last (log rf)) = lastIndex rf"
  by (simp add: log_wf_def lastIndex_def contiguous_last)

lemma log_wf_last_elem [simp]: "log_wf rf \<Longrightarrow> last_elem (log rf) = Some (last (log rf))"
  by (simp add: log_wf_def)

lemma log_wf_lii: "log_wf rf \<Longrightarrow> lastIncludedIndex rf \<le> lastIndex rf"
  by (cases "log rf") (auto simp: log_wf_def lastIndex_def)

lemma log_wf_length: "log_wf rf \<Longrightarrow> int (length (log rf)) = lastIndex rf - lastIncludedIndex rf + 1"
  by (simp add: lastIndex_def)

lemma raft_wf_log [simp, dest]: "raft_wf rf \<Longrightarrow> log_wf rf"
  by (simp add: raft_wf_def)

text \<open>Reading the entry with log index \<open>i\<close>, and that it is in range.\<close>

definition entry_at :: "('c, 's) Raft \<Rightarrow> int \<Rightarrow> 'c LogEntry" where
  "entry_at rf i = log rf ! nat (i - lastIncludedIndex rf)"

lemma idx_entry_at:
  "log_wf rf \<Longrightarrow> lastIncludedIndex rf \<le> i \<Longrightarrow> i \<le> lastIndex rf \<Longrightarrow>
     idx (log rf) (i - lastIncludedIndex rf) = Some (entry_at rf i)"
  by (simp add: idx_def entry_at_def lastIndex_def)

lemma entry_at_Index:
  "log_wf rf \<Longrightarrow> lastIncludedIndex rf \<le> i \<Longrightarrow> i \<le> lastIndex rf \<Longrightarrow> le_Index (entry_at rf i) = i"
  by (auto simp: log_wf_def contiguous_def entry_at_def lastIndex_def nat_less_iff)

lemma entry_at_lii: "log_wf rf \<Longrightarrow> le_Term (entry_at rf (lastIncludedIndex rf)) = lastIncludedTerm rf"
  by (simp add: log_wf_def entry_at_def flip: hd_conv_nth)

section \<open>Frame lemmas\<close>

text \<open>Which fields the effects and the follower transition leave alone.\<close>

lemma persist_frame [frame_simps, simp]:
  "log (persist rf) = log rf" "currentTerm (persist rf) = currentTerm rf"
  "votedFor (persist rf) = votedFor rf" "commitIndex (persist rf) = commitIndex rf"
  "lastApplied (persist rf) = lastApplied rf" "state (persist rf) = state rf"
  "lastIncludedIndex (persist rf) = lastIncludedIndex rf"
  "lastIncludedTerm (persist rf) = lastIncludedTerm rf" "me (persist rf) = me rf"
  "npeers (persist rf) = npeers rf" "applyCh (persist rf) = applyCh rf"
  "recoverMsg (persist rf) = recoverMsg rf" "applierMsg (persist rf) = applierMsg rf"
  "nextIndex (persist rf) = nextIndex rf" "matchIndex (persist rf) = matchIndex rf"
  "leaderId (persist rf) = leaderId rf" "timerResets (persist rf) = timerResets rf"
  "dead (persist rf) = dead rf" "timeoutLoops (persist rf) = timeoutLoops rf"
  by (simp_all add: persist_def)

lemma persist_persister [simp]:
  "persister (persist rf) = SaveRaftState (Some (durable rf)) (persister rf)"
  by (simp add: persist_def)

lemma durable_persist [simp]: "durable (persist rf) = durable rf"
  by (simp add: durable_def)

lemma follow_frame [frame_simps, simp]:
  "log (AppendEntries_follow t l rf) = log rf"
  "commitIndex (AppendEntries_follow t l rf) = commitIndex rf"
  "lastApplied (AppendEntries_follow t l rf) = lastApplied rf"
  "lastIncludedIndex (AppendEntries_follow t l rf) = lastIncludedIndex rf"
  "lastIncludedTerm (AppendEntries_follow t l rf) = lastIncludedTerm rf"
  "me (AppendEntries_follow t l rf) = me rf" "npeers (AppendEntries_follow t l rf) = npeers rf"
  "state (AppendEntries_follow t l rf) = Follower"
  "leaderId (AppendEntries_follow t l rf) = l"
  "applyCh (AppendEntries_follow t l rf) = applyCh rf"
  "recoverMsg (AppendEntries_follow t l rf) = recoverMsg rf"
  "applierMsg (AppendEntries_follow t l rf) = applierMsg rf"
  by (simp_all add: AppendEntries_follow_def Let_def effect_defs)

lemma follow_term: "currentTerm (AppendEntries_follow t l rf) = max t (currentTerm rf)"
  by (simp add: AppendEntries_follow_def Let_def effect_defs max_def)

lemma follow_vote:
  "votedFor (AppendEntries_follow t l rf) = (if currentTerm rf < t then -1 else votedFor rf)"
  by (simp add: AppendEntries_follow_def Let_def effect_defs)

lemma log_wf_cong:
  "log rf' = log rf \<Longrightarrow> lastIncludedIndex rf' = lastIncludedIndex rf \<Longrightarrow>
   lastIncludedTerm rf' = lastIncludedTerm rf \<Longrightarrow> log_wf rf' = log_wf rf"
  by (simp add: log_wf_def)

lemma lastIndex_cong:
  "log rf' = log rf \<Longrightarrow> lastIncludedIndex rf' = lastIncludedIndex rf \<Longrightarrow> lastIndex rf' = lastIndex rf"
  by (simp add: lastIndex_def)

lemma raft_wf_cong:
  "log rf' = log rf \<Longrightarrow> lastIncludedIndex rf' = lastIncludedIndex rf \<Longrightarrow>
   lastIncludedTerm rf' = lastIncludedTerm rf \<Longrightarrow> lastApplied rf' = lastApplied rf \<Longrightarrow>
   commitIndex rf' = commitIndex rf \<Longrightarrow> raft_wf rf' = raft_wf rf"
  by (simp add: raft_wf_def log_wf_def lastIndex_def)

lemma raft_wf_persist [simp]: "raft_wf (persist rf) = raft_wf rf"
  by (rule raft_wf_cong) simp_all

lemma raft_wf_follow [simp]: "raft_wf (AppendEntries_follow t l rf) = raft_wf rf"
  by (rule raft_wf_cong) simp_all

lemma log_wf_follow [simp]: "log_wf (AppendEntries_follow t l rf) = log_wf rf"
  by (rule log_wf_cong) simp_all

lemma lastIndex_follow [simp]: "lastIndex (AppendEntries_follow t l rf) = lastIndex rf"
  by (rule lastIndex_cong) simp_all

section \<open>What AppendEntries does to the log\<close>

text \<open>
  Reference: \<open>xs\<close> is the part of the log after \<open>PreLogIndex\<close>, \<open>es\<close> the entries sent. Keep
  what agrees, and from the first disagreement (or the end of the log) on take the sender's.
\<close>

fun mergeLog :: "'c LogEntry list \<Rightarrow> 'c LogEntry list \<Rightarrow> 'c LogEntry list" where
  "mergeLog xs [] = xs"
| "mergeLog [] (e # es) = e # es"
| "mergeLog (x # xs) (e # es) =
     (if le_Term x \<noteq> le_Term e then e # es else x # mergeLog xs es)"

fun firstDiff :: "'c LogEntry list \<Rightarrow> 'c LogEntry list \<Rightarrow> nat option" where
  "firstDiff xs [] = None"
| "firstDiff [] (e # es) = Some 0"
| "firstDiff (x # xs) (e # es) =
     (if le_Term x \<noteq> le_Term e then Some 0 else map_option Suc (firstDiff xs es))"

lemma mergeLog_firstDiff:
  "mergeLog xs es = (case firstDiff xs es of None \<Rightarrow> xs | Some j \<Rightarrow> take j xs @ drop j es)"
  by (induction xs es rule: mergeLog.induct) (auto split: option.splits)

lemma firstDiff_bounds: "firstDiff xs es = Some j \<Longrightarrow> j < length es \<and> j \<le> length xs"
  by (induction xs es arbitrary: j rule: firstDiff.induct) (auto split: if_splits)

lemma findMismatch_firstDiff:
  assumes "log_wf rf" and "log rf = ps @ xs"
    and "int (length ps) = pre - lastIncludedIndex rf + 1 + i" and "ps \<noteq> []"
  shows "findMismatch rf pre i es =
           Some (case firstDiff xs es of None \<Rightarrow> -1 | Some j \<Rightarrow> pre + 1 + i + int j)"
  using assms
proof (induction es arbitrary: ps xs i)
  case Nil
  then show ?case by simp
next
  case (Cons e es)
  have last: "le_Index (last (log rf)) = pre + i + int (length xs)"
    unfolding log_wf_last [OF Cons.prems(1)] lastIndex_def using Cons.prems(2,3) by simp
  show ?case
  proof (cases xs)
    case Nil
    with Cons.prems(1) last show ?thesis by simp
  next
    case (Cons x xs')
    have len: "pre - lastIncludedIndex rf + 1 + i = int (length ps)"
      using Cons.prems by simp
    have here: "idx (log rf) (pre - lastIncludedIndex rf + 1 + i) = Some x"
      unfolding len using Cons.prems(2) Cons by (simp add: idx_def)
    have "findMismatch rf pre (i + 1) es =
        Some (case firstDiff xs' es of None \<Rightarrow> -1 | Some j \<Rightarrow> pre + 1 + (i + 1) + int j)"
      using Cons.prems Cons by (intro Cons.IH [of "ps @ [x]"]) auto
    with here last Cons.prems(1) Cons show ?thesis
      by (auto split: option.splits)
  qed
qed

definition ae_wf :: "'c AppendEntriesArgs \<Rightarrow> bool" where
  "ae_wf args \<longleftrightarrow> 0 \<le> ae_PreLogIndex args \<and> contiguous (ae_PreLogIndex args + 1) (ae_Entries args)"

text \<open>The optimised search and repair compute the reference merge.\<close>

lemma repair_mergeLog:
  assumes wf: "log_wf rf"
    and lo: "lastIncludedIndex rf \<le> ae_PreLogIndex args" and hi: "ae_PreLogIndex args \<le> lastIndex rf"
  defines "k \<equiv> nat (ae_PreLogIndex args - lastIncludedIndex rf) + 1"
  shows "AppendEntries_repair args rf =
     Some (rf\<lparr>log := take k (log rf) @ mergeLog (drop k (log rf)) (ae_Entries args)\<rparr>)"
proof -
  let ?pre = "ae_PreLogIndex args" and ?lii = "lastIncludedIndex rf"
  have k: "k \<le> length (log rf)" "0 < k" "int k = ?pre - ?lii + 1"
    using lo hi by (auto simp: k_def lastIndex_def)
  have find: "findMismatch rf ?pre 0 (ae_Entries args) =
      Some (case firstDiff (drop k (log rf)) (ae_Entries args) of None \<Rightarrow> -1
            | Some j \<Rightarrow> ?pre + 1 + 0 + int j)"
    using wf k by (intro findMismatch_firstDiff [of _ "take k (log rf)"]) auto
  show ?thesis
  proof (cases "firstDiff (drop k (log rf)) (ae_Entries args)")
    case None
    with find show ?thesis by (simp add: AppendEntries_repair_def mergeLog_firstDiff)
  next
    case (Some j)
    have j: "j < length (ae_Entries args)" "j \<le> length (drop k (log rf))"
      using firstDiff_bounds [OF Some] by auto
    have pre0: "0 \<le> ?pre" using wf lo by (simp add: log_wf_def)
    have eq: "?pre + 1 + int j - ?lii = int (k + j)" using k by simp
    have "slice_to (log rf) (?pre + 1 + int j - ?lii) = Some (take (k + j) (log rf))"
      unfolding eq using j k(1) by (intro slice_of_nat) simp
    moreover have "slice_from (ae_Entries args) (?pre + 1 + int j - ?pre - 1) =
        Some (drop j (ae_Entries args))"
      using j by (subst slice_from_in) auto
    ultimately show ?thesis
      using find Some pre0 by (simp add: AppendEntries_repair_def mergeLog_firstDiff take_add)
  qed
qed

lemma contiguous_mergeLog:
  "contiguous i xs \<Longrightarrow> contiguous i es \<Longrightarrow> contiguous i (mergeLog xs es)"
  by (induction xs es arbitrary: i rule: mergeLog.induct) auto

lemma length_mergeLog: "length es \<le> length (mergeLog xs es)"
  by (induction xs es rule: mergeLog.induct) auto

lemma mergeLog_terms:
  "k < length es \<Longrightarrow> le_Term (mergeLog xs es ! k) = le_Term (es ! k)"
  by (induction xs es arbitrary: k rule: mergeLog.induct) (auto simp: nth_Cons')

text \<open>Entry by entry: the old one as long as the terms have been those sent, then the new one.\<close>

lemma all_le_Suc: "(\<forall>m \<le> Suc n. P m) \<longleftrightarrow> P 0 \<and> (\<forall>m \<le> n. P (Suc m))"
proof (intro iffI allI impI)
  fix m assume "P 0 \<and> (\<forall>m \<le> n. P (Suc m))" and "m \<le> Suc n"
  then show "P m" by (cases m) auto
qed auto

lemma mergeLog_nth:
  "k < length es \<Longrightarrow> mergeLog xs es ! k =
     (if k < length xs \<and> (\<forall>m \<le> k. le_Term (xs ! m) = le_Term (es ! m)) then xs ! k else es ! k)"
proof (induction xs es arbitrary: k rule: mergeLog.induct)
  case (3 x xs e es)
  show ?case
  proof (cases k)
    case 0
    then show ?thesis by simp
  next
    case (Suc n)
    have all: "(\<forall>m \<le> k. le_Term ((x # xs) ! m) = le_Term ((e # es) ! m)) \<longleftrightarrow>
        le_Term x = le_Term e \<and> (\<forall>m \<le> n. le_Term (xs ! m) = le_Term (es ! m))"
      using all_le_Suc [of n "\<lambda>m. le_Term ((x # xs) ! m) = le_Term ((e # es) ! m)"]
      unfolding Suc by simp
    show ?thesis
    proof (cases "le_Term x = le_Term e")
      case True
      moreover have "n < length es" using "3.prems" Suc by simp
      moreover have "mergeLog (x # xs) (e # es) ! k = mergeLog xs es ! n" using True Suc by simp
      ultimately show ?thesis
        unfolding all using "3.IH" [of n] by (simp only: Suc list.size nth_Cons_Suc simp_thms not_True_eq_False) simp
    next
      case False
      then show ?thesis unfolding all by simp
    qed
  qed
qed auto

lemma mergeLog_idem: "mergeLog (mergeLog xs es) es = mergeLog xs es"
proof -
  have same: "mergeLog es es = es" for es :: "'a LogEntry list"
    by (induction es) auto
  show ?thesis by (induction xs es rule: mergeLog.induct) (auto simp: same)
qed

lemma mergeLog_prefix: "mergeLog xs (take n es) = xs \<Longrightarrow> n \<le> length es \<Longrightarrow> n \<le> length xs \<Longrightarrow>
    take n (mergeLog xs es) = take n xs"
proof (induction xs es arbitrary: n rule: mergeLog.induct)
  case (3 x xs e es)
  then show ?case by (cases n) (auto split: if_splits)
qed auto

text \<open>Terms that agree are not truncated: what is kept when the first \<open>n\<close> entries agree.\<close>

lemma mergeLog_agree:
  assumes "\<And>j. j < n \<Longrightarrow> j < length es \<Longrightarrow> le_Term (xs ! j) = le_Term (es ! j)"
    and "n \<le> length xs"
  shows "take n (mergeLog xs es) = take n xs \<and> n \<le> length (mergeLog xs es)"
  using assms
proof (induction xs es arbitrary: n rule: mergeLog.induct)
  case (3 x xs e es)
  show ?case
  proof (cases n)
    case (Suc m)
    from "3.prems"(1) [of 0] Suc have "le_Term x = le_Term e" by simp
    moreover have "take m (mergeLog xs es) = take m xs \<and> m \<le> length (mergeLog xs es)"
      using "3.prems" Suc calculation by (intro "3.IH") (auto, force)
    ultimately show ?thesis using Suc by simp
  qed simp
qed auto

end
