(* ===== verification/RaftReplication.thy ===== *)
theory RaftReplication
  imports RaftLog
begin

text \<open>
  Log replication: the four outcomes of the \<open>AppendEntries\<close> handler, what the follower's
  log is afterwards, the conflict hints, the leader's reaction to replies and the commit rule.
\<close>

section \<open>Outcomes of AppendEntries\<close>

text \<open>
  Where the comparison starts (entries inside the snapshot are cut off) and which entries
  are left to compare.
\<close>

definition ae_start :: "'c AppendEntriesArgs \<Rightarrow> ('c, 's) Raft \<Rightarrow> int" where
  "ae_start args rf = max (ae_PreLogIndex args) (lastIncludedIndex rf)"

definition ae_tail :: "'c AppendEntriesArgs \<Rightarrow> ('c, 's) Raft \<Rightarrow> 'c LogEntry list" where
  "ae_tail args rf = drop (nat (lastIncludedIndex rf - ae_PreLogIndex args)) (ae_Entries args)"

definition ae_covered :: "'c AppendEntriesArgs \<Rightarrow> ('c, 's) Raft \<Rightarrow> bool" where
  \<comment> \<open>everything sent is already inside the receiver's snapshot\<close>
  "ae_covered args rf \<longleftrightarrow> ae_PreLogIndex args < lastIncludedIndex rf \<and>
     ae_PreLogIndex args + int (length (ae_Entries args)) \<le> lastIncludedIndex rf"

definition ae_matches :: "'c AppendEntriesArgs \<Rightarrow> ('c, 's) Raft \<Rightarrow> bool" where
  \<comment> \<open>the consistency check, for a message that is not covered\<close>
  "ae_matches args rf \<longleftrightarrow> ae_PreLogIndex args < lastIncludedIndex rf \<or>
     ae_PreLogIndex args \<le> lastIndex rf \<and>
     le_Term (entry_at rf (ae_PreLogIndex args)) = ae_PreLogTerm args"

definition ae_newLog :: "'c AppendEntriesArgs \<Rightarrow> ('c, 's) Raft \<Rightarrow> 'c LogEntry list" where
  "ae_newLog args rf =
     (let k = nat (ae_start args rf - lastIncludedIndex rf) + 1
      in take k (log rf) @ mergeLog (drop k (log rf)) (ae_tail args rf))"

definition ae_newCommit :: "'c AppendEntriesArgs \<Rightarrow> ('c, 's) Raft \<Rightarrow> int" where
  "ae_newCommit args rf =
     (if ae_LeaderCommit args > commitIndex rf
      then min (ae_LeaderCommit args)
             (lastIncludedIndex rf + int (length (ae_newLog args rf)) - 1)
      else commitIndex rf)"

text \<open>The state an accepted message leads to.\<close>

definition ae_accepted :: "'c AppendEntriesArgs \<Rightarrow> ('c, 's) Raft \<Rightarrow> ('c, 's) Raft" where
  "ae_accepted args rf =
     (persist (AppendEntries_follow (ae_Term args) (ae_LeaderId args) rf
        \<lparr>log := ae_newLog args rf\<rparr>))\<lparr>commitIndex := ae_newCommit args rf\<rparr>"

lemma ae_start_tail_cong:
  "lastIncludedIndex rf' = lastIncludedIndex rf \<Longrightarrow>
     ae_start args rf' = ae_start args rf \<and> ae_tail args rf' = ae_tail args rf"
  by (simp add: ae_start_def ae_tail_def)

lemma trim_outcome:
  assumes "log_wf rf" and "ae_wf args"
  shows "AppendEntries_trim args rf =
     (if ae_covered args rf then Some (Inl ())
      else Some (Inr (if ae_PreLogIndex args < lastIncludedIndex rf
                      then args\<lparr>ae_Entries := ae_tail args rf, ae_PreLogIndex := ae_start args rf,
                                ae_PreLogTerm := lastIncludedTerm rf\<rparr>
                      else args)))"
proof (cases "ae_PreLogIndex args < lastIncludedIndex rf \<and> ae_Entries args \<noteq> []")
  case True
  then have last: "le_Index (last (ae_Entries args)) =
      ae_PreLogIndex args + int (length (ae_Entries args))"
    using assms(2) contiguous_last [of "ae_PreLogIndex args + 1" "ae_Entries args"]
    by (simp add: ae_wf_def)
  from True show ?thesis
    by (auto simp: AppendEntries_trim_def ae_covered_def last ae_start_def ae_tail_def
        slice_from_in not_le)
next
  case False
  then show ?thesis by (auto simp: AppendEntries_trim_def ae_covered_def)
qed

lemma ae_start_lo: "lastIncludedIndex rf \<le> ae_start args rf"
  by (simp add: ae_start_def)

lemma ae_tail_contiguous:
  assumes "ae_wf args" and "\<not> ae_covered args rf"
  shows "contiguous (ae_start args rf + 1) (ae_tail args rf)"
proof (cases "ae_PreLogIndex args < lastIncludedIndex rf")
  case True
  let ?n = "nat (lastIncludedIndex rf - ae_PreLogIndex args)"
  have "contiguous (ae_PreLogIndex args + 1 + int ?n) (drop ?n (ae_Entries args))"
    using assms True by (intro contiguous_drop) (auto simp: ae_wf_def ae_covered_def)
  with True show ?thesis by (simp add: ae_start_def ae_tail_def algebra_simps max_def)
next
  case False
  with assms show ?thesis by (simp add: ae_start_def ae_tail_def ae_wf_def max_def)
qed

lemma newLog_wf:
  assumes wf: "log_wf rf" and "ae_wf args" and "\<not> ae_covered args rf"
    and hi: "ae_start args rf \<le> lastIndex rf"
  shows "contiguous (lastIncludedIndex rf) (ae_newLog args rf) \<and> ae_newLog args rf \<noteq> [] \<and>
         hd (ae_newLog args rf) = hd (log rf) \<and>
         ae_start args rf + int (length (ae_tail args rf)) \<le>
           lastIncludedIndex rf + int (length (ae_newLog args rf)) - 1"
proof -
  define k where "k = nat (ae_start args rf - lastIncludedIndex rf) + 1"
  have k: "0 < k" "k \<le> length (log rf)" "lastIncludedIndex rf + int k = ae_start args rf + 1"
    using hi ae_start_lo [of rf args] by (auto simp: k_def lastIndex_def)
  have c: "contiguous (lastIncludedIndex rf) (log rf)" using wf by (simp add: log_wf_def)
  have new: "ae_newLog args rf = take k (log rf) @ mergeLog (drop k (log rf)) (ae_tail args rf)"
    by (simp add: ae_newLog_def k_def Let_def)
  have "contiguous (ae_start args rf + 1) (mergeLog (drop k (log rf)) (ae_tail args rf))"
    using contiguous_drop [OF c k(2)] ae_tail_contiguous [OF assms(2,3)] k(3)
    by (intro contiguous_mergeLog) simp_all
  then have "contiguous (lastIncludedIndex rf + int k)
      (mergeLog (drop k (log rf)) (ae_tail args rf))"
    using k(3) by simp
  then have "contiguous (lastIncludedIndex rf) (ae_newLog args rf)"
    using contiguous_take [OF c] k(2) by (simp add: new min_absorb2)
  moreover have "ae_newLog args rf \<noteq> [] \<and> hd (ae_newLog args rf) = hd (log rf)"
    using k by (cases "log rf") (auto simp: new take_Cons')
  moreover have "length (ae_newLog args rf) =
      k + length (mergeLog (drop k (log rf)) (ae_tail args rf))"
    using k by (simp add: new min_absorb2)
  ultimately show ?thesis
    using k(3) length_mergeLog [of "ae_tail args rf" "drop k (log rf)"] by simp
qed

lemma commit_outcome:
  assumes "log rf \<noteq> []" and "le_Index (last (log rf)) = l"
  shows "AppendEntries_commit args rf =
     Some (rf\<lparr>commitIndex := if ae_LeaderCommit args > commitIndex rf
                             then min (ae_LeaderCommit args) l else commitIndex rf\<rparr>)"
  using assms by (simp add: AppendEntries_commit_def)

lemma mismatch_outcome:
  assumes "log_wf rf" and "lastIncludedIndex rf \<le> ae_PreLogIndex args"
  shows "AppendEntries_mismatch args rf =
    Some (\<not> (ae_PreLogIndex args \<le> lastIndex rf \<and>
             le_Term (entry_at rf (ae_PreLogIndex args)) = ae_PreLogTerm args))"
  using assms by (auto simp: AppendEntries_mismatch_def log_wf_last idx_entry_at)

lemma accept_outcome:
  assumes wf: "log_wf rf" and ae: "ae_wf args" and "\<not> ae_covered args rf"
    and hi: "ae_start args rf \<le> lastIndex rf"
    and args': "ae_PreLogIndex args' = ae_start args rf" "ae_Entries args' = ae_tail args rf"
      "ae_LeaderCommit args' = ae_LeaderCommit args"
  shows "do { rf \<leftarrow> AppendEntries_repair args' rf; AppendEntries_commit args' (persist rf) } =
     Some ((persist (rf\<lparr>log := ae_newLog args rf\<rparr>))\<lparr>commitIndex := ae_newCommit args rf\<rparr>)"
proof -
  have rep: "AppendEntries_repair args' rf = Some (rf\<lparr>log := ae_newLog args rf\<rparr>)"
    using repair_mergeLog [OF wf, of args'] hi args' ae_start_lo [of rf args]
    by (simp add: ae_newLog_def Let_def)
  have new: "contiguous (lastIncludedIndex rf) (ae_newLog args rf)" "ae_newLog args rf \<noteq> []"
    using newLog_wf [OF wf ae assms(3) hi] by auto
  show ?thesis
    unfolding rep
    using commit_outcome [of "persist (rf\<lparr>log := ae_newLog args rf\<rparr>)" _ args']
      contiguous_last [OF new] new
    by (simp add: ae_newCommit_def args')
qed

lemma ae_covered_cong:
  "lastIncludedIndex rf' = lastIncludedIndex rf \<Longrightarrow> ae_covered args rf' = ae_covered args rf"
  by (simp add: ae_covered_def)

text \<open>The handler, branch by branch.\<close>

lemma AppendEntries_outcome:
  assumes wf: "log_wf rf" and ae: "ae_wf args"
  shows "AppendEntries args rf =
    (let f = AppendEntries_follow (ae_Term args) (ae_LeaderId args) rf in
     if ae_Term args < currentTerm rf then
       Some (rf, zero_aer\<lparr>aer_Success := False, aer_Term := currentTerm rf\<rparr>)
     else if ae_covered args rf then
       Some (f, zero_aer\<lparr>aer_Success := True, aer_Term := currentTerm f\<rparr>)
     else if ae_matches args rf then
       Some (ae_accepted args rf, zero_aer\<lparr>aer_Success := True, aer_Term := currentTerm f\<rparr>)
     else do { reply \<leftarrow> AppendEntries_conflict args f; Some (f, reply) })"
proof -
  define f where "f = AppendEntries_follow (ae_Term args) (ae_LeaderId args) rf"
  have ff: "log f = log rf" "lastIncludedIndex f = lastIncludedIndex rf"
    "lastIncludedTerm f = lastIncludedTerm rf" "commitIndex f = commitIndex rf"
    by (simp_all add: f_def)
  have wff: "log_wf f" using wf by (simp add: f_def)
  have same: "ae_start args f = ae_start args rf" "ae_tail args f = ae_tail args rf"
    "ae_covered args f = ae_covered args rf" "ae_newLog args f = ae_newLog args rf"
    "ae_newCommit args f = ae_newCommit args rf" "lastIndex f = lastIndex rf"
    "\<And>i. entry_at f i = entry_at rf i"
    by (simp_all add: ae_start_def ae_tail_def ae_covered_def ae_newLog_def ae_newCommit_def ff
        lastIndex_def entry_at_def)
  show ?thesis
  proof (cases "ae_Term args < currentTerm rf")
    case True
    then show ?thesis by (simp add: AppendEntries_def)
  next
    case False
    note fresh = this
    show ?thesis
    proof (cases "ae_covered args rf")
      case True
      with fresh show ?thesis
        using trim_outcome [OF wff ae] by (simp add: AppendEntries_def same Let_def flip: f_def)
    next
      case False
      define args' where "args' = (if ae_PreLogIndex args < lastIncludedIndex rf
        then args\<lparr>ae_Entries := ae_tail args rf, ae_PreLogIndex := ae_start args rf,
                  ae_PreLogTerm := lastIncludedTerm rf\<rparr> else args)"
      have trim: "AppendEntries_trim args f = Some (Inr args')"
        using trim_outcome [OF wff ae] False by (simp add: same args'_def ff)
      have args': "ae_PreLogIndex args' = ae_start args rf" "ae_Entries args' = ae_tail args rf"
        "ae_LeaderCommit args' = ae_LeaderCommit args"
        by (auto simp: args'_def ae_start_def ae_tail_def)
      have mm: "AppendEntries_mismatch args' f = Some (\<not> ae_matches args rf)"
        using mismatch_outcome [OF wff, of args'] wf entry_at_lii [OF wf] log_wf_lii [OF wf]
        by (auto simp: same ff args'_def ae_matches_def ae_start_def)
      show ?thesis
      proof (cases "ae_matches args rf")
        case True
        then have hi: "ae_start args f \<le> lastIndex f"
          using log_wf_lii [OF wf] by (auto simp: ae_matches_def same ff ae_start_def)
        have acc: "do { rf \<leftarrow> AppendEntries_repair args' f; AppendEntries_commit args' (persist rf) }
            = Some (ae_accepted args rf)"
          using accept_outcome [OF wff ae _ hi, of args'] False args'
          unfolding ae_accepted_def f_def [symmetric] by (simp add: same)
        have ct: "currentTerm (ae_accepted args rf) = currentTerm f"
          by (simp add: ae_accepted_def f_def)
        from acc ct show ?thesis
          using fresh False True trim mm
          by (auto simp: AppendEntries_def Let_def bind_eq_Some_conv simp flip: f_def)
      next
        case mis: False
        then have "args' = args" by (auto simp: args'_def ae_matches_def)
        with mis show ?thesis
          using fresh False trim mm by (simp add: AppendEntries_def Let_def flip: f_def)
      qed
    qed
  qed
qed


lemma accepted_fields [simp]:
  "log (ae_accepted args rf) = ae_newLog args rf"
  "lastIncludedIndex (ae_accepted args rf) = lastIncludedIndex rf"
  "lastIncludedTerm (ae_accepted args rf) = lastIncludedTerm rf"
  "commitIndex (ae_accepted args rf) = ae_newCommit args rf"
  "lastApplied (ae_accepted args rf) = lastApplied rf"
  "currentTerm (ae_accepted args rf) = max (ae_Term args) (currentTerm rf)"
  "state (ae_accepted args rf) = Follower"
  "votedFor (ae_accepted args rf) = (if currentTerm rf < ae_Term args then -1 else votedFor rf)"
  "npeers (ae_accepted args rf) = npeers rf" "me (ae_accepted args rf) = me rf"
  by (simp_all add: ae_accepted_def follow_term follow_vote)

lemma accepted_lastIndex:
  "lastIndex (ae_accepted args rf) = lastIncludedIndex rf + int (length (ae_newLog args rf)) - 1"
  by (simp add: lastIndex_def)

lemma matches_start: "log_wf rf \<Longrightarrow> ae_matches args rf \<Longrightarrow> ae_start args rf \<le> lastIndex rf"
  using log_wf_lii [of rf] by (auto simp: ae_matches_def ae_start_def)

lemma accepted_log_wf:
  assumes "log_wf rf" and "ae_wf args" and "\<not> ae_covered args rf" and "ae_matches args rf"
  shows "log_wf (ae_accepted args rf)"
  using newLog_wf [OF assms(1-3) matches_start [OF assms(1,4)]] assms(1)
  by (simp add: log_wf_def)

text \<open>Entries up to \<open>ae_start\<close>, and further as long as the terms agree, stay what they were.\<close>

lemma newLog_keeps:
  assumes wf: "log_wf rf" and hi: "ae_start args rf \<le> lastIndex rf"
    and agree: "\<And>j. j < length (ae_tail args rf) \<Longrightarrow> ae_start args rf + 1 + int j \<le> c \<Longrightarrow>
        le_Term (entry_at rf (ae_start args rf + 1 + int j)) = le_Term (ae_tail args rf ! j)"
    and c: "c \<le> lastIndex rf" and i: "lastIncludedIndex rf \<le> i" "i \<le> c"
  shows "ae_newLog args rf ! nat (i - lastIncludedIndex rf) = entry_at rf i \<and>
         i \<le> lastIncludedIndex rf + int (length (ae_newLog args rf)) - 1"
proof -
  define k where "k = nat (ae_start args rf - lastIncludedIndex rf) + 1"
  define n where "n = nat (c - ae_start args rf)"
  have k: "0 < k" "k \<le> length (log rf)" "int k = ae_start args rf - lastIncludedIndex rf + 1"
    using hi ae_start_lo [of rf args] by (auto simp: k_def lastIndex_def)
  have new: "ae_newLog args rf = take k (log rf) @ mergeLog (drop k (log rf)) (ae_tail args rf)"
    by (simp add: ae_newLog_def k_def Let_def)
  have n: "n \<le> length (drop k (log rf))"
    using k c by (auto simp: n_def lastIndex_def nat_le_iff of_nat_diff)
  have "le_Term (drop k (log rf) ! j) = le_Term (ae_tail args rf ! j)"
    if "j < n" "j < length (ae_tail args rf)" for j
  proof -
    from that have "ae_start args rf + 1 + int j \<le> c" by (simp add: n_def)
    moreover have "drop k (log rf) ! j = entry_at rf (ae_start args rf + 1 + int j)"
      using k n that by (simp add: entry_at_def nat_add_distrib flip: k_def)
        (metis (no_types, lifting) add.commute add_diff_eq diff_add_eq group_cancel.add1 k(3)
          nat_int of_nat_add)
    ultimately show ?thesis using agree [OF that(2)] by simp
  qed
  from mergeLog_agree [OF this n]
  have m: "take n (mergeLog (drop k (log rf)) (ae_tail args rf)) = take n (drop k (log rf))"
    "n \<le> length (mergeLog (drop k (log rf)) (ae_tail args rf))" by auto
  have "take (k + n) (ae_newLog args rf) = take (k + n) (log rf)"
    using k m by (simp add: new take_add min_absorb2)
  moreover have "nat (i - lastIncludedIndex rf) < k + n"
    using i k by (auto simp: n_def nat_less_iff)
  ultimately have "ae_newLog args rf ! nat (i - lastIncludedIndex rf) =
      log rf ! nat (i - lastIncludedIndex rf)"
    by (metis nth_take)
  moreover have "k + n \<le> length (ae_newLog args rf)"
    using k m by (simp add: new)
  ultimately show ?thesis
    using \<open>nat (i - lastIncludedIndex rf) < k + n\<close> i by (simp add: entry_at_def)
qed

text \<open>
  The sent entries end up in the log. An entry of the receiver stays if all those from the
  first sent one up to it have the terms that were sent; from the first that has not, or that is
  missing, the log has the entries that were sent.
\<close>

definition same_terms :: "'c AppendEntriesArgs \<Rightarrow> ('c, 's) Raft \<Rightarrow> int \<Rightarrow> bool" where
  "same_terms args rf i \<longleftrightarrow> i \<le> lastIndex rf \<and>
     (\<forall>k. ae_start args rf < k \<longrightarrow> k \<le> i \<longrightarrow>
        le_Term (entry_at rf k) = le_Term (ae_Entries args ! nat (k - ae_PreLogIndex args - 1)))"

lemma same_terms_tail:
  assumes "j < length (ae_tail args rf)"
  shows "same_terms args rf (ae_start args rf + 1 + int j) \<longleftrightarrow>
    ae_start args rf + 1 + int j \<le> lastIndex rf \<and>
    (\<forall>m \<le> j. le_Term (entry_at rf (ae_start args rf + 1 + int m)) = le_Term (ae_tail args rf ! m))"
proof -
  let ?s = "ae_start args rf" and ?d = "nat (lastIncludedIndex rf - ae_PreLogIndex args)"
  have entry: "ae_tail args rf ! m = ae_Entries args ! nat (?s + 1 + int m - ae_PreLogIndex args - 1)"
    if "m \<le> j" for m
  proof -
    have "nat (?s + 1 + int m - ae_PreLogIndex args - 1) = ?d + m"
      by (auto simp: ae_start_def max_def)
    with that assms show ?thesis by (simp add: ae_tail_def)
  qed
  have "(\<forall>k. ?s < k \<longrightarrow> k \<le> ?s + 1 + int j \<longrightarrow> P k) \<longleftrightarrow> (\<forall>m \<le> j. P (?s + 1 + int m))" for P
  proof (intro iffI allI impI)
    fix k assume P: "\<forall>m \<le> j. P (?s + 1 + int m)" and k: "?s < k" "k \<le> ?s + 1 + int j"
    from k(1) obtain m where m: "k = ?s + int (Suc m)" using zless_iff_Suc_zadd by blast
    with k(2) have "m \<le> j" by simp
    with P m show "P k" by (simp add: algebra_simps)
  qed auto
  then show ?thesis unfolding same_terms_def using entry by auto
qed

lemma newLog_has:
  assumes wf: "log_wf rf" and hi: "ae_start args rf \<le> lastIndex rf"
    and j: "j < length (ae_tail args rf)"
  defines "i \<equiv> ae_start args rf + 1 + int j"
  shows "ae_newLog args rf ! nat (i - lastIncludedIndex rf) =
    (if same_terms args rf i then entry_at rf i else ae_tail args rf ! j)"
proof -
  define k where "k = nat (ae_start args rf - lastIncludedIndex rf) + 1"
  have k: "k \<le> length (log rf)" "int k = ae_start args rf - lastIncludedIndex rf + 1"
    using hi ae_start_lo [of rf args] by (auto simp: k_def lastIndex_def)
  have new: "ae_newLog args rf = take k (log rf) @ mergeLog (drop k (log rf)) (ae_tail args rf)"
    by (simp add: ae_newLog_def k_def Let_def)
  have at: "nat (ae_start args rf + 1 + int m - lastIncludedIndex rf) = k + m" for m
    using k by linarith
  have drop: "drop k (log rf) ! m = entry_at rf (ae_start args rf + 1 + int m)" for m
    using k(1) by (simp add: entry_at_def at)
  have "j < length (drop k (log rf)) \<longleftrightarrow> ae_start args rf + 1 + int j \<le> lastIndex rf"
    using k by (auto simp: lastIndex_def)
  then have "mergeLog (drop k (log rf)) (ae_tail args rf) ! j =
      (if same_terms args rf i then entry_at rf i else ae_tail args rf ! j)"
    unfolding mergeLog_nth [OF j] drop i_def same_terms_tail [OF j] by simp
  moreover have "ae_newLog args rf ! nat (i - lastIncludedIndex rf) =
      mergeLog (drop k (log rf)) (ae_tail args rf) ! j"
    using k(1) by (simp add: new i_def at nth_append min_absorb2)
  ultimately show ?thesis by simp
qed

text \<open>
  What the protocol guarantees of a message: the entries it carries at or below the
  receiver's commit index have the terms of the committed entries.
\<close>

definition agrees_committed :: "'c AppendEntriesArgs \<Rightarrow> ('c, 's) Raft \<Rightarrow> bool" where
  "agrees_committed args rf \<longleftrightarrow>
     (\<forall>j < length (ae_Entries args). let i = ae_PreLogIndex args + 1 + int j in
        lastIncludedIndex rf < i \<and> i \<le> commitIndex rf \<longrightarrow>
        le_Term (entry_at rf i) = le_Term (ae_Entries args ! j))"

lemma agrees_committed_tail:
  assumes "agrees_committed args rf" and "j < length (ae_tail args rf)"
    and "ae_start args rf + 1 + int j \<le> commitIndex rf"
  shows "le_Term (entry_at rf (ae_start args rf + 1 + int j)) = le_Term (ae_tail args rf ! j)"
proof -
  define d where "d = nat (lastIncludedIndex rf - ae_PreLogIndex args)"
  have d: "ae_start args rf + 1 + int j = ae_PreLogIndex args + 1 + int (d + j)"
    by (auto simp: d_def ae_start_def max_def)
  moreover have "d + j < length (ae_Entries args)" "ae_tail args rf ! j = ae_Entries args ! (d + j)"
    using assms(2) by (auto simp: ae_tail_def d_def)
  moreover have "lastIncludedIndex rf < ae_start args rf + 1 + int j"
    using ae_start_lo [of rf args] by simp
  ultimately show ?thesis
    using assms(1) [unfolded agrees_committed_def Let_def, rule_format, of "d + j"] assms(3)
    by (simp add: algebra_simps)
qed

lemma accepted_raft_wf:
  assumes wf: "raft_wf rf" and ae: "ae_wf args" and "\<not> ae_covered args rf"
    and m: "ae_matches args rf" and agr: "agrees_committed args rf"
  shows "raft_wf (ae_accepted args rf) \<and> commitIndex rf \<le> commitIndex (ae_accepted args rf) \<and>
    (\<forall>i. lastIncludedIndex rf \<le> i \<longrightarrow> i \<le> commitIndex rf \<longrightarrow>
         entry_at (ae_accepted args rf) i = entry_at rf i)"
proof -
  have lw: "log_wf rf" using wf by simp
  note hi = matches_start [OF lw m]
  have c: "commitIndex rf \<le> lastIndex rf" "lastIncludedIndex rf \<le> commitIndex rf"
    using wf by (auto simp: raft_wf_def)
  note keeps = newLog_keeps [OF lw hi agrees_committed_tail [OF agr] c(1)]
  have "commitIndex rf \<le> lastIncludedIndex rf + int (length (ae_newLog args rf)) - 1"
    using keeps [of "commitIndex rf"] c by simp
  then have "commitIndex rf \<le> ae_newCommit args rf" and
    "ae_newCommit args rf \<le> lastIncludedIndex rf + int (length (ae_newLog args rf)) - 1"
    by (auto simp: ae_newCommit_def)
  with wf keeps accepted_log_wf [OF lw ae assms(3) m] show ?thesis
    by (auto simp: raft_wf_def accepted_lastIndex entry_at_def)
qed

section \<open>Conflict hints\<close>

lemma scanBack_spec:
  assumes "-1 \<le> i" and "i < int (length lg)"
  shows "\<exists>j. scanBack lg t i = Some j \<and> -1 \<le> j \<and> j \<le> i \<and>
     (\<forall>m. j < m \<and> m \<le> i \<longrightarrow> le_Term (lg ! nat m) = t) \<and> (0 \<le> j \<longrightarrow> le_Term (lg ! nat j) \<noteq> t)"
  using assms
proof (induction lg t i rule: scanBack.induct)
  case (1 lg t i)
  show ?case
  proof (cases "0 \<le> i \<and> le_Term (lg ! nat i) = t")
    case True
    then have "\<exists>j. scanBack lg t (i - 1) = Some j \<and> -1 \<le> j \<and> j \<le> i - 1 \<and>
        (\<forall>m. j < m \<and> m \<le> i - 1 \<longrightarrow> le_Term (lg ! nat m) = t) \<and>
        (0 \<le> j \<longrightarrow> le_Term (lg ! nat j) \<noteq> t)"
      using "1.prems" by (intro "1.IH" [of "lg ! nat i"]) (auto simp: idx_def)
    then obtain j where j: "scanBack lg t (i - 1) = Some j" "-1 \<le> j" "j \<le> i - 1"
      "\<forall>m. j < m \<and> m \<le> i - 1 \<longrightarrow> le_Term (lg ! nat m) = t"
      "0 \<le> j \<longrightarrow> le_Term (lg ! nat j) \<noteq> t" by blast
    have "scanBack lg t i = Some j"
      using True j(1) "1.prems" by (subst scanBack.simps) (simp add: idx_def)
    moreover have "le_Term (lg ! nat m) = t" if "j < m" "m \<le> i" for m
      using that True j(4) by (cases "m = i") auto
    ultimately show ?thesis using j by (intro exI [of _ j]) auto
  next
    case False
    with "1.prems" have "scanBack lg t i = Some i"
      by (subst scanBack.simps) (auto simp: idx_def)
    with False "1.prems" show ?thesis by (intro exI [of _ i]) auto
  qed
qed

text \<open>The reply to a message that fails the consistency check.\<close>

definition conflict_hint :: "'c AppendEntriesArgs \<Rightarrow> ('c, 's) Raft \<Rightarrow> AppendEntriesReply \<Rightarrow> bool" where
  "conflict_hint args rf r \<longleftrightarrow> \<not> aer_Success r \<and>
     (if lastIndex rf < ae_PreLogIndex args then
        aer_ConflictTerm r = -1 \<and> aer_ConflictIndex r = lastIndex rf + 1
      else aer_ConflictTerm r = le_Term (entry_at rf (ae_PreLogIndex args)) \<and>
        lastIncludedIndex rf \<le> aer_ConflictIndex r \<and> aer_ConflictIndex r \<le> ae_PreLogIndex args \<and>
        (\<forall>i. aer_ConflictIndex r \<le> i \<and> i \<le> ae_PreLogIndex args \<longrightarrow>
             le_Term (entry_at rf i) = aer_ConflictTerm r) \<and>
        (lastIncludedIndex rf < aer_ConflictIndex r \<longrightarrow>
           le_Term (entry_at rf (aer_ConflictIndex r - 1)) \<noteq> aer_ConflictTerm r))"

lemma conflict_outcome:
  assumes wf: "log_wf rf" and lo: "lastIncludedIndex rf \<le> ae_PreLogIndex args"
  shows "\<exists>r. AppendEntries_conflict args rf = Some r \<and> conflict_hint args rf r \<and>
             aer_Term r = currentTerm rf"
proof (cases "lastIndex rf < ae_PreLogIndex args")
  case True
  with wf show ?thesis
    by (simp add: AppendEntries_conflict_def log_wf_last conflict_hint_def zero_aer_def)
next
  case False
  let ?p = "ae_PreLogIndex args" and ?l = "lastIncludedIndex rf"
  define t where "t = le_Term (entry_at rf ?p)"
  have "-1 \<le> ?p - 1 - ?l" "?p - 1 - ?l < int (length (log rf))"
    using False lo by (auto simp: lastIndex_def)
  from scanBack_spec [OF this, of t] obtain j where
    j: "scanBack (log rf) t (?p - 1 - ?l) = Some j" "-1 \<le> j" "j \<le> ?p - 1 - ?l"
      "\<And>m. j < m \<Longrightarrow> m \<le> ?p - 1 - ?l \<Longrightarrow> le_Term (log rf ! nat m) = t"
      "0 \<le> j \<longrightarrow> le_Term (log rf ! nat j) \<noteq> t" by blast
  have run: "le_Term (entry_at rf i) = t" if "j + 1 + ?l \<le> i" "i \<le> ?p" for i
    using that j(4) [of "i - ?l"] by (cases "i = ?p") (auto simp: entry_at_def t_def)
  define r where "r = zero_aer\<lparr>aer_ConflictTerm := t,
      aer_ConflictIndex := j + 1 + ?l, aer_Success := False, aer_Term := currentTerm rf\<rparr>"
  have eq: "AppendEntries_conflict args rf = Some r"
    using wf False lo j(1)
    by (simp add: AppendEntries_conflict_def log_wf_last idx_entry_at r_def flip: t_def)
  have r: "aer_ConflictIndex r = j + 1 + ?l" "aer_ConflictTerm r = t" "\<not> aer_Success r"
    "aer_Term r = currentTerm rf"
    by (simp_all add: r_def)
  have "le_Term (entry_at rf (j + 1 + ?l - 1)) \<noteq> t" if "?l < j + 1 + ?l"
    using j(5) that by (simp add: entry_at_def)
  with False j(2,3) run have "conflict_hint args rf r"
    unfolding conflict_hint_def r t_def [symmetric] using r(3) by simp
  with eq r show ?thesis by simp
qed

lemma AppendEntries_rejects:
  assumes wf: "log_wf rf" and ae: "ae_wf args" and fresh: "currentTerm rf \<le> ae_Term args"
    and "\<not> ae_covered args rf" and mis: "\<not> ae_matches args rf"
  defines "f \<equiv> AppendEntries_follow (ae_Term args) (ae_LeaderId args) rf"
  shows "\<exists>r. AppendEntries args rf = Some (f, r) \<and> conflict_hint args rf r \<and>
             aer_Term r = currentTerm f"
proof -
  from mis have "lastIncludedIndex rf \<le> ae_PreLogIndex args" by (simp add: ae_matches_def)
  with wf have "\<exists>r. AppendEntries_conflict args f = Some r \<and> conflict_hint args f r \<and>
      aer_Term r = currentTerm f"
    by (intro conflict_outcome) (simp_all add: f_def)
  moreover have "conflict_hint args f = conflict_hint args rf"
    by (simp add: conflict_hint_def f_def entry_at_def fun_eq_iff)
  ultimately show ?thesis
    using AppendEntries_outcome [OF wf ae] fresh assms(4) mis by (auto simp: f_def)
qed

section \<open>Handling a message twice\<close>

lemma newLog_idem:
  assumes "log_wf rf" and "ae_start args rf \<le> lastIndex rf"
  shows "ae_newLog args (ae_accepted args rf) = ae_newLog args rf"
proof -
  define k where "k = nat (ae_start args rf - lastIncludedIndex rf) + 1"
  have k: "k \<le> length (log rf)"
    using assms(2) ae_start_lo [of rf args] by (auto simp: k_def lastIndex_def)
  define m where "m = mergeLog (drop k (log rf)) (ae_tail args rf)"
  have new: "ae_newLog args rf = take k (log rf) @ m"
    by (simp add: ae_newLog_def k_def Let_def m_def)
  have same: "ae_start args (ae_accepted args rf) = ae_start args rf"
    "ae_tail args (ae_accepted args rf) = ae_tail args rf"
    by (simp_all add: ae_start_def ae_tail_def)
  have "ae_newLog args (ae_accepted args rf) =
      take k (ae_newLog args rf) @ mergeLog (drop k (ae_newLog args rf)) (ae_tail args rf)"
    by (simp add: ae_newLog_def [of args "ae_accepted args rf"] same Let_def k_def)
  then show ?thesis using k by (simp add: new m_def mergeLog_idem)
qed

lemma newCommit_idem:
  assumes "log_wf rf" and "ae_start args rf \<le> lastIndex rf"
  shows "ae_newCommit args (ae_accepted args rf) = ae_newCommit args rf"
  using newLog_idem [OF assms] by (auto simp: ae_newCommit_def)

lemma matches_accepted:
  assumes wf: "log_wf rf" and m: "ae_matches args rf" and ae: "ae_wf args" and nc: "\<not> ae_covered args rf"
  shows "ae_matches args (ae_accepted args rf)"
proof (cases "ae_PreLogIndex args < lastIncludedIndex rf")
  case True
  then show ?thesis by (simp add: ae_matches_def)
next
  case False
  note hi = matches_start [OF wf m]
  have start: "ae_start args rf = ae_PreLogIndex args" using False by (simp add: ae_start_def)
  have "ae_newLog args rf ! nat (ae_PreLogIndex args - lastIncludedIndex rf) =
      entry_at rf (ae_PreLogIndex args) \<and>
      ae_PreLogIndex args \<le> lastIncludedIndex rf + int (length (ae_newLog args rf)) - 1"
    by (rule newLog_keeps [OF wf hi, of "ae_PreLogIndex args"]) (use start hi False in auto)
  with m False show ?thesis
    by (simp add: ae_matches_def accepted_lastIndex entry_at_def)
qed

text \<open>The sent entries, by their index in the log.\<close>

lemma accepted_has:
  assumes wf: "log_wf rf" and m: "ae_matches args rf" and j: "j < length (ae_Entries args)"
    and beyond: "lastIncludedIndex rf < ae_PreLogIndex args + 1 + int j"
    and ae: "ae_wf args" and nc: "\<not> ae_covered args rf"
  shows "entry_at (ae_accepted args rf) (ae_PreLogIndex args + 1 + int j) =
      (if same_terms args rf (ae_PreLogIndex args + 1 + int j)
       then entry_at rf (ae_PreLogIndex args + 1 + int j) else ae_Entries args ! j) \<and>
      ae_PreLogIndex args + 1 + int j \<le> lastIndex (ae_accepted args rf)"
proof -
  note hi = matches_start [OF wf m]
  define d where "d = nat (lastIncludedIndex rf - ae_PreLogIndex args)"
  have d: "d \<le> j" using beyond by (simp add: d_def nat_le_iff)
  define i where "i = j - d"
  have i: "i < length (ae_tail args rf)" "ae_tail args rf ! i = ae_Entries args ! j"
    using d j by (auto simp: ae_tail_def i_def d_def)
  have at: "ae_PreLogIndex args + 1 + int j = ae_start args rf + 1 + int i"
    using d by (auto simp: i_def d_def ae_start_def max_def of_nat_diff)
  show ?thesis
    using newLog_has [OF wf hi i(1)] newLog_wf [OF wf ae nc hi] i
    unfolding at by (simp add: entry_at_def accepted_lastIndex)
qed

lemma accepted_before:
  assumes wf: "log_wf rf" and m: "ae_matches args rf"
    and i: "lastIncludedIndex rf \<le> i" "i \<le> ae_PreLogIndex args"
  shows "entry_at (ae_accepted args rf) i = entry_at rf i"
proof -
  have "i \<le> ae_start args rf" using i(2) by (simp add: ae_start_def)
  then show ?thesis
    using newLog_keeps [OF wf matches_start [OF wf m], of "ae_start args rf" i] i(1)
      matches_start [OF wf m]
    by (simp add: entry_at_def)
qed

lemma AppendEntries_accepts:
  assumes wf: "raft_wf rf" and ae: "ae_wf args" and fresh: "currentTerm rf \<le> ae_Term args"
    and nc: "\<not> ae_covered args rf" and m: "ae_matches args rf"
  shows "\<exists>r. AppendEntries args rf = Some (ae_accepted args rf, r) \<and> aer_Success r \<and>
    aer_Term r = ae_Term args"
  using AppendEntries_outcome [of rf args] assms
  by (simp add: Let_def zero_aer_def follow_term max_def)

end
