(* ===== verification/RaftLeader.thy ===== *)
theory RaftLeader
  imports RaftReplication
begin

text \<open>
  The leader's side of replication: the bookkeeping in \<open>nextIndex\<close> and \<open>matchIndex\<close>, the
  commit rule, and a whole round trip (arguments built, handled by the follower, reply
  handled).
\<close>

section \<open>The leader's bookkeeping invariant\<close>

definition leader_wf :: "('c, 's) Raft \<Rightarrow> bool" where
  "leader_wf rf \<longleftrightarrow> raft_wf rf \<and> me rf < npeers rf \<and>
     length (nextIndex rf) = npeers rf \<and> length (matchIndex rf) = npeers rf \<and>
     (\<forall>i < npeers rf. 0 \<le> matchIndex rf ! i \<and> matchIndex rf ! i < nextIndex rf ! i \<and>
                      nextIndex rf ! i \<le> lastIndex rf + 1)"

lemma leader_wf_raft_wf [dest]: "leader_wf rf \<Longrightarrow> raft_wf rf"
  by (simp add: leader_wf_def)

lemma leader_wfD:
  "leader_wf rf \<Longrightarrow> i < npeers rf \<Longrightarrow> 0 \<le> matchIndex rf ! i \<and>
     matchIndex rf ! i < nextIndex rf ! i \<and> nextIndex rf ! i \<le> lastIndex rf + 1"
  by (simp add: leader_wf_def)

lemma leader_wf_update:
  assumes "leader_wf rf" and "i < npeers rf" and "0 \<le> m" and "m < n" and "n \<le> lastIndex rf + 1"
  shows "leader_wf (rf\<lparr>matchIndex := (matchIndex rf)[i := m], nextIndex := (nextIndex rf)[i := n]\<rparr>)"
  using assms unfolding leader_wf_def raft_wf_def log_wf_def lastIndex_def
  by (auto simp: nth_list_update)

lemma Convert2Leader_wf:
  assumes "raft_wf rf" and "me rf < npeers rf"
  shows "\<exists>rf'. Convert2Leader rf = Some rf' \<and> leader_wf rf' \<and> state rf' = Leader \<and>
           log rf' = log rf \<and> currentTerm rf' = currentTerm rf \<and> commitIndex rf' = commitIndex rf"
proof -
  have lw: "log_wf rf" using assms(1) by simp
  then have "0 \<le> lastIndex rf" using log_wf_lii [OF lw] by (simp add: log_wf_def)
  with assms lw show ?thesis
    by (auto simp: Convert2Leader_def log_wf_last leader_wf_def raft_wf_def log_wf_def lastIndex_def)
qed

section \<open>Arguments of an AppendEntries message\<close>

text \<open>A follower that is not behind the leader's snapshot is sent everything it may lack.\<close>

lemma args_outcome:
  assumes wf: "leader_wf rf" and i: "i < npeers rf"
    and alive: "\<not> killed rf" "state rf = Leader"
    and near: "lastIncludedIndex rf < nextIndex rf ! i"
  defines "n \<equiv> nextIndex rf ! i"
  shows "LeaderAppendEntries_args (int i) t rf =
    Some (SendsAppend \<lparr>ae_Term = t, ae_LeaderId = int (me rf), ae_PreLogIndex = n - 1,
      ae_PreLogTerm = le_Term (entry_at rf (n - 1)),
      ae_Entries = drop (nat (n - lastIncludedIndex rf)) (log rf),
      ae_LeaderCommit = commitIndex rf\<rparr>)"
proof -
  have lw: "log_wf rf" using wf by auto
  have n: "n \<le> lastIndex rf + 1" "lastIncludedIndex rf < n"
    using leader_wfD [OF wf i] near by (auto simp: n_def)
  have idxn: "idx (nextIndex rf) (int i) = Some n"
    using wf i by (simp add: n_def leader_wf_def)
  have slice: "slice_from (log rf) (n - lastIncludedIndex rf) =
      Some (drop (nat (n - lastIncludedIndex rf)) (log rf))"
    using n by (intro slice_from_in) (auto simp: lastIndex_def)
  have none: "drop (nat (n - lastIncludedIndex rf)) (log rf) = []" if "lastIndex rf < n"
    using that by (simp add: lastIndex_def)
  have pre: "idx (log rf) (n - lastIncludedIndex rf - 1) = Some (entry_at rf (n - 1))"
    using idx_entry_at [OF lw, of "n - 1"] n by (simp add: algebra_simps)
  show ?thesis
    using alive n lw none
    by (auto simp: LeaderAppendEntries_args_def idxn slice pre log_wf_last
        entry_at_Index [OF lw] not_le)
qed

lemma built_args_wf:
  assumes wf: "leader_wf rf" and i: "i < npeers rf" and near: "lastIncludedIndex rf < nextIndex rf ! i"
    and args: "LeaderAppendEntries_args (int i) t rf = Some (SendsAppend args)"
  shows "ae_wf args \<and> ae_PreLogIndex args + int (length (ae_Entries args)) = lastIndex rf \<and>
     ae_LeaderCommit args \<le> ae_PreLogIndex args + int (length (ae_Entries args)) \<and>
     ae_Term args = t"
proof -
  have alive: "\<not> killed rf" "state rf = Leader"
    using args by (auto simp: LeaderAppendEntries_args_def split: if_splits)
  have lw: "log_wf rf" and c: "commitIndex rf \<le> lastIndex rf"
    using wf by (auto simp: leader_wf_def raft_wf_def)
  define n where "n = nextIndex rf ! i"
  have n: "n \<le> lastIndex rf + 1" "lastIncludedIndex rf < n" "0 \<le> lastIncludedIndex rf"
    using leader_wfD [OF wf i] near lw by (auto simp: n_def log_wf_def)
  have "contiguous (lastIncludedIndex rf + int (nat (n - lastIncludedIndex rf)))
      (drop (nat (n - lastIncludedIndex rf)) (log rf))"
    using lw n by (intro contiguous_drop) (auto simp: log_wf_def lastIndex_def)
  then show ?thesis
    using args args_outcome [OF wf i alive near, of t] n c
    by (auto simp: ae_wf_def lastIndex_def simp flip: n_def)
qed

section \<open>Recording progress and the commit rule\<close>

lemma recordMatch_outcome:
  fixes p :: int
  assumes wf: "leader_wf rf" and i: "i < npeers rf"
  defines "m \<equiv> max p (matchIndex rf ! i)"
  shows "recordMatch (int i) p rf =
     Some (rf\<lparr>matchIndex := (matchIndex rf)[i := m], nextIndex := (nextIndex rf)[i := m + 1]\<rparr>)"
  using assms by (simp add: recordMatch_def leader_wf_def update_at_def idx_def)

lemma recordMatch_wf:
  assumes wf: "leader_wf rf" and i: "i < npeers rf" and p: "p \<le> lastIndex rf"
  shows "\<exists>rf'. recordMatch (int i) p rf = Some rf' \<and> leader_wf rf' \<and>
      (\<forall>j < npeers rf. matchIndex rf ! j \<le> matchIndex rf' ! j) \<and> p \<le> matchIndex rf' ! i \<and>
      log rf' = log rf \<and> lastIncludedIndex rf' = lastIncludedIndex rf \<and>
      commitIndex rf' = commitIndex rf \<and> currentTerm rf' = currentTerm rf \<and> npeers rf' = npeers rf"
proof -
  have len: "length (matchIndex rf) = npeers rf" using wf by (simp add: leader_wf_def)
  show ?thesis
    unfolding recordMatch_outcome [OF wf i]
    using leader_wf_update [OF wf i, of "max p (matchIndex rf ! i)" "max p (matchIndex rf ! i) + 1"]
      leader_wfD [OF wf i] p i len
    by (auto simp: nth_list_update)
qed

lemma card_filter_index:
  "card {j. j < length xs \<and> P (xs ! j)} = length (filter P xs)"
  by (simp add: length_filter_conv_card)

text \<open>At least \<open>n div 2 + 1\<close> elements of a list of length \<open>n\<close> reach the lower median.\<close>

lemma median_majority:
  fixes xs :: "int list"
  assumes "xs \<noteq> []"
  defines "v \<equiv> sort xs ! ((length xs - 1) div 2)"
  shows "length xs div 2 + 1 \<le> card {j. j < length xs \<and> v \<le> xs ! j}"
proof -
  let ?n = "length xs" and ?s = "sort xs"
  let ?k = "(?n - 1) div 2"
  have k: "?k < ?n" using assms(1) by (cases xs) auto
  have "{?k..<?n} \<subseteq> {j. j < length ?s \<and> v \<le> ?s ! j}"
    using k by (auto simp: v_def intro: sorted_nth_mono)
  then have "card {?k..<?n} \<le> card {j. j < length ?s \<and> v \<le> ?s ! j}"
    by (intro card_mono) auto
  also have "\<dots> = length (filter ((\<le>) v) ?s)"
    by (rule card_filter_index)
  also have "\<dots> = length (filter ((\<le>) v) xs)"
    by (metis mset_filter mset_sort size_mset)
  also have "\<dots> = card {j. j < length xs \<and> v \<le> xs ! j}"
    by (rule card_filter_index [symmetric])
  finally show ?thesis using assms(1) by (cases xs) auto
qed

lemma advanceCommit_spec:
  assumes "log_wf rf" and "lastIncludedIndex rf \<le> commitIndex rf" and "n \<le> lastIndex rf"
  shows "\<exists>c. advanceCommit n rf = Some (rf\<lparr>commitIndex := c\<rparr>) \<and>
     (c = commitIndex rf \<or> commitIndex rf < c \<and> c \<le> n \<and> le_Term (entry_at rf c) = currentTerm rf) \<and>
     (\<forall>m. c < m \<and> m \<le> n \<longrightarrow> le_Term (entry_at rf m) \<noteq> currentTerm rf)"
  using assms
proof (induction n rf rule: advanceCommit.induct)
  case (1 n rf)
  show ?case
  proof (cases "n > commitIndex rf")
    case True
    with "1.prems" have e: "idx (log rf) (n - lastIncludedIndex rf) = Some (entry_at rf n)"
      by (intro idx_entry_at) auto
    show ?thesis
    proof (cases "le_Term (entry_at rf n) = currentTerm rf")
      case True
      with \<open>n > commitIndex rf\<close> e show ?thesis
        by (subst advanceCommit.simps) (intro exI [of _ n], simp)
    next
      case False
      with "1.IH" [OF True e False] "1.prems" obtain c where
        c: "advanceCommit (n - 1) rf = Some (rf\<lparr>commitIndex := c\<rparr>)"
          "c = commitIndex rf \<or> commitIndex rf < c \<and> c \<le> n - 1 \<and> le_Term (entry_at rf c) = currentTerm rf"
          "\<forall>m. c < m \<and> m \<le> n - 1 \<longrightarrow> le_Term (entry_at rf m) \<noteq> currentTerm rf" by auto
      have "advanceCommit n rf = Some (rf\<lparr>commitIndex := c\<rparr>)"
        using True False e c(1) by (subst advanceCommit.simps) simp
      moreover have "le_Term (entry_at rf m) \<noteq> currentTerm rf" if "c < m" "m \<le> n" for m
        using that False c(3) by (cases "m = n") auto
      ultimately show ?thesis using c(2) by (intro exI [of _ c]) auto
    qed
  next
    case False
    then show ?thesis by (subst advanceCommit.simps) (intro exI [of _ "commitIndex rf"], auto)
  qed
qed

lemma leader_wf_commit:
  "leader_wf rf \<Longrightarrow> commitIndex rf \<le> c \<Longrightarrow> c \<le> lastIndex rf \<Longrightarrow> leader_wf (rf\<lparr>commitIndex := c\<rparr>)"
  by (auto simp: leader_wf_def raft_wf_def log_wf_def lastIndex_def)

text \<open>Which replicas are known to hold everything up to an index.\<close>

definition replicas :: "('c, 's) Raft \<Rightarrow> int \<Rightarrow> nat set" where
  "replicas rf n = {j. j < npeers rf \<and> n \<le> matchIndex rf ! j}"

lemma majorityMatch_outcome:
  assumes wf: "leader_wf rf"
  shows "\<exists>v. majorityMatch rf = Some v \<and> v \<le> lastIndex rf \<and>
             majorityNum (npeers rf) \<le> card (replicas rf v)"
proof -
  have len: "length (matchIndex rf) = npeers rf" and "0 < npeers rf"
    using wf by (auto simp: leader_wf_def)
  then have ne: "matchIndex rf \<noteq> []" by auto
  define v where "v = sort (matchIndex rf) ! ((npeers rf - 1) div 2)"
  have k: "(npeers rf - 1) div 2 < npeers rf" using \<open>0 < npeers rf\<close> by auto
  then have "majorityMatch rf = Some v"
    by (simp add: majorityMatch_def len v_def)
  moreover have "v \<in> set (matchIndex rf)"
    using k len by (metis length_sort nth_mem set_sort v_def)
  then have "v \<le> lastIndex rf"
    using leader_wfD [OF wf] len by (fastforce simp: in_set_conv_nth)
  moreover have "majorityNum (npeers rf) \<le> card (replicas rf v)"
    using median_majority [OF ne] by (simp add: majorityNum_def replicas_def len v_def)
  ultimately show ?thesis by blast
qed

lemma success_outcome:
  assumes wf: "leader_wf rf" and i: "i < npeers rf"
    and p: "ae_PreLogIndex args + int (length (ae_Entries args)) \<le> lastIndex rf"
  shows "\<exists>rf'. LeaderAppendEntries_success (int i) args rf = Some rf' \<and> leader_wf rf' \<and>
     log rf' = log rf \<and> currentTerm rf' = currentTerm rf \<and> npeers rf' = npeers rf \<and>
     lastIncludedIndex rf' = lastIncludedIndex rf \<and>
     ae_PreLogIndex args + int (length (ae_Entries args)) \<le> matchIndex rf' ! i \<and>
     (\<forall>j < npeers rf. matchIndex rf ! j \<le> matchIndex rf' ! j) \<and>
     commitIndex rf \<le> commitIndex rf' \<and>
     (commitIndex rf < commitIndex rf' \<longrightarrow>
        le_Term (entry_at rf' (commitIndex rf')) = currentTerm rf' \<and>
        majorityNum (npeers rf') \<le> card (replicas rf' (commitIndex rf')))"
proof -
  obtain rf1 where rf1: "recordMatch (int i) (ae_PreLogIndex args + int (length (ae_Entries args))) rf = Some rf1"
    "leader_wf rf1" "\<forall>j < npeers rf. matchIndex rf ! j \<le> matchIndex rf1 ! j"
    "ae_PreLogIndex args + int (length (ae_Entries args)) \<le> matchIndex rf1 ! i"
    "log rf1 = log rf" "lastIncludedIndex rf1 = lastIncludedIndex rf"
    "commitIndex rf1 = commitIndex rf" "currentTerm rf1 = currentTerm rf" "npeers rf1 = npeers rf"
    using recordMatch_wf [OF wf i p] by blast
  obtain v where v: "majorityMatch rf1 = Some v" "v \<le> lastIndex rf1"
    "majorityNum (npeers rf1) \<le> card (replicas rf1 v)"
    using majorityMatch_outcome [OF rf1(2)] by blast
  have wf1: "log_wf rf1" "lastIncludedIndex rf1 \<le> commitIndex rf1" "commitIndex rf1 \<le> lastIndex rf1"
    using rf1(2) by (auto simp: leader_wf_def raft_wf_def)
  obtain c where c: "advanceCommit v rf1 = Some (rf1\<lparr>commitIndex := c\<rparr>)"
    "c = commitIndex rf1 \<or> commitIndex rf1 < c \<and> c \<le> v \<and> le_Term (entry_at rf1 c) = currentTerm rf1"
    using advanceCommit_spec [OF wf1(1,2) v(2)] by blast
  have "replicas rf1 v \<subseteq> replicas rf1 c" if "c \<le> v" using that by (auto simp: replicas_def)
  then have "card (replicas rf1 v) \<le> card (replicas rf1 c)" if "c \<le> v"
    using that by (intro card_mono) (auto simp: replicas_def)
  with rf1 v c leader_wf_commit [OF rf1(2), of c] wf1(3) show ?thesis
    by (auto simp: LeaderAppendEntries_success_def replicas_def entry_at_def)
qed

section \<open>Backing up\<close>

lemma findConflictTerm_Some:
  "findConflictTerm lg t k = Some j \<Longrightarrow> 1 \<le> j \<and> j \<le> k \<and> le_Term (lg ! j) = t \<and>
     (\<forall>m. j < m \<and> m \<le> k \<longrightarrow> le_Term (lg ! m) \<noteq> t)"
proof (induction k)
  case (Suc k)
  then show ?case by (cases "le_Term (lg ! Suc k) = t") (auto simp: le_Suc_eq)
qed simp

lemma findConflictTerm_last:
  assumes "lg \<noteq> []" and "le_Term (last lg) \<noteq> t" and "findConflictTerm lg t (length lg - 1) = Some j"
  shows "j + 1 < length lg"
  using findConflictTerm_Some [OF assms(3)] assms(1,2)
  by (cases "j = length lg - 1") (auto simp: last_conv_nth)

lemma backtrack_outcome:
  assumes wf: "leader_wf rf" and i: "i < npeers rf"
    and last: "le_Term (last (log rf)) \<noteq> aer_ConflictTerm reply \<or> aer_ConflictTerm reply = -1"
  shows "\<exists>rf'. LeaderAppendEntries_backtrack (int i) reply rf = Some rf' \<and> leader_wf rf' \<and>
     nextIndex rf' ! i \<le> nextIndex rf ! i \<and> matchIndex rf' = matchIndex rf \<and>
     log rf' = log rf \<and> commitIndex rf' = commitIndex rf \<and> currentTerm rf' = currentTerm rf"
proof -
  have ne: "log rf \<noteq> []" using wf by (auto simp: leader_wf_def raft_wf_def log_wf_def)
  have idxs: "idx (nextIndex rf) (int i) = Some (nextIndex rf ! i)"
    "idx (matchIndex rf) (int i) = Some (matchIndex rf ! i)" "i < length (nextIndex rf)"
    using wf i by (auto simp: leader_wf_def)
  have finish: "\<exists>rf'. do { ns \<leftarrow> update_at (nextIndex rf) (int i) p; Some (rf\<lparr>nextIndex := ns\<rparr>) }
        = Some rf' \<and> leader_wf rf' \<and> nextIndex rf' ! i \<le> nextIndex rf ! i \<and>
        matchIndex rf' = matchIndex rf \<and> log rf' = log rf \<and> commitIndex rf' = commitIndex rf \<and> currentTerm rf' = currentTerm rf"
    if "p < nextIndex rf ! i" "matchIndex rf ! i < p" for p
    using leader_wf_update [OF wf i, of "matchIndex rf ! i" p] leader_wfD [OF wf i] that idxs(3)
    by (simp add: update_at_def)
  have "\<exists>p. (if aer_ConflictTerm reply = -1 then Some (aer_ConflictIndex reply)
      else case findConflictTerm (log rf) (aer_ConflictTerm reply) (length (log rf) - 1) of
             Some k \<Rightarrow> do { e \<leftarrow> idx (log rf) (int k + 1); Some (le_Index e) }
           | None \<Rightarrow> Some (aer_ConflictIndex reply)) = Some p"
    using findConflictTerm_last [OF ne] last by (fastforce simp: idx_def split: option.splits)
  then obtain p where p: "(if aer_ConflictTerm reply = -1 then Some (aer_ConflictIndex reply)
      else case findConflictTerm (log rf) (aer_ConflictTerm reply) (length (log rf) - 1) of
             Some k \<Rightarrow> do { e \<leftarrow> idx (log rf) (int k + 1); Some (le_Index e) }
           | None \<Rightarrow> Some (aer_ConflictIndex reply)) = Some p" by blast
  show ?thesis
  proof (cases "p < nextIndex rf ! i \<and> matchIndex rf ! i < p")
    case True
    then show ?thesis
      unfolding LeaderAppendEntries_backtrack_def p using finish [of p] by (simp add: idxs)
  next
    case False
    then show ?thesis
      unfolding LeaderAppendEntries_backtrack_def p using wf
      by (auto simp: idxs)
  qed
qed

section \<open>A round trip\<close>

text \<open>The follower has the entry the leader's message starts after, with the same term.\<close>

definition follows_at :: "('c, 's) Raft \<Rightarrow> nat \<Rightarrow> ('c, 's) Raft \<Rightarrow> bool" where
  "follows_at ld i fw \<longleftrightarrow> (let p = nextIndex ld ! i - 1 in
     lastIncludedIndex fw \<le> p \<and> p \<le> lastIndex fw \<and>
     le_Term (entry_at fw p) = le_Term (entry_at ld p))"

text \<open>The follower has the leader's terms from one index to another.\<close>

definition agree_from :: "int \<Rightarrow> ('c, 's) Raft \<Rightarrow> ('c, 's) Raft \<Rightarrow> int \<Rightarrow> bool" where
  "agree_from n ld fw k \<longleftrightarrow> k \<le> lastIndex fw \<and>
     (\<forall>m. n \<le> m \<longrightarrow> m \<le> k \<longrightarrow> le_Term (entry_at fw m) = le_Term (entry_at ld m))"

lemma round_trip:
  assumes wf: "leader_wf ld" and i: "i < npeers ld" and alive: "\<not> killed ld" "state ld = Leader"
    and near: "lastIncludedIndex ld < nextIndex ld ! i"
    and fwf: "raft_wf fw" and fresh: "currentTerm fw \<le> currentTerm ld" and at: "follows_at ld i fw"
  shows "\<exists>args fw' r ld'.
    LeaderAppendEntries_args (int i) (currentTerm ld) ld = Some (SendsAppend args) \<and>
    AppendEntries args fw = Some (fw', r) \<and>
    LeaderAppendEntries_reply (int i) args r ld = Some ld' \<and>
    lastIndex ld \<le> lastIndex fw' \<and>
    (\<forall>k. nextIndex ld ! i \<le> k \<longrightarrow> k \<le> lastIndex ld \<longrightarrow>
       entry_at fw' k = (if agree_from (nextIndex ld ! i) ld fw k then entry_at fw k
                         else entry_at ld k)) \<and>
    leader_wf ld' \<and> matchIndex ld' ! i = lastIndex ld \<and> nextIndex ld' ! i = lastIndex ld + 1"
proof -
  define n where "n = nextIndex ld ! i"
  define args where "args = \<lparr>ae_Term = currentTerm ld, ae_LeaderId = int (me ld),
      ae_PreLogIndex = n - 1, ae_PreLogTerm = le_Term (entry_at ld (n - 1)),
      ae_Entries = drop (nat (n - lastIncludedIndex ld)) (log ld), ae_LeaderCommit = commitIndex ld\<rparr>"
  have sends: "LeaderAppendEntries_args (int i) (currentTerm ld) ld = Some (SendsAppend args)"
    using args_outcome [OF wf i alive near] by (simp add: args_def n_def)
  from built_args_wf [OF wf i near sends]
  have args: "ae_wf args" "n - 1 + int (length (ae_Entries args)) = lastIndex ld" "ae_PreLogIndex args = n - 1"
    by (simp_all add: args_def)
  have f: "lastIncludedIndex fw \<le> n - 1" "n - 1 \<le> lastIndex fw"
    "le_Term (entry_at fw (n - 1)) = le_Term (entry_at ld (n - 1))"
    using at by (auto simp: follows_at_def Let_def n_def)
  have nc: "\<not> ae_covered args fw" using f by (simp add: ae_covered_def args(3))
  have m: "ae_matches args fw" using f by (simp add: ae_matches_def args_def)
  have fl: "log_wf fw" using fwf by simp
  obtain r where r: "AppendEntries args fw = Some (ae_accepted args fw, r)" "aer_Success r"
    "aer_Term r = currentTerm ld"
    using AppendEntries_accepts [OF fwf args(1) _ nc m] fresh by (auto simp: args_def)
  have sent: "ae_Entries args ! nat (k - n) = entry_at ld k" "nat (k - n) < length (ae_Entries args)"
    if "n \<le> k" "k \<le> lastIndex ld" for k
  proof -
    have "nat (k - lastIncludedIndex ld) = nat (n - lastIncludedIndex ld) + nat (k - n)"
      using that(1) near by (simp add: n_def)
    moreover show "nat (k - n) < length (ae_Entries args)" using that args(2) by simp
    moreover from this have "nat (n - lastIncludedIndex ld) \<le> length (log ld)"
      by (simp add: args_def)
    ultimately show "ae_Entries args ! nat (k - n) = entry_at ld k"
      by (simp add: args_def entry_at_def)
  qed
  have start: "ae_start args fw = n - 1" using f by (simp add: ae_start_def args(3))
  have same: "same_terms args fw k \<longleftrightarrow> agree_from n ld fw k" if "k \<le> lastIndex ld" for k
    using sent that by (auto simp: same_terms_def agree_from_def start args(3))
  have has: "entry_at (ae_accepted args fw) k =
        (if agree_from n ld fw k then entry_at fw k else entry_at ld k) \<and>
      k \<le> lastIndex (ae_accepted args fw)" if "n \<le> k" "k \<le> lastIndex ld" for k
  proof -
    have k: "k = n - 1 + 1 + int (nat (k - n))" using that by simp
    have "lastIncludedIndex fw < n - 1 + 1 + int (nat (k - n))" using f(1) that by simp
    from accepted_has [OF fl m sent(2) [OF that], unfolded args(3), OF this args(1) nc]
    show ?thesis unfolding k [symmetric] using same [OF that(2)] sent(1) [OF that] by simp
  qed
  have last: "lastIndex ld \<le> lastIndex (ae_accepted args fw)"
  proof (cases "n \<le> lastIndex ld")
    case True
    with has [of "lastIndex ld"] show ?thesis by simp
  next
    case False
    moreover have "n - 1 \<le> lastIndex (ae_accepted args fw)"
      using newLog_wf [OF fl args(1) nc] f(2) start by (simp add: accepted_lastIndex)
    ultimately show ?thesis by simp
  qed
  have len: "ae_PreLogIndex args + int (length (ae_Entries args)) \<le> lastIndex ld"
    using args by simp
  obtain ld' where ld': "LeaderAppendEntries_success (int i) args ld = Some ld'" "leader_wf ld'"
    "lastIndex ld \<le> matchIndex ld' ! i" "npeers ld' = npeers ld" "log ld' = log ld"
    "lastIncludedIndex ld' = lastIncludedIndex ld"
    using success_outcome [OF wf i len] args by auto
  have "matchIndex ld' ! i < nextIndex ld' ! i" "nextIndex ld' ! i \<le> lastIndex ld + 1"
    using leader_wfD [OF ld'(2)] i ld' by (auto simp: lastIndex_def)
  moreover have "LeaderAppendEntries_reply (int i) args r ld = Some ld'"
    using alive r ld'(1) by (simp add: LeaderAppendEntries_reply_def args_def)
  ultimately show ?thesis
    using sends r(1) has last ld'(2,3) n_def
    by (intro exI [of _ args] exI [of _ "ae_accepted args fw"] exI [of _ r] exI [of _ ld']) auto
qed

end
