(* ===== verification/RaftPeer.thy ===== *)
theory RaftPeer
  imports RaftLeader
begin

text \<open>
  One Raft peer as a machine: an event is one critical section of \<open>src/raft/raft.go\<close> with
  the inputs it gets from outside (RPC arguments, replies, what the service passes in), or
  a crash followed by \<open>Make\<close> on what the persister holds. Nothing is assumed of the inputs.
\<close>

datatype ('c, 's) raft_event =
    TimerFires
  | ChecksReadyFlag
  | BecomeCandidate
  | CopyTerm
  | VoteReply RequestVoteArgs RequestVoteReply
  | BecomeLeader
  | HeartbeatTick
  | HandleRequestVote RequestVoteArgs
  | HandleAppendEntries "'c AppendEntriesArgs"
  | HandleInstallSnapshot "'s InstallSnapshotArgs"
  | UpdateSelf
  | AppendReply int "'c AppendEntriesArgs" AppendEntriesReply
  | SnapshotReply int "'s InstallSnapshotArgs" InstallSnapshotReply
  | ServiceSnapshot int "'s option"
  | StartAppend 'c int bool
  | ApplierTurn
  | ApplierSend
  | RecoverSend
  | SetPassive bool
  | SetActive bool
  | GetPassive
  | KillPeer
  | CrashRestart

fun raft_step :: "('c, 's) raft_event \<Rightarrow> ('c, 's) Raft \<Rightarrow> ('c, 's) Raft option" where
  "raft_step TimerFires rf = Some (fst (HandleTimeout_fire rf))"
| "raft_step ChecksReadyFlag rf = Some (fst (HandleTimeout_ready rf))"
| "raft_step BecomeCandidate rf = Some (Convert2Candidate rf)"
| "raft_step CopyTerm rf = Some (fst (RunForElection_copyTerm rf))"
| "raft_step (VoteReply args reply) rf = Some (fst (RunForElection_reply args reply rf))"
| "raft_step BecomeLeader rf = Convert2Leader rf"
| "raft_step HeartbeatTick rf = Some (fst (heartbeat_tick rf))"
| "raft_step (HandleRequestVote args) rf = map_option fst (RequestVote args rf)"
| "raft_step (HandleAppendEntries args) rf = map_option fst (AppendEntries args rf)"
| "raft_step (HandleInstallSnapshot args) rf = map_option fst (CondInstallSnap args rf)"
| "raft_step UpdateSelf rf = map_option fst (LeaderAppendEntries_self rf)"
| "raft_step (AppendReply i args reply) rf = LeaderAppendEntries_reply i args reply rf"
| "raft_step (SnapshotReply i args reply) rf = LeaderSendSnapshot_reply i args reply rf"
| "raft_step (ServiceSnapshot i snap) rf = Snapshot i snap rf"
| "raft_step (StartAppend c t isLeader) rf = map_option fst (Start_append c t isLeader rf)"
| "raft_step ApplierTurn rf = map_option fst (applier_turn rf)"
| "raft_step ApplierSend rf = applier_send rf"
| "raft_step RecoverSend rf = recover_send rf"
| "raft_step (SetPassive b) rf = Some (SetPassiveSnapshottingFlag b rf)"
| "raft_step (SetActive b) rf = Some (SetActiveSnapshottingFlag b rf)"
| "raft_step GetPassive rf = Some (fst (GetPassiveFlagAndSetActiveFlag rf))"
| "raft_step KillPeer rf = Some (Kill rf)"
| "raft_step CrashRestart rf = Some (Make (npeers rf) (me rf) (persister rf))"

section \<open>What is on disk is what is in memory\<close>

definition persisted :: "('c, 's) Raft \<Rightarrow> bool" where
  "persisted rf \<longleftrightarrow> raftstate (persister rf) = Some (durable rf)"

text \<open>How the durable part of the state may change in one critical section.\<close>

definition vote_mono :: "('c, 's) Raft \<Rightarrow> ('c, 's) Raft \<Rightarrow> bool" where
  "vote_mono rf rf' \<longleftrightarrow> me rf' = me rf \<and> currentTerm rf \<le> currentTerm rf' \<and>
     (currentTerm rf' = currentTerm rf \<longrightarrow> votedFor rf \<noteq> -1 \<longrightarrow> votedFor rf' = votedFor rf)"

lemma persisted_persist [simp]: "persisted (persist rf)"
  by (simp add: persisted_def SaveRaftState_def)

lemma persisted_cong:
  "persister rf' = persister rf \<Longrightarrow> durable rf' = durable rf \<Longrightarrow> persisted rf' = persisted rf"
  by (simp add: persisted_def)

lemma persisted_frame [simp]:
  "persisted (rf\<lparr>commitIndex := c\<rparr>) = persisted rf"
  "persisted (rf\<lparr>lastApplied := c\<rparr>) = persisted rf"
  "persisted (rf\<lparr>state := st\<rparr>) = persisted rf"
  "persisted (rf\<lparr>leaderId := c\<rparr>) = persisted rf"
  "persisted (rf\<lparr>nextIndex := ns\<rparr>) = persisted rf"
  "persisted (rf\<lparr>matchIndex := ns\<rparr>) = persisted rf"
  "persisted (rf\<lparr>ready := b\<rparr>) = persisted rf"
  "persisted (rf\<lparr>dead := d\<rparr>) = persisted rf"
  "persisted (rf\<lparr>passiveSnapshotting := b\<rparr>) = persisted rf"
  "persisted (rf\<lparr>activeSnapshotting := b\<rparr>) = persisted rf"
  "persisted (rf\<lparr>applyCh := ch\<rparr>) = persisted rf"
  "persisted (rf\<lparr>recoverMsg := m\<rparr>) = persisted rf"
  "persisted (rf\<lparr>applierMsg := m\<rparr>) = persisted rf"
  "persisted (rf\<lparr>timerResets := n\<rparr>) = persisted rf"
  "persisted (rf\<lparr>timeoutLoops := n\<rparr>) = persisted rf"
  by (simp_all add: persisted_def durable_def)

lemma persisted_snapshot [simp]:
  "persisted (SaveStateAndSnapshot_rf snap rf) = persisted rf"
  by (simp add: persisted_def SaveStateAndSnapshot_rf_def raft_defs durable_def)

lemma persisted_effects [simp]:
  "persisted (resetTimer rf) = persisted rf" "persisted (goHandleTimeout rf) = persisted rf"
  "persisted (sendApply m rf) = persisted rf"
  by (simp_all add: effect_defs)

lemma persisted_follow: "persisted rf \<Longrightarrow> persisted (AppendEntries_follow t l rf)"
  by (simp add: AppendEntries_follow_def Let_def)

lemma persisted_Make: "persisted (Make n i ps)"
  by (simp add: Make_def Let_def)

lemma advanceCommit_frame:
  "advanceCommit n rf = Some rf' \<Longrightarrow> \<exists>c. rf' = rf\<lparr>commitIndex := c\<rparr>"
proof (induction n rf rule: advanceCommit.induct)
  case (1 n rf)
  show ?case
  proof (cases "n > commitIndex rf")
    case True
    with "1.prems" obtain e where "idx (log rf) (n - lastIncludedIndex rf) = Some e"
      by (subst (asm) advanceCommit.simps) (auto simp: bind_eq_Some_conv)
    with True "1.IH" "1.prems" show ?thesis
      by (subst (asm) advanceCommit.simps) (auto split: if_splits)
  next
    case False
    with "1.prems" have "rf' = rf" by (subst (asm) advanceCommit.simps) simp
    then show ?thesis by (intro exI [of _ "commitIndex rf"]) simp
  qed
qed

text \<open>The handlers that end in an explicit result, as inversion facts.\<close>

lemma same_update:
  "\<exists>ns. rf = rf\<lparr>nextIndex := ns\<rparr>" "\<exists>c. rf = rf\<lparr>commitIndex := c\<rparr>" "\<exists>l. rf = rf\<lparr>log := l\<rparr>"
  by (rule exI [of _ "nextIndex rf"], simp)
    (rule exI [of _ "commitIndex rf"], simp, rule exI [of _ "log rf"], simp)

lemma recordMatch_frame:
  "recordMatch i p rf = Some rf' \<Longrightarrow> \<exists>ms ns. rf' = rf\<lparr>matchIndex := ms, nextIndex := ns\<rparr>"
  by (auto simp: recordMatch_def bind_eq_Some_conv)

lemma backtrack_frame:
  "LeaderAppendEntries_backtrack i r rf = Some rf' \<Longrightarrow> \<exists>ns. rf' = rf\<lparr>nextIndex := ns\<rparr>"
  by (auto simp: LeaderAppendEntries_backtrack_def bind_eq_Some_conv same_update
      split: if_split_asm)

lemma success_frame:
  "LeaderAppendEntries_success i args rf = Some rf' \<Longrightarrow>
     \<exists>ms ns c. rf' = rf\<lparr>matchIndex := ms, nextIndex := ns, commitIndex := c\<rparr>"
  by (fastforce simp: LeaderAppendEntries_success_def bind_eq_Some_conv
      dest!: recordMatch_frame advanceCommit_frame)

lemma repair_frame:
  "AppendEntries_repair args rf = Some rf' \<Longrightarrow> \<exists>l. rf' = rf\<lparr>log := l\<rparr>"
  by (auto simp: AppendEntries_repair_def bind_eq_Some_conv same_update split: if_split_asm)

lemma commit_frame:
  "AppendEntries_commit args rf = Some rf' \<Longrightarrow> \<exists>c. rf' = rf\<lparr>commitIndex := c\<rparr>"
  by (auto simp: AppendEntries_commit_def bind_eq_Some_conv same_update split: if_split_asm)

lemmas handler_frames = recordMatch_frame backtrack_frame success_frame repair_frame commit_frame

text \<open>An \<open>AppendEntries\<close> message ends in the follower state, with at most a new log and commit index.\<close>

lemma AppendEntries_frame:
  assumes "AppendEntries args rf = Some (rf', reply)"
  defines "f \<equiv> AppendEntries_follow (ae_Term args) (ae_LeaderId args) rf"
  shows "rf' = rf \<and> ae_Term args < currentTerm rf \<or>
     currentTerm rf \<le> ae_Term args \<and>
       (rf' = f \<or> (\<exists>l c. rf' = (persist (f\<lparr>log := l\<rparr>))\<lparr>commitIndex := c\<rparr>))"
proof (cases "ae_Term args < currentTerm rf")
  case True
  with assms(1) show ?thesis by (simp add: AppendEntries_def)
next
  case False
  with assms(1) obtain t where t: "AppendEntries_trim args f = Some t"
    by (auto simp: AppendEntries_def Let_def bind_eq_Some_conv simp flip: f_def)
  show ?thesis
  proof (cases t)
    case (Inl u)
    with False assms(1) t show ?thesis by (simp add: AppendEntries_def flip: f_def)
  next
    case (Inr args')
    with False assms(1) t show ?thesis
      by (auto simp: AppendEntries_def Let_def bind_eq_Some_conv simp flip: f_def
          split: if_split_asm dest!: repair_frame commit_frame)
  qed
qed

lemma CondInstallSnap_frame:
  assumes "CondInstallSnap args rf = Some (rf', reply)"
  defines "f \<equiv> AppendEntries_follow (is_Term args) (is_LeaderId args) rf"
  shows "rf' = rf \<or> currentTerm rf \<le> is_Term args \<and> (rf' = f \<or>
     (\<exists>l c. rf' = InstallSnapFromLeader (is_LastIncludedIndex args) (is_SnapshotData args)
        (SaveStateAndSnapshot_rf (is_SnapshotData args) (persist
          (f\<lparr>lastApplied := is_LastIncludedIndex args, commitIndex := c,
             lastIncludedIndex := is_LastIncludedIndex args,
             lastIncludedTerm := is_LastIncludedTerm args, log := l,
             passiveSnapshotting := True\<rparr>)))))"
  using assms(1) unfolding f_def
  by (auto simp: CondInstallSnap_def Let_def bind_eq_Some_conv split: if_splits prod.splits)

lemma AppendEntries_persisted:
  "persisted rf \<Longrightarrow> AppendEntries args rf = Some (rf', reply) \<Longrightarrow> persisted rf'"
  by (auto dest!: AppendEntries_frame simp: persisted_follow)

lemma CondInstallSnap_persisted:
  "persisted rf \<Longrightarrow> CondInstallSnap args rf = Some (rf', reply) \<Longrightarrow> persisted rf'"
  by (auto dest!: CondInstallSnap_frame simp: persisted_follow InstallSnapFromLeader_def)

lemma RequestVote_persisted:
  "persisted rf \<Longrightarrow> RequestVote args rf = Some (rf', reply) \<Longrightarrow> persisted rf'"
  by (auto simp: RequestVote_def RequestVote_adoptTerm_def Let_def bind_eq_Some_conv
      split: if_splits)

lemma raft_step_persisted:
  assumes "persisted rf" and "raft_step e rf = Some rf'"
  shows "persisted rf'"
proof (cases e)
  case (HandleAppendEntries args)
  with assms show ?thesis by (auto intro: AppendEntries_persisted)
next
  case (HandleInstallSnapshot args)
  with assms show ?thesis by (auto intro: CondInstallSnap_persisted)
next
  case (HandleRequestVote args)
  with assms show ?thesis by (auto intro: RequestVote_persisted)
next
  case (AppendReply i args reply)
  with assms show ?thesis
    by (auto simp: LeaderAppendEntries_reply_def leaderStepDown_def split: if_splits
        dest!: backtrack_frame success_frame)
next
  case (SnapshotReply i args reply)
  with assms show ?thesis
    by (auto simp: LeaderSendSnapshot_reply_def leaderStepDown_def split: if_splits
        dest!: recordMatch_frame)
next
  case (ServiceSnapshot i snap)
  with assms show ?thesis
    by (auto simp: Snapshot_def Snapshot_trimmed_def Let_def bind_eq_Some_conv split: if_splits)
next
  case (StartAppend c t b)
  with assms show ?thesis
    by (auto simp: Start_append_def Let_def bind_eq_Some_conv split: if_splits)
next
  case ApplierTurn
  with assms show ?thesis
    by (auto simp: applier_turn_def Let_def bind_eq_Some_conv split: if_splits)
qed (use assms in \<open>auto simp: HandleTimeout_fire_def HandleTimeout_ready_def Convert2Candidate_def RunForElection_copyTerm_def
    RunForElection_reply_def Convert2Leader_def heartbeat_tick_def LeaderAppendEntries_self_def
    SetPassiveSnapshottingFlag_def SetActiveSnapshottingFlag_def
    GetPassiveFlagAndSetActiveFlag_def Kill_def persisted_Make applier_send_def recover_send_def
    Let_def bind_eq_Some_conv split: if_splits ServerState.splits option.splits\<close>)

interpretation peer: step_machine raft_step persisted
  by unfold_locales (rule raft_step_persisted)

section \<open>Terms grow and votes stick\<close>

lemma vote_mono_refl [simp]: "vote_mono rf rf"
  by (simp add: vote_mono_def)

lemma vote_mono_trans: "vote_mono a b \<Longrightarrow> vote_mono b c \<Longrightarrow> vote_mono a c"
  by (auto simp: vote_mono_def)

lemma vote_mono_cong:
  "me rf' = me rf \<Longrightarrow> currentTerm rf' = currentTerm rf \<Longrightarrow> votedFor rf' = votedFor rf \<Longrightarrow>
     vote_mono rf rf'"
  by (simp add: vote_mono_def)

lemma vote_mono_term: "me rf' = me rf \<Longrightarrow> currentTerm rf < currentTerm rf' \<Longrightarrow> vote_mono rf rf'"
  by (simp add: vote_mono_def)

lemma vote_mono_follow: "currentTerm rf \<le> t \<Longrightarrow> vote_mono rf (AppendEntries_follow t l rf)"
  by (simp add: vote_mono_def follow_term follow_vote)

lemma AppendEntries_vote_mono:
  assumes "AppendEntries args rf = Some (rf', reply)"
  shows "vote_mono rf rf'"
  using AppendEntries_frame [OF assms] vote_mono_follow [of rf "ae_Term args" "ae_LeaderId args"]
  by (auto simp: vote_mono_def)

lemma CondInstallSnap_vote_mono:
  assumes "CondInstallSnap args rf = Some (rf', reply)"
  shows "vote_mono rf rf'"
  using CondInstallSnap_frame [OF assms] vote_mono_follow [of rf "is_Term args" "is_LeaderId args"]
  by (auto simp: vote_mono_def InstallSnapFromLeader_def sendApply_def SaveStateAndSnapshot_rf_def)

lemma RequestVote_vote_mono:
  assumes "RequestVote args rf = Some (rf', reply)"
  shows "vote_mono rf rf'"
  using assms
  by (auto simp: vote_mono_def RequestVote_def RequestVote_adoptTerm_def Let_def effect_defs
      bind_eq_Some_conv split: if_splits)

lemma Make_fields:
  assumes "raftstate ps = Some d"
  shows "currentTerm (Make n i ps) = rs_currentTerm d" "votedFor (Make n i ps) = rs_votedFor d"
    "log (Make n i ps) = rs_log d" "lastIncludedIndex (Make n i ps) = rs_lastIncludedIndex d"
    "lastIncludedTerm (Make n i ps) = rs_lastIncludedTerm d" "me (Make n i ps) = i"
    "npeers (Make n i ps) = n" "state (Make n i ps) = Follower"
  using assms
  by (simp_all add: Make_def Let_def effect_defs readPersist_def recoverFromSnap_def raft_defs
      split: option.splits)

lemma raft_step_vote_mono:
  assumes "persisted rf" and "raft_step e rf = Some rf'"
  shows "vote_mono rf rf'"
proof (cases e)
  case (HandleAppendEntries args)
  with assms show ?thesis by (auto intro: AppendEntries_vote_mono)
next
  case (HandleInstallSnapshot args)
  with assms show ?thesis by (auto intro: CondInstallSnap_vote_mono)
next
  case (HandleRequestVote args)
  with assms show ?thesis by (auto intro: RequestVote_vote_mono)
next
  case (AppendReply i args reply)
  with assms show ?thesis
    by (auto simp: LeaderAppendEntries_reply_def leaderStepDown_def vote_mono_def split: if_splits
        dest!: backtrack_frame success_frame)
next
  case (SnapshotReply i args reply)
  with assms show ?thesis
    by (auto simp: LeaderSendSnapshot_reply_def leaderStepDown_def vote_mono_def split: if_splits
        dest!: recordMatch_frame)
next
  case (ServiceSnapshot i snap)
  with assms show ?thesis
    by (auto simp: Snapshot_def Snapshot_trimmed_def SaveStateAndSnapshot_rf_def vote_mono_def
        Let_def bind_eq_Some_conv split: if_splits)
next
  case (StartAppend c t b)
  with assms show ?thesis
    by (auto simp: Start_append_def vote_mono_def Let_def bind_eq_Some_conv split: if_splits)
next
  case CrashRestart
  with assms have "rf' = Make (npeers rf) (me rf) (persister rf)" by simp
  with assms(1) show ?thesis
    by (simp add: vote_mono_def persisted_def Make_fields durable_def)
qed (use assms in \<open>auto simp: HandleTimeout_fire_def HandleTimeout_ready_def Convert2Candidate_def RunForElection_copyTerm_def
    RunForElection_reply_def Convert2Leader_def heartbeat_tick_def LeaderAppendEntries_self_def
    SetPassiveSnapshottingFlag_def SetActiveSnapshottingFlag_def vote_mono_def
    GetPassiveFlagAndSetActiveFlag_def Kill_def Let_def bind_eq_Some_conv effect_defs
    applier_turn_def applier_send_def recover_send_def
    split: if_splits ServerState.splits option.splits\<close>)

lemma run_vote_mono:
  "persisted rf \<Longrightarrow> run_steps raft_step es rf = Some rf' \<Longrightarrow> vote_mono rf rf'"
  by (rule peer.run_rel [where R = vote_mono])
    (auto intro: raft_step_vote_mono vote_mono_trans)

text \<open>A granted vote is recorded, for the requester, in the term of the request.\<close>

lemma RequestVote_granted:
  assumes "RequestVote args rf = Some (rf', reply)" and "rvr_VoteGranted reply"
  shows "votedFor rf' = rv_CandidatedId args \<and> currentTerm rf' = rv_Term args \<and>
     rvr_Term reply = rv_Term args \<and> currentTerm rf \<le> rv_Term args"
  using assms
  by (auto simp: RequestVote_def RequestVote_adoptTerm_def Let_def effect_defs zero_rvr_def
      bind_eq_Some_conv split: if_splits)

end
