(* ===== verification/RaftElection.thy ===== *)
theory RaftElection
  imports RaftPeer
begin

text \<open>
  Leader election in a cluster, at the granularity of the locks of
  \<open>src/raft/raft.go: RunForElection\<close>: every critical section under \<open>rf.mu\<close> or \<open>voteMu\<close>
  is one action, and any action of any peer may come between two actions of a peer. The
  network may lose, delay and reorder requests and replies. Peers may crash and restart,
  and every other handler may run at any time with any input (action \<open>Peer\<close>).
\<close>

section \<open>State\<close>

text \<open>The goroutine that asks one peer for its vote.\<close>

datatype phase =
    NotLaunched
  | Launched
  | Asked RequestVoteArgs      \<comment> \<open>\<open>sendRequestVote\<close> in flight\<close>
  | Checked bool               \<comment> \<open>past the critical section on the reply, before \<open>voteMu.Lock()\<close>\<close>
  | Done bool                  \<comment> \<open>finished; \<open>True\<close> if it added a vote\<close>

text \<open>The main goroutine of \<open>RunForElection\<close>.\<close>

datatype wait_pc =
    BeforeCopy                 \<comment> \<open>after \<open>Convert2Candidate\<close>, before \<open>sameTerm := rf.currentTerm\<close>\<close>
  | Evaluating                 \<comment> \<open>about to evaluate the loop condition\<close>
  | Waiting                    \<comment> \<open>in \<open>cond.Wait()\<close>\<close>
  | Winning                    \<comment> \<open>left the loop with a majority, before \<open>Convert2Leader\<close> locks\<close>
  | Returned

record election =
  el_cand :: nat
  el_term :: int
  el_votes :: nat
  el_finished :: nat
  el_pc :: wait_pc
  el_phase :: "nat \<Rightarrow> phase"

text \<open>
  \<open>requests\<close> holds every \<open>RequestVote\<close> message that was sent, with its election and its
  destination: it may be executed at any later time, more than once or never, also after the
  call of the candidate has returned or the candidate has crashed; \<open>replies\<close> are the answers.
  \<open>granted\<close> and \<open>promoted\<close> are history variables: votes given (voter, term, candidate) and
  executions of \<open>Convert2Leader\<close> (term, node).
\<close>

record ('c, 's) cluster =
  nservers :: nat
  nodes :: "nat \<Rightarrow> ('c, 's) Raft"
  elections :: "election list"
  requests :: "(nat \<times> nat \<times> RequestVoteArgs) set"
  replies :: "(nat \<times> nat \<times> RequestVoteReply) set"
  granted :: "(nat \<times> int \<times> nat) set"
  promoted :: "(int \<times> nat) set"

definition init_cluster :: "nat \<Rightarrow> ('c, 's) cluster" where
  "init_cluster n = \<lparr>nservers = n, nodes = (\<lambda>i. Make n i MakePersister), elections = [],
     requests = {}, replies = {}, granted = {}, promoted = {}\<rparr>"

section \<open>Actions\<close>

datatype ('c, 's) action =
    Peer nat "('c, 's) raft_event"
  | Begin nat
  | Copy nat
  | Launch nat nat
  | Ask nat nat
  | Deliver nat nat RequestVoteArgs
  | Reply nat nat RequestVoteReply
  | Count nat nat
  | Evaluate nat
  | Wake nat
  | Promote nat

text \<open>The events of a peer that are not part of the election protocol itself.\<close>

fun other_event :: "('c, 's) raft_event \<Rightarrow> bool" where
  "other_event BecomeCandidate = False"
| "other_event BecomeLeader = False"
| "other_event CopyTerm = False"
| "other_event (VoteReply _ _) = False"
| "other_event (HandleRequestVote _) = False"
| "other_event _ = True"

definition set_node :: "nat \<Rightarrow> ('c, 's) Raft \<Rightarrow> ('c, 's) cluster \<Rightarrow> ('c, 's) cluster" where
  "set_node i rf s = s\<lparr>nodes := (nodes s)(i := rf)\<rparr>"

definition set_election :: "nat \<Rightarrow> election \<Rightarrow> ('c, 's) cluster \<Rightarrow> ('c, 's) cluster" where
  "set_election e el s = s\<lparr>elections := (elections s)[e := el]\<rparr>"

definition set_phase :: "nat \<Rightarrow> phase \<Rightarrow> election \<Rightarrow> election" where
  "set_phase j p el = el\<lparr>el_phase := (el_phase el)(j := p)\<rparr>"

text \<open>A crash ends the goroutines of the peer.\<close>

definition stop_elections :: "nat \<Rightarrow> election list \<Rightarrow> election list" where
  "stop_elections i = map (\<lambda>el. if el_cand el = i
     then el\<lparr>el_pc := Returned, el_phase := (\<lambda>j. case el_phase el j of Done b \<Rightarrow> Done b | _ \<Rightarrow> Done False)\<rparr>
     else el)"

definition begin_election :: "nat \<Rightarrow> ('c, 's) cluster \<Rightarrow> ('c, 's) cluster" where
  "begin_election i s =
     (let rf = Convert2Candidate (nodes s i)
      in set_node i rf s
           \<lparr>elections := elections s @ [\<lparr>el_cand = i, el_term = 0, el_votes = 1, el_finished = 1,
              el_pc = BeforeCopy, el_phase = (\<lambda>_. NotLaunched)\<rparr>],
            granted := insert (i, currentTerm rf, i) (granted s)\<rparr>)"

definition el_of :: "('c, 's) cluster \<Rightarrow> nat \<Rightarrow> election option" where
  "el_of s e = (if e < length (elections s) then Some (elections s ! e) else None)"

definition guard :: "bool \<Rightarrow> unit option" where
  "guard b = (if b then Some () else None)"

definition act_reply ::
  "nat \<Rightarrow> nat \<Rightarrow> RequestVoteReply \<Rightarrow> ('c, 's) cluster \<Rightarrow> ('c, 's) cluster option" where
  "act_reply e j r s = do {
     el \<leftarrow> el_of s e;
     guard (r = zero_rvr \<or> (e, j, r) \<in> replies s);
     case el_phase el j of
       Asked args \<Rightarrow>
         (case RunForElection_reply args r (nodes s (el_cand el)) of (rf, a) \<Rightarrow>
            Some (set_election e
                    (set_phase j (case a of Counted b \<Rightarrow> Checked b | _ \<Rightarrow> Done False) el)
                    (set_node (el_cand el) rf s)))
     | _ \<Rightarrow> None }"

definition act_deliver ::
  "nat \<Rightarrow> nat \<Rightarrow> RequestVoteArgs \<Rightarrow> ('c, 's) cluster \<Rightarrow> ('c, 's) cluster option" where
  "act_deliver e j args s = do {
     el \<leftarrow> el_of s e;
     guard ((e, j, args) \<in> requests s);
     (rf, r) \<leftarrow> RequestVote args (nodes s j);
     Some (set_node j rf s\<lparr>replies := insert (e, j, r) (replies s),
       granted := (if rvr_VoteGranted r then insert (j, rv_Term args, el_cand el) (granted s)
                   else granted s)\<rparr>) }"

text \<open>
  \<open>None\<close>: the action is not enabled (or the handler panics). \<open>Evaluate\<close> is the loop
  condition and the test after the loop; \<open>Wake\<close> is \<open>cond.Wait()\<close> returning and the check
  \<open>stillCandidate\<close>; \<open>Promote\<close> is \<open>Convert2Leader\<close>.
\<close>

fun cluster_step :: "('c, 's) action \<Rightarrow> ('c, 's) cluster \<Rightarrow> ('c, 's) cluster option" where
  "cluster_step (Peer i ev) s = do {
     guard (i < nservers s \<and> other_event ev);
     rf \<leftarrow> raft_step ev (nodes s i);
     Some (set_node i rf s\<lparr>elections :=
       (if ev = CrashRestart then stop_elections i (elections s) else elections s)\<rparr>) }"
| "cluster_step (Begin i) s = do { guard (i < nservers s); Some (begin_election i s) }"
| "cluster_step (Copy e) s = do {
     el \<leftarrow> el_of s e; guard (el_pc el = BeforeCopy);
     case RunForElection_copyTerm (nodes s (el_cand el)) of (rf, sameTerm) \<Rightarrow>
       Some (set_election e (el\<lparr>el_term := sameTerm, el_pc := Evaluating\<rparr>)
               (set_node (el_cand el) rf s)) }"
| "cluster_step (Launch e j) s = do {
     el \<leftarrow> el_of s e;
     guard (el_pc el = Evaluating \<and> el_phase el j = NotLaunched \<and> j < nservers s \<and>
            j \<noteq> el_cand el \<and> RunForElection_stillCandidate (nodes s (el_cand el)));
     Some (set_election e (set_phase j Launched el) s) }"
| "cluster_step (Ask e j) s = do {
     el \<leftarrow> el_of s e; guard (el_phase el j = Launched);
     args \<leftarrow> RunForElection_args (el_term el) (nodes s (el_cand el));
     Some (set_election e (set_phase j (Asked args) el) s\<lparr>requests := insert (e, j, args) (requests s)\<rparr>) }"
| "cluster_step (Deliver e j args) s = act_deliver e j args s"
| "cluster_step (Reply e j r) s = act_reply e j r s"
| "cluster_step (Count e j) s = do {
     el \<leftarrow> el_of s e;
     case el_phase el j of
       Checked vote \<Rightarrow>
         Some (set_election e (set_phase j (Done vote)
                 (el\<lparr>el_votes := el_votes el + (if vote then 1 else 0),
                     el_finished := el_finished el + 1\<rparr>)) s)
     | _ \<Rightarrow> None }"
| "cluster_step (Evaluate e) s = do {
     el \<leftarrow> el_of s e; guard (el_pc el = Evaluating);
     Some (set_election e (el\<lparr>el_pc :=
       (case RunForElection_wait (nservers s) (el_votes el) (el_finished el) None of
          KeepsWaiting \<Rightarrow> Waiting | Wins \<Rightarrow> Winning | _ \<Rightarrow> Returned)\<rparr>) s) }"
| "cluster_step (Wake e) s = do {
     el \<leftarrow> el_of s e; guard (el_pc el = Waiting);
     Some (set_election e (el\<lparr>el_pc :=
       (if state (nodes s (el_cand el)) = Candidate then Evaluating else Returned)\<rparr>) s) }"
| "cluster_step (Promote e) s = do {
     el \<leftarrow> el_of s e; guard (el_pc el = Winning);
     rf \<leftarrow> Convert2Leader (nodes s (el_cand el));
     Some (set_election e (el\<lparr>el_pc := Returned\<rparr>) (set_node (el_cand el) rf s)
             \<lparr>promoted := insert (currentTerm rf, el_cand el) (promoted s)\<rparr>) }"

inductive reachable :: "nat \<Rightarrow> ('c, 's) cluster \<Rightarrow> bool" for n where
  initial: "reachable n (init_cluster n)"
| step: "reachable n s \<Longrightarrow> cluster_step a s = Some t \<Longrightarrow> reachable n t"

text \<open>
  \<open>Convert2Leader\<close> does not look at the state it finds. A promotion is clean when the
  candidate is still a candidate, in the term whose votes were counted.
\<close>

definition clean :: "('c, 's) action \<Rightarrow> ('c, 's) cluster \<Rightarrow> bool" where
  "clean a s \<longleftrightarrow>
     (case a of
        Promote e \<Rightarrow>
          (case el_of s e of
             Some el \<Rightarrow> state (nodes s (el_cand el)) = Candidate \<and>
                        currentTerm (nodes s (el_cand el)) = el_term el
           | None \<Rightarrow> True)
      | _ \<Rightarrow> True)"

inductive clean_reachable :: "nat \<Rightarrow> ('c, 's) cluster \<Rightarrow> bool" for n where
  clean_initial: "clean_reachable n (init_cluster n)"
| clean_step: "clean_reachable n s \<Longrightarrow> clean a s \<Longrightarrow> cluster_step a s = Some t \<Longrightarrow> clean_reachable n t"

section \<open>The vote invariant\<close>

definition nodes_inv :: "('c, 's) cluster \<Rightarrow> bool" where
  "nodes_inv s \<longleftrightarrow> (\<forall>i. persisted (nodes s i) \<and> me (nodes s i) = i \<and>
     (state (nodes s i) = Candidate \<longrightarrow> (i, currentTerm (nodes s i), i) \<in> granted s))"

definition votes_inv :: "('c, 's) cluster \<Rightarrow> bool" where
  "votes_inv s \<longleftrightarrow>
     (\<forall>j t c. (j, t, c) \<in> granted s \<longrightarrow> t \<le> currentTerm (nodes s j) \<and>
        (t = currentTerm (nodes s j) \<longrightarrow> votedFor (nodes s j) = int c)) \<and>
     (\<forall>j t c c'. (j, t, c) \<in> granted s \<longrightarrow> (j, t, c') \<in> granted s \<longrightarrow> c = c')"

text \<open>
  What the phase of one goroutine says, given the votes \<open>G\<close>: a counted vote was really
  given, and the candidate had voted for itself in that term.
\<close>

definition active :: "nat \<Rightarrow> election \<Rightarrow> nat \<Rightarrow> bool" where
  "active n el j \<longleftrightarrow> j < n \<and> j \<noteq> el_cand el \<and> el_pc el \<noteq> BeforeCopy"

definition voted :: "(nat \<times> int \<times> nat) set \<Rightarrow> election \<Rightarrow> nat \<Rightarrow> bool" where
  "voted G el j \<longleftrightarrow> (j, el_term el, el_cand el) \<in> G \<and> (el_cand el, el_term el, el_cand el) \<in> G"

definition phase_ok :: "nat \<Rightarrow> (nat \<times> int \<times> nat) set \<Rightarrow> election \<Rightarrow> nat \<Rightarrow> phase \<Rightarrow> bool" where
  "phase_ok n G el j p \<longleftrightarrow>
     (case p of
        NotLaunched \<Rightarrow> True
      | Launched \<Rightarrow> active n el j
      | Asked args \<Rightarrow> active n el j \<and> rv_Term args = el_term el \<and>
                      rv_CandidatedId args = int (el_cand el)
      | Checked b \<Rightarrow> active n el j \<and> (b \<longrightarrow> voted G el j)
      | Done b \<Rightarrow> b \<longrightarrow> active n el j \<and> voted G el j)"

definition election_ok :: "nat \<Rightarrow> (nat \<times> int \<times> nat) set \<Rightarrow> election \<Rightarrow> bool" where
  "election_ok n G el \<longleftrightarrow> el_cand el < n \<and> (\<forall>j. phase_ok n G el j (el_phase el j)) \<and>
     el_votes el = 1 + card {j. el_phase el j = Done True} \<and>
     (el_pc el = Winning \<longrightarrow> majorityNum n \<le> el_votes el)"

definition replies_inv :: "('c, 's) cluster \<Rightarrow> bool" where
  "replies_inv s \<longleftrightarrow>
     (\<forall>e j r. (e, j, r) \<in> replies s \<longrightarrow> e < length (elections s) \<and>
        el_pc (elections s ! e) \<noteq> BeforeCopy \<and>
        (rvr_VoteGranted r \<longrightarrow>
          (j, el_term (elections s ! e), el_cand (elections s ! e)) \<in> granted s))"

definition requests_inv :: "('c, 's) cluster \<Rightarrow> bool" where
  "requests_inv s \<longleftrightarrow>
     (\<forall>e j args. (e, j, args) \<in> requests s \<longrightarrow> e < length (elections s) \<and>
        active (nservers s) (elections s ! e) j \<and> rv_Term args = el_term (elections s ! e) \<and>
        rv_CandidatedId args = int (el_cand (elections s ! e)))"

definition cluster_inv :: "('c, 's) cluster \<Rightarrow> bool" where
  "cluster_inv s \<longleftrightarrow> nodes_inv s \<and> votes_inv s \<and> replies_inv s \<and> requests_inv s \<and>
     (\<forall>e < length (elections s). election_ok (nservers s) (granted s) (elections s ! e))"

lemma set_node_simps [simp]:
  "nservers (set_node i rf s) = nservers s" "elections (set_node i rf s) = elections s"
  "requests (set_node i rf s) = requests s"
  "replies (set_node i rf s) = replies s" "granted (set_node i rf s) = granted s"
  "promoted (set_node i rf s) = promoted s" "nodes (set_node i rf s) = (nodes s)(i := rf)"
  by (simp_all add: set_node_def)

lemma set_election_simps [simp]:
  "nservers (set_election e el s) = nservers s" "nodes (set_election e el s) = nodes s"
  "requests (set_election e el s) = requests s"
  "replies (set_election e el s) = replies s" "granted (set_election e el s) = granted s"
  "promoted (set_election e el s) = promoted s"
  "elections (set_election e el s) = (elections s)[e := el]"
  by (simp_all add: set_election_def)

lemma set_phase_simps [simp]:
  "el_cand (set_phase j p el) = el_cand el" "el_term (set_phase j p el) = el_term el"
  "el_votes (set_phase j p el) = el_votes el" "el_pc (set_phase j p el) = el_pc el"
  "el_finished (set_phase j p el) = el_finished el"
  "el_phase (set_phase j p el) = (el_phase el)(j := p)"
  by (simp_all add: set_phase_def)

lemma el_of_Some: "el_of s e = Some el \<longleftrightarrow> e < length (elections s) \<and> el = elections s ! e"
  by (auto simp: el_of_def)

lemma el_of_set_node [simp]: "el_of (set_node i rf s) e = el_of s e"
  by (simp add: el_of_def)

lemma guard_Some [simp]: "guard b = Some u \<longleftrightarrow> b"
  by (simp add: guard_def)

lemma phase_ok_cong:
  "el_cand el' = el_cand el \<Longrightarrow> el_term el' = el_term el \<Longrightarrow>
   (el_pc el' = BeforeCopy \<longleftrightarrow> el_pc el = BeforeCopy) \<Longrightarrow> phase_ok n G el' j p = phase_ok n G el j p"
  by (simp add: phase_ok_def active_def voted_def split: phase.split)

lemma phase_ok_mono: "phase_ok n G el j p \<Longrightarrow> G \<subseteq> G' \<Longrightarrow> phase_ok n G' el j p"
  by (auto simp: phase_ok_def voted_def split: phase.splits)

lemma election_ok_mono: "election_ok n G el \<Longrightarrow> G \<subseteq> G' \<Longrightarrow> election_ok n G' el"
  by (auto simp: election_ok_def intro: phase_ok_mono)

text \<open>A goroutine moves to a phase other than \<open>Done True\<close>; or the main goroutine moves.\<close>

lemma election_ok_phase:
  assumes "election_ok n G el" and "phase_ok n G el j p" and "p \<noteq> Done True" "el_phase el j \<noteq> Done True"
  shows "election_ok n G (set_phase j p el)"
proof -
  have "{k. ((el_phase el)(j := p)) k = Done True} = {k. el_phase el k = Done True}"
    using assms(3,4) by auto
  moreover have "phase_ok n G (set_phase j p el) k q = phase_ok n G el k q" for k q
    by (rule phase_ok_cong) simp_all
  ultimately show ?thesis
    using assms(1,2) unfolding election_ok_def by (auto simp del: One_nat_def)
qed

lemma election_ok_pc:
  assumes "election_ok n G el" and "pc = Winning \<longrightarrow> majorityNum n \<le> el_votes el"
    and "el_pc el \<noteq> BeforeCopy" and "pc \<noteq> BeforeCopy"
  shows "election_ok n G (el\<lparr>el_pc := pc\<rparr>)"
proof -
  have "phase_ok n G (el\<lparr>el_pc := pc\<rparr>) k q = phase_ok n G el k q" for k q
    using assms(3,4) by (intro phase_ok_cong) simp_all
  with assms(1,2) show ?thesis unfolding election_ok_def by auto
qed

lemma election_ok_finite: "election_ok n G el \<Longrightarrow> finite {j. el_phase el j = Done True}"
  by (rule finite_subset [of _ "{..<n}"])
    (force simp: election_ok_def phase_ok_def active_def split: phase.splits)+

lemma election_ok_count:
  assumes ok: "election_ok n G el" and "el_phase el j = Checked vote"
  shows "election_ok n G (set_phase j (Done vote)
           (el\<lparr>el_votes := el_votes el + (if vote then 1 else 0),
               el_finished := el_finished el + 1\<rparr>))" (is "election_ok n G ?el")
proof -
  have same: "phase_ok n G ?el k q = phase_ok n G el k q" for k q
    by (rule phase_ok_cong) simp_all
  have "phase_ok n G el j (Done vote)"
    using assms by (auto simp: election_ok_def phase_ok_def dest: spec [of _ j])
  then have "phase_ok n G el k (((el_phase el)(j := Done vote)) k)" for k
    using ok by (auto simp: election_ok_def)
  then have phases: "\<forall>k. phase_ok n G ?el k (el_phase ?el k)"
    unfolding same by simp
  have "{k. el_phase ?el k = Done True} =
      (if vote then insert j {k. el_phase el k = Done True} else {k. el_phase el k = Done True})"
    using assms(2) by auto
  with ok assms(2) election_ok_finite [OF ok]
  have votes: "el_votes ?el = 1 + card {k. el_phase ?el k = Done True}"
    by (simp add: election_ok_def)
  from ok have "el_cand ?el < n" "el_pc ?el = Winning \<longrightarrow> majorityNum n \<le> el_votes ?el"
    by (auto simp: election_ok_def)
  with phases votes show ?thesis unfolding election_ok_def by blast
qed

lemma election_ok_stop:
  assumes "election_ok n G el"
  shows "election_ok n G (el\<lparr>el_pc := Returned,
     el_phase := (\<lambda>j. case el_phase el j of Done b \<Rightarrow> Done b | _ \<Rightarrow> Done False)\<rparr>)"
proof -
  have "(case p of Done b \<Rightarrow> Done b | _ \<Rightarrow> Done False) = Done True \<longleftrightarrow> p = Done True" for p
    by (cases p) auto
  with assms show ?thesis
    by (auto simp: election_ok_def phase_ok_def active_def voted_def split: phase.splits)
qed

section \<open>Every action keeps the invariant\<close>

text \<open>What an ordinary event, or the \<open>RequestVote\<close> handler, can do to a peer's role.\<close>

definition role_mono :: "('c, 's) Raft \<Rightarrow> ('c, 's) Raft \<Rightarrow> bool" where
  "role_mono rf rf' \<longleftrightarrow> state rf' \<noteq> Follower \<longrightarrow> state rf' = state rf \<and> currentTerm rf' = currentTerm rf"

lemma RequestVote_role: "RequestVote args rf = Some (rf', r) \<Longrightarrow> role_mono rf rf'"
  by (auto simp: role_mono_def RequestVote_def RequestVote_adoptTerm_def Let_def effect_defs
      bind_eq_Some_conv split: if_splits)

lemma AppendEntries_role: "AppendEntries args rf = Some (rf', r) \<Longrightarrow> role_mono rf rf'"
  by (auto dest!: AppendEntries_frame simp: role_mono_def)

lemma CondInstallSnap_role: "CondInstallSnap args rf = Some (rf', r) \<Longrightarrow> role_mono rf rf'"
  by (auto dest!: CondInstallSnap_frame
      simp: role_mono_def InstallSnapFromLeader_def sendApply_def SaveStateAndSnapshot_rf_def)

lemma raft_step_role:
  assumes "raft_step ev rf = Some rf'" and "other_event ev"
  shows "role_mono rf rf'"
proof (cases ev)
  case (HandleAppendEntries args)
  with assms show ?thesis by (auto intro: AppendEntries_role)
next
  case (HandleInstallSnapshot args)
  with assms show ?thesis by (auto intro: CondInstallSnap_role)
next
  case (AppendReply i args reply)
  with assms show ?thesis
    by (auto simp: LeaderAppendEntries_reply_def leaderStepDown_def role_mono_def split: if_splits
        dest!: backtrack_frame success_frame)
next
  case (SnapshotReply i args reply)
  with assms show ?thesis
    by (auto simp: LeaderSendSnapshot_reply_def leaderStepDown_def role_mono_def split: if_splits
        dest!: recordMatch_frame)
next
  case (ServiceSnapshot i snap)
  with assms show ?thesis
    by (auto simp: Snapshot_def Snapshot_trimmed_def SaveStateAndSnapshot_rf_def role_mono_def
        Let_def bind_eq_Some_conv split: if_splits)
next
  case (StartAppend c t b)
  with assms show ?thesis
    by (auto simp: Start_append_def role_mono_def Let_def bind_eq_Some_conv split: if_splits)
next
  case CrashRestart
  with assms show ?thesis
    by (auto simp: role_mono_def Make_def Let_def effect_defs readPersist_def recoverFromSnap_def
        split: option.splits)
qed (use assms in \<open>auto simp: HandleTimeout_fire_def HandleTimeout_ready_def heartbeat_tick_def LeaderAppendEntries_self_def
    SetPassiveSnapshottingFlag_def SetActiveSnapshottingFlag_def role_mono_def
    GetPassiveFlagAndSetActiveFlag_def Kill_def Let_def bind_eq_Some_conv effect_defs
    applier_turn_def applier_send_def recover_send_def
    split: if_splits ServerState.splits option.splits\<close>)

lemma nodes_inv_node:
  assumes "nodes_inv s" and "persisted rf" and "vote_mono (nodes s i) rf" and "role_mono (nodes s i) rf"
    and "granted s \<subseteq> granted s'" and "nodes s' = (nodes s)(i := rf)"
  shows "nodes_inv s'"
  using assms unfolding nodes_inv_def role_mono_def vote_mono_def
  by (auto simp: subset_iff)

lemma votes_inv_node:
  assumes inv: "votes_inv s" and mono: "vote_mono (nodes s i) rf"
    and "granted s' = granted s" and "nodes s' = (nodes s)(i := rf)"
  shows "votes_inv s'"
proof -
  have "t \<le> currentTerm rf \<and> (t = currentTerm rf \<longrightarrow> votedFor rf = int c)"
    if "(i, t, c) \<in> granted s" for t c
  proof -
    from inv that have "t \<le> currentTerm (nodes s i)"
      "t = currentTerm (nodes s i) \<Longrightarrow> votedFor (nodes s i) = int c"
      by (auto simp: votes_inv_def)
    with mono show ?thesis by (auto simp: vote_mono_def)
  qed
  with inv assms(3,4) show ?thesis by (simp add: votes_inv_def)
qed

lemma inv_cong:
  assumes "nodes s' = nodes s" and "granted s' = granted s"
  shows "nodes_inv s' = nodes_inv s" "votes_inv s' = votes_inv s"
  using assms by (simp_all add: nodes_inv_def votes_inv_def)

lemma cluster_inv_node:
  assumes inv: "cluster_inv s" and "persisted rf" and "vote_mono (nodes s i) rf"
    and "role_mono (nodes s i) rf"
  shows "cluster_inv (set_node i rf s)"
proof -
  from inv have "nodes_inv s" "votes_inv s" by (simp_all add: cluster_inv_def)
  with assms have "nodes_inv (set_node i rf s)" "votes_inv (set_node i rf s)"
    by (auto intro: nodes_inv_node [where s = s and i = i] votes_inv_node [where s = s and i = i])
  with inv show ?thesis by (simp add: cluster_inv_def replies_inv_def requests_inv_def)
qed

text \<open>An election past \<open>BeforeCopy\<close> stays there, with its candidate and its term.\<close>

definition same_election :: "election \<Rightarrow> election \<Rightarrow> bool" where
  "same_election el el' \<longleftrightarrow> el_cand el' = el_cand el \<and>
     (el_pc el \<noteq> BeforeCopy \<longrightarrow> el_pc el' \<noteq> BeforeCopy \<and> el_term el' = el_term el)"

lemma same_election_refl [simp]: "same_election el el"
  by (simp add: same_election_def)

lemma requests_inv_keep:
  assumes "requests_inv s" and "requests t = requests s" and "nservers t = nservers s"
    and "length (elections s) \<le> length (elections t)"
    and "\<And>e. e < length (elections s) \<Longrightarrow> same_election (elections s ! e) (elections t ! e)"
  shows "requests_inv t"
  unfolding requests_inv_def
proof (intro allI impI)
  fix e j args assume "(e, j, args) \<in> requests t"
  with assms(1,2) have *: "e < length (elections s)" "active (nservers s) (elections s ! e) j"
    "rv_Term args = el_term (elections s ! e)" "rv_CandidatedId args = int (el_cand (elections s ! e))"
    unfolding requests_inv_def by auto
  with assms(3-4) assms(5) [of e] show "e < length (elections t) \<and>
      active (nservers t) (elections t ! e) j \<and> rv_Term args = el_term (elections t ! e) \<and>
      rv_CandidatedId args = int (el_cand (elections t ! e))"
    by (simp add: same_election_def active_def)
qed

lemma requests_inv_set:
  assumes "requests_inv s" and "same_election (elections s ! e) el'"
  shows "requests_inv (set_election e el' s)"
proof (rule requests_inv_keep [OF assms(1)])
  show "same_election (elections s ! k) (elections (set_election e el' s) ! k)"
    if "k < length (elections s)" for k
    using that assms(2) by (cases "k = e") simp_all
qed simp_all

lemma cluster_inv_election:
  assumes inv: "cluster_inv s" and "el_of s e = Some el"
    and "el_cand el' = el_cand el" and "el_term el' = el_term el"
    and "el_pc el' = BeforeCopy \<longleftrightarrow> el_pc el = BeforeCopy"
    and "election_ok (nservers s) (granted s) el'"
  shows "cluster_inv (set_election e el' s)"
proof -
  have "nodes_inv (set_election e el' s) = nodes_inv s"
    "votes_inv (set_election e el' s) = votes_inv s"
    by (rule inv_cong; simp)+
  moreover have "requests_inv (set_election e el' s)"
    using assms by (intro requests_inv_set) (auto simp: cluster_inv_def el_of_Some same_election_def)
  ultimately show ?thesis
    using assms by (auto simp: cluster_inv_def replies_inv_def el_of_Some nth_list_update)
qed

lemma inv_election: "cluster_inv s \<Longrightarrow> el_of s e = Some el \<Longrightarrow> election_ok (nservers s) (granted s) el"
  by (auto simp: cluster_inv_def el_of_Some)

lemma inv_phase:
  "cluster_inv s \<Longrightarrow> el_of s e = Some el \<Longrightarrow> phase_ok (nservers s) (granted s) el j (el_phase el j)"
  by (auto dest: inv_election simp: election_ok_def)

lemma inv_node: "cluster_inv s \<Longrightarrow> persisted (nodes s i) \<and> me (nodes s i) = i"
  by (simp add: cluster_inv_def nodes_inv_def)

lemma inv_candidate:
  "cluster_inv s \<Longrightarrow> state (nodes s i) = Candidate \<Longrightarrow> (i, currentTerm (nodes s i), i) \<in> granted s"
  by (simp add: cluster_inv_def nodes_inv_def)

lemma inv_init: "cluster_inv (init_cluster n)"
  by (simp add: cluster_inv_def nodes_inv_def votes_inv_def replies_inv_def requests_inv_def
      init_cluster_def persisted_Make) (simp add: Make_def Let_def effect_defs readPersist_def recoverFromSnap_def raft_defs)

lemma inv_Begin:
  assumes inv: "cluster_inv s" and "i < nservers s"
  shows "cluster_inv (begin_election i s)"
proof -
  define rf where "rf = Convert2Candidate (nodes s i)"
  define t where "t = begin_election i s"
  have rf: "currentTerm rf = currentTerm (nodes s i) + 1" "votedFor rf = int i" "me rf = i"
    "persisted rf" "state rf = Candidate"
    using inv_node [OF inv, of i] by (simp_all add: rf_def Convert2Candidate_def)
  have t: "nodes t = (nodes s)(i := rf)" "granted t = insert (i, currentTerm rf, i) (granted s)"
    "replies t = replies s" "requests t = requests s" "nservers t = nservers s"
    by (simp_all add: t_def begin_election_def Let_def rf_def)
  have "nodes_inv t"
    using inv rf by (auto simp: nodes_inv_def t cluster_inv_def)
  moreover have "votes_inv t"
  proof -
    have old: "t' \<le> currentTerm (nodes s j)" if "(j, t', c) \<in> granted s" for j t' c
      using inv that by (auto simp: cluster_inv_def votes_inv_def)
    have "t' < currentTerm rf" if "(i, t', c) \<in> granted s" for t' c
      using old [OF that] rf(1) by simp
    with inv rf(2) show ?thesis
      by (fastforce simp: votes_inv_def t cluster_inv_def)
  qed
  moreover have "elections t ! e = elections s ! e" "e < length (elections t)"
    if "e < length (elections s)" for e
    using that by (simp_all add: t_def begin_election_def Let_def nth_append)
  then have "replies_inv t" "requests_inv t"
    using inv unfolding replies_inv_def requests_inv_def cluster_inv_def t by (metis insertCI)+
  moreover have "election_ok (nservers s) (granted t) (elections t ! e)"
    if "e < length (elections t)" for e
  proof (cases "e < length (elections s)")
    case True
    with inv have "election_ok (nservers s) (granted s) (elections t ! e)"
      by (simp add: cluster_inv_def t_def begin_election_def Let_def nth_append)
    then show ?thesis by (rule election_ok_mono) (auto simp: t)
  next
    case False
    with that assms(2) show ?thesis
      by (simp add: t_def begin_election_def Let_def nth_append election_ok_def phase_ok_def)
  qed
  ultimately show ?thesis unfolding t_def [symmetric] by (simp add: cluster_inv_def t)
qed

lemma inv_request:
  assumes "cluster_inv s" and "e < length (elections s)" "active (nservers s) (elections s ! e) j"
    "rv_Term args = el_term (elections s ! e)" "rv_CandidatedId args = int (el_cand (elections s ! e))"
  shows "cluster_inv (s\<lparr>requests := insert (e, j, args) (requests s)\<rparr>)"
proof -
  let ?t = "s\<lparr>requests := insert (e, j, args) (requests s)\<rparr>"
  have "nodes_inv ?t = nodes_inv s" "votes_inv ?t = votes_inv s" by (rule inv_cong; simp)+
  with assms show ?thesis by (auto simp: cluster_inv_def replies_inv_def requests_inv_def)
qed

lemma inv_Copy:
  assumes inv: "cluster_inv s" and el: "el_of s e = Some el" and pc: "el_pc el = BeforeCopy"
  shows "cluster_inv (set_election e (el\<lparr>el_term := T, el_pc := Evaluating\<rparr>) s)"
proof -
  let ?el = "el\<lparr>el_term := T, el_pc := Evaluating\<rparr>"
  have "phase_ok (nservers s) (granted s) ?el j (el_phase el j)" for j
    using inv_phase [OF inv el, of j] pc
    by (auto simp: phase_ok_def active_def split: phase.splits)
  with inv_election [OF inv el] have "election_ok (nservers s) (granted s) ?el"
    by (simp add: election_ok_def)
  moreover have "nodes_inv (set_election e ?el s) = nodes_inv s"
    "votes_inv (set_election e ?el s) = votes_inv s"
    by (rule inv_cong; simp)+
  moreover have "requests_inv (set_election e ?el s)"
    using inv el pc by (intro requests_inv_set) (auto simp: cluster_inv_def el_of_Some same_election_def)
  ultimately show ?thesis
    using inv el pc by (auto simp: cluster_inv_def replies_inv_def el_of_Some nth_list_update)
qed

lemma inv_Deliver:
  assumes inv: "cluster_inv s" and "act_deliver e j args s = Some t"
  shows "cluster_inv t"
proof -
  from assms(2) obtain el rf r where el: "el_of s e = Some el" "(e, j, args) \<in> requests s"
    and rv: "RequestVote args (nodes s j) = Some (rf, r)"
    and t: "t = set_node j rf s\<lparr>replies := insert (e, j, r) (replies s),
           granted := (if rvr_VoteGranted r then insert (j, rv_Term args, el_cand el) (granted s)
                       else granted s)\<rparr>"
    by (auto simp: act_deliver_def bind_eq_Some_conv split del: if_split)
  have ph: "active (nservers s) el j" "rv_Term args = el_term el" "rv_CandidatedId args = int (el_cand el)"
    using inv el by (auto simp: cluster_inv_def requests_inv_def el_of_Some)
  have mono: "vote_mono (nodes s j) rf" "role_mono (nodes s j) rf" "persisted rf"
    using RequestVote_vote_mono [OF rv] RequestVote_role [OF rv] RequestVote_persisted [OF _ rv]
      inv_node [OF inv] by auto
  have base: "cluster_inv (set_node j rf s)"
    by (rule cluster_inv_node [OF inv mono(3,1,2)])
  have G: "granted s \<subseteq> granted t" by (auto simp: t)
  have "nodes_inv t"
    by (rule nodes_inv_node [where s = s and i = j and rf = rf])
      (use inv mono in \<open>auto simp: cluster_inv_def t\<close>)
  moreover have "votes_inv t"
  proof (cases "rvr_VoteGranted r")
    case True
    from RequestVote_granted [OF rv True] ph
    have new: "votedFor rf = int (el_cand el)" "currentTerm rf = rv_Term args" by simp_all
    from base have old: "t' \<le> currentTerm rf \<and> (t' = currentTerm rf \<longrightarrow> votedFor rf = int c)"
      if "(j, t', c) \<in> granted s" for t' c
      using that by (fastforce simp: cluster_inv_def votes_inv_def)
    have "c = el_cand el" if "(j, rv_Term args, c) \<in> granted s" for c
      using old [OF that] new by simp
    with base new True show ?thesis
      by (auto simp: cluster_inv_def votes_inv_def t)
  next
    case False
    with base show ?thesis by (simp add: cluster_inv_def votes_inv_def t)
  qed
  moreover have "replies_inv t"
    using inv el ph by (auto simp: cluster_inv_def replies_inv_def requests_inv_def t el_of_Some active_def)
  moreover have "requests_inv t"
    using inv by (simp add: cluster_inv_def requests_inv_def t)
  moreover have "\<forall>e < length (elections t). election_ok (nservers t) (granted t) (elections t ! e)"
    using inv G by (auto simp: cluster_inv_def t intro: election_ok_mono)
  ultimately show ?thesis by (simp add: cluster_inv_def)
qed

lemma stop_elections_nth:
  "e < length es \<Longrightarrow> el_cand (stop_elections i es ! e) = el_cand (es ! e) \<and>
     el_term (stop_elections i es ! e) = el_term (es ! e) \<and>
     el_votes (stop_elections i es ! e) = el_votes (es ! e) \<and>
     (el_pc (es ! e) \<noteq> BeforeCopy \<longrightarrow> el_pc (stop_elections i es ! e) \<noteq> BeforeCopy)"
  by (simp add: stop_elections_def)

lemma stop_elections_length [simp]: "length (stop_elections i es) = length es"
  by (simp add: stop_elections_def)

lemma inv_stop:
  assumes inv: "cluster_inv s"
  shows "cluster_inv (s\<lparr>elections := stop_elections i (elections s)\<rparr>)"
proof -
  have "election_ok (nservers s) (granted s) (stop_elections i (elections s) ! e)"
    if "e < length (elections s)" for e
    using inv that by (simp add: cluster_inv_def stop_elections_def election_ok_stop)
  moreover have "nodes_inv (s\<lparr>elections := es\<rparr>) = nodes_inv s"
    "votes_inv (s\<lparr>elections := es\<rparr>) = votes_inv s" for es
    by (rule inv_cong; simp)+
  moreover have "requests_inv (s\<lparr>elections := stop_elections i (elections s)\<rparr>)"
    by (rule requests_inv_keep [of s])
      (use inv in \<open>simp_all add: cluster_inv_def same_election_def stop_elections_nth\<close>)
  ultimately show ?thesis
    using inv by (auto simp: cluster_inv_def replies_inv_def stop_elections_nth)
qed

lemma inv_Peer:
  assumes inv: "cluster_inv s" and "cluster_step (Peer i ev) s = Some t"
  shows "cluster_inv t"
proof -
  from assms(2) obtain rf where ev: "other_event ev" "raft_step ev (nodes s i) = Some rf"
    and t: "t = set_node i rf s \<or>
      t = set_node i rf s\<lparr>elections := stop_elections i (elections (set_node i rf s))\<rparr>"
    by (auto simp: bind_eq_Some_conv set_node_def split: if_splits)
  have "cluster_inv (set_node i rf s)"
    using inv_node [OF inv] ev
    by (intro cluster_inv_node [OF inv]) (auto intro: raft_step_persisted raft_step_vote_mono raft_step_role)
  with t inv_stop [OF this] show ?thesis by auto
qed

lemma RunForElection_reply_facts:
  assumes "RunForElection_reply args r rf = (rf', a)" and "persisted rf"
  shows "persisted rf' \<and> vote_mono rf rf' \<and> role_mono rf rf' \<and>
    (\<forall>b. a = Counted b \<longrightarrow> rf' = rf \<and> state rf = Candidate \<and> currentTerm rf = rv_Term args \<and>
       b = rvr_VoteGranted r)"
  using assms
  by (auto simp: RunForElection_reply_def role_mono_def vote_mono_def effect_defs split: if_splits)

lemma inv_Reply:
  assumes inv: "cluster_inv s" and "act_reply e j r s = Some t"
  shows "cluster_inv t"
proof -
  from assms(2) obtain el where el1: "el_of s e = Some el" "r = zero_rvr \<or> (e, j, r) \<in> replies s"
    by (auto simp: act_reply_def bind_eq_Some_conv)
  define rf where "rf = nodes s (el_cand el)"
  from assms(2) el1 obtain args rf' a where el2: "el_phase el j = Asked args"
    and rp: "RunForElection_reply args r rf = (rf', a)"
    and t: "t = set_election e (set_phase j (case a of Counted b \<Rightarrow> Checked b | _ \<Rightarrow> Done False) el)
                    (set_node (el_cand el) rf' s)"
    by (cases "el_phase el j") (auto simp: act_reply_def rf_def guard_def split: prod.splits)
  have per: "persisted rf" "me rf = el_cand el" using inv_node [OF inv] by (simp_all add: rf_def)
  note facts = RunForElection_reply_facts [OF rp per(1)]
  have base: "cluster_inv (set_node (el_cand el) rf' s)"
    using facts by (intro cluster_inv_node [OF inv]) (simp_all add: rf_def)
  let ?p = "case a of Counted b \<Rightarrow> Checked b | _ \<Rightarrow> Done False"
  have ph: "active (nservers s) el j" "rv_Term args = el_term el"
    using inv_phase [OF inv el1(1), of j] el2 by (simp_all add: phase_ok_def)
  have "voted (granted s) el j" if "a = Counted b" "b" for b
  proof -
    from facts that have f: "state rf = Candidate" "currentTerm rf = rv_Term args"
      "rvr_VoteGranted r" by auto
    from inv_candidate [OF inv, of "el_cand el"] f(1,2) ph(2)
    have "(el_cand el, el_term el, el_cand el) \<in> granted s" by (simp add: rf_def)
    moreover have "(j, el_term el, el_cand el) \<in> granted s"
      using el1 f(3) inv by (auto simp: cluster_inv_def replies_inv_def requests_inv_def el_of_Some zero_rvr_def)
    ultimately show ?thesis by (simp add: voted_def)
  qed
  with ph have "phase_ok (nservers s) (granted s) el j ?p"
    by (auto simp: phase_ok_def split: vote_action.split)
  then have "election_ok (nservers s) (granted s) (set_phase j ?p el)"
    using inv_election [OF inv el1(1)] el2
    by (intro election_ok_phase) (auto split: vote_action.splits)
  moreover have "el_of (set_node (el_cand el) rf' s) e = Some el"
    using el1(1) by simp
  ultimately show ?thesis
    unfolding t by (intro cluster_inv_election [OF base]) simp_all
qed

lemma Convert2Leader_facts:
  assumes "Convert2Leader rf = Some rf'"
  shows "state rf' = Leader \<and> currentTerm rf' = currentTerm rf \<and> vote_mono rf rf' \<and>
    persisted rf' = persisted rf \<and> me rf' = me rf"
  using assms by (auto simp: Convert2Leader_def bind_eq_Some_conv vote_mono_def)

lemma inv_Promote:
  assumes inv: "cluster_inv s" and "cluster_step (Promote e) s = Some t"
  shows "cluster_inv t"
proof -
  from assms(2) obtain el rf where el: "el_of s e = Some el" "el_pc el = Winning"
    and rf: "Convert2Leader (nodes s (el_cand el)) = Some rf"
    and t: "t = set_election e (el\<lparr>el_pc := Returned\<rparr>) (set_node (el_cand el) rf s)
             \<lparr>promoted := insert (currentTerm rf, el_cand el) (promoted s)\<rparr>"
    by (auto simp: bind_eq_Some_conv)
  note facts = Convert2Leader_facts [OF rf]
  let ?s = "set_node (el_cand el) rf s"
  from inv facts have "nodes_inv ?s" "votes_inv ?s"
    by (auto simp: cluster_inv_def nodes_inv_def
        intro: votes_inv_node [where s = s and i = "el_cand el"])
  then have "cluster_inv ?s" using inv by (simp add: cluster_inv_def replies_inv_def requests_inv_def)
  moreover have "election_ok (nservers s) (granted s) (el\<lparr>el_pc := Returned\<rparr>)"
    using inv_election [OF inv el(1)] el(2) by (intro election_ok_pc) auto
  ultimately have "cluster_inv (set_election e (el\<lparr>el_pc := Returned\<rparr>) ?s)"
    using el by (intro cluster_inv_election [of ?s e el]) auto
  then show ?thesis
    by (simp add: t cluster_inv_def nodes_inv_def votes_inv_def replies_inv_def requests_inv_def)
qed

lemma cluster_step_inv:
  assumes inv: "cluster_inv s" and step: "cluster_step a s = Some t"
  shows "cluster_inv t"
proof (cases a)
  case (Peer i ev)
  with step inv show ?thesis by (blast intro: inv_Peer)
next
  case (Begin i)
  with step inv show ?thesis by (auto simp: bind_eq_Some_conv intro: inv_Begin)
next
  case (Copy e)
  with step obtain el where el: "el_of s e = Some el" "el_pc el = BeforeCopy"
    by (auto simp: bind_eq_Some_conv)
  obtain rf T where rf: "RunForElection_copyTerm (nodes s (el_cand el)) = (rf, T)" by fastforce
  with Copy step el have
    t: "t = set_election e (el\<lparr>el_term := T, el_pc := Evaluating\<rparr>) (set_node (el_cand el) rf s)"
    by (simp add: guard_def)
  have "cluster_inv (set_node (el_cand el) rf s)"
    using rf inv_node [OF inv]
    by (intro cluster_inv_node [OF inv])
      (auto simp: RunForElection_copyTerm_def vote_mono_def role_mono_def)
  with el t show ?thesis by (auto intro: inv_Copy)
next
  case (Launch e j)
  with step obtain el where el: "el_of s e = Some el" "el_pc el = Evaluating"
      "el_phase el j = NotLaunched" "j < nservers s" "j \<noteq> el_cand el"
    and t: "t = set_election e (set_phase j Launched el) s"
    by (auto simp: bind_eq_Some_conv)
  have "election_ok (nservers s) (granted s) (set_phase j Launched el)"
    using inv_election [OF inv el(1)] el by (intro election_ok_phase) (auto simp: phase_ok_def active_def)
  with t el show ?thesis by (auto intro!: cluster_inv_election [OF inv el(1)])
next
  case (Ask e j)
  with step obtain el args where el: "el_of s e = Some el" "el_phase el j = Launched"
    and args: "RunForElection_args (el_term el) (nodes s (el_cand el)) = Some args"
    and t: "t = set_election e (set_phase j (Asked args) el) s\<lparr>requests := insert (e, j, args) (requests s)\<rparr>"
    by (auto simp: bind_eq_Some_conv)
  have a: "rv_Term args = el_term el" "rv_CandidatedId args = int (el_cand el)"
    using args inv_node [OF inv] by (auto simp: RunForElection_args_def bind_eq_Some_conv)
  have ac: "active (nservers s) el j"
    using inv_phase [OF inv el(1), of j] el(2) by (simp add: phase_ok_def)
  from a ac have "election_ok (nservers s) (granted s) (set_phase j (Asked args) el)"
    using inv_election [OF inv el(1)] el by (intro election_ok_phase) (auto simp: phase_ok_def)
  with el have "cluster_inv (set_election e (set_phase j (Asked args) el) s)"
    by (auto intro!: cluster_inv_election [OF inv el(1)])
  from inv_request [OF this, of e j args] a ac el show ?thesis
    by (simp add: t el_of_Some active_def)
next
  case (Deliver e j args)
  with step inv show ?thesis by (auto intro: inv_Deliver)
next
  case (Reply e j r)
  with step inv show ?thesis by (auto intro: inv_Reply)
next
  case (Count e j)
  with step obtain el where el: "el_of s e = Some el" by (auto simp: bind_eq_Some_conv)
  with Count step obtain vote where ph: "el_phase el j = Checked vote"
    and t: "t = set_election e (set_phase j (Done vote)
                 (el\<lparr>el_votes := el_votes el + (if vote then 1 else 0),
                     el_finished := el_finished el + 1\<rparr>)) s"
    by (cases "el_phase el j") auto
  from election_ok_count [OF inv_election [OF inv el] ph]
  show ?thesis unfolding t by (intro cluster_inv_election [OF inv el]) simp_all
next
  case (Evaluate e)
  with step obtain el where el: "el_of s e = Some el" "el_pc el = Evaluating"
    and t: "t = set_election e (el\<lparr>el_pc :=
       (case RunForElection_wait (nservers s) (el_votes el) (el_finished el) None of
          KeepsWaiting \<Rightarrow> Waiting | Wins \<Rightarrow> Winning | _ \<Rightarrow> Returned)\<rparr>) s" (is "t = set_election e (el\<lparr>el_pc := ?pc\<rparr>) s")
    by (auto simp: bind_eq_Some_conv)
  have pc: "?pc \<noteq> BeforeCopy" "?pc = Winning \<longrightarrow> majorityNum (nservers s) \<le> el_votes el"
    by (auto simp: RunForElection_wait_def)
  then have "election_ok (nservers s) (granted s) (el\<lparr>el_pc := ?pc\<rparr>)"
    using inv_election [OF inv el(1)] el by (intro election_ok_pc) auto
  then show ?thesis unfolding t by (intro cluster_inv_election [OF inv el(1)]) (use el pc in auto)
next
  case (Wake e)
  with step obtain el where el: "el_of s e = Some el" "el_pc el = Waiting"
    and t: "t = set_election e (el\<lparr>el_pc :=
       (if state (nodes s (el_cand el)) = Candidate then Evaluating else Returned)\<rparr>) s"
      (is "t = set_election e (el\<lparr>el_pc := ?pc\<rparr>) s")
    by (auto simp: bind_eq_Some_conv)
  have pc: "?pc \<noteq> BeforeCopy" "?pc \<noteq> Winning" by auto
  then have "election_ok (nservers s) (granted s) (el\<lparr>el_pc := ?pc\<rparr>)"
    using inv_election [OF inv el(1)] el by (intro election_ok_pc) auto
  then show ?thesis unfolding t by (intro cluster_inv_election [OF inv el(1)]) (use el pc in auto)
next
  case (Promote e)
  with step inv show ?thesis by (blast intro: inv_Promote)
qed

interpretation cluster: step_machine cluster_step cluster_inv
  by unfold_locales (rule cluster_step_inv)

lemma reachable_run:
  assumes "run_steps cluster_step acts s = Some t" and "reachable n s"
  shows "reachable n t"
  using assms
proof (induction acts arbitrary: s)
  case (Cons a acts)
  then show ?case by (auto simp: bind_eq_Some_conv intro: reachable.step)
qed simp

lemma reachable_inv: "reachable n s \<Longrightarrow> cluster_inv s"
  by (induction rule: reachable.induct) (auto intro: inv_init cluster.step_inv)

lemma clean_reachable_reachable: "clean_reachable n s \<Longrightarrow> reachable n s"
  by (induction rule: clean_reachable.induct) (auto intro: reachable.intros)

section \<open>Two majorities in one term\<close>

interpretation majority:
  quorum_system "{..<n}" "\<lambda>Q. Q \<subseteq> {..<n} \<and> majorityNum n \<le> card Q" for n
proof unfold_locales
  fix Q Q' assume "Q \<subseteq> {..<n} \<and> majorityNum n \<le> card Q" "Q' \<subseteq> {..<n} \<and> majorityNum n \<le> card Q'"
  then show "Q \<inter> Q' \<noteq> {}"
    using majority_meet [of "{..<n}" Q Q'] by (simp add: majorityNum_def)
qed simp

text \<open>The voters of an election that has a majority, the candidate included.\<close>

lemma winner_voters:
  assumes ok: "election_ok n G el" and maj: "majorityNum n \<le> el_votes el" and "2 \<le> n"
  obtains Q where "Q \<subseteq> {..<n} \<and> majorityNum n \<le> card Q"
    and "\<And>j. j \<in> Q \<Longrightarrow> (j, el_term el, el_cand el) \<in> G"
proof -
  let ?D = "{j. el_phase el j = Done True}"
  have "voted G el j \<and> j < n \<and> j \<noteq> el_cand el" if "j \<in> ?D" for j
  proof -
    from ok have "phase_ok n G el j (el_phase el j)" by (simp add: election_ok_def)
    with that show ?thesis by (simp add: phase_ok_def active_def)
  qed
  note voters = this
  have fin: "finite ?D" by (rule election_ok_finite [OF ok])
  have votes: "el_votes el = Suc (card ?D)" using ok by (simp add: election_ok_def)
  have "el_cand el \<notin> ?D" using voters by blast
  with fin votes have card: "card (insert (el_cand el) ?D) = el_votes el" by simp
  have "2 \<le> majorityNum n" using \<open>2 \<le> n\<close> by (simp add: majorityNum_def)
  with maj votes have "card ?D \<noteq> 0" by linarith
  then obtain k where "k \<in> ?D" by (metis (no_types, lifting) card.empty ex_in_conv)
  with voters have self: "(el_cand el, el_term el, el_cand el) \<in> G" by (auto simp: voted_def)
  show thesis
  proof (rule that)
    show "insert (el_cand el) ?D \<subseteq> {..<n} \<and> majorityNum n \<le> card (insert (el_cand el) ?D)"
      using voters ok maj card by (auto simp: election_ok_def)
    show "(j, el_term el, el_cand el) \<in> G" if "j \<in> insert (el_cand el) ?D" for j
      using that voters self by (auto simp: voted_def)
  qed
qed

lemma one_winner_per_term:
  assumes "cluster_inv s" and el: "el_of s e = Some el" and el': "el_of s e' = Some el'"
    and "majorityNum (nservers s) \<le> el_votes el" and "majorityNum (nservers s) \<le> el_votes el'"
    and same: "el_term el = el_term el'"
  shows "el_cand el = el_cand el'"
proof (cases "2 \<le> nservers s")
  case True
  from winner_voters [OF inv_election [OF assms(1) el] assms(4) True]
  obtain Q where Q: "Q \<subseteq> {..<nservers s} \<and> majorityNum (nservers s) \<le> card Q"
    "\<And>j. j \<in> Q \<Longrightarrow> (j, el_term el, el_cand el) \<in> granted s" by blast
  from winner_voters [OF inv_election [OF assms(1) el'] assms(5) True]
  obtain Q' where Q': "Q' \<subseteq> {..<nservers s} \<and> majorityNum (nservers s) \<le> card Q'"
    "\<And>j. j \<in> Q' \<Longrightarrow> (j, el_term el', el_cand el') \<in> granted s" by blast
  show ?thesis
    by (rule majority.quorums_agree [OF Q(1) Q'(1), where backs = "\<lambda>j c. (j, el_term el, c) \<in> granted s"])
      (use Q(2) Q'(2) same assms(1) in \<open>auto simp: cluster_inv_def votes_inv_def\<close>)
next
  case False
  then show ?thesis
    using inv_election [OF assms(1) el] inv_election [OF assms(1) el']
    by (auto simp: election_ok_def)
qed

section \<open>Leaders\<close>

text \<open>How a step may change an election that is past \<open>BeforeCopy\<close>.\<close>

definition won :: "('c, 's) cluster \<Rightarrow> int \<Rightarrow> nat \<Rightarrow> bool" where
  "won s t i \<longleftrightarrow> (\<exists>el \<in> set (elections s). el_term el = t \<and> el_cand el = i \<and>
     el_pc el \<noteq> BeforeCopy \<and> majorityNum (nservers s) \<le> el_votes el)"

lemma won_el_of:
  "won s t i \<longleftrightarrow> (\<exists>e el. el_of s e = Some el \<and> el_term el = t \<and> el_cand el = i \<and>
     el_pc el \<noteq> BeforeCopy \<and> majorityNum (nservers s) \<le> el_votes el)"
  by (fastforce simp: won_def el_of_Some in_set_conv_nth Bex_def)

text \<open>A promotion is the only step that makes a leader, and it records it.\<close>

definition election_mono :: "election \<Rightarrow> election \<Rightarrow> bool" where
  "election_mono el el' \<longleftrightarrow> el_cand el' = el_cand el \<and> el_votes el \<le> el_votes el' \<and>
     (el_pc el \<noteq> BeforeCopy \<longrightarrow> el_pc el' \<noteq> BeforeCopy \<and> el_term el' = el_term el)"

definition elections_mono :: "('c, 's) cluster \<Rightarrow> ('c, 's) cluster \<Rightarrow> bool" where
  "elections_mono s t \<longleftrightarrow> nservers t = nservers s \<and>
     (\<forall>e el. el_of s e = Some el \<longrightarrow> (\<exists>el'. el_of t e = Some el' \<and> election_mono el el'))"

lemma election_mono_refl [simp]: "election_mono el el"
  by (simp add: election_mono_def)

lemma elections_mono_set:
  assumes "el_of s e = Some el" and "elections t = (elections s)[e := el']"
    and "nservers t = nservers s" and "election_mono el el'"
  shows "elections_mono s t"
  using assms by (auto simp: elections_mono_def el_of_def nth_list_update split: if_splits)

lemma won_mono: "elections_mono s t \<Longrightarrow> won s T i \<Longrightarrow> won t T i"
  unfolding won_el_of elections_mono_def election_mono_def by (metis order_trans)

lemma cluster_step_elections_mono: "cluster_step a s = Some t \<Longrightarrow> elections_mono s t"
proof (cases a)
  case (Peer i ev)
  assume "cluster_step a s = Some t"
  with Peer show ?thesis
    by (cases "ev = CrashRestart")
      (auto simp: bind_eq_Some_conv elections_mono_def el_of_def stop_elections_nth
        election_mono_def split: if_splits)
next
  case (Begin i)
  assume "cluster_step a s = Some t"
  with Begin show ?thesis
    by (auto simp: bind_eq_Some_conv elections_mono_def el_of_def begin_election_def Let_def
        nth_append)
next
  case (Reply e j r)
  assume step: "cluster_step a s = Some t"
  with Reply obtain el where el: "el_of s e = Some el" by (auto simp: act_reply_def bind_eq_Some_conv)
  with el step Reply show ?thesis
    by (cases "el_phase el j") (auto simp: act_reply_def bind_eq_Some_conv
        intro!: elections_mono_set [OF el] simp: election_mono_def split: prod.splits)
next
  case (Deliver e j args)
  assume "cluster_step a s = Some t"
  with Deliver show ?thesis
    by (auto simp: act_deliver_def bind_eq_Some_conv elections_mono_def el_of_def)
next
  case (Count e j)
  assume step: "cluster_step a s = Some t"
  with Count obtain el where el: "el_of s e = Some el" by (auto simp: bind_eq_Some_conv)
  with el step Count show ?thesis
    by (cases "el_phase el j") (auto intro!: elections_mono_set [OF el] simp: election_mono_def)
next
  case (Evaluate e)
  assume step: "cluster_step a s = Some t"
  have pc: "(case x of KeepsWaiting \<Rightarrow> Waiting | Wins \<Rightarrow> Winning | _ \<Rightarrow> Returned) \<noteq> BeforeCopy" for x
    by (cases x) simp_all
  from step Evaluate obtain el where el: "el_of s e = Some el" by (auto simp: bind_eq_Some_conv)
  with step Evaluate pc show ?thesis
    by (auto simp: bind_eq_Some_conv election_mono_def intro!: elections_mono_set [OF el])
next
  case (Copy e)
  assume step: "cluster_step a s = Some t"
  with Copy obtain el where el: "el_of s e = Some el" by (auto simp: bind_eq_Some_conv)
  with step Copy show ?thesis
    by (auto simp: bind_eq_Some_conv election_mono_def RunForElection_copyTerm_def
        intro!: elections_mono_set [OF el])
qed (fastforce simp: bind_eq_Some_conv election_mono_def intro: elections_mono_set)+

definition leaders_inv :: "('c, 's) cluster \<Rightarrow> bool" where
  "leaders_inv s \<longleftrightarrow>
     (\<forall>i. state (nodes s i) = Leader \<longrightarrow> (currentTerm (nodes s i), i) \<in> promoted s) \<and>
     (\<forall>t i. (t, i) \<in> promoted s \<longrightarrow> won s t i)"

lemma step_promoted:
  assumes "cluster_step a s = Some t"
  shows "promoted s \<subseteq> promoted t \<and>
    (\<forall>T i. (T, i) \<in> promoted t \<longrightarrow> (T, i) \<in> promoted s \<or>
      (\<exists>e el. a = Promote e \<and> el_of s e = Some el \<and> el_pc el = Winning \<and> i = el_cand el \<and>
         T = currentTerm (nodes s i)))"
proof (cases a)
  case (Promote e)
  with assms show ?thesis
    by (auto simp: bind_eq_Some_conv dest!: Convert2Leader_facts)
next
  case (Reply e j r)
  with assms obtain el where "el_of s e = Some el" by (auto simp: act_reply_def bind_eq_Some_conv)
  with Reply assms show ?thesis
    by (cases "el_phase el j") (auto simp: act_reply_def bind_eq_Some_conv split: prod.splits)
next
  case (Deliver e j args)
  with assms show ?thesis by (auto simp: act_deliver_def bind_eq_Some_conv)
next
  case (Count e j)
  with assms obtain el where "el_of s e = Some el" by (auto simp: bind_eq_Some_conv)
  with Count assms show ?thesis
    by (cases "el_phase el j") auto
qed (use assms in \<open>auto simp: bind_eq_Some_conv begin_election_def Let_def RunForElection_copyTerm_def\<close>)

lemma role_mono_leader:
  "role_mono rf rf' \<Longrightarrow> state rf' = Leader \<Longrightarrow> state rf = Leader \<and> currentTerm rf' = currentTerm rf"
  by (auto simp: role_mono_def)

lemma step_leader:
  assumes step: "cluster_step a s = Some t" and inv: "cluster_inv s"
    and leader: "state (nodes t i) = Leader"
  shows "state (nodes s i) = Leader \<and> currentTerm (nodes t i) = currentTerm (nodes s i) \<or>
    (currentTerm (nodes t i), i) \<in> promoted t"
proof (cases a)
  case (Peer k ev)
  with step obtain rf where rf: "raft_step ev (nodes s k) = Some rf" "other_event ev"
    and t: "nodes t = (nodes s)(k := rf)"
    by (auto simp del: raft_step.simps simp: bind_eq_Some_conv)
  from leader role_mono_leader [OF raft_step_role [OF rf]] show ?thesis
    by (cases "i = k") (simp_all add: t)
next
  case (Begin k)
  with step leader show ?thesis
    by (auto simp: bind_eq_Some_conv begin_election_def Let_def Convert2Candidate_def
        split: if_split_asm)
next
  case (Copy e)
  with step leader show ?thesis
    by (auto simp: bind_eq_Some_conv RunForElection_copyTerm_def split: if_split_asm)
next
  case (Reply e j r)
  with step obtain el where el: "el_of s e = Some el" by (auto simp: act_reply_def bind_eq_Some_conv)
  have rm: "role_mono (nodes s k) rf'" if "RunForElection_reply args r (nodes s k) = (rf', b)"
    for args k rf' b
    using RunForElection_reply_facts [OF that] inv_node [OF inv, of k] by simp
  from el Reply step leader show ?thesis
    by (cases "el_phase el j") (auto simp: act_reply_def bind_eq_Some_conv split: if_split_asm prod.splits
        dest!: rm dest: role_mono_leader)
next
  case (Deliver e j args)
  with step leader show ?thesis
    by (auto simp: act_deliver_def bind_eq_Some_conv split: if_split_asm prod.splits
        dest!: role_mono_leader [OF RequestVote_role])
next
  case (Promote e)
  with step leader show ?thesis
    by (auto simp: bind_eq_Some_conv dest!: Convert2Leader_facts split: if_split_asm)
next
  case (Count e j)
  with step obtain el where "el_of s e = Some el" by (auto simp: bind_eq_Some_conv)
  with Count step leader show ?thesis
    by (cases "el_phase el j") auto
qed (use step leader in \<open>auto simp: bind_eq_Some_conv\<close>)

lemma leaders_inv_step:
  assumes inv: "cluster_inv s" "leaders_inv s" and "clean a s" and step: "cluster_step a s = Some t"
  shows "leaders_inv t"
proof -
  note prom = step_promoted [OF step] and mono = cluster_step_elections_mono [OF step]
  have "won t T i" if "(T, i) \<in> promoted t" for T i
  proof (cases "(T, i) \<in> promoted s")
    case True
    with inv mono show ?thesis by (auto simp: leaders_inv_def intro: won_mono)
  next
    case False
    with prom that obtain e el where *: "a = Promote e" "el_of s e = Some el" "el_pc el = Winning"
      "i = el_cand el" "T = currentTerm (nodes s i)" by blast
    with \<open>clean a s\<close> have "el_term el = T" by (simp add: clean_def)
    moreover have "majorityNum (nservers s) \<le> el_votes el"
      using inv_election [OF inv(1) *(2)] *(3) by (simp add: election_ok_def)
    ultimately have "won s T i" unfolding won_el_of
      using * by (intro exI [of _ e] exI [of _ el]) simp
    with mono show ?thesis by (rule won_mono)
  qed
  moreover have "(currentTerm (nodes t i), i) \<in> promoted t" if "state (nodes t i) = Leader" for i
    using step_leader [OF step inv(1) that] inv(2) prom by (auto simp: leaders_inv_def)
  ultimately show ?thesis by (simp add: leaders_inv_def)
qed

lemma clean_reachable_leaders:
  "clean_reachable n (s :: ('c, 's) cluster) \<Longrightarrow> cluster_inv s \<and> leaders_inv s"
proof (induction rule: clean_reachable.induct)
  case clean_initial
  have "state (nodes (init_cluster n :: ('c, 's) cluster) i) = Follower" for i
    by (simp add: init_cluster_def Make_def Let_def effect_defs readPersist_def recoverFromSnap_def
        raft_defs)
  moreover have "promoted (init_cluster n :: ('c, 's) cluster) = {}" by (simp add: init_cluster_def)
  ultimately show ?case by (simp add: leaders_inv_def inv_init)
next
  case (clean_step s a t)
  then show ?case by (auto intro: leaders_inv_step cluster_step_inv)
qed

lemma won_unique:
  "cluster_inv s \<Longrightarrow> won s t i \<Longrightarrow> won s t j \<Longrightarrow> i = j"
  unfolding won_el_of using one_winner_per_term by metis

end
