(* ===== verification/RaftSnapshot.thy ===== *)
theory RaftSnapshot
  imports RaftPeer
begin

text \<open>
  Snapshots taken by the service and sent by the leader, recovery from the persister, the
  applier, and \<open>Start\<close>: what these operations of \<open>src/raft/raft.go\<close> do to a well-formed
  peer, and the invariant that the persister is enough to rebuild it.
\<close>

section \<open>Recoverable peers\<close>

text \<open>
  A peer whose log starts after index 0 has a snapshot on disk: what \<open>Make\<close> relies on when
  it sets \<open>lastApplied\<close> only if there is a snapshot.
\<close>

definition snap_wf :: "('c, 's) Raft \<Rightarrow> bool" where
  "snap_wf rf \<longleftrightarrow> (snapshot (persister rf) = None \<longrightarrow> lastIncludedIndex rf = 0)"

lemma Make_recovers:
  assumes "persisted rf"
  shows "durable (Make n i (persister rf)) = durable rf"
    "snapshot (persister (Make n i (persister rf))) = snapshot (persister rf)"
    "persisted (Make n i (persister rf))"
    "recoverMsg (Make n i (persister rf)) =
       map_option (\<lambda>d. snapshot_msg (lastIncludedIndex rf) (Some d)) (snapshot (persister rf))"
    "applyCh (Make n i (persister rf)) = []"
    "applierMsg (Make n i (persister rf)) = None"
    "lastApplied (Make n i (persister rf)) =
       (if snapshot (persister rf) = None then 0 else lastIncludedIndex rf)"
    "commitIndex (Make n i (persister rf)) =
       (if snapshot (persister rf) = None then 0 else lastIncludedIndex rf)"
  using assms
  by (simp_all add: persisted_def Make_def Let_def effect_defs readPersist_def recoverFromSnap_def
      raft_defs durable_def split: option.splits)

lemma durable_log_wf: "durable rf' = durable rf \<Longrightarrow> log_wf rf' = log_wf rf"
  by (rule log_wf_cong) (simp_all add: durable_def)

lemma Make_wf:
  assumes "persisted rf" and wf: "log_wf rf" and "snap_wf rf"
  shows "raft_wf (Make n i (persister rf)) \<and> snap_wf (Make n i (persister rf))"
proof -
  let ?m = "Make n i (persister rf)"
  note m = Make_recovers [OF assms(1), of n i]
  have lii: "lastIncludedIndex ?m = lastIncludedIndex rf" using m(1) by (simp add: durable_def)
  have lw: "log_wf ?m" using durable_log_wf [OF m(1)] wf by simp
  have zero: "lastIncludedIndex rf = 0" if "snapshot (persister rf) = None"
    using assms(3) that by (simp add: snap_wf_def)
  then have "lastApplied ?m = lastIncludedIndex ?m" "commitIndex ?m = lastIncludedIndex ?m"
    unfolding m(7,8) lii by simp_all
  with lw log_wf_lii [OF lw] have "raft_wf ?m" by (simp add: raft_wf_def)
  moreover have "snap_wf ?m" unfolding snap_wf_def m(2) lii using zero by simp
  ultimately show ?thesis by simp
qed

section \<open>Snapshots of the service\<close>

lemma trimmed_outcome:
  assumes wf: "log_wf rf" and lo: "lastIncludedIndex rf < i" and hi: "i \<le> lastIndex rf"
  shows "\<exists>rf'. Snapshot_trimmed i rf = Some rf' \<and> log_wf rf' \<and> lastIncludedIndex rf' = i \<and>
     lastIncludedTerm rf' = le_Term (entry_at rf i) \<and> lastIndex rf' = lastIndex rf \<and>
     (\<forall>j. i < j \<longrightarrow> entry_at rf' j = entry_at rf j) \<and> persisted rf' \<and>
     snapshot (persister rf') = snapshot (persister rf) \<and>
     commitIndex rf' = commitIndex rf \<and> lastApplied rf' = lastApplied rf \<and>
     currentTerm rf' = currentTerm rf \<and> votedFor rf' = votedFor rf \<and> state rf' = state rf"
proof -
  define k where "k = nat (i - lastIncludedIndex rf)"
  have k: "i = lastIncludedIndex rf + int k" "0 < k" "k < length (log rf)"
    using lo hi by (auto simp: k_def lastIndex_def)
  have c: "contiguous (lastIncludedIndex rf + int (Suc k)) (drop (Suc k) (log rf))"
    using wf k by (intro contiguous_drop) (auto simp: log_wf_def)
  define nl where "nl = placeholder (le_Term (log rf ! k)) i # drop (Suc k) (log rf)"
  have e: "entry_at rf i = log rf ! k" by (simp add: entry_at_def k_def)
  have "nat (i - lastIncludedIndex rf) = k" by (simp add: k_def)
  then have "slice_from (log rf) (i - lastIncludedIndex rf + 1) = Some (drop (Suc k) (log rf))"
    using k by (auto simp: slice_from_def nat_add_distrib)
  moreover have "idx (log rf) (i - lastIncludedIndex rf) = Some (log rf ! k)"
    using k by (simp add: idx_def)
  ultimately have eq: "Snapshot_trimmed i rf = Some (persist (rf\<lparr>log := nl,
      lastIncludedIndex := i, lastIncludedTerm := le_Term (log rf ! k)\<rparr>))"
    by (simp add: Snapshot_trimmed_def Let_def nl_def placeholder_def)
  have same: "nl ! nat (j - i) = entry_at rf j" if "i < j" for j
  proof -
    from that obtain m where "j = i + int (Suc m)" using zless_iff_Suc_zadd by blast
    then have "nat (j - i) = Suc m" "nat (j - lastIncludedIndex rf) = Suc k + m"
      using k by auto
    with k show ?thesis by (simp add: nl_def entry_at_def)
  qed
  define t where "t = persist (rf\<lparr>log := nl, lastIncludedIndex := i,
      lastIncludedTerm := le_Term (log rf ! k)\<rparr>)"
  have t: "log t = nl" "lastIncludedIndex t = i" "lastIncludedTerm t = le_Term (entry_at rf i)"
    "persisted t" "snapshot (persister t) = snapshot (persister rf)" "commitIndex t = commitIndex rf"
    "lastApplied t = lastApplied rf" "currentTerm t = currentTerm rf" "votedFor t = votedFor rf"
    "state t = state rf"
    by (simp_all add: t_def e raft_defs)
  have len: "length nl = length (log rf) - k" using k by (simp add: nl_def)
  then have "lastIndex t = lastIndex rf" using k by (simp add: lastIndex_def t of_nat_diff)
  moreover have "\<forall>j. i < j \<longrightarrow> entry_at t j = entry_at rf j"
    using same by (simp add: entry_at_def [of t] t)
  moreover have "log_wf t"
    using wf c k by (simp add: log_wf_def t nl_def placeholder_def algebra_simps entry_at_def)
  ultimately show ?thesis using eq t unfolding t_def [symmetric] by blast
qed

lemma Snapshot_outcome:
  assumes wf: "raft_wf rf" and lo: "lastIncludedIndex rf < i" and hi: "i \<le> lastApplied rf"
  shows "\<exists>rf'. Snapshot i snap rf = Some rf' \<and> raft_wf rf' \<and> lastIncludedIndex rf' = i \<and>
     lastIncludedTerm rf' = le_Term (entry_at rf i) \<and> lastIndex rf' = lastIndex rf \<and>
     (\<forall>j. i < j \<longrightarrow> entry_at rf' j = entry_at rf j) \<and> persisted rf' \<and>
     snapshot (persister rf') = snap \<and>
     commitIndex rf' = commitIndex rf \<and> lastApplied rf' = lastApplied rf \<and>
     currentTerm rf' = currentTerm rf \<and> votedFor rf' = votedFor rf \<and> state rf' = state rf"
proof -
  have lw: "log_wf rf" and "i \<le> lastIndex rf" using wf hi by (auto simp: raft_wf_def)
  from trimmed_outcome [OF lw lo this(2)] obtain t where t: "Snapshot_trimmed i rf = Some t"
    "log_wf t" "lastIncludedIndex t = i" "lastIncludedTerm t = le_Term (entry_at rf i)"
    "lastIndex t = lastIndex rf" "\<forall>j. i < j \<longrightarrow> entry_at t j = entry_at rf j" "persisted t"
    "commitIndex t = commitIndex rf" "lastApplied t = lastApplied rf"
    "currentTerm t = currentTerm rf" "votedFor t = votedFor rf" "state t = state rf" by blast
  let ?r = "SaveStateAndSnapshot_rf snap t"
  have fields: "log ?r = log t" "lastIncludedIndex ?r = lastIncludedIndex t"
    "lastIncludedTerm ?r = lastIncludedTerm t" "lastApplied ?r = lastApplied t"
    "commitIndex ?r = commitIndex t" "currentTerm ?r = currentTerm t" "votedFor ?r = votedFor t"
    "state ?r = state t" "snapshot (persister ?r) = snap"
    by (simp_all add: SaveStateAndSnapshot_rf_def raft_defs)
  have "raft_wf t" using t wf hi by (simp add: raft_wf_def)
  then have "raft_wf ?r" using raft_wf_cong [of ?r t] by (simp add: fields)
  moreover have "lastIndex ?r = lastIndex t" "entry_at ?r j = entry_at t j" for j
    by (simp_all add: lastIndex_def entry_at_def fields)
  moreover have "Snapshot i snap rf = Some ?r" using lo t(1) by (simp add: Snapshot_def)
  ultimately show ?thesis using t by (intro exI [of _ ?r]) (simp add: fields)
qed

section \<open>Snapshots from the leader\<close>

definition snap_fits :: "'s InstallSnapshotArgs \<Rightarrow> ('c, 's) Raft \<Rightarrow> bool" where
  \<comment> \<open>the log continues the snapshot, so what follows it is kept\<close>
  "snap_fits args rf \<longleftrightarrow> is_LastIncludedIndex args < lastIndex rf \<and>
     le_Term (entry_at rf (is_LastIncludedIndex args)) = is_LastIncludedTerm args"

lemma CondInstallSnap_log_outcome:
  assumes wf: "log_wf rf" and lo: "lastIncludedIndex rf < is_LastIncludedIndex args"
  defines "i \<equiv> is_LastIncludedIndex args" and "t \<equiv> is_LastIncludedTerm args"
  shows "CondInstallSnap_log args rf =
     Some (if snap_fits args rf
           then (placeholder t i # drop (nat (i - lastIncludedIndex rf) + 1) (log rf),
                 max (commitIndex rf) i)
           else ([placeholder t i], i))"
proof (cases "i < lastIndex rf")
  case True
  then have "slice_from (log rf) (i - lastIncludedIndex rf + 1) =
      Some (drop (nat (i - lastIncludedIndex rf) + 1) (log rf))"
    using lo by (auto simp: slice_from_def i_def lastIndex_def nat_add_distrib)
  with True lo wf show ?thesis
    by (auto simp: CondInstallSnap_log_def Let_def log_wf_last idx_entry_at i_def t_def snap_fits_def)
next
  case False
  with wf show ?thesis
    by (auto simp: CondInstallSnap_log_def Let_def log_wf_last i_def t_def snap_fits_def)
qed

text \<open>The state after an accepted snapshot, apart from the effects.\<close>

definition snap_installed :: "'s InstallSnapshotArgs \<Rightarrow> ('c, 's) Raft \<Rightarrow> ('c, 's) Raft \<Rightarrow> bool" where
  "snap_installed args rf rf' \<longleftrightarrow>
     lastIncludedIndex rf' = is_LastIncludedIndex args \<and>
     lastIncludedTerm rf' = is_LastIncludedTerm args \<and>
     lastApplied rf' = is_LastIncludedIndex args \<and>
     (if snap_fits args rf
      then lastIndex rf' = lastIndex rf \<and>
        commitIndex rf' = max (commitIndex rf) (is_LastIncludedIndex args) \<and>
        (\<forall>j. is_LastIncludedIndex args < j \<longrightarrow> entry_at rf' j = entry_at rf j)
      else lastIndex rf' = is_LastIncludedIndex args \<and>
        commitIndex rf' = is_LastIncludedIndex args) \<and>
     applyCh rf' = applyCh rf @ [snapshot_msg (is_LastIncludedIndex args) (is_SnapshotData args)] \<and>
     snapshot (persister rf') = is_SnapshotData args \<and> passiveSnapshotting rf' \<and> state rf' = Follower"

lemma drop_entries:
  assumes "lastIncludedIndex rf < i" and "i < lastIndex rf" and "i < j"
    and "log rf' = e # drop (nat (i - lastIncludedIndex rf) + 1) (log rf)" and "lastIncludedIndex rf' = i"
  shows "entry_at rf' j = entry_at rf j"
proof -
  define k where "k = nat (i - lastIncludedIndex rf)"
  from assms(3) obtain m where m: "j = i + int (Suc m)" using zless_iff_Suc_zadd by blast
  with assms(1) have "nat (j - i) = Suc m" "nat (j - lastIncludedIndex rf) = Suc k + m"
    by (auto simp: k_def)
  moreover have "Suc k \<le> length (log rf)" using assms(1,2) by (auto simp: k_def lastIndex_def)
  ultimately show ?thesis using assms(4,5) by (simp add: entry_at_def k_def)
qed

lemma drop_contiguous:
  assumes "log_wf rf" and "lastIncludedIndex rf < i" and "i < lastIndex rf"
  shows "contiguous (i + 1) (drop (nat (i - lastIncludedIndex rf) + 1) (log rf))"
proof -
  define k where "k = nat (i - lastIncludedIndex rf)"
  have "contiguous (lastIncludedIndex rf + int (Suc k)) (drop (Suc k) (log rf))"
    using assms by (intro contiguous_drop) (auto simp: log_wf_def lastIndex_def k_def)
  moreover have "lastIncludedIndex rf + int (Suc k) = i + 1" using assms(2) by (simp add: k_def)
  ultimately show ?thesis by (simp add: add.commute k_def)
qed

lemma CondInstallSnap_outcome:
  assumes wf: "raft_wf rf" and fresh: "currentTerm rf \<le> is_Term args"
    and idle: "\<not> activeSnapshotting rf" and lo: "lastIncludedIndex rf < is_LastIncludedIndex args"
  shows "\<exists>rf' reply. CondInstallSnap args rf = Some (rf', reply) \<and> isr_Accept reply \<and>
     raft_wf rf' \<and> snap_installed args rf rf' \<and> persisted rf' \<and>
     currentTerm rf' = is_Term args \<and> isr_Term reply = is_Term args"
proof -
  define f where "f = AppendEntries_follow (is_Term args) (is_LeaderId args) rf"
  let ?i = "is_LastIncludedIndex args" and ?t = "is_LastIncludedTerm args"
  have lw: "log_wf rf" and lwf: "log_wf f" using wf by (simp_all add: f_def)
  have c: "commitIndex rf \<le> lastIndex rf" "0 \<le> lastIncludedIndex rf"
    using wf by (auto simp: raft_wf_def log_wf_def)
  have ff: "log f = log rf" "lastIncludedIndex f = lastIncludedIndex rf"
    "commitIndex f = commitIndex rf" "applyCh f = applyCh rf" "currentTerm f = is_Term args"
    "state f = Follower" "lastIndex f = lastIndex rf" "snap_fits args f = snap_fits args rf"
    using fresh by (simp_all add: f_def follow_term lastIndex_def snap_fits_def entry_at_def)
  define nl where "nl = placeholder ?t ?i #
    (if snap_fits args rf then drop (nat (?i - lastIncludedIndex rf) + 1) (log rf) else [])"
  define nc where "nc = (if snap_fits args rf then max (commitIndex rf) ?i else ?i)"
  define g where "g = InstallSnapFromLeader ?i (is_SnapshotData args)
    (SaveStateAndSnapshot_rf (is_SnapshotData args) (persist (f\<lparr>lastApplied := ?i,
       commitIndex := nc, lastIncludedIndex := ?i, lastIncludedTerm := ?t, log := nl,
       passiveSnapshotting := True\<rparr>)))"
  define reply where "reply = zero_isr\<lparr>isr_Term := currentTerm f, isr_Accept := True\<rparr>"
  have "CondInstallSnap_log args f = Some (nl, nc)"
    using CondInstallSnap_log_outcome [OF lwf, of args] lo by (simp add: ff nl_def nc_def)
  then have eq: "CondInstallSnap args rf = Some (g, reply)"
    using fresh idle lo
    by (simp add: CondInstallSnap_def Let_def ff reply_def g_def flip: f_def)
  have g: "log g = nl" "lastIncludedIndex g = ?i" "lastIncludedTerm g = ?t" "lastApplied g = ?i"
    "commitIndex g = nc" "persisted g" "state g = Follower" "currentTerm g = is_Term args"
    "snapshot (persister g) = is_SnapshotData args" "passiveSnapshotting g"
    "applyCh g = applyCh rf @ [snapshot_msg ?i (is_SnapshotData args)]"
    by (simp_all add: g_def InstallSnapFromLeader_def sendApply_def SaveStateAndSnapshot_rf_def
        raft_defs ff persist_def persisted_def durable_def)
  have cont: "contiguous ?i nl"
    using drop_contiguous [OF lw lo] by (auto simp: nl_def placeholder_def snap_fits_def)
  have last: "lastIndex g = (if snap_fits args rf then lastIndex rf else ?i)"
    using lo by (auto simp: lastIndex_def g nl_def snap_fits_def of_nat_diff)
  have "entry_at g j = entry_at rf j" if "snap_fits args rf" "?i < j" for j
    using that drop_entries [OF lo, of j g] by (simp add: g nl_def snap_fits_def)
  then have "snap_installed args rf g"
    unfolding snap_installed_def using g last by (simp add: nc_def)
  moreover have "raft_wf g"
    unfolding raft_wf_def log_wf_def last using g cont c lo
    by (auto simp: nl_def placeholder_def nc_def snap_fits_def)
  ultimately show ?thesis using eq g(6,8) ff(5) by (simp add: reply_def)
qed

text \<open>The goroutine of \<open>recoverFromSnap\<close>, and the send of the applier.\<close>

lemma sends_outcome [simp]:
  "recover_send rf = map_option (\<lambda>m. rf\<lparr>applyCh := applyCh rf @ [m], recoverMsg := None\<rparr>) (recoverMsg rf)"
  "applier_send rf = map_option (\<lambda>m. rf\<lparr>applyCh := applyCh rf @ [m], applierMsg := None\<rparr>) (applierMsg rf)"
  by (simp_all add: recover_send_def applier_send_def sendApply_def split: option.split)

text \<open>A snapshot that is stale, or that arrives during one of the peer's own, changes no log.\<close>

lemma CondInstallSnap_refuses:
  assumes "is_Term args < currentTerm rf \<or> activeSnapshotting rf \<or>
    is_LastIncludedIndex args \<le> lastIncludedIndex rf"
  shows "\<exists>rf' reply. CondInstallSnap args rf = Some (rf', reply) \<and> \<not> isr_Accept reply \<and>
    log rf' = log rf \<and> lastIncludedIndex rf' = lastIncludedIndex rf \<and>
    commitIndex rf' = commitIndex rf \<and> lastApplied rf' = lastApplied rf \<and> applyCh rf' = applyCh rf"
  using assms by (auto simp: CondInstallSnap_def Let_def zero_isr_def)

section \<open>The applier\<close>

text \<open>Turns of the loop that find a command, each with its send.\<close>

definition applier_run :: "nat \<Rightarrow> ('c, 's) Raft \<Rightarrow> ('c, 's) Raft option" where
  "applier_run n = run_steps (\<lambda>_ rf. do { (rf, _) \<leftarrow> applier_turn rf; applier_send rf }) (replicate n ())"

definition apply_msg :: "('c, 's) Raft \<Rightarrow> int \<Rightarrow> ('c, 's) ApplyMsg" where
  "apply_msg rf i = command_msg (le_Command (entry_at rf i)) i (le_Term (entry_at rf i))"

lemma applier_turn_outcome:
  assumes wf: "raft_wf rf" and less: "lastApplied rf < commitIndex rf" and "applierMsg rf = None"
  defines "i \<equiv> lastApplied rf + 1"
  shows "applier_turn rf = Some (rf\<lparr>lastApplied := i, applierMsg := Some (apply_msg rf i)\<rparr>, True)"
proof -
  have lw: "log_wf rf" and r: "lastIncludedIndex rf < i" "i \<le> lastIndex rf"
    using wf less by (auto simp: raft_wf_def i_def)
  have "idx (log rf) (i - lastIncludedIndex rf) = Some (entry_at rf i)"
    using lw r by (intro idx_entry_at) auto
  with less r assms(3) show ?thesis
    by (simp add: applier_turn_def Let_def apply_msg_def i_def)
qed

lemma applier_run_outcome:
  assumes "raft_wf rf" and "applierMsg rf = None" and "lastApplied rf + int n \<le> commitIndex rf"
  shows "applier_run n rf = Some (rf\<lparr>lastApplied := lastApplied rf + int n,
     applyCh := applyCh rf @ map (apply_msg rf) [lastApplied rf + 1..lastApplied rf + int n]\<rparr>)"
  using assms
proof (induction n arbitrary: rf)
  case 0
  then show ?case by (simp add: applier_run_def)
next
  case (Suc n)
  define rf1 where "rf1 = rf\<lparr>lastApplied := lastApplied rf + 1,
    applyCh := applyCh rf @ [apply_msg rf (lastApplied rf + 1)]\<rparr>"
  have "applier_turn rf = Some (rf\<lparr>lastApplied := lastApplied rf + 1,
      applierMsg := Some (apply_msg rf (lastApplied rf + 1))\<rparr>, True)"
    using Suc.prems by (intro applier_turn_outcome) auto
  then have turn: "do { (rf, _) \<leftarrow> applier_turn rf; applier_send rf } = Some rf1"
    using Suc.prems(2) by (simp add: rf1_def)
  have same: "apply_msg rf1 = apply_msg rf"
    by (simp add: fun_eq_iff apply_msg_def entry_at_def rf1_def)
  have "raft_wf rf1" using Suc.prems by (auto simp: raft_wf_def log_wf_def lastIndex_def rf1_def)
  then have "applier_run n rf1 = Some (rf1\<lparr>lastApplied := lastApplied rf1 + int n,
     applyCh := applyCh rf1 @ map (apply_msg rf) [lastApplied rf1 + 1..lastApplied rf1 + int n]\<rparr>)"
    unfolding same [symmetric] using Suc.prems by (intro Suc.IH) (auto simp: rf1_def)
  moreover have "applier_run (Suc n) rf = applier_run n rf1"
    unfolding applier_run_def using turn by simp
  moreover have "[lastApplied rf + 1..lastApplied rf + int (Suc n)] =
      (lastApplied rf + 1) # [lastApplied rf + 2..lastApplied rf + int (Suc n)]"
    by (subst upto_rec1) (simp_all add: add.commute)
  ultimately show ?case by (simp add: rf1_def algebra_simps)
qed

section \<open>Start\<close>

lemma Start_outcome:
  assumes wf: "raft_wf rf"
  shows "\<exists>rf' index. Start c rf = Some (rf', index, currentTerm rf, state rf = Leader) \<and>
     index = lastIndex rf + 1 \<and> raft_wf rf' \<and>
     (state rf \<noteq> Leader \<longrightarrow> rf' = rf) \<and>
     (state rf = Leader \<longrightarrow> persisted rf' \<and> lastIndex rf' = index \<and>
        entry_at rf' index = \<lparr>le_Command = Some c, le_Term = currentTerm rf, le_Index = index\<rparr> \<and>
        (\<forall>i. lastIncludedIndex rf \<le> i \<longrightarrow> i \<le> lastIndex rf \<longrightarrow> entry_at rf' i = entry_at rf i))"
proof (cases "state rf = Leader")
  case True
  let ?e = "\<lparr>le_Command = Some c, le_Term = currentTerm rf, le_Index = lastIndex rf + 1\<rparr>"
  let ?r = "persist (rf\<lparr>log := log rf @ [?e]\<rparr>)"
  have lw: "log_wf rf" using wf by simp
  then have ne: "log rf \<noteq> []" by (simp add: log_wf_def)
  have eq: "Start c rf = Some (?r, lastIndex rf + 1, currentTerm rf, True)"
    using True lw by (simp add: Start_def GetState_def Start_append_def log_wf_last Let_def)
  have li: "lastIndex ?r = lastIndex rf + 1" by (simp add: lastIndex_def)
  have "raft_wf ?r"
    using wf ne by (auto simp: raft_wf_def log_wf_def lastIndex_def)
  moreover have "entry_at ?r (lastIndex rf + 1) = ?e"
    by (simp add: entry_at_def lastIndex_def)
  moreover have "entry_at ?r i = entry_at rf i" if "lastIncludedIndex rf \<le> i" "i \<le> lastIndex rf" for i
    using that by (simp add: entry_at_def lastIndex_def nth_append nat_less_iff)
  ultimately show ?thesis using True eq li by (intro exI [of _ ?r]) simp
next
  case False
  with wf show ?thesis by (simp add: Start_def GetState_def Start_append_def log_wf_last Let_def)
qed

end
