(* ===== verification/RaftTheorems.thy ===== *)
theory RaftTheorems
  imports RaftElection RaftSnapshot
begin

text \<open>
  The properties of the Raft implementation (\<open>src/raft\<close>), each with a concrete instance.
  The follower \<open>ex_follower\<close> and the leader \<open>ex_leader\<close> are the states the instances use.
\<close>

definition ex_entry :: "int \<Rightarrow> int \<Rightarrow> nat LogEntry" where
  "ex_entry t i = \<lparr>le_Command = Some (nat i), le_Term = t, le_Index = i\<rparr>"

definition ex_follower :: "(nat, nat) Raft" where
  "ex_follower = persist ((Make 3 1 MakePersister)\<lparr>currentTerm := 1, commitIndex := 1,
     log := [placeholder (-1) 0, ex_entry 1 1, ex_entry 1 2]\<rparr>)"

definition ex_leader :: "(nat, nat) Raft" where
  "ex_leader = persist ((Make 3 0 MakePersister)\<lparr>currentTerm := 2, state := Leader, commitIndex := 1,
     lastApplied := 1, votedFor := 0,
     log := [placeholder (-1) 0, ex_entry 1 1, ex_entry 2 2, ex_entry 2 3],
     nextIndex := [4, 2, 4], matchIndex := [3, 0, 0]\<rparr>)"

definition ex_append :: "nat AppendEntriesArgs" where
  "ex_append = \<lparr>ae_Term = 2, ae_LeaderId = 0, ae_PreLogIndex = 1, ae_PreLogTerm = 1,
     ae_Entries = [ex_entry 2 2, ex_entry 2 3], ae_LeaderCommit = 1\<rparr>"

lemma ex_follower_fields [simp]:
  "lastIncludedIndex ex_follower = 0" "commitIndex ex_follower = 1" "currentTerm ex_follower = 1"
  "log ex_follower = [placeholder (-1) 0, ex_entry 1 1, ex_entry 1 2]"
  "applierMsg ex_follower = None" "lastApplied ex_follower = 0" "state ex_follower = Follower" "applyCh ex_follower = []"
  "activeSnapshotting ex_follower = False" "votedFor ex_follower = -1"
  by code_simp+

lemma ex_append_fields [simp]:
  "ae_Term ex_append = 2" "ae_PreLogIndex ex_append = 1" "ae_LeaderCommit ex_append = 1"
  "ae_Entries ex_append = [ex_entry 2 2, ex_entry 2 3]"
  by code_simp+

lemma ex_follower_wf [simp]:
  "raft_wf ex_follower" "persisted ex_follower" "snap_wf ex_follower" "log_wf ex_follower"
  by code_simp+

lemma ex_append_ok [simp]:
  "ae_wf ex_append" "\<not> ae_covered ex_append ex_follower" "ae_matches ex_append ex_follower"
  by code_simp+

lemma ex_append_agrees [simp]: "agrees_committed ex_append ex_follower"
  by (auto simp: agrees_committed_def Let_def)

section \<open>AppendEntries\<close>

text \<open>C3: On a well-formed follower, an \<open>AppendEntries\<close> message with a current term whose
  predecessor entry matches, and which does not contradict a committed entry, is accepted: the
  handler does not index out of range, the invariant of the peer is kept and the new state is
  on disk, no committed entry changes and the commit index does not go back. Afterwards the log
  up to the predecessor is what it was, and at the index of every sent entry beyond the
  receiver's snapshot it has exactly that entry, command included, unless the old log already
  had entries of the sent terms from the first sent index up to there: then it keeps its own.\<close>

theorem append_entries_accepted:
  assumes "raft_wf rf" and "ae_wf args" and "currentTerm rf \<le> ae_Term args"
    and "\<not> ae_covered args rf" and "ae_matches args rf" and "agrees_committed args rf"
  shows "\<exists>rf' reply. AppendEntries args rf = Some (rf', reply) \<and> aer_Success reply \<and>
    raft_wf rf' \<and> persisted rf' \<and> currentTerm rf' = ae_Term args \<and> state rf' = Follower \<and>
    commitIndex rf \<le> commitIndex rf' \<and>
    (\<forall>i. lastIncludedIndex rf \<le> i \<longrightarrow> i \<le> commitIndex rf \<longrightarrow> entry_at rf' i = entry_at rf i) \<and>
    (\<forall>i. lastIncludedIndex rf \<le> i \<longrightarrow> i \<le> ae_PreLogIndex args \<longrightarrow> entry_at rf' i = entry_at rf i) \<and>
    (\<forall>j < length (ae_Entries args). let i = ae_PreLogIndex args + 1 + int j in
       lastIncludedIndex rf < i \<longrightarrow> i \<le> lastIndex rf' \<and>
       entry_at rf' i = (if same_terms args rf i then entry_at rf i else ae_Entries args ! j))"
proof -
  obtain r where r: "AppendEntries args rf = Some (ae_accepted args rf, r)" "aer_Success r"
    using AppendEntries_accepts [OF assms(1-5)] by blast
  have "persisted (ae_accepted args rf)" by (simp add: ae_accepted_def)
  with r accepted_raft_wf [OF assms(1,2,4-6)] accepted_has [OF raft_wf_log [OF assms(1)] assms(5) _ _ assms(2,4)]
    accepted_before [OF raft_wf_log [OF assms(1)] assms(5)] assms(3) show ?thesis
    by (intro exI [of _ "ae_accepted args rf"] exI [of _ r]) (simp add: max_def Let_def)
qed

lemma append_entries_accepted_witness:
  "\<exists>rf' reply. AppendEntries ex_append ex_follower = Some (rf', reply) \<and> aer_Success reply \<and>
     raft_wf rf' \<and> persisted rf' \<and> currentTerm rf' = 2 \<and> entry_at rf' 3 = ex_entry 2 3"
proof -
  have "lastIndex ex_follower = 2" by code_simp
  then have "\<not> same_terms ex_append ex_follower 3" by (simp add: same_terms_def)
  with append_entries_accepted [of ex_follower ex_append] show ?thesis
    by (auto simp: less_Suc_eq)
qed

text \<open>A message whose predecessor entry is missing or has another term is rejected with a
  usable hint, and the log is left alone: either the follower's log is too short and the hint
  is its first free index, or the hint is the term found there with the first index of the run
  of that term, at or before the predecessor.\<close>

theorem append_entries_rejected:
  assumes "log_wf rf" and "ae_wf args" and "currentTerm rf \<le> ae_Term args"
    and "\<not> ae_covered args rf" and "\<not> ae_matches args rf"
  shows "\<exists>rf' reply. AppendEntries args rf = Some (rf', reply) \<and> \<not> aer_Success reply \<and>
    aer_Term reply = ae_Term args \<and> log rf' = log rf \<and> commitIndex rf' = commitIndex rf \<and>
    (if lastIndex rf < ae_PreLogIndex args
     then aer_ConflictTerm reply = -1 \<and> aer_ConflictIndex reply = lastIndex rf + 1
     else aer_ConflictTerm reply = le_Term (entry_at rf (ae_PreLogIndex args)) \<and>
       lastIncludedIndex rf \<le> aer_ConflictIndex reply \<and>
       aer_ConflictIndex reply \<le> ae_PreLogIndex args \<and>
       (\<forall>i. aer_ConflictIndex reply \<le> i \<and> i \<le> ae_PreLogIndex args \<longrightarrow>
          le_Term (entry_at rf i) = aer_ConflictTerm reply) \<and>
       (lastIncludedIndex rf < aer_ConflictIndex reply \<longrightarrow>
          le_Term (entry_at rf (aer_ConflictIndex reply - 1)) \<noteq> aer_ConflictTerm reply))"
proof -
  obtain r where r: "AppendEntries args rf =
      Some (AppendEntries_follow (ae_Term args) (ae_LeaderId args) rf, r)" "conflict_hint args rf r"
      "aer_Term r = ae_Term args"
    using AppendEntries_rejects [OF assms] assms(3) by (auto simp: follow_term max_def)
  show ?thesis
  proof (intro exI conjI)
    show "\<not> aer_Success r" by (rule conjunct1 [OF r(2) [unfolded conflict_hint_def]])
  qed (rule r follow_frame conjunct2 [OF r(2) [unfolded conflict_hint_def]])+
qed

lemma append_entries_rejected_witness:
  "\<exists>rf' reply. AppendEntries (ex_append\<lparr>ae_PreLogTerm := 2\<rparr>) ex_follower = Some (rf', reply) \<and>
     \<not> aer_Success reply \<and> aer_ConflictTerm reply = 1"
proof -
  have "\<not> ae_covered (ex_append\<lparr>ae_PreLogTerm := 2\<rparr>) ex_follower"
    "\<not> ae_matches (ex_append\<lparr>ae_PreLogTerm := 2\<rparr>) ex_follower"
    "ae_wf (ex_append\<lparr>ae_PreLogTerm := 2\<rparr>)"
    "\<not> lastIndex ex_follower < 1" "le_Term (entry_at ex_follower 1) = 1"
    by code_simp+
  with append_entries_rejected [of ex_follower "ex_append\<lparr>ae_PreLogTerm := 2\<rparr>"] show ?thesis
    by auto
qed

text \<open>The handler never indexes out of range, whatever well-formed message a peer with a
  well-formed log gets, and the log it leaves is well-formed; a message of an old term, and one
  whose entries are all inside the receiver's snapshot, changes neither log nor commit index.\<close>

theorem append_entries_total:
  assumes "log_wf rf" and "ae_wf args"
  shows "\<exists>rf' reply. AppendEntries args rf = Some (rf', reply) \<and> log_wf rf' \<and>
    (ae_Term args < currentTerm rf \<longrightarrow> rf' = rf \<and> \<not> aer_Success reply \<and>
       aer_Term reply = currentTerm rf) \<and>
    (ae_covered args rf \<longrightarrow> log rf' = log rf \<and> commitIndex rf' = commitIndex rf)"
proof (cases "ae_Term args < currentTerm rf \<or> ae_covered args rf")
  case True
  with assms show ?thesis using AppendEntries_outcome [OF assms]
    by (auto simp: Let_def zero_aer_def)
next
  case False
  show ?thesis
  proof (cases "ae_matches args rf")
    case True
    with False assms show ?thesis
      using AppendEntries_outcome [OF assms] accepted_log_wf [OF assms _ True]
      by (simp add: Let_def)
  next
    case mis: False
    with False assms AppendEntries_rejects [OF assms _ _ mis] show ?thesis by force
  qed
qed

lemma append_entries_total_witness:
  "\<exists>rf' reply. AppendEntries ex_append (ex_follower\<lparr>currentTerm := 3\<rparr>) = Some (rf', reply) \<and>
     rf' = ex_follower\<lparr>currentTerm := 3\<rparr> \<and> aer_Term reply = 3"
proof -
  have "log_wf (ex_follower\<lparr>currentTerm := 3\<rparr>)" by code_simp
  with append_entries_total [of "ex_follower\<lparr>currentTerm := 3\<rparr>" ex_append] show ?thesis by auto
qed

text \<open>Delivering an accepted message a second time changes nothing: log, commit index, term,
  vote and the persisted state are those after the first delivery, and the reply is the same.\<close>

theorem append_entries_idempotent:
  assumes "raft_wf rf" and "ae_wf args" and "currentTerm rf \<le> ae_Term args"
    and "\<not> ae_covered args rf" and "ae_matches args rf" and "agrees_committed args rf"
  shows "\<exists>rf1 rf2 reply. AppendEntries args rf = Some (rf1, reply) \<and>
    AppendEntries args rf1 = Some (rf2, reply) \<and> durable rf2 = durable rf1 \<and>
    commitIndex rf2 = commitIndex rf1 \<and> raftstate (persister rf2) = raftstate (persister rf1)"
proof -
  let ?a = "ae_accepted args rf"
  have wf: "log_wf rf" using assms(1) by simp
  note hi = matches_start [OF wf assms(5)]
  have wfa: "raft_wf ?a" using accepted_raft_wf [OF assms(1,2,4-6)] by simp
  have nc: "\<not> ae_covered args ?a" using assms(4) by (simp add: ae_covered_def)
  have ma: "ae_matches args ?a" by (rule matches_accepted [OF wf assms(5,2,4)])
  have fresh: "currentTerm ?a \<le> ae_Term args" using assms(3) by simp
  have out: "AppendEntries args r = Some (ae_accepted args r, zero_aer\<lparr>aer_Success := True,
      aer_Term := ae_Term args\<rparr>)"
    if "log_wf r" "currentTerm r \<le> ae_Term args" "\<not> ae_covered args r" "ae_matches args r"
    for r :: "('a, 'b) Raft"
    using that AppendEntries_outcome [OF that(1) assms(2)]
    by (simp add: Let_def follow_term max_def)
  have dur: "durable (ae_accepted args ?a) = durable ?a"
    using newLog_idem [OF wf hi] by (simp add: durable_def)
  have "persisted ?a" "persisted (ae_accepted args ?a)" by (simp_all add: ae_accepted_def)
  with dur have "raftstate (persister (ae_accepted args ?a)) = raftstate (persister ?a)"
    by (simp add: persisted_def)
  with out [OF wf assms(3-5)] out [OF raft_wf_log [OF wfa] fresh nc ma] dur newCommit_idem [OF wf hi]
  show ?thesis by auto
qed

lemma append_entries_idempotent_witness:
  "\<exists>rf1 rf2 reply. AppendEntries ex_append ex_follower = Some (rf1, reply) \<and>
    AppendEntries ex_append rf1 = Some (rf2, reply) \<and> durable rf2 = durable rf1"
  using append_entries_idempotent [of ex_follower ex_append] by auto

section \<open>The leader\<close>

text \<open>C22: One round trip is enough once the logs meet: if a follower that is not ahead in term
  has the entry before \<open>nextIndex[i]\<close> with the leader's term, then the message the leader
  builds is accepted, the follower has from \<open>nextIndex[i]\<close> to the end of the leader's log
  exactly the leader's entries, except that it keeps its own up to the first index where it has
  none or one of another term, and processing the reply brings \<open>matchIndex[i]\<close> to the leader's last
  index and keeps the leader's bookkeeping invariant.\<close>

theorem replication_round_trip:
  assumes "leader_wf ld" and "i < npeers ld" and "\<not> killed ld" and "state ld = Leader"
    and "lastIncludedIndex ld < nextIndex ld ! i" and "raft_wf fw"
    and "currentTerm fw \<le> currentTerm ld" and "follows_at ld i fw"
  shows "\<exists>args fw' reply ld'.
    LeaderAppendEntries_args (int i) (currentTerm ld) ld = Some (SendsAppend args) \<and>
    AppendEntries args fw = Some (fw', reply) \<and>
    LeaderAppendEntries_reply (int i) args reply ld = Some ld' \<and>
    lastIndex ld \<le> lastIndex fw' \<and>
    (\<forall>k. nextIndex ld ! i \<le> k \<longrightarrow> k \<le> lastIndex ld \<longrightarrow>
       entry_at fw' k = (if agree_from (nextIndex ld ! i) ld fw k then entry_at fw k
                         else entry_at ld k)) \<and>
    leader_wf ld' \<and> matchIndex ld' ! i = lastIndex ld \<and> nextIndex ld' ! i = lastIndex ld + 1"
  by (rule round_trip [OF assms])

lemma ex_leader_fields [simp]:
  "npeers ex_leader = 3" "currentTerm ex_leader = 2" "nextIndex ex_leader = [4, 2, 4]"
  "killed ex_leader = False" "state ex_leader = Leader" "lastIncludedIndex ex_leader = 0"
  "commitIndex ex_leader = 1" "lastIndex ex_leader = 3" "matchIndex ex_leader = [3, 0, 0]"
  "log ex_leader = [placeholder (-1) 0, ex_entry 1 1, ex_entry 2 2, ex_entry 2 3]"
  by code_simp+

lemma ex_leader_wf [simp]: "leader_wf ex_leader" "raft_wf ex_leader"
proof -
  show "raft_wf ex_leader" by code_simp
  moreover have "me ex_leader = 0" by code_simp
  ultimately show "leader_wf ex_leader"
    by (auto simp: leader_wf_def less_Suc_eq numeral_3_eq_3)
qed

lemma replication_round_trip_witness:
  "\<exists>args fw' reply ld'.
    LeaderAppendEntries_args 1 2 ex_leader = Some (SendsAppend args) \<and>
    AppendEntries args ex_follower = Some (fw', reply) \<and>
    LeaderAppendEntries_reply 1 args reply ex_leader = Some ld' \<and> matchIndex ld' ! 1 = 3"
proof -
  have "follows_at ex_leader 1 ex_follower" by code_simp
  with replication_round_trip [of ex_leader 1 ex_follower] show ?thesis by auto
qed

text \<open>C12: The commit rule. Processing a successful reply keeps the leader's invariant, never
  lowers a \<open>matchIndex\<close> or the commit index, and if it raises the commit index then the entry
  there is of the leader's current term and at least \<open>n/2 + 1\<close> of the \<open>n\<close> peers are recorded as
  holding the log up to it.\<close>

theorem commit_needs_majority:
  assumes "leader_wf rf" and "i < npeers rf"
    and "ae_PreLogIndex args + int (length (ae_Entries args)) \<le> lastIndex rf"
  shows "\<exists>rf'. LeaderAppendEntries_success (int i) args rf = Some rf' \<and> leader_wf rf' \<and>
    ae_PreLogIndex args + int (length (ae_Entries args)) \<le> matchIndex rf' ! i \<and>
    (\<forall>j < npeers rf. matchIndex rf ! j \<le> matchIndex rf' ! j) \<and>
    commitIndex rf \<le> commitIndex rf' \<and>
    (commitIndex rf < commitIndex rf' \<longrightarrow>
       le_Term (entry_at rf' (commitIndex rf')) = currentTerm rf' \<and>
       npeers rf div 2 + 1 \<le> card {j. j < npeers rf \<and> commitIndex rf' \<le> matchIndex rf' ! j})"
  using success_outcome [OF assms] unfolding replicas_def majorityNum_def by fastforce

lemma commit_needs_majority_witness:
  "\<exists>rf'. LeaderAppendEntries_success 1 ex_append ex_leader = Some rf' \<and> leader_wf rf' \<and>
     3 \<le> matchIndex rf' ! 1 \<and> commitIndex rf' = 3"
proof -
  have "map_option commitIndex (LeaderAppendEntries_success 1 ex_append ex_leader) = Some 3"
    by code_simp
  with commit_needs_majority [of ex_leader 1 ex_append] show ?thesis by auto
qed

text \<open>Backing up after a rejection never panics as long as the leader's last entry is not of
  the conflicting term (\<open>rf.log[k+1]\<close> would be out of range), only lowers \<open>nextIndex[i]\<close>, keeps
  it above \<open>matchIndex[i]\<close>, and touches nothing else.\<close>

theorem backtracking_safe:
  assumes "leader_wf rf" and "i < npeers rf"
    and "le_Term (last (log rf)) \<noteq> aer_ConflictTerm reply \<or> aer_ConflictTerm reply = -1"
  shows "\<exists>rf'. LeaderAppendEntries_backtrack (int i) reply rf = Some rf' \<and> leader_wf rf' \<and>
    nextIndex rf' ! i \<le> nextIndex rf ! i \<and> matchIndex rf' ! i < nextIndex rf' ! i \<and>
    matchIndex rf' = matchIndex rf \<and> log rf' = log rf \<and> commitIndex rf' = commitIndex rf"
proof -
  obtain rf' where rf': "LeaderAppendEntries_backtrack (int i) reply rf = Some rf'" "leader_wf rf'"
    "nextIndex rf' ! i \<le> nextIndex rf ! i" "matchIndex rf' = matchIndex rf" "log rf' = log rf"
    "commitIndex rf' = commitIndex rf"
    using backtrack_outcome [OF assms] by blast
  have "npeers rf' = npeers rf" using backtrack_frame [OF rf'(1)] by auto
  with leader_wfD [OF rf'(2), of i] assms(2) rf' show ?thesis by auto
qed

lemma backtracking_safe_witness:
  "\<exists>rf'. LeaderAppendEntries_backtrack 0
      \<lparr>aer_Term = 2, aer_Success = False, aer_ConflictIndex = 1, aer_ConflictTerm = 1\<rparr>
      (ex_leader\<lparr>matchIndex := [0, 0, 0]\<rparr>) = Some rf' \<and> leader_wf rf' \<and> nextIndex rf' ! 0 \<le> 4"
proof -
  have "me ex_leader = 0" by code_simp
  then have "leader_wf (ex_leader\<lparr>matchIndex := [0, 0, 0]\<rparr>)"
    using ex_leader_wf(2) raft_wf_cong [of "ex_leader\<lparr>matchIndex := [0, 0, 0]\<rparr>" ex_leader]
    by (auto simp: leader_wf_def lastIndex_def less_Suc_eq numeral_3_eq_3)
  with backtracking_safe [of "ex_leader\<lparr>matchIndex := [0, 0, 0]\<rparr>" 0
      "\<lparr>aer_Term = 2, aer_Success = False, aer_ConflictIndex = 1, aer_ConflictTerm = 1\<rparr>"]
  show ?thesis by (auto simp: ex_entry_def)
qed

section \<open>Votes and crashes\<close>

text \<open>C15: A peer votes for at most one candidate per term, across any sequence of messages,
  timeouts, service calls and crashes with restart from the persister: two granted
  \<open>RequestVote\<close> calls of the same term name the same candidate.\<close>

theorem one_vote_per_term:
  assumes "run_steps raft_step es (Make n i ps) = Some rf1"
    and "RequestVote a rf1 = Some (rf2, r)" and "rvr_VoteGranted r"
    and "run_steps raft_step es' rf2 = Some rf3"
    and "RequestVote a' rf3 = Some (rf4, r')" and "rvr_VoteGranted r'"
    and "rv_Term a = rv_Term a'" and "rv_CandidatedId a \<noteq> -1"
  shows "rv_CandidatedId a = rv_CandidatedId a'"
proof -
  have "persisted rf1" by (rule peer.run_inv [OF persisted_Make assms(1)])
  then have "persisted rf2" by (rule RequestVote_persisted [OF _ assms(2)])
  then have "vote_mono rf2 rf3" and p3: "persisted rf3"
    using run_vote_mono peer.run_inv assms(4) by blast+
  moreover have "vote_mono rf3 rf4" by (rule RequestVote_vote_mono [OF assms(5)])
  ultimately have "vote_mono rf2 rf4" using vote_mono_trans by blast
  with RequestVote_granted [OF assms(2,3)] RequestVote_granted [OF assms(5,6)] assms(7,8)
  show ?thesis by (auto simp: vote_mono_def)
qed

definition ex_vote :: RequestVoteArgs where
  "ex_vote = \<lparr>rv_Term = 1, rv_CandidatedId = 2, rv_LastLogIndex = 0, rv_LastLogTerm = -1\<rparr>"

lemma one_vote_per_term_witness:
  "\<exists>rf2 rf3 rf4 r r'.
     RequestVote ex_vote (Make 3 1 (MakePersister :: (nat, nat) Persister)) = Some (rf2, r) \<and> rvr_VoteGranted r \<and>
     raft_step CrashRestart rf2 = Some rf3 \<and>
     RequestVote ex_vote rf3 = Some (rf4, r') \<and> rvr_VoteGranted r' \<and> rv_CandidatedId ex_vote = 2"
proof -
  let ?m = "Make 3 1 (MakePersister :: (nat, nat) Persister)"
  obtain rf2 r where 1: "RequestVote ex_vote ?m = Some (rf2, r)" "rvr_VoteGranted r"
    "rf2 = fst (the (RequestVote ex_vote ?m))"
  proof -
    have "case RequestVote ex_vote ?m of Some (_, r) \<Rightarrow> rvr_VoteGranted r | None \<Rightarrow> False"
      by code_simp
    then show thesis using that by (auto split: option.splits)
  qed
  define rf3 where "rf3 = Make (npeers rf2) (me rf2) (persister rf2)"
  obtain rf4 r' where 2: "RequestVote ex_vote rf3 = Some (rf4, r')" "rvr_VoteGranted r'"
  proof -
    have "case RequestVote ex_vote (Make (npeers (fst (the (RequestVote ex_vote ?m))))
        (me (fst (the (RequestVote ex_vote ?m)))) (persister (fst (the (RequestVote ex_vote ?m)))))
      of Some (_, r) \<Rightarrow> rvr_VoteGranted r | None \<Rightarrow> False"
      by code_simp
    then show thesis using that unfolding rf3_def 1(3) by (auto split: option.splits)
  qed
  have "rv_CandidatedId ex_vote = rv_CandidatedId ex_vote"
    by (rule one_vote_per_term [of "[]" 3 1 MakePersister ?m ex_vote rf2 r "[CrashRestart]" rf3 ex_vote rf4 r'])
      (use 1 2 in \<open>simp_all add: rf3_def ex_vote_def\<close>)
  with 1 2 show ?thesis by (auto simp: rf3_def ex_vote_def)
qed

text \<open>A vote is granted only to a candidate whose log is at least as up to date as the
  voter's, in the term of the request, and it is on disk together with the new term before the
  reply is sent; the reply carries the term of the request.\<close>

theorem vote_granted:
  assumes "RequestVote args rf = Some (rf', reply)" and "rvr_VoteGranted reply" and "log rf \<noteq> []"
  shows "currentTerm rf \<le> rv_Term args \<and> uptodate args (last (log rf)) \<and>
    rvr_Term reply = rv_Term args \<and> log rf' = log rf \<and>
    raftstate (persister rf') = Some \<lparr>rs_currentTerm = rv_Term args, rs_votedFor = rv_CandidatedId args,
      rs_log = log rf, rs_lastIncludedIndex = lastIncludedIndex rf,
      rs_lastIncludedTerm = lastIncludedTerm rf\<rparr>"
  using assms
  by (auto simp: RequestVote_def RequestVote_adoptTerm_def Let_def effect_defs zero_rvr_def
      durable_def raft_defs bind_eq_Some_conv split: if_splits)

lemma vote_granted_witness:
  "\<exists>rf' reply. RequestVote ex_vote (Make 3 1 (MakePersister :: (nat, nat) Persister)) = Some (rf', reply) \<and>
     rvr_Term reply = 1"
proof -
  let ?m = "Make 3 1 (MakePersister :: (nat, nat) Persister)"
  have "case RequestVote ex_vote ?m of Some (_, r) \<Rightarrow> rvr_VoteGranted r | None \<Rightarrow> False" "log ?m \<noteq> []"
    "rv_Term ex_vote = 1"
    by code_simp+
  then show ?thesis using vote_granted [of ex_vote ?m] by (auto split: option.splits)
qed

text \<open>C26: Crash recovery. Whatever happened to a peer, what its persister holds rebuilds its
  durable state exactly: if the log was well-formed and begins at a stored snapshot, a restart
  gives back term, vote, log and snapshot position in a peer that satisfies the peer invariant,
  has sent nothing to its service, applies from the snapshot on, and has, if
  there is a stored snapshot, a goroutine that is about to send exactly that snapshot with that
  position (when it does is up to the scheduler: see \<open>recovery_overtaken\<close>).\<close>

theorem crash_recovery:
  assumes "run_steps raft_step es (Make n i ps) = Some rf" and "log_wf rf" and "snap_wf rf"
  shows "durable (Make n i (persister rf)) = durable rf \<and> raft_wf (Make n i (persister rf)) \<and>
    state (Make n i (persister rf)) = Follower \<and>
    lastApplied (Make n i (persister rf)) = lastIncludedIndex rf \<and>
    applyCh (Make n i (persister rf)) = [] \<and>
    (case snapshot (persister rf) of
       None \<Rightarrow> recover_send (Make n i (persister rf)) = None
     | Some d \<Rightarrow> map_option applyCh (recover_send (Make n i (persister rf))) =
         Some [snapshot_msg (lastIncludedIndex rf) (Some d)])"
proof -
  have p: "persisted rf" by (rule peer.run_inv [OF persisted_Make assms(1)])
  then have "state (Make n i (persister rf)) = Follower"
    by (auto simp: persisted_def intro: Make_fields)
  with Make_recovers [OF p, of n i] Make_wf [OF p assms(2,3), of n i] assms(3) show ?thesis
    by (simp add: snap_wf_def split: option.split)
qed

lemma crash_recovery_witness:
  "\<exists>rf. run_steps raft_step [HandleAppendEntries (ex_append\<lparr>ae_PreLogIndex := 0, ae_PreLogTerm := -1,
       ae_Entries := [ex_entry 2 1]\<rparr>)] (Make 3 1 (MakePersister :: (nat, nat) Persister)) = Some rf \<and>
     durable (Make 3 1 (persister rf)) = durable rf \<and> length (log rf) = 2"
proof -
  let ?run = "run_steps raft_step [HandleAppendEntries (ex_append\<lparr>ae_PreLogIndex := 0, ae_PreLogTerm := -1,
       ae_Entries := [ex_entry 2 1]\<rparr>)] (Make 3 1 (MakePersister :: (nat, nat) Persister))"
  have "case ?run of Some rf \<Rightarrow> log_wf rf \<and> snap_wf rf \<and> length (log rf) = 2 | None \<Rightarrow> False"
    by code_simp
  then obtain rf where "?run = Some rf" "log_wf rf" "snap_wf rf" "length (log rf) = 2"
    by (auto split: option.splits)
  with crash_recovery [of _ 3 1 MakePersister rf] show ?thesis by blast
qed

text \<open>\<open>recoverFromSnap\<close> sends the snapshot from a goroutine of its own, which nothing orders
  before the applier. In this run a peer has taken a snapshot up to index 1 and restarts; a
  message of the leader and one turn of the applier come before the goroutine, and the service
  is given the command of index 2 first and the snapshot of index 1 after it.\<close>

definition ex_overtaken :: "(nat, nat) raft_event list" where
  "ex_overtaken =
     [HandleAppendEntries \<lparr>ae_Term = 2, ae_LeaderId = 0, ae_PreLogIndex = 0, ae_PreLogTerm = -1,
        ae_Entries = [ex_entry 1 1, ex_entry 2 2], ae_LeaderCommit = 1\<rparr>,
      ApplierTurn, ApplierSend, ServiceSnapshot 1 (Some 9), CrashRestart,
      HandleAppendEntries \<lparr>ae_Term = 2, ae_LeaderId = 0, ae_PreLogIndex = 2, ae_PreLogTerm = 2,
        ae_Entries = [], ae_LeaderCommit = 2\<rparr>,
      ApplierTurn, ApplierSend, RecoverSend]"

theorem recovery_overtaken:
  "map_option applyCh (run_steps raft_step ex_overtaken (Make 3 1 MakePersister)) =
     Some [command_msg (Some 2) 2 2, snapshot_msg 1 (Some 9)]"
  by code_simp

section \<open>Elections\<close>

text \<open>C4: Election safety, as far as the code has it. In every execution of the cluster (lost,
  delayed, repeated and reordered messages, also after the call of the candidate has returned,
  crashes, any interleaving of the critical sections) in which
  a candidate is promoted only while it is still a candidate in the term it counted votes for,
  at most one peer is ever promoted in a term, and every leader is that peer.\<close>

theorem election_safety:
  assumes "clean_reachable n s" and "(t, i) \<in> promoted s"
  shows "{j. (t, j) \<in> promoted s} = {i} \<and>
    {j. state (nodes s j) = Leader \<and> currentTerm (nodes s j) = t} \<subseteq> {i}"
proof -
  from clean_reachable_leaders [OF assms(1)]
  have inv: "cluster_inv s" "\<And>T j. (T, j) \<in> promoted s \<Longrightarrow> won s T j"
    "\<And>j. state (nodes s j) = Leader \<Longrightarrow> (currentTerm (nodes s j), j) \<in> promoted s"
    by (auto simp: leaders_inv_def)
  have same: "j = i" if "(t, j) \<in> promoted s" for j
    using won_unique [OF inv(1) inv(2) [OF that] inv(2) [OF assms(2)]] .
  have "{j. (t, j) \<in> promoted s} = {i}" using same assms(2) by blast
  moreover have "{j. state (nodes s j) = Leader \<and> currentTerm (nodes s j) = t} \<subseteq> {i}"
    using same inv(3) by blast
  ultimately show ?thesis ..
qed

definition vote_from :: "nat \<Rightarrow> nat \<Rightarrow> int \<Rightarrow> nat \<Rightarrow> (nat, nat) action list" where
  "vote_from e c t j = [Launch e j, Ask e j,
     Deliver e j \<lparr>rv_Term = t, rv_CandidatedId = int c, rv_LastLogIndex = 0, rv_LastLogTerm = -1\<rparr>,
     Reply e j \<lparr>rvr_Term = t, rvr_VoteGranted = True\<rparr>, Count e j]"

text \<open>Peer 0 is elected by peer 1 in term 1.\<close>

definition ex_election :: "(nat, nat) action list" where
  "ex_election = [Begin 0, Copy 0] @ vote_from 0 0 1 1 @ [Evaluate 0, Promote 0]"

definition clean_cluster_step :: "('c, 's) action \<Rightarrow> ('c, 's) cluster \<Rightarrow> ('c, 's) cluster option" where
  "clean_cluster_step a s = (if clean a s then cluster_step a s else None)"

lemma clean_run:
  assumes "run_steps clean_cluster_step acts s = Some t" and "clean_reachable n s"
  shows "clean_reachable n t"
  using assms
proof (induction acts arbitrary: s)
  case (Cons a acts)
  then show ?case
    by (auto simp: bind_eq_Some_conv clean_cluster_step_def split: if_splits
        intro: clean_reachable.clean_step)
qed simp

lemma election_safety_witness:
  "\<exists>s :: (nat, nat) cluster. clean_reachable 3 s \<and> state (nodes s 0) = Leader \<and>
     {j. (1, j) \<in> promoted s} = {0}"
proof -
  have "case run_steps clean_cluster_step ex_election (init_cluster 3) of
      Some s \<Rightarrow> state (nodes s 0) = Leader \<and> (1, 0) \<in> promoted s | None \<Rightarrow> False"
    by code_simp
  then obtain s where s: "run_steps clean_cluster_step ex_election (init_cluster 3) = Some s"
    "state (nodes s 0) = Leader" "(1, 0) \<in> promoted s"
    by (auto split: option.splits)
  have "clean_reachable 3 s" by (rule clean_run [OF s(1) clean_initial])
  with s election_safety [of 3 s 1 0] show ?thesis by blast
qed

text \<open>The schedule of the next counterexample.\<close>

definition ex_stale_promotion :: "(nat, nat) action list" where
  "ex_stale_promotion = [Begin 0, Copy 0] @ vote_from 0 0 1 1 @ [Evaluate 0, Begin 2, Begin 2, Copy 2] @
     vote_from 2 2 2 0 @ [Evaluate 2, Promote 2, Promote 0]"

text \<open>C30: Without that restriction the election is not safe: \<open>Convert2Leader\<close> looks neither at
  the state nor at the term it finds. There is an execution of three peers without a crash in
  which two of them are leaders in the same term: a candidate of term 1 has its majority and is
  about to call \<open>Convert2Leader\<close>; meanwhile another peer is elected in term 2 with its vote, and
  the first then becomes leader of term 2 as well.\<close>

theorem two_leaders_in_one_term:
  "\<exists>s :: (nat, nat) cluster. reachable 3 s \<and>
     state (nodes s 0) = Leader \<and> state (nodes s 2) = Leader \<and>
     currentTerm (nodes s 0) = currentTerm (nodes s 2)"
proof -
  have "case run_steps cluster_step ex_stale_promotion (init_cluster 3) of
      Some s \<Rightarrow> state (nodes s 0) = Leader \<and> state (nodes s 2) = Leader \<and>
        currentTerm (nodes s 0) = currentTerm (nodes s 2) | None \<Rightarrow> False"
    by code_simp
  then obtain s where s: "run_steps cluster_step ex_stale_promotion (init_cluster 3) = Some s"
    "state (nodes s 0) = Leader" "state (nodes s 2) = Leader"
    "currentTerm (nodes s 0) = currentTerm (nodes s 2)"
    by (auto split: option.splits)
  have "reachable 3 s" by (rule reachable_run [OF s(1) initial])
  with s show ?thesis by blast
qed

section \<open>Snapshots, the applier and Start\<close>

text \<open>A snapshot of the service up to an applied index keeps the peer's invariant, cuts the
  log there and nothing after it, and puts the shortened log and the new snapshot on disk: a
  restart then has exactly that snapshot to send, at that index, with the same remaining log.\<close>

theorem snapshot_then_restart:
  assumes "raft_wf rf" and "lastIncludedIndex rf < i" and "i \<le> lastApplied rf"
  shows "\<exists>rf'. Snapshot i (Some d) rf = Some rf' \<and> raft_wf rf' \<and> lastIncludedIndex rf' = i \<and>
    lastIncludedTerm rf' = le_Term (entry_at rf i) \<and> lastIndex rf' = lastIndex rf \<and>
    (\<forall>j. i < j \<longrightarrow> entry_at rf' j = entry_at rf j) \<and> commitIndex rf' = commitIndex rf \<and>
    (let m = Make n k (persister rf') in
       raft_wf m \<and> durable m = durable rf' \<and> recoverMsg m = Some (snapshot_msg i (Some d)) \<and>
       lastApplied m = i)"
proof -
  obtain rf' where rf': "Snapshot i (Some d) rf = Some rf'" "raft_wf rf'" "lastIncludedIndex rf' = i"
    "lastIncludedTerm rf' = le_Term (entry_at rf i)" "lastIndex rf' = lastIndex rf"
    "\<forall>j. i < j \<longrightarrow> entry_at rf' j = entry_at rf j" "persisted rf'"
    "snapshot (persister rf') = Some d" "commitIndex rf' = commitIndex rf"
    using Snapshot_outcome [OF assms, of "Some d"] by blast
  have "snap_wf rf'" using rf'(8) by (simp add: snap_wf_def)
  with Make_wf [OF rf'(7) _ this, of n k] Make_recovers [OF rf'(7), of n k] rf' show ?thesis
    by (simp add: Let_def)
qed

lemma snapshot_then_restart_witness:
  "\<exists>rf'. Snapshot 1 (Some 7) ex_leader = Some rf' \<and> lastIncludedTerm rf' = 1 \<and>
     recoverMsg (Make 3 0 (persister rf')) = Some (snapshot_msg 1 (Some 7))"
proof -
  have "lastApplied ex_leader = 1" "le_Term (entry_at ex_leader 1) = 1" by code_simp+
  with snapshot_then_restart [of ex_leader 1 7 3 0] show ?thesis by (auto simp: Let_def)
qed

text \<open>\<open>Snapshot\<close> writes to the persister twice, first the shortened log (\<open>persist\<close>) and then
  the snapshot. A crash between the two leaves the old snapshot beside the new log: the
  restarted peer presents the old snapshot to the service as the state at the new index, and
  the entries between the two are gone from its log.\<close>

theorem snapshot_not_atomic:
  assumes "raft_wf rf" and "lastIncludedIndex rf < i" and "i \<le> lastApplied rf"
    and "snapshot (persister rf) = Some old"
  shows "\<exists>mid. Snapshot_trimmed i rf = Some mid \<and>
    recoverMsg (Make n k (persister mid)) = Some (snapshot_msg i (Some old)) \<and>
    lastIncludedIndex (Make n k (persister mid)) = i \<and> lastApplied (Make n k (persister mid)) = i"
proof -
  have "log_wf rf" "i \<le> lastIndex rf" using assms(1,3) by (auto simp: raft_wf_def)
  from trimmed_outcome [OF this(1) assms(2) this(2)] obtain mid where
    mid: "Snapshot_trimmed i rf = Some mid" "lastIncludedIndex mid = i" "persisted mid"
      "snapshot (persister mid) = snapshot (persister rf)" by blast
  have "lastIncludedIndex (Make n k (persister mid)) = i"
    using Make_fields(4) [of "persister mid" "durable mid" n k] mid(2,3)
    by (simp add: persisted_def durable_def)
  with Make_recovers [OF mid(3), of n k] mid assms(4) show ?thesis by simp
qed

lemma snapshot_not_atomic_witness:
  "\<exists>mid. Snapshot_trimmed 1 (SaveStateAndSnapshot_rf (Some 5) ex_leader) = Some mid \<and>
     recoverMsg (Make 3 0 (persister mid)) = Some (snapshot_msg 1 (Some 5))"
proof -
  let ?rf = "SaveStateAndSnapshot_rf (Some 5) ex_leader"
  have "lastApplied ?rf = 1" "snapshot (persister ?rf) = Some 5" "lastIncludedIndex ?rf = 0"
    "raft_wf ?rf"
    by code_simp+
  with snapshot_not_atomic [of ?rf 1 5 3 0] show ?thesis by auto
qed

text \<open>A leader's snapshot that is newer than the receiver's is installed: the receiver's
  position, log, snapshot on disk and the message to the service all agree on its index, what
  the log has after it is kept if and only if the log has that index with the same term and
  continues after it, and the peer's invariant holds again.\<close>

theorem install_snapshot:
  assumes "raft_wf rf" and "currentTerm rf \<le> is_Term args" and "\<not> activeSnapshotting rf"
    and "lastIncludedIndex rf < is_LastIncludedIndex args"
  shows "\<exists>rf' reply. CondInstallSnap args rf = Some (rf', reply) \<and> isr_Accept reply \<and>
    isr_Term reply = is_Term args \<and> currentTerm rf' = is_Term args \<and>
    raft_wf rf' \<and> persisted rf' \<and> snap_installed args rf rf'"
  using CondInstallSnap_outcome [OF assms] by blast

definition ex_install :: "nat InstallSnapshotArgs" where
  "ex_install = \<lparr>is_Term = 2, is_LeaderId = 0, is_LastIncludedIndex = 1, is_LastIncludedTerm = 1,
     is_SnapshotData = Some 9\<rparr>"

lemma install_snapshot_witness:
  "\<exists>rf' reply. CondInstallSnap ex_install ex_follower = Some (rf', reply) \<and> isr_Accept reply \<and>
     lastIndex rf' = 2 \<and> applyCh rf' = [snapshot_msg 1 (Some 9)]"
proof -
  have "snap_fits ex_install ex_follower" "lastIndex ex_follower = 2" by code_simp+
  with install_snapshot [of ex_follower ex_install] show ?thesis
    by (auto simp: ex_install_def snap_installed_def)
qed

text \<open>The snapshot data and the snapshot index a leader sends are read in two critical
  sections. If the leader takes a new snapshot in between, it sends the old data as the state
  at the new index.\<close>

theorem stale_snapshot_sent:
  assumes "raft_wf rf" and "state rf = Leader" and "\<not> killed rf"
    and "lastIncludedIndex rf < i" and "i \<le> lastApplied rf"
    and "LeaderAppendEntries_args k t rf = Some (SnapshotInstead old)"
  shows "\<exists>rf' args. Snapshot i new rf = Some rf' \<and>
    LeaderSendSnapshot_args t old rf' = Some args \<and> is_LastIncludedIndex args = i \<and>
    is_SnapshotData args = snapshot (persister rf) \<and> snapshot (persister rf') = new"
proof -
  obtain rf' where rf': "Snapshot i new rf = Some rf'" "lastIncludedIndex rf' = i"
    "snapshot (persister rf') = new" "state rf' = state rf"
    using Snapshot_outcome [OF assms(1,4,5), of new] by blast
  have "dead rf' = dead rf"
    using rf'(1) by (auto simp: Snapshot_def Snapshot_trimmed_def SaveStateAndSnapshot_rf_def Let_def
        bind_eq_Some_conv split: if_splits)
  moreover have "old = snapshot (persister rf)"
    using assms(6) by (auto simp: LeaderAppendEntries_args_def ReadSnapshot_def bind_eq_Some_conv
        split: if_splits)
  ultimately show ?thesis
    using rf' assms(2,3) by (simp add: LeaderSendSnapshot_args_def killed_def)
qed

lemma stale_snapshot_sent_witness:
  "\<exists>rf' args. Snapshot 1 (Some 8) (SaveStateAndSnapshot_rf (Some 5) (ex_leader\<lparr>nextIndex := [4, 0, 4]\<rparr>)) = Some rf' \<and>
     LeaderSendSnapshot_args 2 (Some 5) rf' = Some args \<and> is_LastIncludedIndex args = 1 \<and>
     is_SnapshotData args = Some 5"
proof -
  let ?rf = "SaveStateAndSnapshot_rf (Some 5) (ex_leader\<lparr>nextIndex := [4, 0, 4]\<rparr>)"
  have "raft_wf ?rf" "state ?rf = Leader" "\<not> killed ?rf" "lastIncludedIndex ?rf = 0"
    "lastApplied ?rf = 1" "LeaderAppendEntries_args 1 2 ?rf = Some (SnapshotInstead (Some 5))"
    "snapshot (persister ?rf) = Some 5"
    by code_simp+
  with stale_snapshot_sent [of ?rf 1 1 2 "Some 5" "Some 8"] show ?thesis by auto
qed

text \<open>The applier delivers committed entries in order, each once, without gaps: \<open>n\<close> turns of
  its loop, each followed by its send, on a well-formed peer that is at least \<open>n\<close> entries behind its commit index send
  exactly the next \<open>n\<close> entries of the log, with their indices and terms.\<close>

theorem applier_in_order:
  assumes "raft_wf rf" and "applierMsg rf = None" and "lastApplied rf + int n \<le> commitIndex rf"
  shows "\<exists>rf'. applier_run n rf = Some rf' \<and> lastApplied rf' = lastApplied rf + int n \<and>
    applyCh rf' = applyCh rf @ map (\<lambda>i. command_msg (le_Command (entry_at rf i)) i
      (le_Term (entry_at rf i))) [lastApplied rf + 1..lastApplied rf + int n]"
  using applier_run_outcome [OF assms] by (simp add: apply_msg_def)

lemma applier_in_order_witness:
  "\<exists>rf'. applier_run 1 ex_follower = Some rf' \<and> lastApplied rf' = 1 \<and>
     applyCh rf' = [command_msg (Some 1) 1 1]"
proof -
  have "le_Command (entry_at ex_follower 1) = Some 1" "le_Term (entry_at ex_follower 1) = 1" by code_simp+
  with applier_in_order [of ex_follower 1] show ?thesis by auto
qed

text \<open>\<open>Start\<close>, when nothing happens between its two critical sections: on a leader it appends
  the command at the index it returns, with the term it returns, on disk, leaving the rest of
  the log; elsewhere it changes nothing and says so.\<close>

theorem start_appends:
  assumes "raft_wf rf"
  shows "\<exists>rf' index. Start c rf = Some (rf', index, currentTerm rf, state rf = Leader) \<and>
     index = lastIndex rf + 1 \<and> raft_wf rf' \<and>
     (state rf \<noteq> Leader \<longrightarrow> rf' = rf) \<and>
     (state rf = Leader \<longrightarrow> persisted rf' \<and> lastIndex rf' = index \<and>
        entry_at rf' index = \<lparr>le_Command = Some c, le_Term = currentTerm rf, le_Index = index\<rparr> \<and>
        (\<forall>i. lastIncludedIndex rf \<le> i \<longrightarrow> i \<le> lastIndex rf \<longrightarrow> entry_at rf' i = entry_at rf i))"
  by (rule Start_outcome [OF assms])

lemma start_appends_witness:
  "\<exists>rf'. Start 6 ex_leader = Some (rf', 4, 2, True) \<and> lastIndex rf' = 4"
  using start_appends [of ex_leader 6] by auto

text \<open>\<open>Start\<close> reads term and role under one lock and appends under another. If a message of a
  newer leader comes in between, the deposed peer appends an entry of its old term after
  entries of the new one: it is then a follower whose log terms decrease.\<close>

theorem start_after_deposition:
  "\<exists>rf1 rf2 index. GetState ex_leader = (2, True) \<and>
    raft_step (HandleAppendEntries (ex_append\<lparr>ae_Term := 3, ae_PreLogIndex := 3, ae_PreLogTerm := 2,
      ae_Entries := [ex_entry 3 4]\<rparr>)) ex_leader = Some rf1 \<and> state rf1 = Follower \<and>
    Start_append 6 2 True rf1 = Some (rf2, index, 2, True) \<and> state rf2 = Follower \<and>
    map le_Term (log rf2) = [-1, 1, 2, 2, 3, 2]"
proof -
  let ?e = "HandleAppendEntries (ex_append\<lparr>ae_Term := 3, ae_PreLogIndex := 3, ae_PreLogTerm := 2,
      ae_Entries := [ex_entry 3 4]\<rparr>)"
  have "case raft_step ?e ex_leader of
      Some rf1 \<Rightarrow> state rf1 = Follower \<and>
        (case Start_append 6 2 True rf1 of
           Some (rf2, index, t, l) \<Rightarrow> t = 2 \<and> l \<and> state rf2 = Follower \<and>
             map le_Term (log rf2) = [-1, 1, 2, 2, 3, 2]
         | None \<Rightarrow> False)
    | None \<Rightarrow> False" "GetState ex_leader = (2, True)"
    by code_simp+
  then show ?thesis by (auto split: option.splits prod.splits)
qed

end
