(* ===== verification/Service.thy ===== *)
theory Service
  imports Prelude
begin

text \<open>
  What the replicated services (\<open>src/shardmaster\<close>, \<open>src/shardkv\<close>, \<open>src/kvraft\<close>) share: error
  strings, the channels through which the apply loop wakes up the RPC handlers, the session
  tables that make retried requests take effect at most once, and Go's iteration over maps.
\<close>

text \<open>The error strings of the three packages; \<open>NoErr\<close> is the empty string of a fresh reply.\<close>

datatype Err = NoErr | OK | ErrNoKey | ErrWrongGroup | ErrWrongLeader | ErrTimeout | ErrNotReady

section \<open>Map iteration\<close>

text \<open>
  \<open>for k := range m\<close> visits the keys in an order the runtime chooses. A definition that
  iterates takes that order as an argument.
\<close>

definition iterates :: "'k list \<Rightarrow> ('k \<rightharpoonup> 'v) \<Rightarrow> bool" where
  "iterates ks m \<longleftrightarrow> distinct ks \<and> set ks = dom m"

lemma iterates_length: "iterates ks m \<Longrightarrow> length ks = card (dom m)"
  by (metis distinct_card iterates_def)

lemma iterates_mset: "iterates ks m \<Longrightarrow> iterates ks' m \<Longrightarrow> mset ks = mset ks'"
  by (metis iterates_def set_eq_iff_mset_eq_distinct)

text \<open>A loop that copies the entries it visits copies the map.\<close>

definition copyMap :: "'k list \<Rightarrow> ('k \<rightharpoonup> 'v) \<Rightarrow> ('k \<rightharpoonup> 'v)" where
  "copyMap ks m = fold (\<lambda>k n. case m k of Some v \<Rightarrow> n(k \<mapsto> v) | None \<Rightarrow> n) ks (\<lambda>_. None)"

lemma copy_fold:
  "fold (\<lambda>k n. case m k of Some v \<Rightarrow> n(k \<mapsto> v) | None \<Rightarrow> n) ks n =
     (\<lambda>k. if k \<in> set ks \<and> m k \<noteq> None then m k else n k)"
  by (induction ks arbitrary: n) (auto simp: fun_eq_iff split: option.splits)

lemma copyMap_id [simp]:
  assumes "iterates ks m"
  shows "copyMap ks m = m"
proof
  fix k
  show "copyMap ks m k = m k"
    using assms by (cases "m k") (auto simp: copyMap_def copy_fold iterates_def)
qed

section \<open>Notification channels\<close>

text \<open>
  \<open>notifyMapCh\<close> maps a log index to a channel with room for one reply. A handler keeps the
  channel it created even when the map entry is replaced, so channels have identities.
\<close>

record 'r chan =
  ch_buf :: "'r list"
  ch_closed :: bool

record 'r Notify =
  chans :: "'r chan list"
  notifyMapCh :: "int \<rightharpoonup> nat"

definition no_channels :: "'r Notify" where
  "no_channels = \<lparr>chans = [], notifyMapCh = (\<lambda>_. None)\<rparr>"

definition createNotifyCh :: "int \<Rightarrow> 'r Notify \<Rightarrow> 'r Notify \<times> nat" where
  "createNotifyCh index n =
     (let c = length (chans n)
      in (n\<lparr>chans := chans n @ [\<lparr>ch_buf = [], ch_closed = False\<rparr>],
            notifyMapCh := (notifyMapCh n)(index \<mapsto> c)\<rparr>, c))"

text \<open>\<open>None\<close>: closing a closed channel panics.\<close>

definition closeNotifyCh :: "int \<Rightarrow> 'r Notify \<Rightarrow> 'r Notify option" where
  "closeNotifyCh index n =
     (case notifyMapCh n index of
        None \<Rightarrow> Some n
      | Some c \<Rightarrow>
          if ch_closed (chans n ! c) then None
          else Some (n\<lparr>chans := (chans n)[c := (chans n ! c)\<lparr>ch_closed := True\<rparr>],
                       notifyMapCh := (notifyMapCh n)(index := None)\<rparr>))"

text \<open>\<open>None\<close>: sending on a closed channel panics, sending on a full one blocks.\<close>

definition sendNotify :: "int \<Rightarrow> 'r \<Rightarrow> 'r Notify \<Rightarrow> 'r Notify option" where
  "sendNotify index r n =
     (case notifyMapCh n index of
        None \<Rightarrow> Some n
      | Some c \<Rightarrow>
          if ch_closed (chans n ! c) \<or> ch_buf (chans n ! c) \<noteq> [] then None
          else Some (n\<lparr>chans := (chans n)[c := (chans n ! c)\<lparr>ch_buf := [r]\<rparr>]\<rparr>))"

text \<open>
  What a handler waiting on its channel receives: a buffered reply, the zero value once the
  channel is closed and drained, nothing yet otherwise.
\<close>

definition recvNotify :: "'r \<Rightarrow> nat \<Rightarrow> 'r Notify \<Rightarrow> ('r \<times> 'r Notify) option" where
  "recvNotify zero c n =
     (case ch_buf (chans n ! c) of
        r # _ \<Rightarrow> Some (r, n\<lparr>chans := (chans n)[c := (chans n ! c)\<lparr>ch_buf := []\<rparr>]\<rparr>)
      | [] \<Rightarrow> if ch_closed (chans n ! c) then Some (zero, n) else None)"

definition notify_wf :: "'r Notify \<Rightarrow> bool" where
  "notify_wf n \<longleftrightarrow> inj_on (notifyMapCh n) (dom (notifyMapCh n)) \<and>
     (\<forall>i c. notifyMapCh n i = Some c \<longrightarrow> c < length (chans n) \<and> \<not> ch_closed (chans n ! c))"

lemma notify_wf_init: "notify_wf no_channels"
  by (simp add: notify_wf_def no_channels_def)

lemma createNotifyCh_wf:
  assumes "notify_wf n"
  shows "notify_wf (fst (createNotifyCh i n))"
proof -
  have "notifyMapCh n j \<noteq> Some (length (chans n))" for j
    using assms by (auto simp: notify_wf_def)
  with assms show ?thesis
    unfolding notify_wf_def createNotifyCh_def Let_def
    by (fastforce simp: nth_append inj_on_def dom_def split: if_splits)
qed

lemma closeNotifyCh_wf:
  assumes wf: "notify_wf n"
  shows "\<exists>n'. closeNotifyCh i n = Some n' \<and> notify_wf n' \<and> notifyMapCh n' i = None"
proof (cases "notifyMapCh n i")
  case None
  with wf show ?thesis by (simp add: closeNotifyCh_def)
next
  case (Some c)
  have other: "c' \<noteq> c" if "notifyMapCh n i' = Some c'" "i' \<noteq> i" for i' c'
    using wf Some that by (auto simp: notify_wf_def inj_on_def dom_def)
  from wf Some other show ?thesis
    by (auto simp: closeNotifyCh_def notify_wf_def inj_on_def dom_def nth_list_update)
qed

lemma sendNotify_wf:
  assumes wf: "notify_wf n" and "sendNotify i r n = Some n'"
  shows "notify_wf n'"
  using assms by (auto simp: sendNotify_def notify_wf_def nth_list_update split: option.splits if_splits)

section \<open>Sessions\<close>

text \<open>
  The contract of a session table. \<open>settled op s\<close>: the table already records this request,
  or a later one, of its client. A settled request changes nothing, stays settled, and a
  request that changes something is settled afterwards.
\<close>

locale session_service =
  fixes step :: "'op \<Rightarrow> 's \<Rightarrow> 's"
    and client :: "'op \<Rightarrow> bool"
    and settled :: "'op \<Rightarrow> 's \<Rightarrow> bool"
  assumes settled_noop: "client op \<Longrightarrow> settled op s \<Longrightarrow> step op s = s"
    and settled_step: "client op \<Longrightarrow> settled op s \<Longrightarrow> settled op (step op' s)"
    and step_settles: "client op \<Longrightarrow> step op s \<noteq> s \<Longrightarrow> settled op (step op s)"
begin

lemma settled_run: "client op \<Longrightarrow> settled op s \<Longrightarrow> settled op (fold step ops s)"
  by (induction ops arbitrary: s) (auto intro: settled_step)

lemma replay_noop:
  assumes "client op" and "settled op s"
  shows "step op (fold step ops s) = fold step ops s"
  by (rule settled_noop [OF assms(1) settled_run [OF assms]])

text \<open>How often the request \<open>op\<close> changes the state in a run of the log.\<close>

primrec effects :: "'op \<Rightarrow> 'op list \<Rightarrow> 's \<Rightarrow> nat" where
  "effects op [] s = 0"
| "effects op (x # xs) s = (if x = op \<and> step x s \<noteq> s then 1 else 0) + effects op xs (step x s)"

lemma effects_settled: "client op \<Longrightarrow> settled op s \<Longrightarrow> effects op xs s = 0"
  by (induction xs arbitrary: s) (auto simp: settled_noop settled_step)

lemma effects_at_most_once: "client op \<Longrightarrow> effects op xs s \<le> 1"
proof (induction xs arbitrary: s)
  case (Cons x xs)
  then show ?case
    by (cases "x = op \<and> step x s \<noteq> s") (auto simp: effects_settled step_settles)
qed simp

lemma duplicate_dropped:
  assumes "client op" and "step op s \<noteq> s"
  shows "fold step (op # xs @ op # ys) s = fold step (op # xs @ ys) s"
  using replay_noop [OF assms(1) step_settles [OF assms]] by simp

end

end
