(* ===== verification/LoadBalance.thy ===== *)
theory LoadBalance
  imports Service
begin

text \<open>
  \<open>shardLoadBalance\<close> of \<open>src/shardmaster/server.go\<close>: the assignment of shards to replica
  groups. It counts, sorts the groups by load with a bubble sort, takes shards from the
  overloaded groups and gives free shards to the others. The lemmas show that the result is
  balanced, that it does not depend on the iteration order of the map, and that no balanced
  assignment moves fewer shards.
\<close>

section \<open>The code\<close>

type_synonym groups = "int \<rightharpoonup> string list"

definition NShards :: nat where
  "NShards = 10"

text \<open>Reading a Go map of integers: 0 for a missing key.\<close>

definition cnt :: "(int \<rightharpoonup> int) \<Rightarrow> int \<Rightarrow> int" where
  "cnt m gid = (case m gid of Some n \<Rightarrow> n | None \<Rightarrow> 0)"

text \<open>Phase 1: count the shards of the remaining groups, free those of the departed ones.\<close>

fun countShards :: "groups \<Rightarrow> int list \<Rightarrow> (int \<rightharpoonup> int) \<Rightarrow> int list \<times> (int \<rightharpoonup> int)" where
  "countShards groups [] shardCnt = ([], shardCnt)"
| "countShards groups (gid # lastShards) shardCnt =
     (if groups gid \<noteq> None then
        case countShards groups lastShards (shardCnt(gid \<mapsto> cnt shardCnt gid + 1)) of
          (res, c) \<Rightarrow> (gid # res, c)
      else case countShards groups lastShards shardCnt of (res, c) \<Rightarrow> (0 # res, c))"

text \<open>Phase 2: an entry for every group.\<close>

definition zeroNewGroups :: "int list \<Rightarrow> (int \<rightharpoonup> int) \<Rightarrow> (int \<rightharpoonup> int)" where
  "zeroNewGroups order shardCnt =
     fold (\<lambda>gid c. if c gid = None then c(gid \<mapsto> 0) else c) order shardCnt"

text \<open>The order of the sort: heavier first, then the smaller gid.\<close>

definition heavier :: "(int \<rightharpoonup> int) \<Rightarrow> int \<Rightarrow> int \<Rightarrow> bool" where
  "heavier shardCnt a b \<longleftrightarrow> cnt shardCnt a > cnt shardCnt b \<or>
     cnt shardCnt a = cnt shardCnt b \<and> a < b"

text \<open>
  The inner loop swaps neighbours from the right end down to position \<open>i\<close>, which brings the
  first element of the order to the front of the slice from \<open>i\<close> on; the outer loop goes on
  with the rest.
\<close>

fun bubblePass :: "('a \<Rightarrow> 'a \<Rightarrow> bool) \<Rightarrow> 'a list \<Rightarrow> 'a list" where
  "bubblePass lt [] = []"
| "bubblePass lt (x # xs) =
     (case bubblePass lt xs of
        [] \<Rightarrow> [x]
      | y # ys \<Rightarrow> if lt y x then y # x # ys else x # y # ys)"

lemma length_bubblePass [simp]: "length (bubblePass lt xs) = length xs"
  by (induction xs) (auto split: list.splits)

function bubbleSort :: "('a \<Rightarrow> 'a \<Rightarrow> bool) \<Rightarrow> 'a list \<Rightarrow> 'a list" where
  "bubbleSort lt xs =
     (case bubblePass lt xs of [] \<Rightarrow> [] | y # ys \<Rightarrow> y # bubbleSort lt ys)"
  by pat_completeness auto
termination
proof (relation "measure (\<lambda>(lt, xs). length xs)")
  fix lt and xs ys :: "'a list" and y
  assume "bubblePass lt xs = y # ys"
  then have "length xs = Suc (length ys)" by (metis length_Cons length_bubblePass)
  then show "((lt, ys), (lt, xs)) \<in> measure (\<lambda>(lt, xs). length xs)" by simp
qed simp

declare bubbleSort.simps [simp del]

definition target :: "nat \<Rightarrow> nat \<Rightarrow> int" where
  "target groupNum i =
     (if i < NShards mod groupNum then int (NShards div groupNum) + 1
      else int (NShards div groupNum))"

text \<open>The loops over the shard array, with the counter that stops them.\<close>

fun releaseShards :: "int \<Rightarrow> int \<Rightarrow> int list \<Rightarrow> int list" where
  "releaseShards curGid delta [] = []"
| "releaseShards curGid delta (s # ss) =
     (if delta = 0 then s # ss
      else if s = curGid then 0 # releaseShards curGid (delta - 1) ss
      else s # releaseShards curGid delta ss)"

fun assignShards :: "int \<Rightarrow> int \<Rightarrow> int list \<Rightarrow> int list" where
  "assignShards curGid delta [] = []"
| "assignShards curGid delta (s # ss) =
     (if delta = 0 then s # ss
      else if s = 0 then curGid # assignShards curGid (delta + 1) ss
      else s # assignShards curGid delta ss)"

definition releaseOverloaded :: "(int \<rightharpoonup> int) \<Rightarrow> nat \<Rightarrow> (nat \<times> int) list \<Rightarrow> int list \<Rightarrow> int list" where
  "releaseOverloaded shardCnt groupNum = fold (\<lambda>(i, curGid) res.
     let delta = cnt shardCnt curGid - target groupNum i
     in if delta > 0 then releaseShards curGid delta res else res)"

definition fillUnderloaded :: "(int \<rightharpoonup> int) \<Rightarrow> nat \<Rightarrow> (nat \<times> int) list \<Rightarrow> int list \<Rightarrow> int list" where
  "fillUnderloaded shardCnt groupNum = fold (\<lambda>(i, curGid) res.
     let delta = cnt shardCnt curGid - target groupNum i
     in if delta < 0 then assignShards curGid delta res else res)"

definition shardLoadBalance :: "int list \<Rightarrow> groups \<Rightarrow> int list \<Rightarrow> int list" where
  "shardLoadBalance order groups lastShards =
     (let groupNum = length order
      in if groupNum = 0 then replicate NShards 0
         else
           let (resShards, shardCnt) = countShards groups lastShards (\<lambda>_. None);
               shardCnt = zeroNewGroups order shardCnt;
               gidSlice = enumerate 0 (bubbleSort (heavier shardCnt) order);
               resShards = releaseOverloaded shardCnt groupNum gidSlice resShards
           in fillUnderloaded shardCnt groupNum gidSlice resShards)"

section \<open>The sort\<close>

text \<open>Bubble sort needs a strict total order on the elements it sorts; then the result is unique.\<close>

locale strict_total =
  fixes lt :: "'a \<Rightarrow> 'a \<Rightarrow> bool"
  assumes lt_irrefl: "\<not> lt a a"
    and lt_trans: "lt a b \<Longrightarrow> lt b c \<Longrightarrow> lt a c"
    and lt_total: "a \<noteq> b \<Longrightarrow> lt a b \<or> lt b a"
begin

lemma pass_mset: "mset (bubblePass lt xs) = mset xs"
  by (induction xs) (auto split: list.splits)

lemma pass_least:
  "bubblePass lt xs = y # ys \<Longrightarrow> \<forall>z \<in> set ys. y = z \<or> lt y z"
proof (induction xs arbitrary: y ys)
  case (Cons x xs)
  show ?case
  proof (cases "bubblePass lt xs")
    case Nil
    with Cons.prems show ?thesis by simp
  next
    case (Cons u us)
    have least: "\<forall>z \<in> set us. u = z \<or> lt u z" by (rule Cons.IH [OF Cons])
    show ?thesis
    proof (cases "lt u x")
      case True
      with Cons.prems Cons least show ?thesis by auto
    next
      case False
      then have "x = u \<or> lt x u" using lt_total by blast
      with least have "\<forall>z \<in> set us. x = z \<or> lt x z" by (auto dest: lt_trans)
      moreover from Cons False have "bubblePass lt (x # xs) = x # u # us" by simp
      with Cons.prems have "y = x" "ys = u # us" by simp_all
      ultimately show ?thesis using \<open>x = u \<or> lt x u\<close> by auto
    qed
  qed
qed simp

lemma bubbleSort_spec:
  "mset (bubbleSort lt xs) = mset xs \<and> sorted_wrt (\<lambda>a b. a = b \<or> lt a b) (bubbleSort lt xs)"
proof (induction "length xs" arbitrary: xs)
  case 0
  then show ?case by (subst (1 2) bubbleSort.simps) simp
next
  case (Suc n)
  obtain y ys where pass: "bubblePass lt xs = y # ys"
    using Suc.hyps(2) by (metis length_0_conv length_bubblePass list.exhaust nat.distinct(1))
  then have "length ys = n"
    using Suc.hyps(2) by (metis length_Cons length_bubblePass nat.inject)
  then have IH: "mset (bubbleSort lt ys) = mset ys"
      "sorted_wrt (\<lambda>a b. a = b \<or> lt a b) (bubbleSort lt ys)"
    using Suc.hyps(1) [of ys] by auto
  have sort: "bubbleSort lt xs = y # bubbleSort lt ys"
    by (subst bubbleSort.simps) (simp add: pass)
  have "mset (y # ys) = mset xs" using pass_mset [of xs] pass by simp
  moreover have "\<forall>z \<in> set (bubbleSort lt ys). y = z \<or> lt y z"
    using pass_least [OF pass] IH(1) by (metis set_mset_mset)
  ultimately show ?case using IH by (simp add: sort)
qed

lemmas bubbleSort_mset = bubbleSort_spec [THEN conjunct1]
  and bubbleSort_sorted = bubbleSort_spec [THEN conjunct2]

lemma sorted_unique:
  assumes "mset xs = mset ys" and "sorted_wrt (\<lambda>a b. a = b \<or> lt a b) xs"
    and "sorted_wrt (\<lambda>a b. a = b \<or> lt a b) ys"
  shows "xs = ys"
  using assms
proof (induction xs arbitrary: ys)
  case (Cons x xs)
  then obtain y zs where ys: "ys = y # zs" by (cases ys) auto
  have "set (x # xs) = set ys" using Cons.prems(1) by (rule mset_eq_setD)
  then have "x = y \<or> lt y x" "x = y \<or> lt x y"
    using Cons.prems(2,3) unfolding ys by auto
  then have "x = y" using lt_irrefl lt_trans by blast
  with Cons ys show ?case by simp
qed simp

lemma bubbleSort_unique: "mset xs = mset ys \<Longrightarrow> bubbleSort lt xs = bubbleSort lt ys"
  by (rule sorted_unique) (simp_all add: bubbleSort_mset bubbleSort_sorted)

end

interpretation heavier: strict_total "heavier shardCnt" for shardCnt
  by unfold_locales (auto simp: heavier_def)

section \<open>Counting\<close>

lemma countShards_res:
  "fst (countShards groups shards c) = map (\<lambda>g. if groups g \<noteq> None then g else 0) shards"
  by (induction shards arbitrary: c) (simp_all add: case_prod_beta)

lemma cnt_upd [simp]: "cnt (m(k \<mapsto> v)) g = (if g = k then v else cnt m g)"
  by (simp add: cnt_def)

lemma countShards_cnt:
  "cnt (snd (countShards groups shards c)) g =
     cnt c g + (if groups g \<noteq> None then int (count_list shards g) else 0)"
  by (induction shards arbitrary: c) (auto simp: case_prod_beta)

lemma zeroNewGroups_cnt [simp]: "cnt (zeroNewGroups order c) = cnt c"
proof -
  have "cnt (fold (\<lambda>gid c. if c gid = None then c(gid \<mapsto> 0) else c) order c) g = cnt c g" for g
    by (induction order arbitrary: c) (auto simp: cnt_def)
  then show ?thesis by (auto simp: zeroNewGroups_def)
qed

lemma releaseShards_count:
  assumes "0 \<le> d" and "g \<noteq> 0" and "d \<le> int (count_list xs g)"
  shows "count_list (releaseShards g d xs) h =
     (if h = g then count_list xs g - nat d
      else if h = 0 then count_list xs 0 + nat d else count_list xs h)"
  using assms
proof (induction xs arbitrary: d)
  case (Cons x xs)
  show ?case
  proof (cases "d = 0")
    case False
    with Cons.prems have "nat d = Suc (nat (d - 1))" by simp
    with Cons.prems False Cons.IH [of d] Cons.IH [of "d - 1"] show ?thesis
      by (cases "x = g") auto
  qed (use Cons.prems in auto)
qed simp

lemma assignShards_count:
  assumes "0 \<le> d" and "g \<noteq> 0" and "d \<le> int (count_list xs 0)"
  shows "count_list (assignShards g (- d) xs) h =
     (if h = g then count_list xs g + nat d
      else if h = 0 then count_list xs 0 - nat d else count_list xs h)"
  using assms
proof (induction xs arbitrary: d)
  case (Cons x xs)
  show ?case
  proof (cases "d = 0")
    case False
    have "- d + 1 = - (d - 1)" by simp
    moreover have "nat d = Suc (nat (d - 1))" using Cons.prems False by simp
    ultimately show ?thesis
      using Cons.prems False Cons.IH [of d] Cons.IH [of "d - 1"] by (cases "x = 0") auto
  qed (use Cons.prems in auto)
qed simp

section \<open>The two redistribution loops\<close>

definition deficit :: "(int \<rightharpoonup> int) \<Rightarrow> nat \<Rightarrow> nat \<times> int \<Rightarrow> nat" where
  "deficit c n p = (case p of (i, g) \<Rightarrow> nat (target n i - cnt c g))"

lemma length_release [simp]: "length (releaseShards g d xs) = length xs"
  by (induction xs arbitrary: d) auto

lemma length_assign [simp]: "length (assignShards g d xs) = length xs"
  by (induction xs arbitrary: d) auto

lemma release_nth:
  "j < length xs \<Longrightarrow> releaseShards g d xs ! j = xs ! j \<or>
     xs ! j = g \<and> releaseShards g d xs ! j = 0"
  by (induction xs arbitrary: d j) (auto simp: nth_Cons split: nat.splits)

lemma assign_nth:
  "j < length xs \<Longrightarrow> assignShards g d xs ! j = xs ! j \<or>
     xs ! j = 0 \<and> assignShards g d xs ! j = g"
  by (induction xs arbitrary: d j) (auto simp: nth_Cons split: nat.splits)

lemma releaseOverloaded_count:
  assumes "distinct (map snd ps)" and "0 \<notin> snd ` set ps"
    and "\<forall>(i, g) \<in> set ps. int (count_list xs g) = cnt c g" and "\<forall>(i, g) \<in> set ps. 0 \<le> target n i"
  shows "length (releaseOverloaded c n ps xs) = length xs \<and>
    (\<forall>(i, g) \<in> set ps. int (count_list (releaseOverloaded c n ps xs) g) = min (cnt c g) (target n i)) \<and>
    (\<forall>g. g \<noteq> 0 \<longrightarrow> g \<notin> snd ` set ps \<longrightarrow>
       count_list (releaseOverloaded c n ps xs) g = count_list xs g) \<and>
    (\<forall>j < length xs. releaseOverloaded c n ps xs ! j = xs ! j \<or> releaseOverloaded c n ps xs ! j = 0)"
  using assms
proof (induction ps arbitrary: xs)
  case Nil
  then show ?case by (simp add: releaseOverloaded_def)
next
  case (Cons p ps)
  obtain i g where p: "p = (i, g)" by fastforce
  define d where "d = cnt c g - target n i"
  define ys where "ys = (if d > 0 then releaseShards g d xs else xs)"
  have g: "g \<noteq> 0" "g \<notin> snd ` set ps" using Cons.prems(1,2) p by force+
  have eq: "releaseOverloaded c n (p # ps) xs = releaseOverloaded c n ps ys"
    by (simp add: releaseOverloaded_def p ys_def d_def Let_def)
  have cg: "int (count_list xs g) = cnt c g" "0 \<le> target n i" using Cons.prems(3,4) p by auto
  have d: "d \<le> int (count_list xs g)" using cg by (simp add: d_def)
  have same: "count_list ys h = count_list xs h" if "h \<noteq> g" "h \<noteq> 0" for h
    using that releaseShards_count [of d g xs h] g d by (auto simp: ys_def)
  have yg: "int (count_list ys g) = min (cnt c g) (target n i)"
    using releaseShards_count [of d g xs g] g d cg by (auto simp: ys_def d_def of_nat_diff)
  have "\<forall>(i, h) \<in> set ps. int (count_list ys h) = cnt c h"
  proof safe
    fix k h assume kh: "(k, h) \<in> set ps"
    then have "h \<noteq> g" "h \<noteq> 0" using g Cons.prems(2) by force+
    with same kh Cons.prems(3) show "int (count_list ys h) = cnt c h" by force
  qed
  with Cons.IH [of ys] Cons.prems have IH: "length (releaseOverloaded c n ps ys) = length ys"
    "\<forall>(i, g) \<in> set ps. int (count_list (releaseOverloaded c n ps ys) g) = min (cnt c g) (target n i)"
    "\<forall>g. g \<noteq> 0 \<longrightarrow> g \<notin> snd ` set ps \<longrightarrow>
       count_list (releaseOverloaded c n ps ys) g = count_list ys g"
    "\<forall>j < length ys. releaseOverloaded c n ps ys ! j = ys ! j \<or> releaseOverloaded c n ps ys ! j = 0"
    by auto
  have len: "length ys = length xs" by (simp add: ys_def)
  have nth: "ys ! j = xs ! j \<or> ys ! j = 0" if "j < length xs" for j
    using release_nth [OF that, of g d] by (auto simp: ys_def)
  show ?case
    unfolding eq
  proof (intro conjI)
    show "\<forall>(i, g) \<in> set (p # ps). int (count_list (releaseOverloaded c n ps ys) g) = min (cnt c g) (target n i)"
      using IH(2,3) g yg p by auto
    show "\<forall>h. h \<noteq> 0 \<longrightarrow> h \<notin> snd ` set (p # ps) \<longrightarrow>
       count_list (releaseOverloaded c n ps ys) h = count_list xs h"
      using IH(3) same p by auto
    show "\<forall>j < length xs. releaseOverloaded c n ps ys ! j = xs ! j \<or> releaseOverloaded c n ps ys ! j = 0"
      using IH(4) nth len by metis
  qed (use IH(1) len in simp)
qed

lemma fillUnderloaded_count:
  assumes "distinct (map snd ps)" and "0 \<notin> snd ` set ps"
    and "\<forall>(i, g) \<in> set ps. int (count_list xs g) = min (cnt c g) (target n i)"
    and "(\<Sum>p\<leftarrow>ps. deficit c n p) \<le> count_list xs 0"
  shows "length (fillUnderloaded c n ps xs) = length xs \<and>
    (\<forall>(i, g) \<in> set ps. int (count_list (fillUnderloaded c n ps xs) g) = target n i) \<and>
    count_list (fillUnderloaded c n ps xs) 0 = count_list xs 0 - (\<Sum>p\<leftarrow>ps. deficit c n p) \<and>
    (\<forall>g. g \<noteq> 0 \<longrightarrow> g \<notin> snd ` set ps \<longrightarrow>
       count_list (fillUnderloaded c n ps xs) g = count_list xs g) \<and>
    (\<forall>j < length xs. fillUnderloaded c n ps xs ! j = xs ! j \<or>
       xs ! j = 0 \<and> fillUnderloaded c n ps xs ! j \<in> snd ` set ps)"
  using assms
proof (induction ps arbitrary: xs)
  case Nil
  then show ?case by (simp add: fillUnderloaded_def)
next
  case (Cons p ps)
  obtain i g where p: "p = (i, g)" by fastforce
  define d where "d = target n i - cnt c g"
  define ys where "ys = (if d > 0 then assignShards g (- d) xs else xs)"
  have g: "g \<noteq> 0" "g \<notin> snd ` set ps" using Cons.prems(1,2) p by force+
  have eq: "fillUnderloaded c n (p # ps) xs = fillUnderloaded c n ps ys"
    by (simp add: fillUnderloaded_def p ys_def d_def Let_def)
  have dd: "deficit c n p = nat d" by (simp add: deficit_def p d_def)
  have z: "nat d + (\<Sum>p\<leftarrow>ps. deficit c n p) \<le> count_list xs 0" using Cons.prems(4) dd by simp
  then have d: "d \<le> int (count_list xs 0)" by linarith
  have cg: "int (count_list xs g) = min (cnt c g) (target n i)" using Cons.prems(3) p by auto
  have same: "count_list ys h = count_list xs h" if "h \<noteq> g" "h \<noteq> 0" for h
    using that assignShards_count [of d g xs h] g d by (auto simp: ys_def)
  have yg: "int (count_list ys g) = target n i"
    using assignShards_count [of d g xs g] g d cg by (auto simp: ys_def d_def)
  have y0: "count_list ys 0 = count_list xs 0 - nat d"
    using assignShards_count [of d g xs 0] g d by (auto simp: ys_def)
  have "\<forall>(i, h) \<in> set ps. int (count_list ys h) = min (cnt c h) (target n i)"
  proof safe
    fix k h assume kh: "(k, h) \<in> set ps"
    then have "h \<noteq> g" "h \<noteq> 0" using g Cons.prems(2) by force+
    with same kh Cons.prems(3) show "int (count_list ys h) = min (cnt c h) (target n k)" by force
  qed
  with Cons.IH [of ys] Cons.prems z y0 have IH: "length (fillUnderloaded c n ps ys) = length ys"
    "\<forall>(i, g) \<in> set ps. int (count_list (fillUnderloaded c n ps ys) g) = target n i"
    "count_list (fillUnderloaded c n ps ys) 0 = count_list ys 0 - (\<Sum>p\<leftarrow>ps. deficit c n p)"
    "\<forall>g. g \<noteq> 0 \<longrightarrow> g \<notin> snd ` set ps \<longrightarrow>
       count_list (fillUnderloaded c n ps ys) g = count_list ys g"
    "\<forall>j < length ys. fillUnderloaded c n ps ys ! j = ys ! j \<or>
       ys ! j = 0 \<and> fillUnderloaded c n ps ys ! j \<in> snd ` set ps"
    by auto
  have len: "length ys = length xs" by (simp add: ys_def)
  have nth: "ys ! j = xs ! j \<or> xs ! j = 0 \<and> ys ! j = g" if "j < length xs" for j
    using assign_nth [OF that, of g "- d"] by (auto simp: ys_def)
  show ?case
    unfolding eq
  proof (intro conjI)
    show "\<forall>(i, g) \<in> set (p # ps). int (count_list (fillUnderloaded c n ps ys) g) = target n i"
      using IH(2,4) g yg p by auto
    show "count_list (fillUnderloaded c n ps ys) 0 = count_list xs 0 - (\<Sum>p\<leftarrow>p # ps. deficit c n p)"
      using IH(3) y0 dd by simp
    show "\<forall>h. h \<noteq> 0 \<longrightarrow> h \<notin> snd ` set (p # ps) \<longrightarrow>
       count_list (fillUnderloaded c n ps ys) h = count_list xs h"
      using IH(4) same p by auto
    show "\<forall>j < length xs. fillUnderloaded c n ps ys ! j = xs ! j \<or>
       xs ! j = 0 \<and> fillUnderloaded c n ps ys ! j \<in> snd ` set (p # ps)"
    proof safe
      fix j assume j: "j < length xs"
      assume "fillUnderloaded c n ps ys ! j \<noteq> xs ! j"
      then show "xs ! j = 0" "fillUnderloaded c n ps ys ! j \<in> snd ` set (p # ps)"
        using IH(5) nth [OF j] j len g(1) p by (metis image_insert insertCI list.simps(15) snd_conv)+
    qed
  qed (use IH(1) len in simp)
qed

section \<open>The result\<close>

lemma sum_target: "0 < n \<Longrightarrow> (\<Sum>i<n. target n i) = int NShards"
proof -
  assume n: "0 < n"
  let ?r = "NShards mod n" and ?q = "int (NShards div n)"
  have "(\<Sum>i<n. target n i) = (\<Sum>i<n. ?q + (if i < ?r then 1 else 0))"
    by (rule sum.cong) (auto simp: target_def)
  also have "\<dots> = int n * ?q + int (card ({..<n} \<inter> {i. i < ?r}))"
    by (simp add: sum.distrib sum.If_cases)
  also have "{..<n} \<inter> {i. i < ?r} = {..<?r}"
    using mod_less_divisor [OF n, of NShards] by auto
  also have "int n * ?q + int (card {..<?r}) = int (n * (NShards div n) + NShards mod n)"
    by (simp only: card_lessThan of_nat_add of_nat_mult)
  also have "n * (NShards div n) + NShards mod n = NShards" by simp
  finally show ?thesis .
qed

lemma sum_enumerate:
  "(\<Sum>p\<leftarrow>enumerate k xs. f p) = (\<Sum>i<length xs. f (k + i, xs ! i))"
proof (induction xs arbitrary: k)
  case (Cons x xs)
  show ?case by (simp add: Cons sum.lessThan_Suc_shift del: sum.lessThan_Suc)
qed simp

text \<open>Everything the balancing works with, for one call.\<close>

definition lb_sorted :: "int list \<Rightarrow> groups \<Rightarrow> int list \<Rightarrow> int list" where
  "lb_sorted order groups shards =
     bubbleSort (heavier (zeroNewGroups order (snd (countShards groups shards (\<lambda>_. None))))) order"

definition lb_count :: "int list \<Rightarrow> groups \<Rightarrow> int list \<Rightarrow> (int \<rightharpoonup> int)" where
  "lb_count order groups shards = zeroNewGroups order (snd (countShards groups shards (\<lambda>_. None)))"

definition lb_freed :: "groups \<Rightarrow> int list \<Rightarrow> int list" where
  "lb_freed groups shards = map (\<lambda>g. if groups g \<noteq> None then g else 0) shards"

lemma lb_count_eq: "cnt (lb_count order groups shards) g =
    (if groups g \<noteq> None then int (count_list shards g) else 0)"
  by (simp add: lb_count_def countShards_cnt) (simp add: cnt_def)

lemma lb_freed_count:
  "h \<noteq> 0 \<Longrightarrow> count_list (lb_freed groups shards) h = (if groups h \<noteq> None then count_list shards h else 0)"
  by (induction shards) (auto simp: lb_freed_def)

lemma lb_sorted_facts:
  fixes shards :: "int list"
  assumes it: "iterates order groups"
  defines "gs \<equiv> lb_sorted order groups shards"
  shows "length gs = length order" "distinct gs" "set gs = dom groups" "mset gs = mset order"
    "sorted_wrt (\<lambda>a b. count_list shards b \<le> count_list shards a) gs"
proof -
  show m: "mset gs = mset order" by (simp add: gs_def lb_sorted_def heavier.bubbleSort_mset)
  then show "length gs = length order" by (metis size_mset)
  from m it show s: "set gs = dom groups" by (metis iterates_def mset_eq_setD)
  from m it show "distinct gs" by (metis iterates_def mset_eq_imp_distinct_iff)
  have "sorted_wrt (\<lambda>a b. a = b \<or> heavier (lb_count order groups shards) a b) gs"
    unfolding gs_def lb_sorted_def lb_count_def [symmetric] by (rule heavier.bubbleSort_sorted)
  then show "sorted_wrt (\<lambda>a b. count_list shards b \<le> count_list shards a) gs"
  proof (rule sorted_wrt_mono_rel [rotated])
    fix a b
    assume "a \<in> set gs" "b \<in> set gs" and "a = b \<or> heavier (lb_count order groups shards) a b"
    moreover from this s have "groups a \<noteq> None" "groups b \<noteq> None" by auto
    ultimately show "count_list shards b \<le> count_list shards a"
      by (auto simp: heavier_def lb_count_eq)
  qed
qed

lemma shardLoadBalance_unfold:
  assumes "order \<noteq> []"
  shows "shardLoadBalance order groups shards =
    (let ps = enumerate 0 (lb_sorted order groups shards); c = lb_count order groups shards;
         n = length order
     in fillUnderloaded c n ps (releaseOverloaded c n ps (lb_freed groups shards)))"
  using assms countShards_res [of groups shards "\<lambda>_. None"]
  by (simp add: shardLoadBalance_def lb_sorted_def lb_count_def lb_freed_def Let_def case_prod_beta)

lemma enumerate_snd: "snd ` set (enumerate k gs) = set gs"
  by (metis map_snd_enumerate set_map)

lemma in_enumerate: "(i, g) \<in> set (enumerate 0 gs) \<longleftrightarrow> i < length gs \<and> g = gs ! i"
  by (auto simp: in_set_enumerate_eq)

lemma target_nonneg: "0 \<le> target n i"
  by (simp add: target_def)

lemma lb_facts:
  fixes groups :: groups
  assumes it: "iterates order groups" and ne: "dom groups \<noteq> {}" and zero: "0 \<notin> dom groups"
    and len: "length shards = NShards"
  defines "n \<equiv> length order" and "gs \<equiv> lb_sorted order groups shards"
    and "res \<equiv> shardLoadBalance order groups shards"
  shows "length res = NShards \<and> set res \<subseteq> dom groups \<and>
    (\<forall>i < n. int (count_list res (gs ! i)) = target n i \<and>
       min (int (count_list shards (gs ! i))) (target n i) \<le>
         int (card {j. j < NShards \<and> shards ! j = gs ! i \<and> res ! j = gs ! i}))"
proof -
  define c where "c = lb_count order groups shards"
  define ps where "ps = enumerate 0 gs"
  define fr where "fr = lb_freed groups shards"
  define rel where "rel = releaseOverloaded c n ps fr"
  note gs = lb_sorted_facts [OF it, of shards, folded gs_def]
  have "order \<noteq> []" using it ne by (metis empty_set iterates_def)
  then have res: "res = fillUnderloaded c n ps rel" and n: "0 < n"
    by (simp_all add: res_def shardLoadBalance_unfold Let_def c_def ps_def fr_def rel_def gs_def n_def)
  have ps: "distinct (map snd ps)" "0 \<notin> snd ` set ps" "snd ` set ps = dom groups"
    using gs zero by (simp_all add: ps_def enumerate_snd)
  have inps: "(i, g) \<in> set ps \<longleftrightarrow> i < n \<and> g = gs ! i" for i g
    using gs(1) by (simp add: ps_def in_enumerate n_def)
  have gsi: "groups (gs ! i) \<noteq> None" "gs ! i \<noteq> 0" if "i < n" for i
    using that gs(1,3) zero nth_mem [of i gs] by (auto simp: n_def)
  have cnt: "cnt c (gs ! i) = int (count_list shards (gs ! i))" if "i < n" for i
    using gsi [OF that] by (simp add: c_def lb_count_eq)
  have frc: "\<forall>(i, g) \<in> set ps. int (count_list fr g) = cnt c g"
    using gsi cnt by (auto simp: inps fr_def lb_freed_count)
  have R: "length rel = length fr"
    "\<forall>(i, g) \<in> set ps. int (count_list rel g) = min (cnt c g) (target n i)"
    "\<forall>j < length fr. rel ! j = fr ! j \<or> rel ! j = 0"
    using releaseOverloaded_count [OF ps(1,2) frc, of n] by (auto simp: rel_def target_nonneg)
  have lfr: "length fr = NShards" by (simp add: fr_def lb_freed_def len)
  have fr: "fr ! j = shards ! j \<or> fr ! j = 0" "fr ! j \<in> insert 0 (dom groups)" if "j < NShards" for j
    using that len by (auto simp: fr_def lb_freed_def)
  have setrel: "set rel \<subseteq> insert 0 (dom groups)"
  proof
    fix x assume "x \<in> set rel"
    then obtain j where "j < NShards" "x = rel ! j" using R(1) lfr by (metis in_set_conv_nth)
    with R(3) lfr fr(2) show "x \<in> insert 0 (dom groups)" by (metis insertCI)
  qed
  have fin: "finite (dom groups)" using it by (metis List.finite_set iterates_def)
  have "int NShards = int (\<Sum>g \<in> insert 0 (dom groups). count_list rel g)"
    using sum_count_set [OF setrel] fin R(1) lfr by simp
  also have "\<dots> = int (count_list rel 0) + (\<Sum>g \<in> set gs. int (count_list rel g))"
    using zero fin gs(3) by simp
  also have "(\<Sum>g \<in> set gs. int (count_list rel g)) = (\<Sum>i<n. int (count_list rel (gs ! i)))"
    using gs(1,2) by (simp add: sum.distinct_set_conv_list sum_list_sum_nth atLeast0LessThan n_def)
  also have "\<dots> = (\<Sum>i<n. min (cnt c (gs ! i)) (target n i))"
    using R(2) by (intro sum.cong) (auto simp: inps)
  finally have zeros: "int (count_list rel 0) = (\<Sum>i<n. target n i - min (cnt c (gs ! i)) (target n i))"
    using sum_target [OF n] by (simp add: sum_subtractf)
  have "int (\<Sum>p\<leftarrow>ps. deficit c n p) = (\<Sum>i<n. int (nat (target n i - cnt c (gs ! i))))"
    using gs(1) by (simp add: ps_def sum_enumerate deficit_def n_def)
  also have "\<dots> = (\<Sum>i<n. target n i - min (cnt c (gs ! i)) (target n i))"
    by (rule sum.cong) auto
  finally have def: "(\<Sum>p\<leftarrow>ps. deficit c n p) = count_list rel 0" using zeros by linarith
  have F: "length res = length rel"
    "\<forall>(i, g) \<in> set ps. int (count_list res g) = target n i"
    "count_list res 0 = 0"
    "\<forall>j < length rel. res ! j = rel ! j \<or> rel ! j = 0 \<and> res ! j \<in> dom groups"
    using fillUnderloaded_count [OF ps(1,2) R(2)] def ps(3) by (auto simp: res)
  have lres: "length res = NShards" using F(1) R(1) lfr by simp
  have "set res \<subseteq> dom groups"
  proof
    fix x assume x: "x \<in> set res"
    then obtain j where "j < NShards" "x = res ! j" using lres by (metis in_set_conv_nth)
    with F(1,4) lres setrel have "x \<in> insert 0 (dom groups)" by (metis insertCI nth_mem subsetD)
    moreover have "x \<noteq> 0" using x F(3) by (metis count_list_0_iff)
    ultimately show "x \<in> dom groups" by simp
  qed
  moreover have "int (count_list res (gs ! i)) = target n i" if "i < n" for i
    using F(2) that by (auto simp: inps)
  moreover have "min (int (count_list shards (gs ! i))) (target n i) \<le>
      int (card {j. j < NShards \<and> shards ! j = gs ! i \<and> res ! j = gs ! i})" if i: "i < n" for i
  proof -
    have "{j. j < length rel \<and> gs ! i = rel ! j} \<subseteq>
        {j. j < NShards \<and> shards ! j = gs ! i \<and> res ! j = gs ! i}"
      using gsi(2) [OF i] R(1,3) lfr F(4) fr(1) by auto (metis)+
    then have "count_list rel (gs ! i) \<le> card {j. j < NShards \<and> shards ! j = gs ! i \<and> res ! j = gs ! i}"
      unfolding count_list_eq_length_filter length_filter_conv_card by (intro card_mono) auto
    moreover have "int (count_list rel (gs ! i)) = min (cnt c (gs ! i)) (target n i)"
      using R(2) i by (auto simp: inps)
    ultimately show ?thesis using cnt [OF i] by simp
  qed
  ultimately show ?thesis using lres by blast
qed

section \<open>No balanced assignment moves fewer shards\<close>

definition balanced :: "groups \<Rightarrow> int list \<Rightarrow> bool" where
  "balanced groups r \<longleftrightarrow> length r = NShards \<and> set r \<subseteq> dom groups \<and>
     (\<forall>g \<in> dom groups. count_list r g = NShards div card (dom groups) \<or>
        count_list r g = NShards div card (dom groups) + 1)"

definition moved :: "int list \<Rightarrow> int list \<Rightarrow> nat" where
  "moved shards r = card {j. j < NShards \<and> shards ! j \<noteq> r ! j}"

definition kept :: "int list \<Rightarrow> int list \<Rightarrow> nat set" where
  "kept shards r = {j. j < NShards \<and> shards ! j = r ! j}"

lemma moved_kept: "moved shards r = NShards - card (kept shards r)" "card (kept shards r) \<le> NShards"
proof -
  have "{j. j < NShards \<and> shards ! j \<noteq> r ! j} = {..<NShards} - kept shards r"
    by (auto simp: kept_def)
  moreover have "kept shards r \<subseteq> {..<NShards}" by (auto simp: kept_def)
  ultimately show "moved shards r = NShards - card (kept shards r)"
    by (simp add: moved_def card_Diff_subset finite_subset)
  show "card (kept shards r) \<le> NShards"
    using card_mono [OF _ \<open>kept shards r \<subseteq> {..<NShards}\<close>] by simp
qed

lemma kept_split:
  assumes "length r = NShards" and "set r \<subseteq> set gs" and "distinct gs"
  shows "card (kept shards r) =
    (\<Sum>i<length gs. card {j. j < NShards \<and> shards ! j = gs ! i \<and> r ! j = gs ! i})"
proof -
  let ?K = "\<lambda>g. {j. j < NShards \<and> shards ! j = g \<and> r ! j = g}"
  have "kept shards r = (\<Union>g \<in> set gs. ?K g)"
    using assms(1,2) by (auto simp: kept_def) (metis nth_mem subsetD)
  then have "card (kept shards r) = (\<Sum>g \<in> set gs. card (?K g))"
    by (simp add: card_UN_disjoint disjoint_iff)
  then show ?thesis
    using assms(3) by (simp add: sum.distinct_set_conv_list sum_list_sum_nth atLeast0LessThan)
qed

lemma min_split: "t = q \<or> t = q + 1 \<Longrightarrow> min c t = min c q + (if t = q + 1 \<and> q < c then 1 else (0::int))"
  by auto

lemma greedy_best:
  fixes c t :: "nat \<Rightarrow> int"
  assumes n: "0 < n" and dec: "\<And>i j. i \<le> j \<Longrightarrow> j < n \<Longrightarrow> c j \<le> c i"
    and t: "\<And>i. i < n \<Longrightarrow> t i = int (NShards div n) \<or> t i = int (NShards div n) + 1"
    and sum: "(\<Sum>i<n. t i) = int NShards"
  shows "(\<Sum>i<n. min (c i) (t i)) \<le> (\<Sum>i<n. min (c i) (target n i))"
proof -
  define q where "q = int (NShards div n)"
  define r where "r = NShards mod n"
  have val: "(\<Sum>i<n. min (c i) (u i)) = (\<Sum>i<n. min (c i) q) + int (card {i. i < n \<and> u i = q + 1 \<and> q < c i})"
    if "\<And>i. i < n \<Longrightarrow> u i = q \<or> u i = q + 1" for u
  proof -
    have "(\<Sum>i<n. min (c i) (u i)) = (\<Sum>i<n. min (c i) q + (if u i = q + 1 \<and> q < c i then 1 else 0))"
      by (intro sum.cong refl min_split that) simp
    also have "\<dots> = (\<Sum>i<n. min (c i) q) + int (card ({..<n} \<inter> {i. u i = q + 1 \<and> q < c i}))"
      by (simp add: sum.distrib sum.If_cases)
    also have "{..<n} \<inter> {i. u i = q + 1 \<and> q < c i} = {i. i < n \<and> u i = q + 1 \<and> q < c i}" by auto
    finally show ?thesis .
  qed
  have "int NShards = int n * q + int (card {i. i < n \<and> t i = q + 1})"
  proof -
    have "(\<Sum>i<n. t i) = (\<Sum>i<n. q + (if t i = q + 1 then 1 else 0))"
      using t by (intro sum.cong) (auto simp: q_def)
    also have "\<dots> = int n * q + int (card ({..<n} \<inter> {i. t i = q + 1}))"
      by (simp add: sum.distrib sum.If_cases)
    also have "{..<n} \<inter> {i. t i = q + 1} = {i. i < n \<and> t i = q + 1}" by auto
    finally show ?thesis using sum by simp
  qed
  moreover have "int NShards = int n * q + int r"
    unfolding q_def r_def by (metis mult_div_mod_eq of_nat_add of_nat_mult)
  ultimately have cb: "card {i. i < n \<and> t i = q + 1} = r" by simp
  have tg: "{i. i < n \<and> target n i = q + 1 \<and> q < c i} = {i. i < n \<and> i < r \<and> q < c i}"
    by (auto simp: target_def q_def r_def)
  have "card {i. i < n \<and> t i = q + 1 \<and> q < c i} \<le> card {i. i < n \<and> i < r \<and> q < c i}"
  proof (cases "\<exists>h < n. r \<le> h \<and> q < c h")
    case True
    then obtain h where h: "h < n" "r \<le> h" "q < c h" by blast
    have "{i. i < n \<and> i < r \<and> q < c i} = {..<r}"
      using h dec by (auto intro: less_le_trans)
    moreover have "card {i. i < n \<and> t i = q + 1 \<and> q < c i} \<le> card {i. i < n \<and> t i = q + 1}"
      by (rule card_mono) auto
    ultimately show ?thesis using cb by simp
  next
    case False
    then show ?thesis by (intro card_mono) (auto simp: not_le)
  qed
  with val [of t] val [of "target n"] t tg show ?thesis by (simp add: target_def q_def)
qed

lemma kept_best:
  fixes groups :: groups
  assumes it: "iterates order groups" and ne: "dom groups \<noteq> {}" and zero: "0 \<notin> dom groups"
    and len: "length shards = NShards" and bal: "balanced groups r"
  shows "card (kept shards r) \<le> card (kept shards (shardLoadBalance order groups shards))"
proof -
  define gs where "gs = lb_sorted order groups shards"
  define res where "res = shardLoadBalance order groups shards"
  define n where "n = length order"
  note gs = lb_sorted_facts [OF it, of shards, folded gs_def n_def]
  note lb = lb_facts [OF it ne zero len, folded gs_def res_def n_def]
  have cd: "card (dom groups) = n" using it by (simp add: iterates_length n_def)
  have n: "0 < n" using ne it unfolding n_def by (metis empty_set iterates_def length_greater_0_conv)
  let ?c = "\<lambda>i. int (count_list shards (gs ! i))" and ?t = "\<lambda>i. int (count_list r (gs ! i))"
  have fin: "finite (dom groups)" using gs(3) by (metis List.finite_set)
  have "int (card (kept shards r)) =
      (\<Sum>i<n. int (card {j. j < NShards \<and> shards ! j = gs ! i \<and> r ! j = gs ! i}))"
    using kept_split [of r gs shards] bal gs by (simp add: balanced_def)
  also have "\<dots> \<le> (\<Sum>i<n. min (?c i) (?t i))"
  proof (rule sum_mono)
    fix i
    have "card {j. j < NShards \<and> shards ! j = gs ! i \<and> r ! j = gs ! i} \<le> card {j. j < length shards \<and> gs ! i = shards ! j}"
      using len by (intro card_mono) auto
    moreover have "card {j. j < NShards \<and> shards ! j = gs ! i \<and> r ! j = gs ! i} \<le> card {j. j < length r \<and> gs ! i = r ! j}"
      using bal by (intro card_mono) (auto simp: balanced_def)
    ultimately show "int (card {j. j < NShards \<and> shards ! j = gs ! i \<and> r ! j = gs ! i}) \<le> min (?c i) (?t i)"
      by (simp add: count_list_eq_length_filter length_filter_conv_card)
  qed
  also have "\<dots> \<le> (\<Sum>i<n. min (?c i) (target n i))"
  proof (rule greedy_best [OF n])
    show "?c j \<le> ?c i" if "i \<le> j" "j < n" for i j
      using gs(1,5) that by (cases "i = j") (auto simp: sorted_wrt_iff_nth_less)
    show "?t i = int (NShards div n) \<or> ?t i = int (NShards div n) + 1" if "i < n" for i
      using bal that gs(1,3) cd nth_mem [of i gs] by (auto simp: balanced_def)
    have "(\<Sum>g \<in> set gs. count_list r g) = NShards"
      unfolding gs(3) using sum_count_set [of r "dom groups"] bal fin by (simp add: balanced_def)
    then have "(\<Sum>i<n. count_list r (gs ! i)) = NShards"
      using gs(1,2) by (simp add: sum.distinct_set_conv_list sum_list_sum_nth atLeast0LessThan)
    then show "(\<Sum>i<n. ?t i) = int NShards" by (metis of_nat_sum)
  qed
  also have "\<dots> \<le> (\<Sum>i<n. int (card {j. j < NShards \<and> shards ! j = gs ! i \<and> res ! j = gs ! i}))"
    using lb by (intro sum_mono) auto
  also have "\<dots> = int (card (kept shards res))"
    using kept_split [of res gs shards] lb gs by simp
  finally show ?thesis by (simp add: res_def)
qed

lemma lb_balanced:
  fixes groups :: groups
  assumes it: "iterates order groups" and ne: "dom groups \<noteq> {}" and zero: "0 \<notin> dom groups"
    and len: "length shards = NShards"
  shows "balanced groups (shardLoadBalance order groups shards)"
proof -
  note gs = lb_sorted_facts [OF it, of shards]
  note lb = lb_facts [OF it ne zero len]
  have cd: "card (dom groups) = length order" using it by (simp add: iterates_length)
  have "count_list (shardLoadBalance order groups shards) g = NShards div card (dom groups) \<or>
      count_list (shardLoadBalance order groups shards) g = NShards div card (dom groups) + 1"
    if g: "g \<in> dom groups" for g
  proof -
    from g gs(1,3) obtain i where "i < length order" "g = lb_sorted order groups shards ! i"
      by (metis in_set_conv_nth)
    with lb have "int (count_list (shardLoadBalance order groups shards) g) = target (length order) i"
      by blast
    then show ?thesis unfolding cd target_def by (auto split: if_splits)
  qed
  with lb show ?thesis by (simp add: balanced_def)
qed

lemma lb_order_irrelevant:
  assumes "iterates order groups" and "iterates order' groups"
  shows "shardLoadBalance order groups shards = shardLoadBalance order' groups shards"
proof -
  have m: "mset order = mset order'" using assms by (rule iterates_mset)
  then have "length order = length order'" by (metis size_mset)
  moreover have "cnt (lb_count order groups shards) = cnt (lb_count order' groups shards)"
    by (simp add: fun_eq_iff lb_count_eq)
  moreover from this have "heavier (lb_count order groups shards) = heavier (lb_count order' groups shards)"
    by (simp add: fun_eq_iff heavier_def)
  then have "lb_sorted order groups shards = lb_sorted order' groups shards"
    unfolding lb_sorted_def lb_count_def [symmetric] using heavier.bubbleSort_unique [OF m] by metis
  ultimately show ?thesis
  proof (cases "order = []")
    case True
    with m have "order' = []" by simp
    with True show ?thesis by (simp add: shardLoadBalance_def)
  next
    case False
    with m have "order' \<noteq> []" by auto
    have "releaseOverloaded (lb_count order groups shards) = releaseOverloaded (lb_count order' groups shards)"
      "fillUnderloaded (lb_count order groups shards) = fillUnderloaded (lb_count order' groups shards)"
      unfolding releaseOverloaded_def fillUnderloaded_def
        \<open>cnt (lb_count order groups shards) = cnt (lb_count order' groups shards)\<close> by (rule refl)+
    with False \<open>order' \<noteq> []\<close> \<open>length order = length order'\<close>
      \<open>lb_sorted order groups shards = lb_sorted order' groups shards\<close>
    show ?thesis unfolding shardLoadBalance_unfold [OF False] shardLoadBalance_unfold [OF \<open>order' \<noteq> []\<close>] by (simp only: Let_def)
  qed
qed

lemma length_shardLoadBalance:
  assumes "length shards = NShards"
  shows "length (shardLoadBalance order groups shards) = NShards"
proof (cases "order = []")
  case True
  then show ?thesis by (simp add: shardLoadBalance_def)
next
  case False
  have "length (releaseOverloaded c n ps xs) = length xs" for c n ps xs
    by (induction ps arbitrary: xs) (auto simp: releaseOverloaded_def Let_def)
  moreover have "length (fillUnderloaded c n ps xs) = length xs" for c n ps xs
    by (induction ps arbitrary: xs) (auto simp: fillUnderloaded_def Let_def)
  ultimately show ?thesis
    using assms by (simp add: shardLoadBalance_unfold [OF False] Let_def lb_freed_def)
qed

end
