(* ===== verification/ShardMaster.thy ===== *)
theory ShardMaster
  imports LoadBalance
begin

text \<open>
  The configuration service, \<open>src/shardmaster/server.go\<close>, \<open>common.go\<close> and \<open>client.go\<close>: the
  state machine that turns Join, Leave, Move and Query commands into a history of
  configurations, the RPC handlers around it, and the clerk.

  \<open>ord\<close> is the order in which the runtime iterates over a map; nothing may depend on it. The
  Raft peer below is seen through what the code asks it: the result of \<open>Start\<close> and of
  \<open>GetState\<close> are arguments.
\<close>

section \<open>Data\<close>

record Config =
  cfg_Num :: int
  cfg_Shards :: "int list"
  cfg_Groups :: groups

definition zero_Config :: Config where
  "zero_Config = \<lparr>cfg_Num = 0, cfg_Shards = replicate NShards 0, cfg_Groups = (\<lambda>_. None)\<rparr>"

datatype SmOpType = Join | Leave | Move | Query | OtherOp

record SmReply =
  smr_Err :: Err
  smr_Config :: Config

record SmSession =
  sms_LastSeqNum :: int
  sms_Optype :: SmOpType
  sms_Response :: SmReply

record SmOp =
  smo_ClientId :: int
  smo_SeqNum :: int
  smo_OpType :: SmOpType
  smo_Servers :: groups
  smo_GIDs :: "int list"
  smo_Shared :: int
  smo_GID :: int
  smo_CfgNum :: int

record ShardMaster =
  sm_me :: nat
  sm_dead :: int
  sm_sessions :: "int \<rightharpoonup> SmSession"
  sm_notify :: "SmReply Notify"
  sm_configs :: "Config list"

definition zero_SmReply :: SmReply where
  "zero_SmReply = \<lparr>smr_Err = NoErr, smr_Config = zero_Config\<rparr>"

definition zero_SmSession :: SmSession where
  "zero_SmSession = \<lparr>sms_LastSeqNum = 0, sms_Optype = OtherOp, sms_Response = zero_SmReply\<rparr>"

text \<open>Reading \<open>sm.sessions[id]\<close>: the zero session when there is none.\<close>

definition sm_session :: "int \<Rightarrow> ShardMaster \<Rightarrow> SmSession" where
  "sm_session client sm = (case sm_sessions sm client of Some s \<Rightarrow> s | None \<Rightarrow> zero_SmSession)"

definition StartShardMaster :: "nat \<Rightarrow> ShardMaster" where
  "StartShardMaster i = \<lparr>sm_me = i, sm_dead = 0, sm_sessions = (\<lambda>_. None),
     sm_notify = no_channels, sm_configs = [zero_Config]\<rparr>"

text \<open>\<open>Kill\<close> also kills the Raft peer below.\<close>

definition SmKill :: "('rf \<Rightarrow> 'rf) \<Rightarrow> ShardMaster \<times> 'rf \<Rightarrow> ShardMaster \<times> 'rf" where
  "SmKill kill s = ((fst s)\<lparr>sm_dead := 1\<rparr>, kill (snd s))"

definition SmKilled :: "ShardMaster \<Rightarrow> bool" where
  "SmKilled sm \<longleftrightarrow> sm_dead sm = 1"

section \<open>Executing commands\<close>

definition getLastConfig :: "ShardMaster \<Rightarrow> Config option" where
  "getLastConfig sm = last_elem (sm_configs sm)"

definition deepCopyGroups :: "int list \<Rightarrow> groups \<Rightarrow> groups" where
  "deepCopyGroups order originG = copyMap order originG"

definition addServers :: "int list \<Rightarrow> groups \<Rightarrow> groups \<Rightarrow> groups" where
  "addServers order servers newGroups =
     fold (\<lambda>gid g. case servers gid of Some s \<Rightarrow> g(gid \<mapsto> s) | None \<Rightarrow> g) order newGroups"

definition executeJoin :: "(groups \<Rightarrow> int list) \<Rightarrow> SmOp \<Rightarrow> ShardMaster \<Rightarrow> (ShardMaster \<times> Err) option" where
  "executeJoin ord op sm = do {
     lastConfig \<leftarrow> getLastConfig sm;
     let newGroups = addServers (ord (smo_Servers op)) (smo_Servers op)
           (deepCopyGroups (ord (cfg_Groups lastConfig)) (cfg_Groups lastConfig));
     let newConfig = \<lparr>cfg_Num = cfg_Num lastConfig + 1,
           cfg_Shards = shardLoadBalance (ord newGroups) newGroups (cfg_Shards lastConfig),
           cfg_Groups = newGroups\<rparr>;
     Some (sm\<lparr>sm_configs := sm_configs sm @ [newConfig]\<rparr>, OK) }"

definition executeLeave :: "(groups \<Rightarrow> int list) \<Rightarrow> SmOp \<Rightarrow> ShardMaster \<Rightarrow> (ShardMaster \<times> Err) option" where
  "executeLeave ord op sm = do {
     lastConfig \<leftarrow> getLastConfig sm;
     let newGroups = fold (\<lambda>gid g. g(gid := None)) (smo_GIDs op)
           (deepCopyGroups (ord (cfg_Groups lastConfig)) (cfg_Groups lastConfig));
     let newShards = (if length (ord newGroups) \<noteq> 0
           then shardLoadBalance (ord newGroups) newGroups (cfg_Shards lastConfig)
           else replicate NShards 0);
     let newConfig = \<lparr>cfg_Num = cfg_Num lastConfig + 1, cfg_Shards = newShards,
           cfg_Groups = newGroups\<rparr>;
     Some (sm\<lparr>sm_configs := sm_configs sm @ [newConfig]\<rparr>, OK) }"

text \<open>A shard number outside the array panics.\<close>

definition executeMove :: "(groups \<Rightarrow> int list) \<Rightarrow> SmOp \<Rightarrow> ShardMaster \<Rightarrow> (ShardMaster \<times> Err) option" where
  "executeMove ord op sm = do {
     lastConfig \<leftarrow> getLastConfig sm;
     newShards \<leftarrow> update_at (cfg_Shards lastConfig) (smo_Shared op) (smo_GID op);
     let newConfig = \<lparr>cfg_Num = cfg_Num lastConfig + 1, cfg_Shards = newShards,
           cfg_Groups = deepCopyGroups (ord (cfg_Groups lastConfig)) (cfg_Groups lastConfig)\<rparr>;
     Some (sm\<lparr>sm_configs := sm_configs sm @ [newConfig]\<rparr>, OK) }"

definition executeQuery :: "SmOp \<Rightarrow> ShardMaster \<Rightarrow> (Err \<times> Config) option" where
  "executeQuery op sm = do {
     lastConfig \<leftarrow> getLastConfig sm;
     if smo_CfgNum op = -1 \<or> smo_CfgNum op > cfg_Num lastConfig then Some (OK, lastConfig)
     else do { c \<leftarrow> idx (sm_configs sm) (smo_CfgNum op); Some (OK, c) } }"

text \<open>The switch of \<open>applyConfigChange\<close>.\<close>

definition sm_execute :: "(groups \<Rightarrow> int list) \<Rightarrow> SmOp \<Rightarrow> ShardMaster \<Rightarrow> (ShardMaster \<times> SmReply) option" where
  "sm_execute ord op sm =
     (case smo_OpType op of
        Join \<Rightarrow> do { (sm, e) \<leftarrow> executeJoin ord op sm; Some (sm, zero_SmReply\<lparr>smr_Err := e\<rparr>) }
      | Leave \<Rightarrow> do { (sm, e) \<leftarrow> executeLeave ord op sm; Some (sm, zero_SmReply\<lparr>smr_Err := e\<rparr>) }
      | Move \<Rightarrow> do { (sm, e) \<leftarrow> executeMove ord op sm; Some (sm, zero_SmReply\<lparr>smr_Err := e\<rparr>) }
      | Query \<Rightarrow> do { (e, c) \<leftarrow> executeQuery op sm; Some (sm, \<lparr>smr_Err = e, smr_Config = c\<rparr>) }
      | OtherOp \<Rightarrow> Some (sm, zero_SmReply))"

text \<open>
  Up to the notification: a duplicate (of a command other than Query) gets the recorded
  response, everything else is executed and, unless it is a Query, recorded.
\<close>

definition sm_duplicate :: "SmOp \<Rightarrow> ShardMaster \<Rightarrow> bool" where
  "sm_duplicate op sm \<longleftrightarrow> sm_sessions sm (smo_ClientId op) \<noteq> None \<and> smo_OpType op \<noteq> Query \<and>
     smo_SeqNum op \<le> sms_LastSeqNum (sm_session (smo_ClientId op) sm)"

definition sm_applyOp :: "(groups \<Rightarrow> int list) \<Rightarrow> SmOp \<Rightarrow> ShardMaster \<Rightarrow> (ShardMaster \<times> SmReply) option" where
  "sm_applyOp ord op sm =
     (if sm_duplicate op sm then Some (sm, sms_Response (sm_session (smo_ClientId op) sm))
      else do {
        (sm, reply) \<leftarrow> sm_execute ord op sm;
        Some (if smo_OpType op \<noteq> Query
              then sm\<lparr>sm_sessions := (sm_sessions sm)(smo_ClientId op \<mapsto>
                \<lparr>sms_LastSeqNum = smo_SeqNum op, sms_Optype = smo_OpType op, sms_Response = reply\<rparr>)\<rparr>
              else sm, reply) })"

text \<open>One command message of the loop; \<open>st\<close> is what \<open>GetState\<close> returns.\<close>

definition applyConfigChange ::
  "(groups \<Rightarrow> int list) \<Rightarrow> SmOp \<Rightarrow> int \<Rightarrow> int \<Rightarrow> int \<times> bool \<Rightarrow> ShardMaster \<Rightarrow> ShardMaster option" where
  "applyConfigChange ord op index term st sm = do {
     (sm, reply) \<leftarrow> sm_applyOp ord op sm;
     if notifyMapCh (sm_notify sm) index \<noteq> None \<and> snd st \<and> term = fst st
     then do { n \<leftarrow> sendNotify index reply (sm_notify sm); Some (sm\<lparr>sm_notify := n\<rparr>) }
     else Some sm }"

section \<open>RPC handlers\<close>

record JoinArgs =
  ja_Servers :: groups
  ja_ClientId :: int
  ja_SeqNum :: int

record LeaveArgs =
  la_GIDs :: "int list"
  la_ClientId :: int
  la_SeqNum :: int

record MoveArgs =
  ma_Shard :: int
  ma_GID :: int
  ma_ClientId :: int
  ma_SeqNum :: int

record QueryArgs =
  qa_Num :: int
  qa_ClientId :: int
  qa_SeqNum :: int

text \<open>\<open>JoinReply\<close>, \<open>LeaveReply\<close> and \<open>MoveReply\<close> have the same fields.\<close>

record UpdateReply =
  ur_WrongLeader :: bool
  ur_Err :: Err

record QueryReply =
  qr_WrongLeader :: bool
  qr_Err :: Err
  qr_Config :: Config

datatype sm_entry = ReturnsNow UpdateReply | Submits SmOp

definition zero_SmOp :: SmOp where
  "zero_SmOp = \<lparr>smo_ClientId = 0, smo_SeqNum = 0, smo_OpType = OtherOp, smo_Servers = (\<lambda>_. None),
     smo_GIDs = [], smo_Shared = 0, smo_GID = 0, smo_CfgNum = 0\<rparr>"

text \<open>The critical section at the start of \<open>Join\<close>, \<open>Leave\<close> and \<open>Move\<close>.\<close>

definition sm_enter :: "SmOp \<Rightarrow> ShardMaster \<Rightarrow> sm_entry" where
  "sm_enter op sm =
     (let s = sm_session (smo_ClientId op) sm
      in if smo_SeqNum op < sms_LastSeqNum s then
           ReturnsNow \<lparr>ur_WrongLeader = False, ur_Err = NoErr\<rparr>
         else if smo_SeqNum op = sms_LastSeqNum s then
           ReturnsNow \<lparr>ur_WrongLeader = False, ur_Err = smr_Err (sms_Response s)\<rparr>
         else Submits op)"

definition Join_enter :: "JoinArgs \<Rightarrow> ShardMaster \<Rightarrow> sm_entry" where
  "Join_enter args = sm_enter (zero_SmOp\<lparr>smo_ClientId := ja_ClientId args,
     smo_SeqNum := ja_SeqNum args, smo_OpType := Join, smo_Servers := ja_Servers args\<rparr>)"

definition Leave_enter :: "LeaveArgs \<Rightarrow> ShardMaster \<Rightarrow> sm_entry" where
  "Leave_enter args = sm_enter (zero_SmOp\<lparr>smo_ClientId := la_ClientId args,
     smo_SeqNum := la_SeqNum args, smo_OpType := Leave, smo_GIDs := la_GIDs args\<rparr>)"

definition Move_enter :: "MoveArgs \<Rightarrow> ShardMaster \<Rightarrow> sm_entry" where
  "Move_enter args = sm_enter (zero_SmOp\<lparr>smo_ClientId := ma_ClientId args,
     smo_SeqNum := ma_SeqNum args, smo_OpType := Move, smo_GID := ma_GID args,
     smo_Shared := ma_Shard args\<rparr>)"

definition Query_op :: "QueryArgs \<Rightarrow> SmOp" where
  "Query_op args = zero_SmOp\<lparr>smo_ClientId := qa_ClientId args,
     smo_SeqNum := qa_SeqNum args, smo_OpType := Query, smo_CfgNum := qa_Num args\<rparr>"

text \<open>After \<open>Start\<close>: wrong leader, or a channel to wait on.\<close>

definition sm_afterStart :: "int \<Rightarrow> bool \<Rightarrow> ShardMaster \<Rightarrow> UpdateReply + (ShardMaster \<times> nat)" where
  "sm_afterStart index isLeader sm =
     (if \<not> isLeader then Inl \<lparr>ur_WrongLeader = True, ur_Err = NoErr\<rparr>
      else case createNotifyCh index (sm_notify sm) of (n, c) \<Rightarrow> Inr (sm\<lparr>sm_notify := n\<rparr>, c))"

text \<open>The select: what arrived on the channel, or \<open>None\<close> for the timeout.\<close>

definition Update_reply :: "SmReply option \<Rightarrow> UpdateReply" where
  "Update_reply res = \<lparr>ur_WrongLeader = False,
     ur_Err = (case res of Some r \<Rightarrow> smr_Err r | None \<Rightarrow> ErrTimeout)\<rparr>"

definition Query_reply :: "SmReply option \<Rightarrow> QueryReply" where
  "Query_reply res = (case res of
     Some r \<Rightarrow> \<lparr>qr_WrongLeader = False, qr_Err = smr_Err r, qr_Config = smr_Config r\<rparr>
   | None \<Rightarrow> \<lparr>qr_WrongLeader = False, qr_Err = ErrTimeout, qr_Config = zero_Config\<rparr>)"

text \<open>
  A handler from its arguments to its reply: \<open>st\<close> is the index and the leadership that
  \<open>Start\<close> returned, \<open>res\<close> what the select received (\<open>None\<close>: the timeout). The flag says
  whether the handler closes its channel afterwards, in a critical section of its own.
\<close>

definition Update_rpc ::
  "sm_entry \<Rightarrow> int \<times> bool \<Rightarrow> SmReply option \<Rightarrow> ShardMaster \<Rightarrow> UpdateReply \<times> ShardMaster \<times> bool" where
  "Update_rpc entry st res sm =
     (case entry of
        ReturnsNow r \<Rightarrow> (r, sm, False)
      | Submits op \<Rightarrow> (case sm_afterStart (fst st) (snd st) sm of
          Inl r \<Rightarrow> (r, sm, False)
        | Inr (sm, c) \<Rightarrow> (Update_reply res, sm, True)))"

definition Join_rpc ::
  "JoinArgs \<Rightarrow> int \<times> bool \<Rightarrow> SmReply option \<Rightarrow> ShardMaster \<Rightarrow> UpdateReply \<times> ShardMaster \<times> bool" where
  "Join_rpc args st res sm = Update_rpc (Join_enter args sm) st res sm"

definition Leave_rpc ::
  "LeaveArgs \<Rightarrow> int \<times> bool \<Rightarrow> SmReply option \<Rightarrow> ShardMaster \<Rightarrow> UpdateReply \<times> ShardMaster \<times> bool" where
  "Leave_rpc args st res sm = Update_rpc (Leave_enter args sm) st res sm"

definition Move_rpc ::
  "MoveArgs \<Rightarrow> int \<times> bool \<Rightarrow> SmReply option \<Rightarrow> ShardMaster \<Rightarrow> UpdateReply \<times> ShardMaster \<times> bool" where
  "Move_rpc args st res sm = Update_rpc (Move_enter args sm) st res sm"

text \<open>\<open>Query\<close> has no session check; it submits \<open>Query_op args\<close>.\<close>

definition Query_rpc ::
  "QueryArgs \<Rightarrow> int \<times> bool \<Rightarrow> SmReply option \<Rightarrow> ShardMaster \<Rightarrow> SmOp \<times> QueryReply \<times> ShardMaster \<times> bool" where
  "Query_rpc args st res sm = (Query_op args,
     case sm_afterStart (fst st) (snd st) sm of
       Inl r \<Rightarrow> (\<lparr>qr_WrongLeader = True, qr_Err = NoErr, qr_Config = zero_Config\<rparr>, sm, False)
     | Inr (sm, c) \<Rightarrow> (Query_reply res, sm, True))"

definition sm_closeNotifyCh :: "int \<Rightarrow> ShardMaster \<Rightarrow> ShardMaster option" where
  "sm_closeNotifyCh index sm = do { n \<leftarrow> closeNotifyCh index (sm_notify sm); Some (sm\<lparr>sm_notify := n\<rparr>) }"

section \<open>The clerk\<close>

record SmClerk =
  sck_clientId :: int
  sck_seqNum :: int

definition MakeSmClerk :: "int \<Rightarrow> SmClerk" where
  "MakeSmClerk nrand = \<lparr>sck_clientId = nrand, sck_seqNum = 1\<rparr>"

definition Join_args :: "groups \<Rightarrow> SmClerk \<Rightarrow> JoinArgs" where
  "Join_args servers ck = \<lparr>ja_Servers = servers, ja_ClientId = sck_clientId ck, ja_SeqNum = sck_seqNum ck\<rparr>"

definition Leave_args :: "int list \<Rightarrow> SmClerk \<Rightarrow> LeaveArgs" where
  "Leave_args gids ck = \<lparr>la_GIDs = gids, la_ClientId = sck_clientId ck, la_SeqNum = sck_seqNum ck\<rparr>"

definition Move_args :: "int \<Rightarrow> int \<Rightarrow> SmClerk \<Rightarrow> MoveArgs" where
  "Move_args shard gid ck = \<lparr>ma_Shard = shard, ma_GID = gid, ma_ClientId = sck_clientId ck,
     ma_SeqNum = sck_seqNum ck\<rparr>"

definition Query_args :: "int \<Rightarrow> SmClerk \<Rightarrow> QueryArgs" where
  "Query_args num ck = \<lparr>qa_Num = num, qa_ClientId = sck_clientId ck, qa_SeqNum = sck_seqNum ck\<rparr>"

text \<open>
  One round over the servers: the answers of \<open>Call\<close> (\<open>None\<close> for a failed one) are looked at
  in order until one is accepted. \<open>None\<close> as a result: the clerk sleeps and starts again.
\<close>

fun clerk_round :: "('r \<Rightarrow> bool) \<Rightarrow> 'r option list \<Rightarrow> 'r option" where
  "clerk_round accept [] = None"
| "clerk_round accept (None # rs) = clerk_round accept rs"
| "clerk_round accept (Some r # rs) = (if accept r then Some r else clerk_round accept rs)"

definition SmClerk_update :: "UpdateReply option list \<Rightarrow> SmClerk \<Rightarrow> SmClerk option" where
  "SmClerk_update rs ck = do {
     _ \<leftarrow> clerk_round (\<lambda>r. \<not> ur_WrongLeader r \<and> ur_Err r = OK) rs;
     Some (ck\<lparr>sck_seqNum := sck_seqNum ck + 1\<rparr>) }"

definition SmClerk_Query :: "QueryReply option list \<Rightarrow> SmClerk \<Rightarrow> (SmClerk \<times> Config) option" where
  "SmClerk_Query rs ck = do {
     r \<leftarrow> clerk_round (\<lambda>r. \<not> qr_WrongLeader r \<and> qr_Err r = OK) rs;
     Some (ck\<lparr>sck_seqNum := sck_seqNum ck + 1\<rparr>, qr_Config r) }"

text \<open>One turn of each clerk operation: the arguments it sends, and its end if a server accepts.\<close>

definition SmClerk_Join :: "groups \<Rightarrow> UpdateReply option list \<Rightarrow> SmClerk \<Rightarrow> JoinArgs \<times> SmClerk option" where
  "SmClerk_Join servers rs ck = (Join_args servers ck, SmClerk_update rs ck)"

definition SmClerk_Leave :: "int list \<Rightarrow> UpdateReply option list \<Rightarrow> SmClerk \<Rightarrow> LeaveArgs \<times> SmClerk option" where
  "SmClerk_Leave gids rs ck = (Leave_args gids ck, SmClerk_update rs ck)"

definition SmClerk_Move :: "int \<Rightarrow> int \<Rightarrow> UpdateReply option list \<Rightarrow> SmClerk \<Rightarrow> MoveArgs \<times> SmClerk option" where
  "SmClerk_Move shard gid rs ck = (Move_args shard gid ck, SmClerk_update rs ck)"

section \<open>The configuration history\<close>

definition config_wf :: "Config \<Rightarrow> bool" where
  "config_wf c \<longleftrightarrow> length (cfg_Shards c) = NShards \<and> finite (dom (cfg_Groups c))"

definition sm_wf :: "ShardMaster \<Rightarrow> bool" where
  "sm_wf sm \<longleftrightarrow> sm_configs sm \<noteq> [] \<and>
     (\<forall>i < length (sm_configs sm). cfg_Num (sm_configs sm ! i) = int i \<and> config_wf (sm_configs sm ! i))"

definition go_order :: "(groups \<Rightarrow> int list) \<Rightarrow> bool" where
  "go_order ord \<longleftrightarrow> (\<forall>m. finite (dom m) \<longrightarrow> iterates (ord m) m)"

lemma sm_wf_last:
  "sm_wf sm \<Longrightarrow> getLastConfig sm = Some (last (sm_configs sm)) \<and> config_wf (last (sm_configs sm)) \<and>
     cfg_Num (last (sm_configs sm)) = int (length (sm_configs sm)) - 1"
  by (auto simp: sm_wf_def getLastConfig_def last_conv_nth of_nat_diff Suc_leI)

lemma sm_wf_append:
  assumes "sm_wf sm" and "config_wf c" and "cfg_Num c = int (length (sm_configs sm))"
  shows "sm_wf (sm\<lparr>sm_configs := sm_configs sm @ [c]\<rparr>)"
  using assms by (auto simp: sm_wf_def nth_append less_Suc_eq)

lemma deepCopyGroups_id [simp]: "go_order ord \<Longrightarrow> finite (dom g) \<Longrightarrow> deepCopyGroups (ord g) g = g"
  by (simp add: deepCopyGroups_def go_order_def)

lemma addServers_add:
  assumes "iterates order servers"
  shows "addServers order servers g = g ++ servers"
proof
  fix k show "addServers order servers g k = (g ++ servers) k"
    using assms by (cases "servers k") (auto simp: addServers_def copy_fold iterates_def map_add_def)
qed

lemma fold_delete: "fold (\<lambda>gid g. g(gid := None)) gids g = g |` (- set gids)"
  by (induction gids arbitrary: g) (auto simp: fun_eq_iff restrict_map_def)

text \<open>The three commands as functions of the last configuration.\<close>

definition joined :: "(groups \<Rightarrow> int list) \<Rightarrow> SmOp \<Rightarrow> Config \<Rightarrow> Config" where
  "joined ord op c =
     (let g = cfg_Groups c ++ smo_Servers op
      in \<lparr>cfg_Num = cfg_Num c + 1, cfg_Shards = shardLoadBalance (ord g) g (cfg_Shards c), cfg_Groups = g\<rparr>)"

definition left :: "(groups \<Rightarrow> int list) \<Rightarrow> SmOp \<Rightarrow> Config \<Rightarrow> Config" where
  "left ord op c =
     (let g = cfg_Groups c |` (- set (smo_GIDs op))
      in \<lparr>cfg_Num = cfg_Num c + 1,
          cfg_Shards = (if dom g = {} then replicate NShards 0
                        else shardLoadBalance (ord g) g (cfg_Shards c)),
          cfg_Groups = g\<rparr>)"

lemma executeJoin_outcome:
  assumes wf: "sm_wf sm" and ord: "go_order ord" and fin: "finite (dom (smo_Servers op))"
  shows "executeJoin ord op sm = Some (sm\<lparr>sm_configs := sm_configs sm @
     [joined ord op (last (sm_configs sm))]\<rparr>, OK)"
  using sm_wf_last [OF wf] ord fin
  by (simp add: executeJoin_def joined_def config_wf_def addServers_add Let_def)
    (simp add: go_order_def addServers_add)

lemma executeLeave_outcome:
  assumes wf: "sm_wf sm" and ord: "go_order ord"
  shows "executeLeave ord op sm = Some (sm\<lparr>sm_configs := sm_configs sm @
     [left ord op (last (sm_configs sm))]\<rparr>, OK)"
proof -
  let ?c = "last (sm_configs sm)"
  have fin: "finite (dom (cfg_Groups ?c))" using sm_wf_last [OF wf] by (simp add: config_wf_def)
  define g where "g = cfg_Groups ?c |` (- set (smo_GIDs op))"
  have "finite (dom g)" using fin by (simp add: g_def)
  with ord have "iterates (ord g) g" by (simp add: go_order_def)
  then have "ord g = [] \<longleftrightarrow> dom g = {}" by (metis empty_set iterates_def set_empty)
  with sm_wf_last [OF wf] ord fin show ?thesis
    by (simp add: executeLeave_def left_def fold_delete Let_def del: dom_eq_empty_conv flip: g_def)
qed

lemma config_wf_joined:
  "config_wf c \<Longrightarrow> finite (dom (smo_Servers op)) \<Longrightarrow> config_wf (joined ord op c)"
  by (simp add: config_wf_def joined_def Let_def length_shardLoadBalance)

lemma config_wf_left: "config_wf c \<Longrightarrow> config_wf (left ord op c)"
  by (simp add: config_wf_def left_def Let_def length_shardLoadBalance)

definition movedShard :: "SmOp \<Rightarrow> Config \<Rightarrow> Config" where
  "movedShard op c = \<lparr>cfg_Num = cfg_Num c + 1,
     cfg_Shards = (cfg_Shards c)[nat (smo_Shared op) := smo_GID op], cfg_Groups = cfg_Groups c\<rparr>"

lemma executeMove_outcome:
  assumes wf: "sm_wf sm" and ord: "go_order ord"
  shows "executeMove ord op sm =
    (if 0 \<le> smo_Shared op \<and> smo_Shared op < int NShards
     then Some (sm\<lparr>sm_configs := sm_configs sm @ [movedShard op (last (sm_configs sm))]\<rparr>, OK)
     else None)"
  using sm_wf_last [OF wf] ord
  by (auto simp: executeMove_def movedShard_def config_wf_def Let_def update_at_def)

lemma executeQuery_outcome:
  assumes wf: "sm_wf sm"
  shows "executeQuery op sm =
    (if smo_CfgNum op < -1 then None
     else if smo_CfgNum op = -1 \<or> int (length (sm_configs sm)) \<le> smo_CfgNum op
     then Some (OK, last (sm_configs sm))
     else Some (OK, sm_configs sm ! nat (smo_CfgNum op)))"
  using sm_wf_last [OF wf] by (auto simp: executeQuery_def idx_def)

text \<open>The configuration a command adds, if any.\<close>

definition opConfig :: "(groups \<Rightarrow> int list) \<Rightarrow> SmOp \<Rightarrow> Config \<Rightarrow> Config option" where
  "opConfig ord op c =
     (case smo_OpType op of
        Join \<Rightarrow> Some (joined ord op c) | Leave \<Rightarrow> Some (left ord op c)
      | Move \<Rightarrow> Some (movedShard op c) | _ \<Rightarrow> None)"

text \<open>Commands the code survives: a shard number in range, a configuration number from -1 on.\<close>

definition op_ok :: "SmOp \<Rightarrow> bool" where
  "op_ok op \<longleftrightarrow> finite (dom (smo_Servers op)) \<and>
     (smo_OpType op = Move \<longrightarrow> 0 \<le> smo_Shared op \<and> smo_Shared op < int NShards) \<and>
     (smo_OpType op = Query \<longrightarrow> -1 \<le> smo_CfgNum op)"

lemma opConfig_wf:
  assumes "config_wf c" and "op_ok op" and "opConfig ord op c = Some c'"
  shows "config_wf c' \<and> cfg_Num c' = cfg_Num c + 1"
  using assms
  by (auto simp: opConfig_def op_ok_def split: SmOpType.splits
      intro: config_wf_joined config_wf_left)
    (auto simp: joined_def left_def movedShard_def Let_def config_wf_def)

lemma sm_execute_outcome:
  assumes wf: "sm_wf sm" and ord: "go_order ord" and ok: "op_ok op"
  shows "\<exists>reply. sm_execute ord op sm = Some
    (case opConfig ord op (last (sm_configs sm)) of
       None \<Rightarrow> sm | Some c \<Rightarrow> sm\<lparr>sm_configs := sm_configs sm @ [c]\<rparr>, reply)"
  using executeJoin_outcome [OF wf ord, of op] executeLeave_outcome [OF wf ord, of op]
    executeMove_outcome [OF wf ord, of op] executeQuery_outcome [OF wf, of op] ok
  by (cases "smo_OpType op")
    (auto simp: sm_execute_def opConfig_def op_ok_def)

lemma sm_applyOp_outcome:
  assumes wf: "sm_wf sm" and ord: "go_order ord" and ok: "op_ok op"
  shows "\<exists>sm' reply. sm_applyOp ord op sm = Some (sm', reply) \<and> sm_wf sm' \<and>
    sm_configs sm' = sm_configs sm @
      (if sm_duplicate op sm then []
       else case opConfig ord op (last (sm_configs sm)) of None \<Rightarrow> [] | Some c \<Rightarrow> [c])"
proof (cases "sm_duplicate op sm")
  case True
  with wf show ?thesis by (simp add: sm_applyOp_def)
next
  case False
  define c where "c = opConfig ord op (last (sm_configs sm))"
  define sm1 where "sm1 = (case c of None \<Rightarrow> sm | Some c \<Rightarrow> sm\<lparr>sm_configs := sm_configs sm @ [c]\<rparr>)"
  obtain reply where ex: "sm_execute ord op sm = Some (sm1, reply)"
    using sm_execute_outcome [OF assms] unfolding c_def [symmetric] sm1_def by blast
  have wf1: "sm_wf sm1"
  proof (cases c)
    case (Some c')
    with opConfig_wf [of _ op ord c'] sm_wf_last [OF wf] ok
    have "config_wf c'" "cfg_Num c' = int (length (sm_configs sm))" by (auto simp: c_def)
    with Some show ?thesis using sm_wf_append [OF wf] by (simp add: sm1_def)
  qed (simp add: sm1_def wf)
  have "sm_configs sm1 = sm_configs sm @ (case c of None \<Rightarrow> [] | Some c \<Rightarrow> [c])"
    by (simp add: sm1_def split: option.split)
  moreover have "sm_wf (sm1\<lparr>sm_sessions := t\<rparr>) = sm_wf sm1" for t by (simp add: sm_wf_def)
  ultimately show ?thesis using False ex wf1
    by (simp add: sm_applyOp_def flip: c_def)
qed

section \<open>Sessions\<close>

text \<open>The replicated state machine on the state, \<open>None\<close> once a command has panicked.\<close>

definition sm_step :: "(groups \<Rightarrow> int list) \<Rightarrow> SmOp \<Rightarrow> ShardMaster option \<Rightarrow> ShardMaster option" where
  "sm_step ord op s = do { sm \<leftarrow> s; (sm', _) \<leftarrow> sm_applyOp ord op sm; Some sm' }"

definition sm_settled :: "SmOp \<Rightarrow> ShardMaster option \<Rightarrow> bool" where
  "sm_settled op s \<longleftrightarrow> (case s of None \<Rightarrow> True | Some sm \<Rightarrow> sm_duplicate op sm)"

lemma sm_execute_sessions:
  "sm_execute ord op sm = Some (sm', r) \<Longrightarrow> sm_sessions sm' = sm_sessions sm"
  by (auto simp: sm_execute_def executeJoin_def executeLeave_def executeMove_def Let_def
      bind_eq_Some_conv split: SmOpType.splits)

lemma sm_execute_query:
  "sm_execute ord op sm = Some (sm', r) \<Longrightarrow> smo_OpType op = Query \<Longrightarrow> sm' = sm"
  by (auto simp: sm_execute_def bind_eq_Some_conv)

interpretation sm_service: session_service "sm_step ord" "\<lambda>_. True" sm_settled for ord
proof unfold_locales
  fix op s
  show "sm_settled op s \<Longrightarrow> sm_step ord op s = s"
    by (cases s) (auto simp: sm_settled_def sm_step_def sm_applyOp_def)
next
  fix op op' s
  assume st: "sm_settled op s"
  show "sm_settled op (sm_step ord op' s)"
  proof (cases "sm_step ord op' s")
    case (Some sm')
    then obtain sm r where sm: "s = Some sm" "sm_applyOp ord op' sm = Some (sm', r)"
      by (auto simp: sm_step_def bind_eq_Some_conv)
    with st have dup: "sm_duplicate op sm" by (simp add: sm_settled_def)
    show ?thesis
    proof (cases "sm_duplicate op' sm")
      case True
      with sm dup Some show ?thesis by (simp add: sm_applyOp_def sm_settled_def)
    next
      case False
      with sm obtain sm1 where ex: "sm_execute ord op' sm = Some (sm1, r)"
        and sm': "sm' = (if smo_OpType op' \<noteq> Query
              then sm1\<lparr>sm_sessions := (sm_sessions sm1)(smo_ClientId op' \<mapsto>
                \<lparr>sms_LastSeqNum = smo_SeqNum op', sms_Optype = smo_OpType op', sms_Response = r\<rparr>)\<rparr>
              else sm1)"
        by (auto simp: sm_applyOp_def bind_eq_Some_conv)
      from sm_execute_sessions [OF ex] dup False show ?thesis
        unfolding Some sm' by (auto simp: sm_settled_def sm_duplicate_def sm_session_def)
    qed
  qed (simp add: sm_settled_def)
next
  fix op s
  assume ch: "sm_step ord op s \<noteq> s"
  show "sm_settled op (sm_step ord op s)"
  proof (cases "sm_step ord op s")
    case (Some sm')
    then obtain sm r where sm: "s = Some sm" "sm_applyOp ord op sm = Some (sm', r)"
      by (auto simp: sm_step_def bind_eq_Some_conv)
    with ch Some have nd: "\<not> sm_duplicate op sm" by (auto simp: sm_applyOp_def)
    with sm obtain sm1 where ex: "sm_execute ord op sm = Some (sm1, r)"
      and sm': "sm' = (if smo_OpType op \<noteq> Query
            then sm1\<lparr>sm_sessions := (sm_sessions sm1)(smo_ClientId op \<mapsto>
              \<lparr>sms_LastSeqNum = smo_SeqNum op, sms_Optype = smo_OpType op, sms_Response = r\<rparr>)\<rparr>
            else sm1)"
      by (auto simp: sm_applyOp_def bind_eq_Some_conv)
    have "smo_OpType op \<noteq> Query"
      using sm_execute_query [OF ex] sm' ch Some sm(1) by auto
    then show ?thesis
      unfolding Some sm' by (simp add: sm_settled_def sm_duplicate_def sm_session_def)
  qed (simp add: sm_settled_def)
qed

section \<open>Runs of the log\<close>

lemma sm_step_append:
  assumes wf: "sm_wf sm" and ord: "go_order ord" and ok: "op_ok op"
  shows "\<exists>sm' cs. sm_step ord op (Some sm) = Some sm' \<and> sm_wf sm' \<and> sm_configs sm' = sm_configs sm @ cs \<and>
     length cs \<le> 1"
  using sm_applyOp_outcome [OF assms]
  by (fastforce simp: sm_step_def split: option.splits if_splits)

lemma sm_run_append:
  assumes "sm_wf sm" and ord: "go_order ord" and "\<forall>op \<in> set ops. op_ok op"
  shows "\<exists>sm' cs. fold (sm_step ord) ops (Some sm) = Some sm' \<and> sm_wf sm' \<and>
     sm_configs sm' = sm_configs sm @ cs \<and> length cs \<le> length ops"
  using assms
proof (induction ops arbitrary: sm)
  case (Cons op ops)
  obtain sm1 cs where 1: "sm_step ord op (Some sm) = Some sm1" "sm_wf sm1"
    "sm_configs sm1 = sm_configs sm @ cs" "length cs \<le> 1"
    using sm_step_append [OF Cons.prems(1) ord, of op] Cons.prems(3) by auto
  obtain sm2 ds where 2: "fold (sm_step ord) ops (Some sm1) = Some sm2" "sm_wf sm2"
    "sm_configs sm2 = sm_configs sm1 @ ds" "length ds \<le> length ops"
    using Cons.IH [OF 1(2) ord] Cons.prems(3) by auto
  show ?case
    using 1 2 by (intro exI [of _ sm2] exI [of _ "cs @ ds"]) auto
qed simp

text \<open>Nothing depends on the iteration order.\<close>

lemma order_irrelevant:
  assumes "go_order ord" and "go_order ord'" and "finite (dom (smo_Servers op))"
    and "config_wf c"
  shows "joined ord op c = joined ord' op c" and "left ord op c = left ord' op c"
proof -
  have "shardLoadBalance (ord g) g s = shardLoadBalance (ord' g) g s" if "finite (dom g)" for g s
    using assms(1,2) that by (intro lb_order_irrelevant) (auto simp: go_order_def)
  with assms(3,4) show "joined ord op c = joined ord' op c" "left ord op c = left ord' op c"
    by (simp_all add: joined_def left_def Let_def config_wf_def)
qed

lemma sm_step_order:
  assumes wf: "sm_wf sm" and ord: "go_order ord" "go_order ord'" and fin: "finite (dom (smo_Servers op))"
  shows "sm_step ord op (Some sm) = sm_step ord' op (Some sm)"
proof -
  have "sm_execute ord op sm = sm_execute ord' op sm"
    using executeJoin_outcome [OF wf ord(1) fin] executeJoin_outcome [OF wf ord(2) fin]
      executeLeave_outcome [OF wf ord(1), of op] executeLeave_outcome [OF wf ord(2), of op]
      executeMove_outcome [OF wf ord(1), of op] executeMove_outcome [OF wf ord(2), of op]
      order_irrelevant [OF ord fin] sm_wf_last [OF wf]
    by (simp add: sm_execute_def split: SmOpType.split)
  then show ?thesis by (simp add: sm_step_def sm_applyOp_def)
qed

lemma sm_run_order:
  assumes "sm_wf sm" and ord: "go_order ord" "go_order ord'" and "\<forall>op \<in> set ops. op_ok op"
  shows "fold (sm_step ord) ops (Some sm) = fold (sm_step ord') ops (Some sm)"
  using assms
proof (induction ops arbitrary: sm)
  case (Cons op ops)
  have ok: "op_ok op" using Cons.prems(4) by simp
  then have "sm_step ord op (Some sm) = sm_step ord' op (Some sm)"
    by (intro sm_step_order [OF Cons.prems(1) ord]) (simp add: op_ok_def)
  moreover obtain sm1 where "sm_step ord op (Some sm) = Some sm1" "sm_wf sm1"
    using sm_step_append [OF Cons.prems(1) ord(1) ok] by blast
  ultimately show ?case using Cons.IH [of sm1] Cons.prems(4) ord by simp
qed simp

end
