(* ===== verification/ShardMasterTheorems.thy ===== *)
theory ShardMasterTheorems
  imports ShardMaster
begin

text \<open>The properties of the configuration service (\<open>src/shardmaster\<close>).\<close>

text \<open>C7: The assignment \<open>shardLoadBalance\<close> returns is balanced (every shard belongs to a
  group of the new configuration, and every group has the average number of shards or one more),
  and it moves as few shards as possible: every other balanced assignment moves at least as
  many away from where they were. The result does not depend on the order in which the map of
  groups is iterated over.\<close>

theorem load_balance_optimal:
  fixes groups :: groups
  assumes "iterates order groups" and "iterates order' groups" and "dom groups \<noteq> {}" and "0 \<notin> dom groups"
    and "length shards = NShards"
  shows "balanced groups (shardLoadBalance order groups shards) \<and>
    (\<forall>r. balanced groups r \<longrightarrow> moved shards (shardLoadBalance order groups shards) \<le> moved shards r) \<and>
    shardLoadBalance order' groups shards = shardLoadBalance order groups shards"
proof -
  have "moved shards (shardLoadBalance order groups shards) \<le> moved shards r" if "balanced groups r" for r
    using kept_best [OF assms(1,3-5) that] by (simp add: moved_kept diff_le_mono2)
  with lb_balanced [OF assms(1,3-5)] lb_order_irrelevant [OF assms(2,1), of shards] show ?thesis by blast
qed

definition ex_groups :: groups where
  "ex_groups = [1 \<mapsto> [''a''], 2 \<mapsto> [''b''], 3 \<mapsto> [''c'']]"

lemma ex_groups_dom: "dom ex_groups = {1, 2, 3}"
  by (auto simp: ex_groups_def)

lemma load_balance_optimal_witness:
  "balanced ex_groups [3, 1, 1, 1, 1, 3, 3, 2, 2, 2] \<and>
   shardLoadBalance [2, 3, 1] ex_groups [1, 1, 1, 1, 1, 2, 2, 2, 2, 2] = [3, 1, 1, 1, 1, 3, 3, 2, 2, 2] \<and>
   shardLoadBalance [1, 2, 3] ex_groups [1, 1, 1, 1, 1, 2, 2, 2, 2, 2] = [3, 1, 1, 1, 1, 3, 3, 2, 2, 2]"
proof -
  have "shardLoadBalance [2, 3, 1] ex_groups [1, 1, 1, 1, 1, 2, 2, 2, 2, 2] = [3, 1, 1, 1, 1, 3, 3, 2, 2, 2]"
    by code_simp
  with load_balance_optimal [of "[2, 3, 1]" ex_groups "[1, 2, 3]" "[1, 1, 1, 1, 1, 2, 2, 2, 2, 2]"] show ?thesis
    by (simp add: iterates_def ex_groups_dom NShards_def insert_commute)
qed

text \<open>C21: Replicas agree: whatever orders the Go runtime of two replicas picks when they iterate
  over their maps, running the same log of commands leads both to the same configurations and
  sessions.\<close>

theorem replicas_agree:
  assumes "go_order ord" and "go_order ord'" and "\<forall>op \<in> set ops. op_ok op"
  shows "fold (sm_step ord) ops (Some (StartShardMaster i)) =
    fold (sm_step ord') ops (Some (StartShardMaster i))"
  by (rule sm_run_order [OF _ assms])
    (simp add: sm_wf_def StartShardMaster_def config_wf_def zero_Config_def)

definition ex_order :: "groups \<Rightarrow> int list" where
  "ex_order m = sorted_list_of_set (dom m)"

lemma ex_go_order: "go_order ex_order"
  by (simp add: go_order_def ex_order_def iterates_def)

lemma ex_go_order_rev: "go_order (\<lambda>m. rev (ex_order m))"
  by (simp add: go_order_def ex_order_def iterates_def)

definition ex_join :: SmOp where
  "ex_join = zero_SmOp\<lparr>smo_ClientId := 7, smo_SeqNum := 1, smo_OpType := Join, smo_Servers := ex_groups\<rparr>"

lemma ex_join_ok: "op_ok ex_join"
  by (simp add: op_ok_def ex_join_def ex_groups_dom)

lemma replicas_agree_witness:
  "fold (sm_step ex_order) [ex_join] (Some (StartShardMaster 0)) =
   fold (sm_step (\<lambda>m. rev (ex_order m))) [ex_join] (Some (StartShardMaster 0))"
  using replicas_agree [OF ex_go_order ex_go_order_rev, of "[ex_join]" 0] by (simp add: ex_join_ok)

text \<open>C31: The configurations form a history that is only appended to: after any log of
  acceptable commands, on any replica, the configuration at position \<open>i\<close> has number \<open>i\<close>, the
  initial one is still there, each command added at most one, and a longer log never changes an
  earlier configuration.\<close>

theorem config_history:
  assumes "go_order ord" and "\<forall>op \<in> set (ops @ ops'). op_ok op"
  shows "\<exists>sm sm' cs. fold (sm_step ord) ops (Some (StartShardMaster i)) = Some sm \<and>
    fold (sm_step ord) (ops @ ops') (Some (StartShardMaster i)) = Some sm' \<and>
    sm_configs sm' = sm_configs sm @ cs \<and> length cs \<le> length ops' \<and>
    sm_configs sm' ! 0 = zero_Config \<and>
    (\<forall>k < length (sm_configs sm'). cfg_Num (sm_configs sm' ! k) = int k \<and>
       length (cfg_Shards (sm_configs sm' ! k)) = NShards)"
proof -
  have start: "sm_wf (StartShardMaster i)"
    by (simp add: sm_wf_def StartShardMaster_def config_wf_def zero_Config_def)
  obtain sm cs where 1: "fold (sm_step ord) ops (Some (StartShardMaster i)) = Some sm" "sm_wf sm"
    "sm_configs sm = sm_configs (StartShardMaster i) @ cs"
    using sm_run_append [OF start assms(1), of ops] assms(2) by auto
  obtain sm' ds where 2: "fold (sm_step ord) ops' (Some sm) = Some sm'" "sm_wf sm'"
    "sm_configs sm' = sm_configs sm @ ds" "length ds \<le> length ops'"
    using sm_run_append [OF 1(2) assms(1), of ops'] assms(2) by auto
  have "sm_configs sm' ! 0 = zero_Config" using 1(3) 2(3) by (simp add: StartShardMaster_def)
  with 1 2 show ?thesis
    by (intro exI [of _ sm] exI [of _ sm'] exI [of _ ds]) (simp add: sm_wf_def config_wf_def)
qed

lemma config_history_witness:
  "\<exists>sm sm' cs. fold (sm_step ex_order) [ex_join] (Some (StartShardMaster 0)) = Some sm \<and>
    fold (sm_step ex_order) [ex_join, ex_join] (Some (StartShardMaster 0)) = Some sm' \<and>
    sm_configs sm' = sm_configs sm @ cs \<and> sm_configs sm' ! 0 = zero_Config"
  using config_history [OF ex_go_order, of "[ex_join]" "[ex_join]" 0] ex_join_ok by auto

text \<open>Join adds its groups to the last configuration (replacing the servers of groups that
  are already there), and the new configuration, which has the next number, is balanced over
  all of them with the fewest possible moves.\<close>

theorem join_effect:
  assumes "sm_wf sm" and "go_order ord" and "finite (dom (smo_Servers op))"
    and "dom (cfg_Groups (last (sm_configs sm)) ++ smo_Servers op) \<noteq> {}"
    and "0 \<notin> dom (cfg_Groups (last (sm_configs sm)) ++ smo_Servers op)"
  shows "\<exists>c. executeJoin ord op sm = Some (sm\<lparr>sm_configs := sm_configs sm @ [c]\<rparr>, OK) \<and>
    cfg_Num c = int (length (sm_configs sm)) \<and>
    cfg_Groups c = cfg_Groups (last (sm_configs sm)) ++ smo_Servers op \<and>
    balanced (cfg_Groups c) (cfg_Shards c) \<and>
    (\<forall>r. balanced (cfg_Groups c) r \<longrightarrow> moved (cfg_Shards (last (sm_configs sm))) (cfg_Shards c)
       \<le> moved (cfg_Shards (last (sm_configs sm))) r)"
proof -
  let ?l = "last (sm_configs sm)"
  let ?g = "cfg_Groups ?l ++ smo_Servers op"
  note l = sm_wf_last [OF assms(1)]
  have it: "iterates (ord ?g) ?g" using assms(2,3) l by (simp add: go_order_def config_wf_def)
  have len: "length (cfg_Shards ?l) = NShards" using l by (simp add: config_wf_def)
  have opt: "moved (cfg_Shards ?l) (shardLoadBalance (ord ?g) ?g (cfg_Shards ?l)) \<le> moved (cfg_Shards ?l) r"
    if "balanced ?g r" for r
    using kept_best [OF it assms(4,5) len that] by (simp add: moved_kept diff_le_mono2)
  show ?thesis
    using executeJoin_outcome [OF assms(1-3)] lb_balanced [OF it assms(4,5) len] opt l
    by (intro exI [of _ "joined ord op ?l"]) (simp add: joined_def Let_def)
qed

lemma start_wf: "sm_wf (StartShardMaster i)"
  by (simp add: sm_wf_def StartShardMaster_def config_wf_def zero_Config_def)

lemma start_last: "last (sm_configs (StartShardMaster i)) = zero_Config"
  by (simp add: StartShardMaster_def)

lemma join_effect_witness:
  "\<exists>c. executeJoin ex_order ex_join (StartShardMaster 0) =
      Some ((StartShardMaster 0)\<lparr>sm_configs := sm_configs (StartShardMaster 0) @ [c]\<rparr>, OK) \<and>
    cfg_Groups c = ex_groups \<and> balanced ex_groups (cfg_Shards c)"
proof -
  have g: "cfg_Groups (last (sm_configs (StartShardMaster 0))) ++ smo_Servers ex_join = ex_groups"
    by (simp add: start_last zero_Config_def ex_join_def)
  have fin: "finite (dom (smo_Servers ex_join))" by (simp add: ex_join_def ex_groups_dom)
  have "dom ex_groups \<noteq> {}" "0 \<notin> dom ex_groups" by (simp_all add: ex_groups_dom)
  with join_effect [OF start_wf ex_go_order fin, of 0, unfolded g] obtain c where
    "executeJoin ex_order ex_join (StartShardMaster 0) =
      Some ((StartShardMaster 0)\<lparr>sm_configs := sm_configs (StartShardMaster 0) @ [c]\<rparr>, OK)"
    "cfg_Groups c = ex_groups" "balanced (cfg_Groups c) (cfg_Shards c)" by blast
  then show ?thesis by (intro exI [of _ c]) simp
qed

text \<open>Leave removes exactly the named groups; afterwards no shard belongs to a group that
  left. If groups remain, the assignment is balanced over them with the fewest moves, and if
  none remain all shards go to the invalid group 0.\<close>

theorem leave_effect:
  assumes "sm_wf sm" and "go_order ord" and "0 \<notin> dom (cfg_Groups (last (sm_configs sm)))"
  shows "\<exists>c. executeLeave ord op sm = Some (sm\<lparr>sm_configs := sm_configs sm @ [c]\<rparr>, OK) \<and>
    cfg_Num c = int (length (sm_configs sm)) \<and>
    cfg_Groups c = cfg_Groups (last (sm_configs sm)) |` (- set (smo_GIDs op)) \<and>
    (if dom (cfg_Groups c) = {} then cfg_Shards c = replicate NShards 0
     else balanced (cfg_Groups c) (cfg_Shards c) \<and> set (cfg_Shards c) \<inter> set (smo_GIDs op) = {} \<and>
       (\<forall>r. balanced (cfg_Groups c) r \<longrightarrow> moved (cfg_Shards (last (sm_configs sm))) (cfg_Shards c)
          \<le> moved (cfg_Shards (last (sm_configs sm))) r))"
proof -
  let ?l = "last (sm_configs sm)"
  define g where "g = cfg_Groups ?l |` (- set (smo_GIDs op))"
  note l = sm_wf_last [OF assms(1)]
  have it: "iterates (ord g) g" using assms(2) l by (simp add: go_order_def config_wf_def g_def)
  have len: "length (cfg_Shards ?l) = NShards" using l by (simp add: config_wf_def)
  have zero: "0 \<notin> dom g" using assms(3) by (simp add: g_def)
  have "balanced g (shardLoadBalance (ord g) g (cfg_Shards ?l)) \<and>
      set (shardLoadBalance (ord g) g (cfg_Shards ?l)) \<inter> set (smo_GIDs op) = {} \<and>
      (\<forall>r. balanced g r \<longrightarrow> moved (cfg_Shards ?l) (shardLoadBalance (ord g) g (cfg_Shards ?l))
         \<le> moved (cfg_Shards ?l) r)" if ne: "dom g \<noteq> {}"
  proof -
    have bal: "balanced g (shardLoadBalance (ord g) g (cfg_Shards ?l))"
      by (rule lb_balanced [OF it ne zero len])
    moreover have "dom g \<inter> set (smo_GIDs op) = {}" by (auto simp: g_def)
    ultimately have "set (shardLoadBalance (ord g) g (cfg_Shards ?l)) \<inter> set (smo_GIDs op) = {}"
      unfolding balanced_def by blast
    moreover have "moved (cfg_Shards ?l) (shardLoadBalance (ord g) g (cfg_Shards ?l)) \<le> moved (cfg_Shards ?l) r"
      if "balanced g r" for r
      using kept_best [OF it ne zero len that] by (simp add: moved_kept diff_le_mono2)
    ultimately show ?thesis using bal by blast
  qed
  note main = this
  define c where "c = left ord op ?l"
  have c: "cfg_Groups c = g" "cfg_Num c = int (length (sm_configs sm))"
    "dom g = {} \<Longrightarrow> cfg_Shards c = replicate NShards 0"
    "dom g \<noteq> {} \<Longrightarrow> cfg_Shards c = shardLoadBalance (ord g) g (cfg_Shards ?l)"
    using l by (simp_all only: c_def left_def Let_def g_def Config.simps if_True if_False) simp
  have "executeLeave ord op sm = Some (sm\<lparr>sm_configs := sm_configs sm @ [c]\<rparr>, OK)"
    using executeLeave_outcome [OF assms(1,2)] by (simp add: c_def)
  with c main show ?thesis
    unfolding g_def [symmetric] by (intro exI [of _ c]) (cases "dom g = {}"; simp del: dom_eq_empty_conv)
qed

definition ex_leave :: SmOp where
  "ex_leave = zero_SmOp\<lparr>smo_ClientId := 7, smo_SeqNum := 2, smo_OpType := Leave, smo_GIDs := [2]\<rparr>"

definition ex_joined :: ShardMaster where
  "ex_joined = (StartShardMaster 0)\<lparr>sm_configs := [zero_Config, joined ex_order ex_join zero_Config]\<rparr>"

lemma ex_joined_wf: "sm_wf ex_joined"
  using sm_wf_append [OF start_wf, of "joined ex_order ex_join zero_Config" 0]
    config_wf_joined [of zero_Config ex_join ex_order]
  by (simp add: ex_joined_def StartShardMaster_def joined_def Let_def zero_Config_def config_wf_def
      ex_join_def ex_groups_dom)

lemma leave_effect_witness:
  "\<exists>c. executeLeave ex_order ex_leave ex_joined =
      Some (ex_joined\<lparr>sm_configs := sm_configs ex_joined @ [c]\<rparr>, OK) \<and>
    cfg_Num c = 2 \<and> set (cfg_Shards c) \<inter> {2} = {}"
proof -
  have g: "cfg_Groups (last (sm_configs ex_joined)) = ex_groups"
    by (simp add: ex_joined_def joined_def Let_def zero_Config_def ex_join_def)
  have "1 \<in> dom (ex_groups |` (- {2}))" by (simp add: ex_groups_dom)
  then have ne: "dom (ex_groups |` (- {2})) \<noteq> {}" by blast
  have n: "int (length (sm_configs ex_joined)) = 2" by (simp add: ex_joined_def)
  have l: "set (smo_GIDs ex_leave) = {2}" by (simp add: ex_leave_def)
  from leave_effect [OF ex_joined_wf ex_go_order, of ex_leave, unfolded g n l] ne
  obtain c where "executeLeave ex_order ex_leave ex_joined =
      Some (ex_joined\<lparr>sm_configs := sm_configs ex_joined @ [c]\<rparr>, OK)" "cfg_Num c = 2"
      "set (cfg_Shards c) \<inter> {2} = {}"
    by (auto simp: ex_groups_dom simp del: dom_eq_empty_conv)
  then show ?thesis by blast
qed

text \<open>Query returns the configuration with the requested number if there is one, and the
  latest for -1 and for numbers that do not exist yet; a number below -1 indexes the history
  out of range and panics, on every replica that applies the command.\<close>

theorem query_answers:
  assumes "sm_wf sm"
  shows "(smo_CfgNum op < -1 \<longrightarrow> executeQuery op sm = None) \<and>
    (0 \<le> smo_CfgNum op \<and> smo_CfgNum op < int (length (sm_configs sm)) \<longrightarrow>
       (\<exists>c. executeQuery op sm = Some (OK, c) \<and> c \<in> set (sm_configs sm) \<and> cfg_Num c = smo_CfgNum op)) \<and>
    (smo_CfgNum op = -1 \<or> int (length (sm_configs sm)) \<le> smo_CfgNum op \<longrightarrow>
       executeQuery op sm = Some (OK, last (sm_configs sm)))"
  using assms executeQuery_outcome [OF assms, of op]
  by (auto simp: sm_wf_def nat_less_iff)

lemma query_answers_witness:
  "executeQuery (zero_SmOp\<lparr>smo_CfgNum := -2\<rparr>) ex_joined = None \<and>
   executeQuery (zero_SmOp\<lparr>smo_CfgNum := -1\<rparr>) ex_joined = Some (OK, last (sm_configs ex_joined))"
  using query_answers [OF ex_joined_wf, of "zero_SmOp\<lparr>smo_CfgNum := -2\<rparr>"]
    query_answers [OF ex_joined_wf, of "zero_SmOp\<lparr>smo_CfgNum := -1\<rparr>"] by simp

text \<open>A command takes effect at most once: in any log, however often the clerk's retries
  put the same command into it, at most one of the occurrences changes the state.\<close>

theorem commands_once:
  "session_service.effects (sm_step ord) op ops s \<le> 1"
  by (rule sm_service.effects_at_most_once) simp

text \<open>A retry gets the same answer: once a Join, Leave or Move has been applied with some
  reply, applying it again after any log of commands of other clients changes nothing and gives
  that reply.\<close>

theorem retry_answer:
  assumes "sm_applyOp ord op sm = Some (sm1, reply)" and "smo_OpType op \<noteq> Query"
    and "\<not> sm_duplicate op sm"
    and "fold (sm_step ord) ops (Some sm1) = Some sm2"
    and "\<forall>o' \<in> set ops. smo_ClientId o' \<noteq> smo_ClientId op"
  shows "sm_applyOp ord op sm2 = Some (sm2, reply)"
proof -
  have one: "sm_sessions t' (smo_ClientId op) = sm_sessions t (smo_ClientId op)"
    if "sm_step ord o' (Some t) = Some t'" "smo_ClientId o' \<noteq> smo_ClientId op" for o' t t'
    using that sm_execute_sessions [of ord o' t]
    by (auto simp: sm_step_def sm_applyOp_def bind_eq_Some_conv split: if_splits)
  have none: "fold (sm_step ord) xs None = None" for xs
    by (induction xs) (simp_all add: sm_step_def)
  have "sm_sessions sm2 (smo_ClientId op) = sm_sessions sm1 (smo_ClientId op)"
    using assms(4,5)
  proof (induction ops arbitrary: sm1)
    case (Cons o' ops)
    obtain t where t: "sm_step ord o' (Some sm1) = Some t"
      using Cons.prems(1) none by (cases "sm_step ord o' (Some sm1)") auto
    with Cons.prems Cons.IH [of t] one [OF t] show ?case by simp
  qed simp
  moreover have "sm_sessions sm1 (smo_ClientId op) = Some \<lparr>sms_LastSeqNum = smo_SeqNum op,
      sms_Optype = smo_OpType op, sms_Response = reply\<rparr>"
    using assms(1-3) by (auto simp: sm_applyOp_def bind_eq_Some_conv)
  ultimately show ?thesis
    using assms(2) by (simp add: sm_applyOp_def sm_duplicate_def sm_session_def)
qed

lemma retry_answer_witness:
  "\<exists>sm1 reply. sm_applyOp ex_order ex_join (StartShardMaster 0) = Some (sm1, reply) \<and>
     sm_applyOp ex_order ex_join sm1 = Some (sm1, reply)"
proof -
  have nd: "\<not> sm_duplicate ex_join (StartShardMaster 0)"
    by (simp add: sm_duplicate_def StartShardMaster_def)
  obtain sm1 reply where a: "sm_applyOp ex_order ex_join (StartShardMaster 0) = Some (sm1, reply)"
    using sm_applyOp_outcome [OF start_wf ex_go_order ex_join_ok] by blast
  have "smo_OpType ex_join \<noteq> Query" by (simp add: ex_join_def)
  from a retry_answer [OF a this nd, of "[]" sm1] show ?thesis by auto
qed

end
