(* ===== verification/ShardKV.thy ===== *)
theory ShardKV
  imports ShardMaster RaftNode
begin

text \<open>
  The sharded key/value server, \<open>src/shardkv/server.go\<close>, \<open>common.go\<close> and \<open>client.go\<close>: the
  replicated state machine of one group, the migration of shards between groups, its
  snapshots, the RPC handlers and the clerk. Messages arrive from Raft as \<open>ApplyMsg\<close>; the
  results of \<open>Start\<close> and \<open>GetState\<close> are arguments, the calls to Raft's snapshot interface
  are made on the model of the Raft peer. \<open>None\<close> is a panic, or a send that blocks for ever.
\<close>

section \<open>Data\<close>

datatype SkOpType = Get | Put | Append | UpdateConfig | GetShard | GiveShard | EmptyOp | OtherType

datatype ShardState = NoExist | Exist | WaitGet | WaitGive

record SkReply =
  skr_Err :: Err
  skr_Value :: string

record SkSession =
  sks_LastCmdNum :: int
  sks_OpType :: SkOpType
  sks_Response :: SkReply

type_synonym shard_data = "string \<rightharpoonup> string"
type_synonym sessions = "int \<rightharpoonup> SkSession"

record SkOp =
  sko_ClientId :: int
  sko_CmdNum :: int
  sko_OpType :: SkOpType
  sko_Key :: string
  sko_Value :: string
  sko_NewConfig :: Config
  sko_CfgNum :: int
  sko_ShardNum :: int
  sko_ShardData :: shard_data
  sko_SessionData :: sessions

record ShardKV =
  kv_me :: nat
  kv_gid :: int
  maxraftstate :: int
  kv_dead :: int
  kvDB :: "int \<rightharpoonup> shard_data"
  kv_sessions :: sessions
  kv_notify :: "SkReply Notify"
  logLastApplied :: int
  passiveSnapshotBefore :: bool
  ownedShards :: "ShardState list"
  preConfig :: Config
  curConfig :: Config

text \<open>What a snapshot encodes, in the order of \<open>e.Encode\<close>.\<close>

record SkSnapshot =
  ss_kvDB :: "int \<rightharpoonup> shard_data"
  ss_sessions :: sessions
  ss_preConfig :: Config
  ss_curConfig :: Config
  ss_ownedShards :: "ShardState list"

definition zero_SkReply :: SkReply where
  "zero_SkReply = \<lparr>skr_Err = NoErr, skr_Value = ''''\<rparr>"

definition zero_SkOp :: SkOp where
  "zero_SkOp = \<lparr>sko_ClientId = 0, sko_CmdNum = 0, sko_OpType = OtherType, sko_Key = '''',
     sko_Value = '''', sko_NewConfig = zero_Config, sko_CfgNum = 0, sko_ShardNum = 0,
     sko_ShardData = (\<lambda>_. None), sko_SessionData = (\<lambda>_. None)\<rparr>"

definition key2shard :: "string \<Rightarrow> int" where
  "key2shard key = (case key of [] \<Rightarrow> 0 | c # _ \<Rightarrow> int (of_char c mod NShards))"

definition StartServer :: "nat \<Rightarrow> int \<Rightarrow> int \<Rightarrow> ShardKV" where
  "StartServer i maxstate gid = \<lparr>kv_me = i, kv_gid = gid, maxraftstate = maxstate, kv_dead = 0,
     kvDB = (\<lambda>s. if 0 \<le> s \<and> s < int NShards then Some (\<lambda>_. None) else None),
     kv_sessions = (\<lambda>_. None), kv_notify = no_channels, logLastApplied = 0,
     passiveSnapshotBefore = False, ownedShards = replicate NShards NoExist,
     preConfig = zero_Config, curConfig = zero_Config\<rparr>"

definition SkKill :: "ShardKV \<times> ('c, 's) Raft \<Rightarrow> ShardKV \<times> ('c, 's) Raft" where
  "SkKill s = ((fst s)\<lparr>kv_dead := 1\<rparr>, Kill (snd s))"

definition SkKilled :: "ShardKV \<Rightarrow> bool" where
  "SkKilled kv \<longleftrightarrow> kv_dead kv = 1"

definition checkKeyInGroup :: "string \<Rightarrow> ShardKV \<Rightarrow> bool" where
  "checkKeyInGroup key kv \<longleftrightarrow> ownedShards kv ! nat (key2shard key) = Exist"

section \<open>Client commands\<close>

text \<open>
  The check every command passes: not applied before, and if a snapshot was just installed,
  the one that follows it. \<open>None\<close>: the command is dropped.
\<close>

definition apply_gate :: "int \<Rightarrow> ShardKV \<Rightarrow> ShardKV option" where
  "apply_gate commandIndex kv =
     (if commandIndex \<le> logLastApplied kv then None
      else if passiveSnapshotBefore kv \<and> commandIndex - logLastApplied kv \<noteq> 1 then None
      else Some (kv\<lparr>passiveSnapshotBefore := False, logLastApplied := commandIndex\<rparr>))"

text \<open>Writing to a shard: the inner map must exist (a write to a nil map panics).\<close>

definition writeKey :: "int \<Rightarrow> string \<Rightarrow> string \<Rightarrow> ShardKV \<Rightarrow> ShardKV option" where
  "writeKey shard key v kv =
     do { m \<leftarrow> kvDB kv shard; Some (kv\<lparr>kvDB := (kvDB kv)(shard \<mapsto> m(key \<mapsto> v))\<rparr>) }"

definition readKey :: "int \<Rightarrow> string \<Rightarrow> ShardKV \<Rightarrow> string option" where
  "readKey shard key kv = do { m \<leftarrow> kvDB kv shard; m key }"

definition sk_execute :: "SkOp \<Rightarrow> ShardKV \<Rightarrow> (ShardKV \<times> SkReply) option" where
  "sk_execute op kv =
     (let shardNum = key2shard (sko_Key op); old = readKey shardNum (sko_Key op) kv
      in case sko_OpType op of
           Get \<Rightarrow> Some (kv, case old of
               None \<Rightarrow> \<lparr>skr_Err = ErrNoKey, skr_Value = ''''\<rparr>
             | Some v \<Rightarrow> \<lparr>skr_Err = OK, skr_Value = v\<rparr>)
         | Put \<Rightarrow> do {
             kv \<leftarrow> writeKey shardNum (sko_Key op) (sko_Value op) kv;
             Some (kv, zero_SkReply\<lparr>skr_Err := OK\<rparr>) }
         | Append \<Rightarrow>
             (case old of
                None \<Rightarrow> do {
                  kv \<leftarrow> writeKey shardNum (sko_Key op) (sko_Value op) kv;
                  Some (kv, zero_SkReply\<lparr>skr_Err := ErrNoKey\<rparr>) }
              | Some v \<Rightarrow> do {
                  kv \<leftarrow> writeKey shardNum (sko_Key op) (v @ sko_Value op) kv;
                  Some (kv, zero_SkReply\<lparr>skr_Err := OK\<rparr>) })
         | _ \<Rightarrow> Some (kv, zero_SkReply))"

definition sk_duplicate :: "SkOp \<Rightarrow> ShardKV \<Rightarrow> bool" where
  "sk_duplicate op kv \<longleftrightarrow> (case kv_sessions kv (sko_ClientId op) of
     None \<Rightarrow> False | Some s \<Rightarrow> sko_OpType op \<noteq> Get \<and> sko_CmdNum op \<le> sks_LastCmdNum s)"

text \<open>Session check, execution, and recording of the response.\<close>

definition sk_applyClient :: "SkOp \<Rightarrow> ShardKV \<Rightarrow> (ShardKV \<times> SkReply) option" where
  "sk_applyClient op kv =
     (if sk_duplicate op kv then
        Some (kv, case kv_sessions kv (sko_ClientId op) of Some s \<Rightarrow> sks_Response s | None \<Rightarrow> zero_SkReply)
      else do {
        (kv, reply) \<leftarrow> sk_execute op kv;
        Some (if sko_OpType op \<noteq> Get
              then kv\<lparr>kv_sessions := (kv_sessions kv)(sko_ClientId op \<mapsto>
                \<lparr>sks_LastCmdNum = sko_CmdNum op, sks_OpType = sko_OpType op, sks_Response = reply\<rparr>)\<rparr>
              else kv, reply) })"

definition sk_notify :: "int \<Rightarrow> int \<Rightarrow> int \<times> bool \<Rightarrow> SkReply \<Rightarrow> ShardKV \<Rightarrow> ShardKV option" where
  "sk_notify commandIndex commandTerm st reply kv =
     (if notifyMapCh (kv_notify kv) commandIndex \<noteq> None \<and> snd st \<and> commandTerm = fst st
      then do { n \<leftarrow> sendNotify commandIndex reply (kv_notify kv); Some (kv\<lparr>kv_notify := n\<rparr>) }
      else Some kv)"

definition executeClientCmd :: "SkOp \<Rightarrow> int \<Rightarrow> int \<Rightarrow> int \<times> bool \<Rightarrow> ShardKV \<Rightarrow> ShardKV option" where
  "executeClientCmd op commandIndex commandTerm st kv =
     (if \<not> checkKeyInGroup (sko_Key op) kv then Some kv
      else case apply_gate commandIndex kv of
             None \<Rightarrow> Some kv
           | Some kv \<Rightarrow> do {
               (kv, reply) \<leftarrow> sk_applyClient op kv;
               sk_notify commandIndex commandTerm st reply kv })"

section \<open>Configuration commands\<close>

text \<open>One shard of the loop in \<open>updateShardState\<close>.\<close>

definition updateOneShard :: "Config \<Rightarrow> nat \<times> int \<Rightarrow> ShardKV \<Rightarrow> ShardKV" where
  "updateOneShard nextConfig sg kv =
     (case sg of (shard, gid) \<Rightarrow>
        let kv = (if ownedShards kv ! shard = Exist \<and> gid \<noteq> kv_gid kv
                  then kv\<lparr>ownedShards := (ownedShards kv)[shard := WaitGive]\<rparr> else kv)
        in if ownedShards kv ! shard = NoExist \<and> gid = kv_gid kv then
             if cfg_Num nextConfig = 1 then
               let kv = kv\<lparr>ownedShards := (ownedShards kv)[shard := Exist]\<rparr>
               in if kvDB kv (int shard) = None
                  then kv\<lparr>kvDB := (kvDB kv)(int shard \<mapsto> (\<lambda>_. None))\<rparr> else kv
             else kv\<lparr>ownedShards := (ownedShards kv)[shard := WaitGet]\<rparr>
           else kv)"

definition updateShardState :: "Config \<Rightarrow> ShardKV \<Rightarrow> ShardKV" where
  "updateShardState nextConfig kv =
     (let kv = fold (updateOneShard nextConfig) (enumerate 0 (cfg_Shards nextConfig)) kv;
          kv = (if cfg_Num (preConfig kv) \<noteq> 0 \<or> cfg_Num (curConfig kv) \<noteq> 0
                then kv\<lparr>preConfig := curConfig kv\<rparr> else kv)
      in kv\<lparr>curConfig := nextConfig\<rparr>)"

definition deepCopyMap :: "string list \<Rightarrow> shard_data \<Rightarrow> shard_data" where
  "deepCopyMap order originMap = copyMap order originMap"

definition deepCopySession :: "int list \<Rightarrow> sessions \<Rightarrow> sessions" where
  "deepCopySession order originSession = copyMap order originSession"

text \<open>
  Taking over the newer sessions of the previous owner: the loop over the received map, and
  its result, which does not depend on the order of the iteration.
\<close>

definition mergeSessionsLoop :: "int list \<Rightarrow> sessions \<Rightarrow> sessions \<Rightarrow> sessions" where
  "mergeSessionsLoop order new own = fold (\<lambda>clientId own.
     case new clientId of
       None \<Rightarrow> own
     | Some session \<Rightarrow>
         if own clientId = None \<or>
            sks_LastCmdNum session > sks_LastCmdNum (the (own clientId))
         then own(clientId \<mapsto> session) else own) order own"

definition mergeSessions :: "sessions \<Rightarrow> sessions \<Rightarrow> sessions" where
  "mergeSessions new own = (\<lambda>client.
     case new client of
       None \<Rightarrow> own client
     | Some s \<Rightarrow> (case own client of
         None \<Rightarrow> Some s
       | Some o' \<Rightarrow> if sks_LastCmdNum s > sks_LastCmdNum o' then Some s else Some o'))"

definition sk_configCmd :: "SkOp \<Rightarrow> ShardKV \<Rightarrow> ShardKV option" where
  "sk_configCmd op kv =
     (case sko_OpType op of
        UpdateConfig \<Rightarrow>
          Some (if cfg_Num (curConfig kv) + 1 = sko_CfgNum op
                then updateShardState (sko_NewConfig op) kv else kv)
      | GetShard \<Rightarrow>
          if cfg_Num (curConfig kv) \<noteq> sko_CfgNum op then Some kv
          else do {
            st \<leftarrow> idx (ownedShards kv) (sko_ShardNum op);
            if st = WaitGet then do {
              owned \<leftarrow> update_at (ownedShards kv) (sko_ShardNum op) Exist;
              Some (kv\<lparr>kvDB := (kvDB kv)(sko_ShardNum op \<mapsto> sko_ShardData op), ownedShards := owned,
                       kv_sessions := mergeSessions (sko_SessionData op) (kv_sessions kv)\<rparr>) }
            else Some kv }
      | GiveShard \<Rightarrow>
          if cfg_Num (curConfig kv) \<noteq> sko_CfgNum op then Some kv
          else do {
            st \<leftarrow> idx (ownedShards kv) (sko_ShardNum op);
            if st = WaitGive then do {
              owned \<leftarrow> update_at (ownedShards kv) (sko_ShardNum op) NoExist;
              Some (kv\<lparr>ownedShards := owned, kvDB := (kvDB kv)(sko_ShardNum op \<mapsto> (\<lambda>_. None))\<rparr>) }
            else Some kv }
      | _ \<Rightarrow> Some kv)"

definition executeConfigCmd :: "SkOp \<Rightarrow> int \<Rightarrow> ShardKV \<Rightarrow> ShardKV option" where
  "executeConfigCmd op commandIndex kv =
     (case apply_gate commandIndex kv of None \<Rightarrow> Some kv | Some kv \<Rightarrow> sk_configCmd op kv)"

definition executeEmptyCmd :: "int \<Rightarrow> ShardKV \<Rightarrow> ShardKV" where
  "executeEmptyCmd commandIndex kv = (case apply_gate commandIndex kv of None \<Rightarrow> kv | Some kv \<Rightarrow> kv)"

lemma mergeSessionsLoop_result:
  assumes "iterates order new"
  shows "mergeSessionsLoop order new own = mergeSessions new own"
proof
  fix k
  have "mergeSessionsLoop order new own k = (if k \<in> set order then mergeSessions new own k else own k)"
    if "distinct order" for order own
    using that
  proof (induction order arbitrary: own)
    case (Cons c order)
    define own' where "own' = mergeSessionsLoop [c] new own"
    have "mergeSessionsLoop (c # order) new own = mergeSessionsLoop order new own'"
      by (simp add: mergeSessionsLoop_def own'_def)
    moreover have "own' c = mergeSessions new own c"
      by (auto simp: own'_def mergeSessionsLoop_def mergeSessions_def split: option.splits)
    moreover have o: "own' j = own j" if "j \<noteq> c" for j
      using that by (auto simp: own'_def mergeSessionsLoop_def split: option.splits)
    moreover have "mergeSessions new own' j = mergeSessions new own j" if "j \<noteq> c" for j
      unfolding mergeSessions_def o [OF that] ..
    ultimately show ?case using Cons by (cases "k = c") auto
  qed (simp add: mergeSessionsLoop_def)
  with assms have "mergeSessionsLoop order new own k =
      (if k \<in> dom new then mergeSessions new own k else own k)"
    by (simp add: iterates_def)
  then show "mergeSessionsLoop order new own k = mergeSessions new own k"
    by (cases "new k") (auto simp: mergeSessions_def)
qed

section \<open>Snapshots\<close>

definition sk_snapshot :: "ShardKV \<Rightarrow> SkSnapshot" where
  "sk_snapshot kv = \<lparr>ss_kvDB = kvDB kv, ss_sessions = kv_sessions kv, ss_preConfig = preConfig kv,
     ss_curConfig = curConfig kv, ss_ownedShards = ownedShards kv\<rparr>"

definition applySnapshotToSM :: "SkSnapshot option \<Rightarrow> ShardKV \<Rightarrow> ShardKV" where
  "applySnapshotToSM data kv =
     (case data of
        None \<Rightarrow> kv
      | Some d \<Rightarrow> kv\<lparr>kvDB := ss_kvDB d, kv_sessions := ss_sessions d, preConfig := ss_preConfig d,
                    curConfig := ss_curConfig d, ownedShards := ss_ownedShards d\<rparr>)"

text \<open>One message of \<open>applyMessage\<close>; \<open>SetPassiveSnapshottingFlag\<close> follows a snapshot.\<close>

definition applyMessage ::
  "(SkOp, SkSnapshot) ApplyMsg \<Rightarrow> int \<times> bool \<Rightarrow> ShardKV \<Rightarrow> ShardKV option" where
  "applyMessage m st kv =
     (if am_CommandValid m then
        case am_Command m of
          None \<Rightarrow> Some kv
        | Some op \<Rightarrow>
            if sko_OpType op \<in> {Get, Put, Append}
            then executeClientCmd op (am_CommandIndex m) (am_CommandTerm m) st kv
            else if sko_OpType op \<in> {UpdateConfig, GetShard, GiveShard}
            then executeConfigCmd op (am_CommandIndex m) kv
            else if sko_OpType op = EmptyOp then Some (executeEmptyCmd (am_CommandIndex m) kv)
            else Some kv
      else if am_SnapshotValid m then
        Some ((applySnapshotToSM (am_StateMachineState m) kv)
          \<lparr>logLastApplied := am_SnapshotIndex m, passiveSnapshotBefore := True\<rparr>)
      else Some kv)"

definition applyMessage_raft ::
  "(SkOp, SkSnapshot) ApplyMsg \<Rightarrow> (SkOp, SkSnapshot) Raft \<Rightarrow> (SkOp, SkSnapshot) Raft" where
  "applyMessage_raft m rf =
     (if \<not> am_CommandValid m \<and> am_SnapshotValid m then SetPassiveSnapshottingFlag False rf else rf)"

text \<open>
  One turn of \<open>checkSnapshotNeed\<close>, cut where it takes and releases locks: the flag check, the
  copy of the state under \<open>kv.mu\<close> (with the size read before), the call of \<open>Snapshot\<close>, and
  the reset of the flag.
\<close>

definition checkSnapshotNeed_flag :: "(SkOp, SkSnapshot) Raft \<Rightarrow> (SkOp, SkSnapshot) Raft \<times> bool" where
  "checkSnapshotNeed_flag rf = GetPassiveFlagAndSetActiveFlag rf"

definition checkSnapshotNeed_copy :: "int \<Rightarrow> ShardKV \<Rightarrow> (int \<times> SkSnapshot) option" where
  "checkSnapshotNeed_copy nowStateSize kv =
     (if maxraftstate kv \<noteq> -1 \<and> nowStateSize > maxraftstate kv
      then Some (logLastApplied kv, sk_snapshot kv) else None)"

definition checkSnapshotNeed_call ::
  "(int \<times> SkSnapshot) option \<Rightarrow> (SkOp, SkSnapshot) Raft \<Rightarrow> (SkOp, SkSnapshot) Raft option" where
  "checkSnapshotNeed_call data rf =
     (case data of None \<Rightarrow> Some rf | Some (i, d) \<Rightarrow> Snapshot i (Some d) rf)"

definition checkSnapshotNeed_done :: "(SkOp, SkSnapshot) Raft \<Rightarrow> (SkOp, SkSnapshot) Raft" where
  "checkSnapshotNeed_done rf = SetActiveSnapshottingFlag False rf"

text \<open>
  A whole turn without interference: nothing while a passive snapshot is being installed,
  otherwise the flag is set, the size read (\<open>sz\<close> measures the encoded state), and the state
  saved if it is too large.
\<close>

definition checkSnapshotNeed ::
  "(SkOp RaftState option \<Rightarrow> int) \<Rightarrow> ShardKV \<Rightarrow> (SkOp, SkSnapshot) Raft \<Rightarrow> (SkOp, SkSnapshot) Raft option" where
  "checkSnapshotNeed sz kv rf =
     (case checkSnapshotNeed_flag rf of (rf, passive) \<Rightarrow>
        if passive then Some rf
        else map_option checkSnapshotNeed_done
               (checkSnapshotNeed_call (checkSnapshotNeed_copy (GetRaftStateSize sz rf) kv) rf))"

section \<open>Following the configuration\<close>

definition updateConfigReady :: "ShardKV \<Rightarrow> bool" where
  "updateConfigReady kv \<longleftrightarrow> (\<forall>st \<in> set (ownedShards kv). st = NoExist \<or> st = Exist)"

text \<open>
  \<open>getLastestConfig\<close>: after \<open>updateConfigReady\<close> (its own critical section) it copies
  \<open>curConfig\<close> in a second one, asks for the configuration after it, and starts a command.
\<close>

definition getLastestConfig_copy :: "ShardKV \<Rightarrow> Config" where
  "getLastestConfig_copy kv = curConfig kv"

definition getLastestConfig_op :: "Config \<Rightarrow> Config \<Rightarrow> SkOp option" where
  "getLastestConfig_op cur new =
     (if cfg_Num new = cfg_Num cur + 1
      then Some (zero_SkOp\<lparr>sko_OpType := UpdateConfig, sko_NewConfig := new, sko_CfgNum := cfg_Num new\<rparr>)
      else None)"

definition getLastestConfig :: "bool \<Rightarrow> ShardKV \<Rightarrow> ShardKV \<Rightarrow> (int \<Rightarrow> Config) \<Rightarrow> SkOp option" where
  "getLastestConfig isLeader checked copied query =
     (if \<not> isLeader \<or> \<not> updateConfigReady checked then None
      else let cur = getLastestConfig_copy copied in getLastestConfig_op cur (query (cfg_Num cur + 1)))"

section \<open>Migration\<close>

record MigrateArgs =
  mg_ConfigNum :: int
  mg_ShardNum :: int

record MigrateReply =
  mgr_ShardData :: shard_data
  mgr_SessionData :: sessions
  mgr_Err :: Err

record AckArgs =
  ak_ConfigNum :: int
  ak_ShardNum :: int

record AckReply =
  akr_Receive :: bool
  akr_Err :: Err

definition shardsIn :: "ShardState \<Rightarrow> ShardKV \<Rightarrow> nat list" where
  "shardsIn st kv = filter (\<lambda>s. ownedShards kv ! s = st) [0..<length (ownedShards kv)]"

text \<open>
  What one round of \<open>checkAndGetShard\<close> asks for: the shard, the servers of its previous owner
  and the arguments.
\<close>

definition serversOf :: "Config \<Rightarrow> nat \<Rightarrow> string list" where
  "serversOf c shard = (case cfg_Groups c (cfg_Shards c ! shard) of Some s \<Rightarrow> s | None \<Rightarrow> [])"

definition checkAndGetShard_round :: "ShardKV \<Rightarrow> (nat \<times> string list \<times> MigrateArgs) list" where
  "checkAndGetShard_round kv = map (\<lambda>shard. (shard, serversOf (preConfig kv) shard,
     \<lparr>mg_ConfigNum = cfg_Num (curConfig kv), mg_ShardNum = int shard\<rparr>)) (shardsIn WaitGet kv)"

text \<open>What is done with the answer of one server (\<open>None\<close>: the call failed).\<close>

datatype ask_action = TryNext | GiveUpRound | StartOp SkOp

definition checkAndGetShard_reply :: "MigrateArgs \<Rightarrow> MigrateReply option \<Rightarrow> ask_action" where
  "checkAndGetShard_reply args r =
     (case r of
        None \<Rightarrow> TryNext
      | Some reply \<Rightarrow>
          if mgr_Err reply = ErrWrongLeader then TryNext
          else if mgr_Err reply = ErrNotReady then GiveUpRound
          else if mgr_Err reply = OK then
            StartOp (zero_SkOp\<lparr>sko_OpType := GetShard, sko_CfgNum := mg_ConfigNum args,
              sko_ShardNum := mg_ShardNum args, sko_ShardData := mgr_ShardData reply,
              sko_SessionData := mgr_SessionData reply\<rparr>)
          else TryNext)"

text \<open>
  Asking the servers of a group one after the other, and a turn of the loop: the arguments
  sent for every shard and the command started. \<open>answers\<close> gives the answers for a shard.
\<close>

fun askServers :: "('r option \<Rightarrow> ask_action) \<Rightarrow> 'r option list \<Rightarrow> SkOp option" where
  "askServers f [] = None"
| "askServers f (r # rs) =
     (case f r of TryNext \<Rightarrow> askServers f rs | GiveUpRound \<Rightarrow> None | StartOp op \<Rightarrow> Some op)"

definition checkAndGetShard ::
  "bool \<Rightarrow> (nat \<Rightarrow> MigrateReply option list) \<Rightarrow> ShardKV \<Rightarrow> (MigrateArgs \<times> SkOp option) list" where
  "checkAndGetShard isLeader answers kv =
     (if \<not> isLeader then []
      else map (\<lambda>(shard, servers, args). (args,
             askServers (checkAndGetShard_reply args) (take (length servers) (answers shard))))
             (checkAndGetShard_round kv))"

text \<open>
  The handler; the orders are those of its two copying loops. A shard that is not in
  \<open>kvDB\<close> is sent as an empty map.
\<close>

definition MigrateShard ::
  "string list \<Rightarrow> int list \<Rightarrow> bool \<Rightarrow> MigrateArgs \<Rightarrow> ShardKV \<Rightarrow> MigrateReply" where
  "MigrateShard order sorder isLeader args kv =
     (let reply = \<lparr>mgr_ShardData = (\<lambda>_. None), mgr_SessionData = (\<lambda>_. None), mgr_Err = NoErr\<rparr>
      in if \<not> isLeader then reply\<lparr>mgr_Err := ErrWrongLeader\<rparr>
         else if cfg_Num (curConfig kv) < mg_ConfigNum args then reply\<lparr>mgr_Err := ErrNotReady\<rparr>
         else if cfg_Num (curConfig kv) > mg_ConfigNum args then reply
         else \<lparr>mgr_ShardData = (case kvDB kv (mg_ShardNum args) of
                 None \<Rightarrow> (\<lambda>_. None) | Some m \<Rightarrow> deepCopyMap order m),
               mgr_SessionData = deepCopySession sorder (kv_sessions kv), mgr_Err = OK\<rparr>)"

definition checkAndFinishGiveShard_round :: "ShardKV \<Rightarrow> (nat \<times> string list \<times> AckArgs) list" where
  "checkAndFinishGiveShard_round kv = map (\<lambda>shard. (shard, serversOf (curConfig kv) shard,
     \<lparr>ak_ConfigNum = cfg_Num (curConfig kv), ak_ShardNum = int shard\<rparr>)) (shardsIn WaitGive kv)"

definition checkAndFinishGiveShard_reply :: "AckArgs \<Rightarrow> AckReply option \<Rightarrow> ask_action" where
  "checkAndFinishGiveShard_reply args r =
     (case r of
        None \<Rightarrow> TryNext
      | Some reply \<Rightarrow>
          if akr_Err reply = ErrWrongLeader then TryNext
          else if akr_Err reply = ErrNotReady then GiveUpRound
          else if akr_Err reply = OK \<and> \<not> akr_Receive reply then GiveUpRound
          else if akr_Err reply = OK \<and> akr_Receive reply then
            StartOp (zero_SkOp\<lparr>sko_OpType := GiveShard, sko_CfgNum := ak_ConfigNum args,
              sko_ShardNum := ak_ShardNum args\<rparr>)
          else TryNext)"

definition checkAndFinishGiveShard ::
  "bool \<Rightarrow> (nat \<Rightarrow> AckReply option list) \<Rightarrow> ShardKV \<Rightarrow> (AckArgs \<times> SkOp option) list" where
  "checkAndFinishGiveShard isLeader answers kv =
     (if \<not> isLeader then []
      else map (\<lambda>(shard, servers, args). (args,
             askServers (checkAndFinishGiveShard_reply args) (take (length servers) (answers shard))))
             (checkAndFinishGiveShard_round kv))"

definition AckReceiveShard :: "bool \<Rightarrow> AckArgs \<Rightarrow> ShardKV \<Rightarrow> AckReply option" where
  "AckReceiveShard isLeader args kv =
     (if \<not> isLeader then Some \<lparr>akr_Receive = False, akr_Err = ErrWrongLeader\<rparr>
      else if cfg_Num (curConfig kv) < ak_ConfigNum args then
        Some \<lparr>akr_Receive = False, akr_Err = ErrNotReady\<rparr>
      else if cfg_Num (curConfig kv) > ak_ConfigNum args then
        Some \<lparr>akr_Receive = True, akr_Err = OK\<rparr>
      else do {
        st \<leftarrow> idx (ownedShards kv) (ak_ShardNum args);
        Some \<lparr>akr_Receive = (st = Exist), akr_Err = OK\<rparr> })"

text \<open>\<open>addEmptyLog\<close>: what a leader starts when its log has no entry of its term.\<close>

definition addEmptyLog_op :: "bool \<Rightarrow> bool \<Rightarrow> SkOp option" where
  "addEmptyLog_op isLeader currentTermLog =
     (if isLeader \<and> \<not> currentTermLog then Some (zero_SkOp\<lparr>sko_OpType := EmptyOp\<rparr>) else None)"

definition addEmptyLog :: "('c, 's) Raft \<Rightarrow> SkOp option option" where
  "addEmptyLog rf =
     (if \<not> snd (GetState rf) then Some None
      else do { b \<leftarrow> CheckCurrentTermLog rf; Some (addEmptyLog_op True b) })"

section \<open>RPC handlers and the clerk\<close>

record GetArgs =
  ga_Key :: string
  ga_ClientId :: int
  ga_CmdNum :: int

record PutAppendArgs =
  pa_Key :: string
  pa_Value :: string
  pa_Op :: SkOpType
  pa_ClientId :: int
  pa_CmdNum :: int

text \<open>\<open>GetReply\<close>; \<open>PutAppendReply\<close> is the same without the value.\<close>

datatype sk_entry = Answers SkReply | Proposes SkOp

definition Get_enter :: "GetArgs \<Rightarrow> ShardKV \<Rightarrow> sk_entry" where
  "Get_enter args kv =
     (if \<not> checkKeyInGroup (ga_Key args) kv then Answers (zero_SkReply\<lparr>skr_Err := ErrWrongGroup\<rparr>)
      else Proposes (zero_SkOp\<lparr>sko_ClientId := ga_ClientId args, sko_CmdNum := ga_CmdNum args,
        sko_OpType := Get, sko_Key := ga_Key args\<rparr>))"

definition PutAppend_enter :: "PutAppendArgs \<Rightarrow> ShardKV \<Rightarrow> sk_entry" where
  "PutAppend_enter args kv =
     (let new = Proposes (zero_SkOp\<lparr>sko_ClientId := pa_ClientId args, sko_CmdNum := pa_CmdNum args,
            sko_OpType := pa_Op args, sko_Key := pa_Key args, sko_Value := pa_Value args\<rparr>)
      in if \<not> checkKeyInGroup (pa_Key args) kv then Answers (zero_SkReply\<lparr>skr_Err := ErrWrongGroup\<rparr>)
         else case kv_sessions kv (pa_ClientId args) of
                None \<Rightarrow> new
              | Some s \<Rightarrow>
                  if pa_CmdNum args < sks_LastCmdNum s then Answers zero_SkReply
                  else if pa_CmdNum args = sks_LastCmdNum s
                  then Answers (zero_SkReply\<lparr>skr_Err := skr_Err (sks_Response s)\<rparr>)
                  else new)"

text \<open>After \<open>Start\<close>: the wrong leader, or a channel to wait on.\<close>

definition sk_afterStart :: "int \<Rightarrow> bool \<Rightarrow> ShardKV \<Rightarrow> SkReply + (ShardKV \<times> nat)" where
  "sk_afterStart index isLeader kv =
     (if \<not> isLeader then Inl (zero_SkReply\<lparr>skr_Err := ErrWrongLeader\<rparr>)
      else case createNotifyCh index (kv_notify kv) of (n, c) \<Rightarrow> Inr (kv\<lparr>kv_notify := n\<rparr>, c))"

text \<open>
  After the select: the reply, and whether the channel is closed. The early return for a key
  that moved away in the meantime leaves the channel open and in the map.
\<close>

definition sk_afterWait :: "string \<Rightarrow> SkReply option \<Rightarrow> ShardKV \<Rightarrow> SkReply \<times> bool" where
  "sk_afterWait key res kv =
     (case res of
        None \<Rightarrow> (zero_SkReply\<lparr>skr_Err := ErrTimeout\<rparr>, True)
      | Some r \<Rightarrow>
          if \<not> checkKeyInGroup key kv then (zero_SkReply\<lparr>skr_Err := ErrWrongGroup\<rparr>, False)
          else (r, True))"

text \<open>
  A handler from its arguments to its reply: \<open>st\<close> is the index and the leadership that
  \<open>Start\<close> returned, \<open>res\<close> what the select received, \<open>later\<close> the state it then looks at.
\<close>

definition sk_rpc :: "string \<Rightarrow> sk_entry \<Rightarrow> int \<times> bool \<Rightarrow> SkReply option \<Rightarrow> ShardKV \<Rightarrow> ShardKV \<Rightarrow>
    SkReply \<times> ShardKV \<times> bool" where
  "sk_rpc key entry st res later kv =
     (case entry of
        Answers r \<Rightarrow> (r, kv, False)
      | Proposes op \<Rightarrow> (case sk_afterStart (fst st) (snd st) kv of
          Inl r \<Rightarrow> (r, kv, False)
        | Inr (kv, c) \<Rightarrow> (case sk_afterWait key res later of (r, close) \<Rightarrow> (r, kv, close))))"

definition Get_rpc ::
  "GetArgs \<Rightarrow> int \<times> bool \<Rightarrow> SkReply option \<Rightarrow> ShardKV \<Rightarrow> ShardKV \<Rightarrow> SkReply \<times> ShardKV \<times> bool" where
  "Get_rpc args st res later kv = sk_rpc (ga_Key args) (Get_enter args kv) st res later kv"

definition PutAppend_rpc ::
  "PutAppendArgs \<Rightarrow> int \<times> bool \<Rightarrow> SkReply option \<Rightarrow> ShardKV \<Rightarrow> ShardKV \<Rightarrow> Err \<times> ShardKV \<times> bool" where
  "PutAppend_rpc args st res later kv =
     (case sk_rpc (pa_Key args) (PutAppend_enter args kv) st res later kv of
        (r, kv, close) \<Rightarrow> (skr_Err r, kv, close))"

definition sk_closeNotifyCh :: "int \<Rightarrow> ShardKV \<Rightarrow> ShardKV option" where
  "sk_closeNotifyCh index kv = do { n \<leftarrow> closeNotifyCh index (kv_notify kv); Some (kv\<lparr>kv_notify := n\<rparr>) }"

record SkClerk =
  kck_config :: Config
  kck_clientId :: int
  kck_commandNum :: int

definition MakeSkClerk :: "Config \<Rightarrow> int \<Rightarrow> SkClerk" where
  "MakeSkClerk latest nrand = \<lparr>kck_config = latest, kck_clientId = nrand, kck_commandNum = 1\<rparr>"

text \<open>
  The loop over the servers of the group: an accepted answer, or \<open>None\<close> when the group does
  not own the key or the servers are exhausted.
\<close>

fun tryServers :: "(SkReply \<Rightarrow> bool) \<Rightarrow> SkReply option list \<Rightarrow> SkReply option" where
  "tryServers accept [] = None"
| "tryServers accept (None # rs) = tryServers accept rs"
| "tryServers accept (Some r # rs) =
     (if accept r then Some r else if skr_Err r = ErrWrongGroup then None else tryServers accept rs)"

definition SkClerk_servers :: "string \<Rightarrow> SkClerk \<Rightarrow> string list" where
  "SkClerk_servers key ck = serversOf (kck_config ck) (nat (key2shard key))"

text \<open>One turn of the outer loop, with the answers and the configuration queried at its end.\<close>

definition SkClerk_Get :: "SkReply option list \<Rightarrow> Config \<Rightarrow> SkClerk \<Rightarrow> SkClerk \<times> string option" where
  "SkClerk_Get answers latest ck =
     (case tryServers (\<lambda>r. skr_Err r = OK \<or> skr_Err r = ErrNoKey) answers of
        Some r \<Rightarrow> (ck\<lparr>kck_commandNum := kck_commandNum ck + 1\<rparr>, Some (skr_Value r))
      | None \<Rightarrow> (ck\<lparr>kck_config := latest\<rparr>, None))"

definition SkClerk_PutAppend :: "SkReply option list \<Rightarrow> Config \<Rightarrow> SkClerk \<Rightarrow> SkClerk \<times> bool" where
  "SkClerk_PutAppend answers latest ck =
     (case tryServers (\<lambda>r. skr_Err r = OK) answers of
        Some r \<Rightarrow> (ck\<lparr>kck_commandNum := kck_commandNum ck + 1\<rparr>, True)
      | None \<Rightarrow> (ck\<lparr>kck_config := latest\<rparr>, False))"

end
