(* ===== verification/ShardGroup.thy ===== *)
theory ShardGroup
  imports ShardKV
begin

text \<open>
  One group of the sharded store (\<open>src/shardkv/server.go\<close>) as a replicated state machine: the
  commands the apply loop runs, the invariant that ties a group to a history of configurations,
  and what each command does to a state that satisfies it.
\<close>

section \<open>Commands as the apply loop runs them\<close>

text \<open>What a command does to the state machine of the group. The answer a leader sends to a waiting
  handler only touches its own channels; \<open>ShardReplica\<close> runs the commands with it.\<close>

definition applied :: "SkOp \<Rightarrow> int \<Rightarrow> ShardKV \<Rightarrow> ShardKV option" where
  "applied op i kv = applyMessage (command_msg (Some op) i 0) (0, False) kv"

definition executes :: "SkOp \<Rightarrow> ShardKV \<Rightarrow> bool" where
  "executes op kv \<longleftrightarrow>
     sko_OpType op \<in> {Put, Append} \<and> checkKeyInGroup (sko_Key op) kv \<and> \<not> sk_duplicate op kv"

text \<open>A command without the bookkeeping of the log index.\<close>

definition sk_command :: "SkOp \<Rightarrow> ShardKV \<Rightarrow> ShardKV option" where
  "sk_command op kv =
     (if sko_OpType op \<in> {Get, Put, Append} then
        if checkKeyInGroup (sko_Key op) kv then map_option fst (sk_applyClient op kv) else Some kv
      else if sko_OpType op \<in> {UpdateConfig, GetShard, GiveShard} then sk_configCmd op kv
      else Some kv)"

definition bump :: "int \<Rightarrow> ShardKV \<Rightarrow> ShardKV" where
  "bump i kv = kv\<lparr>passiveSnapshotBefore := False, logLastApplied := i\<rparr>"

lemma bump_fields [simp]:
  "kv_gid (bump i kv) = kv_gid kv" "kvDB (bump i kv) = kvDB kv"
  "kv_sessions (bump i kv) = kv_sessions kv" "ownedShards (bump i kv) = ownedShards kv"
  "preConfig (bump i kv) = preConfig kv" "curConfig (bump i kv) = curConfig kv"
  "\<not> passiveSnapshotBefore (bump i kv)" "logLastApplied (bump i kv) = i"
  "checkKeyInGroup key (bump i kv) = checkKeyInGroup key kv"
  "sk_duplicate op (bump i kv) = sk_duplicate op kv"
  "executes op (bump i kv) = executes op kv"
  by (simp_all add: bump_def checkKeyInGroup_def sk_duplicate_def executes_def)

text \<open>Commands that return before the bookkeeping of the index.\<close>

definition dropped :: "SkOp \<Rightarrow> ShardKV \<Rightarrow> bool" where
  "dropped op kv \<longleftrightarrow> sko_OpType op = OtherType \<or>
     sko_OpType op \<in> {Get, Put, Append} \<and> \<not> checkKeyInGroup (sko_Key op) kv"

lemma applied_gate:
  assumes "i > logLastApplied kv" and "passiveSnapshotBefore kv \<Longrightarrow> i = logLastApplied kv + 1"
  shows "applied op i kv = (if dropped op kv then Some kv else sk_command op (bump i kv))"
proof -
  have gate: "apply_gate i kv = Some (bump i kv)"
    using assms by (auto simp: apply_gate_def bump_def)
  have quiet: "sk_notify i 0 (0, False) r kv' = Some kv'" for r kv'
    by (simp add: sk_notify_def)
  show ?thesis
    by (cases "sko_OpType op"; cases "sk_applyClient op (bump i kv)")
      (auto simp: applied_def applyMessage_def command_msg_def executeClientCmd_def dropped_def
        executeConfigCmd_def executeEmptyCmd_def gate quiet sk_command_def)
qed

section \<open>Client commands\<close>

definition settled :: "SkOp \<Rightarrow> ShardKV \<Rightarrow> bool" where
  "settled op kv \<longleftrightarrow> (case kv_sessions kv (sko_ClientId op) of
     None \<Rightarrow> False | Some s \<Rightarrow> sko_CmdNum op \<le> sks_LastCmdNum s)"

lemma sk_duplicate_settled: "sko_OpType op \<noteq> Get \<Longrightarrow> sk_duplicate op kv = settled op kv"
  by (simp add: sk_duplicate_def settled_def split: option.splits)

text \<open>The new value of a key.\<close>

definition written :: "SkOp \<Rightarrow> string option \<Rightarrow> string" where
  "written op old = (if sko_OpType op = Append then (case old of None \<Rightarrow> [] | Some v \<Rightarrow> v) else []) @ sko_Value op"

abbreviation op_shard :: "SkOp \<Rightarrow> int" where
  "op_shard op \<equiv> key2shard (sko_Key op)"

lemma key2shard_range [simp]: "0 \<le> key2shard key" "key2shard key < int NShards"
  by (auto simp: key2shard_def NShards_def split: list.splits)

lemma nat_key2shard [simp]: "nat (key2shard key) < NShards"
  using key2shard_range [of key] by linarith

text \<open>What a write answers: an append reports the missing key, although it creates it.\<close>

definition write_reply :: "SkOp \<Rightarrow> string option \<Rightarrow> SkReply" where
  "write_reply op old = zero_SkReply\<lparr>skr_Err :=
     if sko_OpType op = Append \<and> old = None then ErrNoKey else OK\<rparr>"

lemma sk_execute_write:
  assumes "sko_OpType op \<in> {Put, Append}" and m: "kvDB kv (op_shard op) = Some m"
  shows "sk_execute op kv = Some (kv\<lparr>kvDB := (kvDB kv)(op_shard op \<mapsto>
      m(sko_Key op \<mapsto> written op (m (sko_Key op))))\<rparr>, write_reply op (m (sko_Key op)))"
proof (cases "sko_OpType op")
  case Append
  then show ?thesis
    by (cases "m (sko_Key op)")
      (simp_all add: sk_execute_def readKey_def writeKey_def m written_def Let_def write_reply_def)
qed (use assms in \<open>auto simp: sk_execute_def writeKey_def written_def Let_def write_reply_def\<close>)

lemma sk_execute_Get:
  "sko_OpType op = Get \<Longrightarrow> kvDB kv (op_shard op) = Some m \<Longrightarrow>
   sk_execute op kv = Some (kv, case m (sko_Key op) of
     None \<Rightarrow> \<lparr>skr_Err = ErrNoKey, skr_Value = ''''\<rparr> | Some v \<Rightarrow> \<lparr>skr_Err = OK, skr_Value = v\<rparr>)"
  by (simp add: sk_execute_def readKey_def)

lemma sk_applyClient_Get:
  assumes "sko_OpType op = Get" and "kvDB kv (op_shard op) = Some m"
  shows "sk_applyClient op kv = Some (kv, case m (sko_Key op) of
     None \<Rightarrow> \<lparr>skr_Err = ErrNoKey, skr_Value = ''''\<rparr> | Some v \<Rightarrow> \<lparr>skr_Err = OK, skr_Value = v\<rparr>)"
proof -
  have "\<not> sk_duplicate op kv"
    using assms by (simp add: sk_duplicate_def split: option.splits)
  then show ?thesis
    using assms by (simp add: sk_applyClient_def sk_execute_Get)
qed

text \<open>The state after a new write.\<close>

definition wrote :: "SkOp \<Rightarrow> shard_data \<Rightarrow> ShardKV \<Rightarrow> ShardKV" where
  "wrote op m kv = kv\<lparr>
     kvDB := (kvDB kv)(op_shard op \<mapsto> m(sko_Key op \<mapsto> written op (m (sko_Key op)))),
     kv_sessions := (kv_sessions kv)(sko_ClientId op \<mapsto>
       \<lparr>sks_LastCmdNum = sko_CmdNum op, sks_OpType = sko_OpType op,
        sks_Response = write_reply op (m (sko_Key op))\<rparr>)\<rparr>"

lemma sk_applyClient_write:
  assumes type: "sko_OpType op \<in> {Put, Append}" and m: "kvDB kv (op_shard op) = Some m"
    and new: "\<not> settled op kv"
  shows "sk_applyClient op kv = Some (wrote op m kv, write_reply op (m (sko_Key op)))"
proof -
  have "sko_OpType op \<noteq> Get" using type by auto
  moreover from this new have "\<not> sk_duplicate op kv" by (simp add: sk_duplicate_settled)
  ultimately show ?thesis
    using sk_execute_write [OF type m] by (simp add: sk_applyClient_def wrote_def)
qed

lemma sk_applyClient_dup:
  assumes "sko_OpType op \<in> {Put, Append}" and "settled op kv"
  shows "\<exists>s. kv_sessions kv (sko_ClientId op) = Some s \<and> sk_applyClient op kv = Some (kv, sks_Response s)"
proof -
  have "sko_OpType op \<noteq> Get" using assms(1) by auto
  with assms(2) show ?thesis
    by (auto simp: sk_applyClient_def sk_duplicate_settled settled_def split: option.splits)
qed

section \<open>Taking over a configuration\<close>

definition newState :: "int \<Rightarrow> Config \<Rightarrow> int \<Rightarrow> ShardState \<Rightarrow> ShardState" where
  "newState gid c newGid st =
     (if st = Exist \<and> newGid \<noteq> gid then WaitGive
      else if st = NoExist \<and> newGid = gid then (if cfg_Num c = 1 then Exist else WaitGet)
      else st)"

definition all_maps :: "ShardKV \<Rightarrow> bool" where
  "all_maps kv \<longleftrightarrow> length (ownedShards kv) = NShards \<and> (\<forall>s < NShards. kvDB kv (int s) \<noteq> None)"

lemma updateOneShard_result:
  assumes "n < NShards" and "all_maps kv"
  shows "updateOneShard c (n, gid) kv =
    kv\<lparr>ownedShards := (ownedShards kv)[n := newState (kv_gid kv) c gid (ownedShards kv ! n)]\<rparr>"
proof -
  have len: "n < length (ownedShards kv)" and db: "kvDB kv (int n) \<noteq> None"
    using assms by (simp_all add: all_maps_def)
  have same: "kv\<lparr>ownedShards := (ownedShards kv)[n := ownedShards kv ! n]\<rparr> = kv"
    by simp
  show ?thesis
    by (cases "ownedShards kv ! n"; cases "gid = kv_gid kv")
      (use len db same in \<open>auto simp: updateOneShard_def newState_def Let_def\<close>)
qed

lemma updateShards_result:
  assumes "n + length gids \<le> NShards" and "all_maps kv"
  shows "fold (updateOneShard c) (enumerate n gids) kv =
    kv\<lparr>ownedShards := map (\<lambda>s. if n \<le> s \<and> s < n + length gids
      then newState (kv_gid kv) c (gids ! (s - n)) (ownedShards kv ! s) else ownedShards kv ! s)
      [0..<NShards]\<rparr>"
  using assms
proof (induction gids arbitrary: n kv)
  case Nil
  then show ?case
    by (cases kv) (auto simp: all_maps_def intro!: nth_equalityI)
next
  case (Cons gid gids)
  define kv1 where "kv1 = updateOneShard c (n, gid) kv"
  have kv1: "kv1 = kv\<lparr>ownedShards := (ownedShards kv)[n := newState (kv_gid kv) c gid (ownedShards kv ! n)]\<rparr>"
    unfolding kv1_def by (rule updateOneShard_result) (use Cons.prems in auto)
  have "all_maps kv1" using Cons.prems(2) by (simp add: kv1 all_maps_def)
  then have "fold (updateOneShard c) (enumerate (Suc n) gids) kv1 =
    kv1\<lparr>ownedShards := map (\<lambda>s. if Suc n \<le> s \<and> s < Suc n + length gids
      then newState (kv_gid kv1) c (gids ! (s - Suc n)) (ownedShards kv1 ! s) else ownedShards kv1 ! s)
      [0..<NShards]\<rparr>"
    using Cons.prems(1) by (intro Cons.IH) auto
  then have "fold (updateOneShard c) (enumerate n (gid # gids)) kv =
    kv\<lparr>ownedShards := map (\<lambda>s. if Suc n \<le> s \<and> s < Suc n + length gids
      then newState (kv_gid kv) c (gids ! (s - Suc n)) (ownedShards kv1 ! s) else ownedShards kv1 ! s)
      [0..<NShards]\<rparr>"
    by (simp add: kv1_def [symmetric]) (simp add: kv1)
  moreover have "length (ownedShards kv) = NShards" using Cons.prems(2) by (simp add: all_maps_def)
  then have "map (\<lambda>s. if Suc n \<le> s \<and> s < Suc n + length gids
      then newState (kv_gid kv) c (gids ! (s - Suc n)) (ownedShards kv1 ! s) else ownedShards kv1 ! s)
      [0..<NShards] =
    map (\<lambda>s. if n \<le> s \<and> s < n + length (gid # gids)
      then newState (kv_gid kv) c ((gid # gids) ! (s - n)) (ownedShards kv ! s) else ownedShards kv ! s)
      [0..<NShards]"
    by (auto simp: kv1 nth_Cons' nth_list_update dest!: not_less_eq_eq [THEN iffD1] dest: le_antisym)
  ultimately show ?case by simp
qed

lemma updateShardState_result:
  assumes "length (cfg_Shards c) = NShards" and "all_maps kv"
  shows "updateShardState c kv = kv\<lparr>
    ownedShards := map (\<lambda>s. newState (kv_gid kv) c (cfg_Shards c ! s) (ownedShards kv ! s)) [0..<NShards],
    preConfig := (if cfg_Num (preConfig kv) \<noteq> 0 \<or> cfg_Num (curConfig kv) \<noteq> 0
      then curConfig kv else preConfig kv),
    curConfig := c\<rparr>"
  using assms updateShards_result [of 0 "cfg_Shards c" kv c]
  by (cases kv) (auto simp: updateShardState_def Let_def)

section \<open>Configuration histories and the invariant of a group\<close>

text \<open>What the shard master guarantees of its configurations; no group has the number 0.\<close>

definition hist_ok :: "Config list \<Rightarrow> bool" where
  "hist_ok H \<longleftrightarrow> H \<noteq> [] \<and> H ! 0 = zero_Config \<and>
     (\<forall>k < length H. cfg_Num (H ! k) = int k \<and> length (cfg_Shards (H ! k)) = NShards \<and>
        cfg_Groups (H ! k) 0 = None)"

definition owner :: "Config list \<Rightarrow> nat \<Rightarrow> nat \<Rightarrow> int" where
  "owner H m s = cfg_Shards (H ! m) ! s"

definition version :: "ShardKV \<Rightarrow> nat" where
  "version kv = nat (cfg_Num (curConfig kv))"

abbreviation status :: "ShardKV \<Rightarrow> nat \<Rightarrow> ShardState" where
  "status kv s \<equiv> ownedShards kv ! s"

text \<open>
  A group owns, or waits for, exactly the shards its configuration gives it; it waits to give
  what the previous configuration gave it, and to get what that gave to another.
\<close>

definition kv_ok :: "Config list \<Rightarrow> int \<Rightarrow> ShardKV \<Rightarrow> bool" where
  "kv_ok H g kv \<longleftrightarrow> kv_gid kv = g \<and> all_maps kv \<and> \<not> passiveSnapshotBefore kv \<and>
     version kv < length H \<and> curConfig kv = H ! version kv \<and> preConfig kv = H ! (version kv - 1) \<and>
     (\<forall>s < NShards.
        (status kv s \<in> {Exist, WaitGet} \<longleftrightarrow> owner H (version kv) s = g) \<and>
        (status kv s = WaitGive \<longrightarrow> version kv \<noteq> 0 \<and> owner H (version kv - 1) s = g) \<and>
        (status kv s = WaitGet \<longrightarrow> 2 \<le> version kv \<and> owner H (version kv - 1) s \<noteq> g) \<and>
        (version kv = 0 \<longrightarrow> status kv s = NoExist \<and> kvDB kv (int s) = Some (\<lambda>_. None)))"

lemma kv_ok_shard:
  assumes "kv_ok H g kv" and "s < NShards"
  shows "status kv s \<in> {Exist, WaitGet} \<longleftrightarrow> owner H (version kv) s = g"
    and "status kv s = WaitGive \<Longrightarrow> version kv \<noteq> 0 \<and> owner H (version kv - 1) s = g"
    and "status kv s = WaitGet \<Longrightarrow> 2 \<le> version kv \<and> owner H (version kv - 1) s \<noteq> g"
    and "version kv = 0 \<Longrightarrow> status kv s = NoExist \<and> kvDB kv (int s) = Some (\<lambda>_. None)"
    and "status kv s = Exist \<Longrightarrow> version kv \<noteq> 0 \<and> owner H (version kv) s = g"
    and "status kv s = WaitGet \<Longrightarrow> owner H (version kv) s = g"
    and "kvDB kv (int s) \<noteq> None"
proof -
  have *: "(status kv s \<in> {Exist, WaitGet} \<longleftrightarrow> owner H (version kv) s = g) \<and>
        (status kv s = WaitGive \<longrightarrow> version kv \<noteq> 0 \<and> owner H (version kv - 1) s = g) \<and>
        (status kv s = WaitGet \<longrightarrow> 2 \<le> version kv \<and> owner H (version kv - 1) s \<noteq> g) \<and>
        (version kv = 0 \<longrightarrow> status kv s = NoExist \<and> kvDB kv (int s) = Some (\<lambda>_. None))"
    "kvDB kv (int s) \<noteq> None"
    using assms unfolding kv_ok_def all_maps_def by blast+
  then show "status kv s \<in> {Exist, WaitGet} \<longleftrightarrow> owner H (version kv) s = g"
    "status kv s = WaitGive \<Longrightarrow> version kv \<noteq> 0 \<and> owner H (version kv - 1) s = g"
    "status kv s = WaitGet \<Longrightarrow> 2 \<le> version kv \<and> owner H (version kv - 1) s \<noteq> g"
    "version kv = 0 \<Longrightarrow> status kv s = NoExist \<and> kvDB kv (int s) = Some (\<lambda>_. None)"
    "status kv s = Exist \<Longrightarrow> version kv \<noteq> 0 \<and> owner H (version kv) s = g"
    "status kv s = WaitGet \<Longrightarrow> owner H (version kv) s = g"
    "kvDB kv (int s) \<noteq> None"
    by auto
qed

lemma hist_num: "hist_ok H \<Longrightarrow> k < length H \<Longrightarrow> cfg_Num (H ! k) = int k"
  by (simp add: hist_ok_def)

lemma kv_ok_num: "hist_ok H \<Longrightarrow> kv_ok H g kv \<Longrightarrow> cfg_Num (curConfig kv) = int (version kv)"
  by (metis hist_num kv_ok_def)

lemma version_bump [simp]: "version (bump i kv) = version kv"
  by (simp add: version_def)

lemma all_maps_bump [simp]: "all_maps (bump i kv) = all_maps kv"
  by (simp add: all_maps_def)

lemma kv_ok_bump [intro]: "kv_ok H g kv \<Longrightarrow> kv_ok H g (bump i kv)"
  by (simp add: kv_ok_def)

lemma kv_ok_init:
  assumes "hist_ok H" and "g \<noteq> 0"
  shows "kv_ok H g (StartServer i m g)"
  using assms
  by (auto simp: kv_ok_def StartServer_def all_maps_def version_def hist_ok_def zero_Config_def
      owner_def NShards_def)

section \<open>The effect of a command on a group\<close>

text \<open>The commands the groups propose to themselves, for a history \<open>H\<close>.\<close>

definition proper :: "Config list \<Rightarrow> SkOp \<Rightarrow> bool" where
  "proper H op \<longleftrightarrow>
     (if sko_OpType op = UpdateConfig then
        \<exists>k. 0 < k \<and> k < length H \<and> sko_CfgNum op = int k \<and> sko_NewConfig op = H ! k
      else if sko_OpType op \<in> {GetShard, GiveShard} then
        \<exists>m s. s < NShards \<and> sko_CfgNum op = int m \<and> sko_ShardNum op = int s
      else True)"

definition adopted :: "Config list \<Rightarrow> ShardKV \<Rightarrow> ShardKV" where
  "adopted H kv = (let c = H ! Suc (version kv) in kv\<lparr>
     ownedShards := map (\<lambda>s. newState (kv_gid kv) c (owner H (Suc (version kv)) s) (status kv s)) [0..<NShards],
     preConfig := curConfig kv, curConfig := c\<rparr>)"

definition got :: "SkOp \<Rightarrow> nat \<Rightarrow> ShardKV \<Rightarrow> ShardKV" where
  "got op s kv = kv\<lparr>ownedShards := (ownedShards kv)[s := Exist],
     kvDB := (kvDB kv)(int s \<mapsto> sko_ShardData op),
     kv_sessions := mergeSessions (sko_SessionData op) (kv_sessions kv)\<rparr>"

definition gave :: "nat \<Rightarrow> ShardKV \<Rightarrow> ShardKV" where
  "gave s kv = kv\<lparr>ownedShards := (ownedShards kv)[s := NoExist],
     kvDB := (kvDB kv)(int s \<mapsto> (\<lambda>_. None))\<rparr>"

lemma sk_command_client:
  assumes "sko_OpType op \<in> {Get, Put, Append}" and maps: "all_maps kv"
  shows "if executes op kv
    then \<exists>m. kvDB kv (op_shard op) = Some m \<and> sk_command op kv = Some (wrote op m kv)
    else sk_command op kv = Some kv"
proof -
  have "kvDB kv (int (nat (op_shard op))) \<noteq> None"
    using maps nat_key2shard unfolding all_maps_def by blast
  then obtain m where m: "kvDB kv (op_shard op) = Some m" by auto
  consider "sko_OpType op = Get" | "sko_OpType op \<in> {Put, Append}" "settled op kv"
    | "sko_OpType op \<in> {Put, Append}" "\<not> settled op kv" using assms(1) by blast
  then show ?thesis
  proof cases
    case 1
    then show ?thesis by (simp add: sk_command_def executes_def sk_applyClient_Get m)
  next
    case 2
    from sk_applyClient_dup [OF this] 2 show ?thesis
      by (auto simp: sk_command_def executes_def sk_duplicate_settled)
  next
    case 3
    then have "sko_OpType op \<noteq> Get" by auto
    with 3 show ?thesis
      by (auto simp: sk_command_def executes_def sk_duplicate_settled m sk_applyClient_write)
  qed
qed

lemma sk_configCmd_GetShard:
  assumes "sko_OpType op = GetShard" and "sko_ShardNum op = int s" and "s < length (ownedShards kv)"
  shows "sk_configCmd op kv = Some (if cfg_Num (curConfig kv) = sko_CfgNum op \<and> status kv s = WaitGet
    then got op s kv else kv)"
  using assms by (simp add: sk_configCmd_def got_def update_at_in)

lemma sk_configCmd_GiveShard:
  assumes "sko_OpType op = GiveShard" and "sko_ShardNum op = int s" and "s < length (ownedShards kv)"
  shows "sk_configCmd op kv = Some (if cfg_Num (curConfig kv) = sko_CfgNum op \<and> status kv s = WaitGive
    then gave s kv else kv)"
  using assms by (simp add: sk_configCmd_def gave_def update_at_in)

lemma sk_configCmd_UpdateConfig:
  assumes hist: "hist_ok H" and ok: "kv_ok H g kv" and op: "sko_OpType op = UpdateConfig" "proper H op"
  shows "sk_configCmd op kv =
    Some (if sko_CfgNum op = int (Suc (version kv)) then adopted H kv else kv)"
proof (cases "sko_CfgNum op = int (Suc (version kv))")
  case True
  with op have k: "Suc (version kv) < length H" "sko_NewConfig op = H ! Suc (version kv)"
    unfolding proper_def by (metis of_nat_eq_iff)+
  have cur: "cfg_Num (curConfig kv) = int (version kv)" by (rule kv_ok_num [OF hist ok])
  have pre: "cfg_Num (preConfig kv) = int (version kv - 1)"
    using ok hist by (auto simp: kv_ok_def hist_num)
  have "length (cfg_Shards (H ! Suc (version kv))) = NShards" using hist k by (simp add: hist_ok_def)
  moreover have "preConfig kv = curConfig kv" if "version kv = 0"
    using ok that by (simp add: kv_ok_def)
  ultimately have "updateShardState (sko_NewConfig op) kv = adopted H kv"
    using ok cur pre by (auto simp: updateShardState_result k adopted_def Let_def owner_def kv_ok_def)
  with True op cur show ?thesis by (simp add: sk_configCmd_def)
next
  case False
  with op kv_ok_num [OF hist ok] show ?thesis by (simp add: sk_configCmd_def)
qed

lemma sk_command_cases:
  assumes hist: "hist_ok H" and ok: "kv_ok H g kv" and proper: "proper H op"
    and run: "sk_command op kv = Some kv'"
  obtains (same) "kv' = kv" and "\<not> executes op kv"
  | (wrote) m where "executes op kv" and "kvDB kv (op_shard op) = Some m" and "kv' = wrote op m kv"
  | (adopted) "sko_OpType op = UpdateConfig" and "sko_CfgNum op = int (Suc (version kv))"
      and "Suc (version kv) < length H" and "kv' = adopted H kv"
  | (got) s where "sko_OpType op = GetShard" and "sko_ShardNum op = int s" and "s < NShards"
      and "sko_CfgNum op = int (version kv)" and "status kv s = WaitGet" and "kv' = got op s kv"
  | (gave) s where "sko_OpType op = GiveShard" and "sko_ShardNum op = int s" and "s < NShards"
      and "sko_CfgNum op = int (version kv)" and "status kv s = WaitGive" and "kv' = gave s kv"
proof -
  have maps: "all_maps kv" and len: "length (ownedShards kv) = NShards"
    using ok by (simp_all add: kv_ok_def all_maps_def)
  have cur: "cfg_Num (curConfig kv) = int (version kv)" by (rule kv_ok_num [OF hist ok])
  have notexec: "\<not> executes op kv" if "sko_OpType op \<notin> {Put, Append}"
    using that by (simp add: executes_def)
  consider "sko_OpType op \<in> {Get, Put, Append}" | "sko_OpType op = UpdateConfig"
    | "sko_OpType op = GetShard" | "sko_OpType op = GiveShard" | "sko_OpType op \<in> {EmptyOp, OtherType}"
    by (cases "sko_OpType op") auto
  then show thesis
  proof cases
    case 1
    with sk_command_client [OF this maps] run show thesis
      by (cases "executes op kv") (auto intro: same wrote)
  next
    case 2
    with proper have "sko_CfgNum op < int (length H)" by (auto simp: proper_def)
    with sk_configCmd_UpdateConfig [OF hist ok 2 proper] run 2 notexec show thesis
      by (cases "sko_CfgNum op = int (Suc (version kv))")
        (auto simp: sk_command_def intro: same adopted)
  next
    case 3
    with proper obtain s where s: "s < NShards" "sko_ShardNum op = int s" by (auto simp: proper_def)
    with sk_configCmd_GetShard [OF 3, of s kv] run 3 notexec len cur show thesis
      by (cases "cfg_Num (curConfig kv) = sko_CfgNum op \<and> status kv s = WaitGet")
        (auto simp: sk_command_def intro: same got)
  next
    case 4
    with proper obtain s where s: "s < NShards" "sko_ShardNum op = int s" by (auto simp: proper_def)
    with sk_configCmd_GiveShard [OF 4, of s kv] run 4 notexec len cur show thesis
      by (cases "cfg_Num (curConfig kv) = sko_CfgNum op \<and> status kv s = WaitGive")
        (auto simp: sk_command_def intro: same gave)
  next
    case 5
    with run notexec show thesis by (auto simp: sk_command_def intro: same)
  qed
qed

section \<open>Progress of a group\<close>

text \<open>Within a configuration the status of a shard only moves to its stable value.\<close>

definition settles :: "ShardState \<Rightarrow> ShardState \<Rightarrow> bool" where
  "settles a b \<longleftrightarrow> a = b \<or> a = WaitGet \<and> b = Exist \<or> a = WaitGive \<and> b = NoExist"

definition later :: "ShardKV \<Rightarrow> ShardKV \<Rightarrow> bool" where
  "later kv kv' \<longleftrightarrow> version kv \<le> version kv' \<and>
     (version kv = version kv' \<longrightarrow> (\<forall>s < NShards. settles (status kv s) (status kv' s))) \<and>
     (\<forall>op. settled op kv \<longrightarrow> settled op kv')"

lemma later_refl [simp]: "later kv kv"
  by (simp add: later_def settles_def)

lemma later_trans:
  assumes "later a b" and "later b c"
  shows "later a c"
proof -
  have "settles x z" if "settles x y" "settles y z" for x y z
    using that by (auto simp: settles_def)
  with assms show ?thesis
    by (auto simp: later_def)
qed

lemma later_version: "later kv kv' \<Longrightarrow> version kv \<le> version kv'"
  by (simp add: later_def)

lemma later_Exist:
  "later kv kv' \<Longrightarrow> version kv = version kv' \<Longrightarrow> s < NShards \<Longrightarrow> status kv s = Exist \<Longrightarrow> status kv' s = Exist"
  by (auto simp: later_def settles_def)

lemma later_ready:
  assumes "later kv kv'" and "version kv = version kv'" and "updateConfigReady kv"
    and "length (ownedShards kv) = NShards" and "length (ownedShards kv') = NShards"
  shows "updateConfigReady kv'"
  using assms by (fastforce simp: updateConfigReady_def later_def settles_def in_set_conv_nth)

lemma settled_wrote:
  assumes "executes op kv"
  shows "settled op' kv \<Longrightarrow> settled op' (wrote op m kv)" and "settled op (wrote op m kv)"
proof -
  have "sko_OpType op \<noteq> Get" "\<not> sk_duplicate op kv" using assms by (auto simp: executes_def)
  then have "\<not> settled op kv" by (simp add: sk_duplicate_settled)
  then show "settled op' kv \<Longrightarrow> settled op' (wrote op m kv)" "settled op (wrote op m kv)"
    by (auto simp: settled_def wrote_def split: option.splits)
qed

lemma settled_merge:
  "settled op kv \<Longrightarrow> settled op (kv\<lparr>kv_sessions := mergeSessions new (kv_sessions kv)\<rparr>)"
  by (auto simp: settled_def mergeSessions_def split: option.splits)

lemma settled_got: "settled op' kv \<Longrightarrow> settled op' (got op s kv)"
  using settled_merge [of op' kv "sko_SessionData op"] by (simp add: settled_def got_def)

lemma settled_bump [simp]: "settled op (bump i kv) = settled op kv"
  by (simp add: settled_def)

lemma kv_ok_wrote:
  assumes ok: "kv_ok H g kv" and "executes op kv"
  shows "kv_ok H g (wrote op m kv)" and "later kv (wrote op m kv)"
proof -
  have v: "version (wrote op m kv) = version kv" by (simp add: version_def wrote_def)
  have "status kv (nat (op_shard op)) = Exist"
    using assms(2) by (simp add: executes_def checkKeyInGroup_def)
  then have "version kv \<noteq> 0"
    using kv_ok_shard(5) [OF ok nat_key2shard] by blast
  with ok v show "kv_ok H g (wrote op m kv)"
    by (auto simp: kv_ok_def all_maps_def wrote_def)
  show "later kv (wrote op m kv)"
    using v settled_wrote(1) [OF assms(2)] by (simp add: later_def settles_def) (simp add: wrote_def)
qed

lemma kv_ok_got:
  assumes ok: "kv_ok H g kv" and "s < NShards" and "status kv s = WaitGet"
  shows "kv_ok H g (got op s kv)" and "later kv (got op s kv)"
proof -
  have v: "version (got op s kv) = version kv" by (simp add: version_def got_def)
  have len: "length (ownedShards kv) = NShards" using ok by (simp add: kv_ok_def all_maps_def)
  have "version kv \<noteq> 0" and "owner H (version kv) s = g"
    using kv_ok_shard(3,6) [OF assms] by auto
  with ok v len assms(2) show "kv_ok H g (got op s kv)"
    by (auto simp: kv_ok_def all_maps_def got_def nth_list_update)
  show "later kv (got op s kv)"
    using v len assms settled_got
    by (simp add: later_def settles_def) (simp add: got_def nth_list_update)
qed

lemma kv_ok_gave:
  assumes ok: "kv_ok H g kv" and "s < NShards" and "status kv s = WaitGive"
  shows "kv_ok H g (gave s kv)" and "later kv (gave s kv)"
proof -
  have v: "version (gave s kv) = version kv" by (simp add: version_def gave_def)
  have len: "length (ownedShards kv) = NShards" using ok by (simp add: kv_ok_def all_maps_def)
  have "owner H (version kv) s \<noteq> g" and "version kv \<noteq> 0"
    using kv_ok_shard(1,2) [OF assms(1,2)] assms(3) by auto
  with ok v len assms(2) show "kv_ok H g (gave s kv)"
    by (auto simp: kv_ok_def all_maps_def gave_def nth_list_update)
  show "later kv (gave s kv)"
    using v len assms
    by (auto simp: later_def settles_def gave_def nth_list_update settled_def)
qed

lemma settled_adopted [simp]: "settled op (adopted H kv) = settled op kv"
  by (simp add: settled_def adopted_def Let_def)

lemma version_adopted:
  assumes "hist_ok H" and "Suc (version kv) < length H"
  shows "version (adopted H kv) = Suc (version kv)"
proof -
  have "version (adopted H kv) = nat (cfg_Num (H ! Suc (version kv)))"
    by (simp add: version_def adopted_def Let_def)
  with hist_num [OF assms] show ?thesis by simp
qed

lemma status_adopted:
  assumes hist: "hist_ok H" and len: "Suc (version kv) < length H" and s: "s < NShards"
    and ok: "kv_ok H g kv" and ready: "updateConfigReady kv"
  shows "status (adopted H kv) s =
    (if owner H (Suc (version kv)) s = g then
       if status kv s = Exist \<or> version kv = 0 then Exist else WaitGet
     else if status kv s = Exist then WaitGive else NoExist)"
proof -
  have gid: "kv_gid kv = g" and "s < length (ownedShards kv)"
    using ok s by (simp_all add: kv_ok_def all_maps_def)
  then have "status kv s \<in> {NoExist, Exist}"
    using ready nth_mem by (fastforce simp: updateConfigReady_def)
  moreover have "cfg_Num (H ! Suc (version kv)) = int (Suc (version kv))"
    by (rule hist_num [OF hist len])
  ultimately show ?thesis
    using s gid by (auto simp: adopted_def newState_def Let_def)
qed

lemma kv_ok_adopted:
  assumes hist: "hist_ok H" and len: "Suc (version kv) < length H"
    and ok: "kv_ok H g kv" and ready: "updateConfigReady kv"
  shows "kv_ok H g (adopted H kv)" and "later kv (adopted H kv)"
proof -
  have v: "version (adopted H kv) = Suc (version kv)" by (rule version_adopted [OF hist len])
  then show "later kv (adopted H kv)"
    by (simp add: later_def settled_adopted)
  have stable: "status kv s \<in> {NoExist, Exist}" if "s < NShards" for s
    using ready nth_mem [of s "ownedShards kv"] that ok
    by (fastforce simp: updateConfigReady_def kv_ok_def all_maps_def)
  have "(status (adopted H kv) s \<in> {Exist, WaitGet} \<longleftrightarrow> owner H (version (adopted H kv)) s = g) \<and>
        (status (adopted H kv) s = WaitGive \<longrightarrow> owner H (version kv) s = g) \<and>
        (status (adopted H kv) s = WaitGet \<longrightarrow> 2 \<le> version (adopted H kv) \<and> owner H (version kv) s \<noteq> g)"
    if "s < NShards" for s
    using status_adopted [OF hist len that ok ready] stable [OF that] kv_ok_shard(1,4) [OF ok that] v
    by (auto split: if_splits)
  then show "kv_ok H g (adopted H kv)"
    using ok v len by (simp add: kv_ok_def) (simp add: adopted_def all_maps_def Let_def)
qed

lemma sk_command_total:
  assumes hist: "hist_ok H" and ok: "kv_ok H g kv" and proper: "proper H op"
  shows "sk_command op kv \<noteq> None"
proof -
  have maps: "all_maps kv" and len: "length (ownedShards kv) = NShards"
    using ok by (simp_all add: kv_ok_def all_maps_def)
  consider "sko_OpType op \<in> {Get, Put, Append}" | "sko_OpType op = UpdateConfig"
    | s where "sko_OpType op \<in> {GetShard, GiveShard}" "s < NShards" "sko_ShardNum op = int s"
    | "sko_OpType op \<in> {EmptyOp, OtherType}"
    using proper by (cases "sko_OpType op") (auto simp: proper_def)
  then show ?thesis
  proof cases
    case 1
    from sk_command_client [OF 1 maps] show ?thesis by (auto split: if_splits)
  next
    case 2
    then show ?thesis
      using sk_configCmd_UpdateConfig [OF hist ok 2 proper] by (simp add: sk_command_def)
  next
    case (3 s)
    then show ?thesis
      using sk_configCmd_GetShard [of op s kv] sk_configCmd_GiveShard [of op s kv] len
      by (auto simp: sk_command_def)
  next
    case 4
    then show ?thesis by (auto simp: sk_command_def)
  qed
qed

section \<open>The session table\<close>

definition sk_step :: "SkOp \<Rightarrow> ShardKV \<Rightarrow> ShardKV" where
  "sk_step op kv = (case sk_command op kv of None \<Rightarrow> kv | Some kv' \<Rightarrow> kv')"

definition sk_write :: "SkOp \<Rightarrow> bool" where
  "sk_write op \<longleftrightarrow> sko_OpType op \<in> {Put, Append}"

lemma updateShardState_sessions: "kv_sessions (updateShardState c kv) = kv_sessions kv"
proof -
  have "kv_sessions (fold (updateOneShard c) xs kv) = kv_sessions kv" for xs
    by (induction xs arbitrary: kv) (auto simp: updateOneShard_def Let_def split: prod.split)
  then show ?thesis by (simp add: updateShardState_def Let_def)
qed

lemma settled_config:
  assumes "settled op kv" and "sk_configCmd op' kv = Some kv'"
  shows "settled op kv'"
proof (cases "sko_OpType op' = GetShard")
  case True
  with assms(2) have "kv_sessions kv' = kv_sessions kv \<or>
      kv_sessions kv' = mergeSessions (sko_SessionData op') (kv_sessions kv)"
    by (auto simp: sk_configCmd_def bind_eq_Some_conv split: if_splits)
  with assms(1) settled_merge [OF assms(1), of "sko_SessionData op'"] show ?thesis
    by (auto simp: settled_def)
next
  case False
  with assms(2) have "kv_sessions kv' = kv_sessions kv"
    by (auto simp: sk_configCmd_def bind_eq_Some_conv updateShardState_sessions
        split: if_splits SkOpType.splits)
  with assms(1) show ?thesis by (simp add: settled_def)
qed

text \<open>A client command that is applied to an existing shard writes or leaves the state alone.\<close>

lemma sk_command_client':
  assumes "sko_OpType op \<in> {Get, Put, Append}" and "sk_command op kv = Some kv'"
  shows "kv' = kv \<or> (\<exists>m. executes op kv \<and> kv' = wrote op m kv)"
proof (cases "kvDB kv (op_shard op)")
  case None
  then have "sk_command op kv = None \<or> sk_command op kv = Some kv"
    using assms(1)
    by (auto simp: sk_command_def sk_applyClient_def sk_execute_def readKey_def writeKey_def Let_def)
  with assms(2) show ?thesis by auto
next
  case (Some m)
  show ?thesis
  proof (cases "executes op kv")
    case True
    then have "sk_command op kv = Some (wrote op m kv)"
      using Some by (auto simp: executes_def sk_command_def sk_duplicate_settled sk_applyClient_write)
    with True assms(2) show ?thesis by auto
  next
    case False
    then have "sk_command op kv = Some kv"
      using assms(1) Some sk_applyClient_dup [of op kv]
      by (cases "sko_OpType op = Get")
        (auto simp: executes_def sk_command_def sk_duplicate_settled sk_applyClient_Get)
    with assms(2) show ?thesis by simp
  qed
qed

lemma settled_sk_step:
  assumes "settled op kv"
  shows "settled op (sk_step op' kv)"
proof (cases "sk_command op' kv")
  case (Some kv')
  then show ?thesis
    using assms sk_command_client' [OF _ Some] settled_wrote(1) settled_config [OF assms, of op' kv']
    by (cases "sko_OpType op' \<in> {Get, Put, Append}")
      (auto simp: sk_step_def sk_command_def split: if_splits)
qed (use assms in \<open>simp add: sk_step_def\<close>)

interpretation sk: session_service sk_step sk_write settled
proof
  fix op op' :: SkOp and kv
  assume op: "sk_write op"
  show "sk_step op kv = kv" if "settled op kv"
  proof -
    have "\<not> executes op kv"
      using op that by (auto simp: sk_write_def executes_def sk_duplicate_settled)
    then show ?thesis
      using op sk_command_client' [of op kv]
      by (cases "sk_command op kv") (auto simp: sk_step_def sk_write_def)
  qed
  show "settled op (sk_step op' kv)" if "settled op kv"
    by (rule settled_sk_step [OF that])
  show "settled op (sk_step op kv)" if "sk_step op kv \<noteq> kv"
    using op that sk_command_client' [of op kv] settled_wrote(2)
    by (cases "sk_command op kv") (auto simp: sk_step_def sk_write_def)
qed

section \<open>Replicas and snapshots\<close>

text \<open>Two replicas of a group hold the same state machine.\<close>

definition same_machine :: "ShardKV \<Rightarrow> ShardKV \<Rightarrow> bool" where
  "same_machine a b \<longleftrightarrow> kv_gid a = kv_gid b \<and> kvDB a = kvDB b \<and> kv_sessions a = kv_sessions b \<and>
     ownedShards a = ownedShards b \<and> preConfig a = preConfig b \<and> curConfig a = curConfig b"

lemma same_machine_refl [simp]: "same_machine a a"
  by (simp add: same_machine_def)

lemma same_machine_bump [simp]:
  "same_machine (bump i a) b = same_machine a b" "same_machine a (bump i b) = same_machine a b"
  by (simp_all add: same_machine_def)

lemma updateOneShard_same:
  assumes "same_machine a b"
  shows "same_machine (updateOneShard c x a) (updateOneShard c x b)"
proof (cases x)
  case (Pair s gid)
  with assms show ?thesis by (simp add: same_machine_def updateOneShard_def Let_def)
qed

lemma updateShardState_same:
  assumes "same_machine a b"
  shows "same_machine (updateShardState c a) (updateShardState c b)"
proof -
  have "same_machine (fold (updateOneShard c) xs a) (fold (updateOneShard c) xs b)" for xs
    using assms by (induction xs arbitrary: a b) (auto intro: updateOneShard_same)
  then show ?thesis by (simp add: same_machine_def updateShardState_def Let_def)
qed

lemma sk_applyClient_same:
  assumes "same_machine a b"
  shows "rel_option same_machine (map_option fst (sk_applyClient op a)) (map_option fst (sk_applyClient op b))"
proof -
  have dup: "sk_duplicate op a = sk_duplicate op b"
    using assms by (simp add: same_machine_def sk_duplicate_def)
  show ?thesis
  proof (cases "sko_OpType op \<in> {Put, Append} \<and> \<not> sk_duplicate op a")
    case True
    then show ?thesis
      using assms dup
      by (cases "kvDB b (op_shard op)"; cases "readKey (op_shard op) (sko_Key op) b")
        (auto simp: sk_applyClient_def sk_execute_def writeKey_def readKey_def same_machine_def Let_def)
  next
    case False
    then show ?thesis
      using assms dup
      by (cases "sko_OpType op")
        (auto simp: sk_applyClient_def sk_execute_def same_machine_def Let_def)
  qed
qed

lemma sk_command_same:
  assumes same: "same_machine a b"
  shows "rel_option same_machine (sk_command op a) (sk_command op b)"
proof -
  have fields: "ownedShards a = ownedShards b" "curConfig a = curConfig b" "kvDB a = kvDB b"
    "kv_sessions a = kv_sessions b" "checkKeyInGroup key a = checkKeyInGroup key b" for key
    using same by (simp_all add: same_machine_def checkKeyInGroup_def)
  have "rel_option same_machine (sk_configCmd op a) (sk_configCmd op b)"
  proof (cases "sko_OpType op")
    case UpdateConfig
    then show ?thesis
      using same updateShardState_same [OF same] fields by (simp add: sk_configCmd_def)
  next
    case GetShard
    then show ?thesis
      using same fields
      by (cases "idx (ownedShards b) (sko_ShardNum op)";
          cases "update_at (ownedShards b) (sko_ShardNum op) Exist")
        (auto simp: sk_configCmd_def same_machine_def)
  next
    case GiveShard
    then show ?thesis
      using same fields
      by (cases "idx (ownedShards b) (sko_ShardNum op)";
          cases "update_at (ownedShards b) (sko_ShardNum op) NoExist")
        (auto simp: sk_configCmd_def same_machine_def)
  qed (use same in \<open>simp_all add: sk_configCmd_def\<close>)
  then show ?thesis
    using same sk_applyClient_same [OF same, of op] fields by (simp add: sk_command_def)
qed

text \<open>Applying consecutive log entries, the first one at index \<open>i\<close>.\<close>

fun replay :: "int \<Rightarrow> SkOp list \<Rightarrow> ShardKV \<Rightarrow> ShardKV option" where
  "replay i [] kv = Some kv"
| "replay i (op # ops) kv = Option.bind (applied op i kv) (replay (i + 1) ops)"

lemma sk_command_quiet:
  assumes "sk_command op kv = Some kv'"
  shows "logLastApplied kv' = logLastApplied kv \<and> passiveSnapshotBefore kv' = passiveSnapshotBefore kv"
proof (cases "sko_OpType op \<in> {Get, Put, Append}")
  case True
  with sk_command_client' [OF True assms] show ?thesis by (auto simp: wrote_def)
next
  case False
  have "logLastApplied (fold (updateOneShard c) xs kv) = logLastApplied kv \<and>
    passiveSnapshotBefore (fold (updateOneShard c) xs kv) = passiveSnapshotBefore kv" for c xs
    by (induction xs arbitrary: kv) (auto simp: updateOneShard_def Let_def split: prod.split)
  with False assms show ?thesis
    by (auto simp: sk_command_def sk_configCmd_def updateShardState_def Let_def bind_eq_Some_conv
        split: if_splits SkOpType.splits)
qed

lemma replay_same:
  assumes "same_machine a b" and "logLastApplied a < i" "logLastApplied b < i"
    and "\<not> passiveSnapshotBefore a" "\<not> passiveSnapshotBefore b"
  shows "rel_option same_machine (replay i ops a) (replay i ops b)"
  using assms
proof (induction ops arbitrary: i a b)
  case (Cons op ops)
  have drop: "dropped op a = dropped op b"
    using Cons.prems(1) by (simp add: dropped_def same_machine_def checkKeyInGroup_def)
  have A: "applied op i a = (if dropped op a then Some a else sk_command op (bump i a))"
    and B: "applied op i b = (if dropped op b then Some b else sk_command op (bump i b))"
    by (rule applied_gate; use Cons.prems in simp)+
  show ?case
  proof (cases "dropped op b")
    case True
    with drop Cons.IH [OF Cons.prems(1), of "i + 1"] Cons.prems show ?thesis by (simp add: A B)
  next
    case False
    have "rel_option same_machine (sk_command op (bump i a)) (sk_command op (bump i b))"
      by (rule sk_command_same) (simp add: Cons.prems(1))
    then show ?thesis
    proof (cases rule: option.rel_cases)
      case None
      with False drop show ?thesis by (simp add: A B)
    next
      case (Some a' b')
      with sk_command_quiet [of op "bump i a" a'] sk_command_quiet [of op "bump i b" b']
      have "rel_option same_machine (replay (i + 1) ops a') (replay (i + 1) ops b')"
        by (intro Cons.IH) auto
      with Some False drop show ?thesis by (simp add: A B)
    qed
  qed
qed simp

lemma dropped_forever:
  assumes "passiveSnapshotBefore kv" and "i > logLastApplied kv + 1"
  shows "replay i ops kv = Some kv"
  using assms(2)
proof (induction ops arbitrary: i)
  case (Cons op ops)
  have "apply_gate i kv = None" using assms(1) Cons.prems by (simp add: apply_gate_def)
  then have "applied op i kv = Some kv"
    by (auto simp: applied_def applyMessage_def command_msg_def executeClientCmd_def
        executeConfigCmd_def executeEmptyCmd_def)
  with Cons show ?case by simp
qed simp

end
