(* ===== verification/ShardMigration.thy ===== *)
theory ShardMigration
  imports ShardGroup
begin

text \<open>
  All groups of a sharded store together: each follows the configuration history of the shard
  master, hands shards over to the next owner and serves clients. A group is its sequence of
  applied states (newest first); a replica that lags behind reads an older one, so polls and
  RPC handlers may read any of them. The commands they propose stay in the network for ever
  and are applied at any time, any number of times. \<open>wd_done\<close> records the writes the groups
  executed, in order. The theory proves that the groups together behave as one database.
\<close>

section \<open>The system\<close>

record World =
  wd_states :: "int \<Rightarrow> ShardKV list"
  wd_net :: "(int \<times> SkOp) list"
  wd_done :: "SkOp list"

datatype mig_event =
    PollConfig int nat nat       \<comment> \<open>\<open>getLastestConfig\<close> of a group: the states checked and copied\<close>
  | Fetch int nat nat nat        \<comment> \<open>\<open>checkAndGetShard\<close>: group, state, shard, state of the giver\<close>
  | Confirm int nat nat nat      \<comment> \<open>\<open>checkAndFinishGiveShard\<close>, state of the receiver\<close>
  | ClientOp int SkOp int        \<comment> \<open>a client command committed in a group, at a log index\<close>
  | Commit nat int               \<comment> \<open>a proposed command committed in its group\<close>

text \<open>What \<open>MigrateShard\<close> sends: the copies do not depend on the order of iteration.\<close>

definition MigrateShard_sent :: "bool \<Rightarrow> MigrateArgs \<Rightarrow> ShardKV \<Rightarrow> MigrateReply" where
  "MigrateShard_sent isLeader args kv =
     (let reply = \<lparr>mgr_ShardData = (\<lambda>_. None), mgr_SessionData = (\<lambda>_. None), mgr_Err = NoErr\<rparr>
      in if \<not> isLeader then reply\<lparr>mgr_Err := ErrWrongLeader\<rparr>
         else if cfg_Num (curConfig kv) < mg_ConfigNum args then reply\<lparr>mgr_Err := ErrNotReady\<rparr>
         else if cfg_Num (curConfig kv) > mg_ConfigNum args then reply
         else \<lparr>mgr_ShardData = (case kvDB kv (mg_ShardNum args) of None \<Rightarrow> (\<lambda>_. None) | Some m \<Rightarrow> m),
               mgr_SessionData = kv_sessions kv, mgr_Err = OK\<rparr>)"

lemma MigrateShard_result:
  assumes "\<And>m. kvDB kv (mg_ShardNum args) = Some m \<Longrightarrow> iterates order m"
    and "iterates sorder (kv_sessions kv)"
  shows "MigrateShard order sorder isLeader args kv = MigrateShard_sent isLeader args kv"
  using assms
  by (cases "kvDB kv (mg_ShardNum args)")
    (auto simp: MigrateShard_def MigrateShard_sent_def deepCopyMap_def deepCopySession_def Let_def)

text \<open>The answer of the shard master to \<open>Query(num)\<close>, for the history it has.\<close>

definition queried :: "Config list \<Rightarrow> int \<Rightarrow> Config" where
  "queried H num = (if num < int (length H) then H ! nat num else last H)"

definition started :: "ask_action \<Rightarrow> SkOp option" where
  "started a = (case a of StartOp op \<Rightarrow> Some op | _ \<Rightarrow> None)"

text \<open>A turn of \<open>getLastestConfig\<close>: \<open>checked\<close> is the state \<open>updateConfigReady\<close> looks at, \<open>copied\<close>
  the one whose \<open>curConfig\<close> is copied after that, in a second critical section.\<close>

definition poll :: "Config list \<Rightarrow> ShardKV \<Rightarrow> ShardKV \<Rightarrow> SkOp option" where
  "poll H checked copied = getLastestConfig True checked copied (queried H)"

definition fetch :: "nat \<Rightarrow> ShardKV \<Rightarrow> ShardKV \<Rightarrow> SkOp option" where
  "fetch shard kv giver =
     (case find (\<lambda>r. fst r = shard) (checkAndGetShard_round kv) of
        None \<Rightarrow> None
      | Some (_, servers, args) \<Rightarrow>
          if servers = [] then None
          else started (checkAndGetShard_reply args (Some (MigrateShard_sent True args giver))))"

definition confirm :: "nat \<Rightarrow> ShardKV \<Rightarrow> ShardKV \<Rightarrow> SkOp option" where
  "confirm shard kv receiver =
     (case find (\<lambda>r. fst r = shard) (checkAndFinishGiveShard_round kv) of
        None \<Rightarrow> None
      | Some (_, servers, args) \<Rightarrow>
          if servers = [] then None
          else started (checkAndFinishGiveShard_reply args (AckReceiveShard True args receiver)))"

definition current :: "World \<Rightarrow> int \<Rightarrow> ShardKV" where
  "current w g = hd (wd_states w g)"

definition world_init :: World where
  "world_init = \<lparr>wd_states = (\<lambda>g. [StartServer 0 (-1) g]), wd_net = [], wd_done = []\<rparr>"

definition deliver :: "int \<Rightarrow> SkOp \<Rightarrow> int \<Rightarrow> World \<Rightarrow> World option" where
  "deliver g op i w =
     (if g = 0 \<or> i \<le> logLastApplied (current w g) then None
      else do {
        kv \<leftarrow> applied op i (current w g);
        Some (w\<lparr>wd_states := (wd_states w)(g := kv # wd_states w g),
                wd_done := wd_done w @ (if executes op (current w g) then [op] else [])\<rparr>) })"

definition propose :: "int \<Rightarrow> SkOp option \<Rightarrow> World \<Rightarrow> World option" where
  "propose g op w = map_option (\<lambda>op. w\<lparr>wd_net := wd_net w @ [(g, op)]\<rparr>) op"

definition state_at :: "World \<Rightarrow> int \<Rightarrow> nat \<Rightarrow> ShardKV option" where
  "state_at w g i = (if g \<noteq> 0 \<and> i < length (wd_states w g) then Some (wd_states w g ! i) else None)"

fun mig_step :: "Config list \<Rightarrow> mig_event \<Rightarrow> World \<Rightarrow> World option" where
  "mig_step H (PollConfig g i k) w = do {
     checked \<leftarrow> state_at w g i;
     copied \<leftarrow> state_at w g k;
     if k \<le> i then propose g (poll H checked copied) w else None }"
| "mig_step H (Fetch g i shard j) w = do {
     kv \<leftarrow> state_at w g i;
     giver \<leftarrow> state_at w (cfg_Shards (preConfig kv) ! shard) j;
     propose g (fetch shard kv giver) w }"
| "mig_step H (Confirm g i shard j) w = do {
     kv \<leftarrow> state_at w g i;
     receiver \<leftarrow> state_at w (cfg_Shards (curConfig kv) ! shard) j;
     propose g (confirm shard kv receiver) w }"
| "mig_step H (ClientOp g op i) w =
     (if sko_OpType op \<in> {Get, Put, Append} then deliver g op i w else None)"
| "mig_step H (Commit k i) w =
     (if k < length (wd_net w) then deliver (fst (wd_net w ! k)) (snd (wd_net w ! k)) i w else None)"

text \<open>
  The two critical sections of \<open>getLastestConfig\<close> race with the apply loop. An execution is
  unraced if every poll copies the configuration it checked, that is if none is applied in
  between. The invariant holds of these executions only (\<open>race_loses_write\<close> in
  \<open>ShardKVTheorems\<close> shows what happens in the others).
\<close>

fun unraced_poll :: "mig_event \<Rightarrow> World \<Rightarrow> bool" where
  "unraced_poll (PollConfig g i k) w \<longleftrightarrow>
     cfg_Num (curConfig (wd_states w g ! i)) = cfg_Num (curConfig (wd_states w g ! k))"
| "unraced_poll _ w \<longleftrightarrow> True"

definition steady_step :: "Config list \<Rightarrow> mig_event \<Rightarrow> World \<Rightarrow> World option" where
  "steady_step H e w = (if unraced_poll e w then mig_step H e w else None)"

section \<open>The flat database\<close>

text \<open>What the groups implement together: one map, and the effect of a write on it.\<close>

fun spec_op :: "SkOp \<Rightarrow> shard_data \<Rightarrow> shard_data" where
  "spec_op op db =
     (case sko_OpType op of
        Put \<Rightarrow> db(sko_Key op \<mapsto> sko_Value op)
      | Append \<Rightarrow> db(sko_Key op \<mapsto> (case db (sko_Key op) of None \<Rightarrow> [] | Some v \<Rightarrow> v) @ sko_Value op)
      | _ \<Rightarrow> db)"

definition database :: "SkOp list \<Rightarrow> shard_data" where
  "database ops = fold spec_op ops (\<lambda>_. None)"

definition in_shard :: "nat \<Rightarrow> shard_data \<Rightarrow> shard_data" where
  "in_shard s db = db |` {key. key2shard key = int s}"

lemma database_snoc: "database (ops @ [op]) = spec_op op (database ops)"
  by (simp add: database_def)

lemma spec_op_write:
  "sko_OpType op \<in> {Put, Append} \<Longrightarrow> spec_op op db = db(sko_Key op \<mapsto> written op (db (sko_Key op)))"
  by (auto simp: written_def)

lemma in_shard_write:
  assumes "sko_OpType op \<in> {Put, Append}"
  shows "in_shard s (spec_op op db) =
    (if op_shard op = int s then (in_shard s db)(sko_Key op \<mapsto> written op (in_shard s db (sko_Key op)))
     else in_shard s db)"
  unfolding spec_op_write [OF assms] by (auto simp: in_shard_def restrict_map_def fun_eq_iff)

lemma in_shard_untouched:
  assumes "\<forall>op \<in> set ops. op_shard op \<noteq> int s"
  shows "in_shard s (database ops) = (\<lambda>_. None)"
  using assms
proof (induction ops rule: rev_induct)
  case (snoc op ops)
  then show ?case
    by (cases "sko_OpType op \<in> {Put, Append}")
      (auto simp: database_snoc in_shard_write simp del: spec_op.simps split: SkOpType.splits,
       auto split: SkOpType.splits)
qed (simp add: database_def in_shard_def fun_eq_iff restrict_map_def)

section \<open>The invariant\<close>

definition recorded :: "SkOp \<Rightarrow> sessions \<Rightarrow> bool" where
  "recorded op ss \<longleftrightarrow> (case ss (sko_ClientId op) of
     None \<Rightarrow> False | Some s \<Rightarrow> sko_CmdNum op \<le> sks_LastCmdNum s)"

lemma settled_recorded: "settled op kv = recorded op (kv_sessions kv)"
  by (simp add: settled_def recorded_def)

text \<open>A copy of a shard that is up to date with the writes executed so far.\<close>

definition fresh :: "SkOp list \<Rightarrow> nat \<Rightarrow> shard_data \<Rightarrow> sessions \<Rightarrow> bool" where
  "fresh ops s d ss \<longleftrightarrow> d = in_shard s (database ops) \<and>
     (\<forall>op \<in> set ops. op_shard op = int s \<longrightarrow> recorded op ss)"

definition fits :: "SkOp list \<Rightarrow> nat \<Rightarrow> ShardKV \<Rightarrow> bool" where
  "fits ops s kv \<longleftrightarrow> (\<exists>d. kvDB kv (int s) = Some d \<and> fresh ops s d (kv_sessions kv))"

text \<open>The owner of a shard in configuration \<open>m\<close> has had its data.\<close>

definition received :: "Config list \<Rightarrow> World \<Rightarrow> nat \<Rightarrow> nat \<Rightarrow> bool" where
  "received H w m s \<longleftrightarrow> (let g = owner H m s; kv = current w g in
     g \<noteq> 0 \<and> (m < version kv \<or> m = version kv \<and> status kv s = Exist))"

definition passed_on :: "Config list \<Rightarrow> World \<Rightarrow> nat \<Rightarrow> nat \<Rightarrow> bool" where
  "passed_on H w m s \<longleftrightarrow> owner H (m - 1) s \<noteq> 0 \<and> m \<le> version (current w (owner H (m - 1) s))"

definition message_ok :: "Config list \<Rightarrow> World \<Rightarrow> int \<times> SkOp \<Rightarrow> bool" where
  "message_ok H w msg \<longleftrightarrow> (let g = fst msg; op = snd msg; kv = current w g in
     g \<noteq> 0 \<and> proper H op \<and> sko_OpType op \<in> {UpdateConfig, GetShard, GiveShard} \<and>
     (sko_OpType op = UpdateConfig \<longrightarrow> sko_CfgNum op \<le> int (version kv) \<or>
        sko_CfgNum op = int (Suc (version kv)) \<and> updateConfigReady kv) \<and>
     (\<forall>m s. s < NShards \<and> sko_CfgNum op = int m \<and> sko_ShardNum op = int s \<longrightarrow>
        (sko_OpType op = GetShard \<longrightarrow> 2 \<le> m \<and> passed_on H w m s) \<and>
        (sko_OpType op = GiveShard \<longrightarrow> received H w m s)))"

definition data_ok :: "Config list \<Rightarrow> World \<Rightarrow> SkOp \<Rightarrow> bool" where
  "data_ok H w op \<longleftrightarrow> (\<forall>m s. sko_OpType op = GetShard \<and> s < NShards \<and>
     sko_CfgNum op = int m \<and> sko_ShardNum op = int s \<and> \<not> received H w m s \<longrightarrow>
     fresh (wd_done w) s (sko_ShardData op) (sko_SessionData op))"

definition groups_ok :: "Config list \<Rightarrow> World \<Rightarrow> bool" where
  "groups_ok H w \<longleftrightarrow> (\<forall>g. g \<noteq> 0 \<longrightarrow> wd_states w g \<noteq> [] \<and>
     (\<forall>kv \<in> set (wd_states w g). kv_ok H g kv \<and> later kv (current w g)))"

definition handover_ok :: "Config list \<Rightarrow> World \<Rightarrow> bool" where
  "handover_ok H w \<longleftrightarrow> (\<forall>m s. 2 \<le> m \<and> s < NShards \<and> received H w m s \<longrightarrow> passed_on H w m s)"

definition served_ok :: "World \<Rightarrow> bool" where
  "served_ok w \<longleftrightarrow> (\<forall>g s. g \<noteq> 0 \<and> s < NShards \<and> status (current w g) s = Exist \<longrightarrow>
     fits (wd_done w) s (current w g))"

definition kept_ok :: "Config list \<Rightarrow> World \<Rightarrow> bool" where
  "kept_ok H w \<longleftrightarrow> (\<forall>g kv s. g \<noteq> 0 \<and> kv \<in> set (wd_states w g) \<and> s < NShards \<and> version kv \<noteq> 0 \<and>
     owner H (version kv - 1) s = g \<and> \<not> received H w (version kv) s \<longrightarrow> fits (wd_done w) s kv)"

definition done_ok :: "Config list \<Rightarrow> World \<Rightarrow> bool" where
  "done_ok H w \<longleftrightarrow> distinct (wd_done w) \<and>
     (\<forall>op \<in> set (wd_done w). received H w 1 (nat (op_shard op)))"

definition world_ok :: "Config list \<Rightarrow> World \<Rightarrow> bool" where
  "world_ok H w \<longleftrightarrow> groups_ok H w \<and> handover_ok H w \<and> served_ok w \<and> kept_ok H w \<and> done_ok H w \<and>
     (\<forall>msg \<in> set (wd_net w). message_ok H w msg \<and> data_ok H w (snd msg))"

lemma current_ok: "groups_ok H w \<Longrightarrow> g \<noteq> 0 \<Longrightarrow> kv_ok H g (current w g)"
  by (auto simp: groups_ok_def current_def)

lemma received_down:
  assumes ok: "handover_ok H w" and r: "received H w m s" and s: "s < NShards" and "1 \<le> k" "k \<le> m"
  shows "received H w k s"
  using assms(4,5) r
proof (induction "m - k" arbitrary: m)
  case (Suc d)
  then have "2 \<le> m" by simp
  with ok s Suc.prems(3) have "passed_on H w m s" by (auto simp: handover_ok_def)
  then have "received H w (m - 1) s"
    using \<open>2 \<le> m\<close> by (auto simp: passed_on_def received_def Let_def)
  with Suc show ?case by (intro Suc.hyps(1) [of "m - 1"]) auto
qed auto

text \<open>While a group serves a shard, nobody is ahead of it in the chain of owners.\<close>

lemma serving_last:
  assumes w: "groups_ok H w" "handover_ok H w" and g: "g \<noteq> 0" and s: "s < NShards"
    and serves: "status (current w g) s = Exist"
  shows "received H w (version (current w g)) s" and "version (current w g) \<noteq> 0"
    and "owner H (version (current w g)) s = g"
    and "received H w m s \<Longrightarrow> m \<le> version (current w g)"
    and "1 \<le> m \<Longrightarrow> passed_on H w m s \<Longrightarrow> received H w m s"
proof -
  let ?n = "version (current w g)"
  have own: "?n \<noteq> 0" "owner H ?n s = g"
    using kv_ok_shard(5) [OF current_ok [OF w(1) g] s serves] by blast+
  then show "?n \<noteq> 0" and "owner H ?n s = g" by blast+
  show r: "received H w ?n s"
    by (simp add: received_def own g serves)
  show less: "m \<le> ?n" if "received H w m s" for m
  proof (rule ccontr)
    assume "\<not> m \<le> ?n"
    then have "received H w (Suc ?n) s" by (intro received_down [OF w(2) that s]) auto
    then have "passed_on H w (Suc ?n) s" using w(2) s own unfolding handover_ok_def by force
    with own show False by (simp add: passed_on_def)
  qed
  show "received H w m s" if "1 \<le> m" "passed_on H w m s"
  proof -
    from that have "received H w (m - 1) s" by (auto simp: passed_on_def received_def Let_def)
    then have "m - 1 \<le> ?n" by (rule less)
    moreover have "m - 1 \<noteq> ?n"
    proof
      assume eq: "m - 1 = ?n"
      from that(2) have "m \<le> ?n" unfolding passed_on_def eq own(2) by blast
      with eq that(1) show False by linarith
    qed
    ultimately show ?thesis using that(1) by (intro received_down [OF w(2) r s]) auto
  qed
qed

lemma serving_unique:
  assumes w: "groups_ok H w" "handover_ok H w" and s: "s < NShards"
    and "g \<noteq> 0" "status (current w g) s = Exist" and "g' \<noteq> 0" "status (current w g') s = Exist"
  shows "g = g'"
proof -
  note a = serving_last [OF w assms(4) s assms(5)] and b = serving_last [OF w assms(6) s assms(7)]
  have "version (current w g) = version (current w g')"
    by (rule le_antisym [OF b(4) [OF a(1)] a(4) [OF b(1)]])
  then show ?thesis using a(3) b(3) by metis
qed

section \<open>A group takes a step\<close>

definition extend :: "int \<Rightarrow> ShardKV \<Rightarrow> SkOp list \<Rightarrow> World \<Rightarrow> World" where
  "extend g kv ops w = w\<lparr>wd_states := (wd_states w)(g := kv # wd_states w g), wd_done := wd_done w @ ops\<rparr>"

lemma extend_fields [simp]:
  "current (extend g kv ops w) h = (if h = g then kv else current w h)"
  "wd_done (extend g kv ops w) = wd_done w @ ops" "wd_net (extend g kv ops w) = wd_net w"
  "wd_states (extend g kv ops w) h = (if h = g then kv # wd_states w g else wd_states w h)"
  by (simp_all add: extend_def current_def)

lemma groups_extend:
  assumes "groups_ok H w" and "kv_ok H g kv" and "later (current w g) kv"
  shows "groups_ok H (extend g kv ops w)"
  using assms by (auto simp: groups_ok_def intro: later_trans)

lemma received_extend:
  assumes "later (current w g) kv" and "s < NShards" and r: "received H w m s"
  shows "received H (extend g kv ops w) m s"
proof (cases "owner H m s = g")
  case True
  then have "g \<noteq> 0" and "m < version (current w g) \<or> m = version (current w g) \<and> status (current w g) s = Exist"
    using r by (simp_all add: received_def Let_def)
  with assms(1,2) True show ?thesis
    using later_version [OF assms(1)] later_Exist [OF assms(1)]
    by (cases "version (current w g) = version kv") (auto simp: received_def Let_def)
qed (use r in \<open>simp add: received_def Let_def\<close>)

lemma passed_extend:
  "later (current w g) kv \<Longrightarrow> passed_on H w m s \<Longrightarrow> passed_on H (extend g kv ops w) m s"
  using later_version by (auto simp: passed_on_def intro: le_trans)

lemma message_extend:
  assumes w: "groups_ok H w" and kv: "kv_ok H g kv" "later (current w g) kv"
    and msg: "message_ok H w msg"
  shows "message_ok H (extend g kv ops w) msg"
proof -
  let ?op = "snd msg" and ?h = "fst msg"
  have h: "?h \<noteq> 0" "proper H ?op" "sko_OpType ?op \<in> {UpdateConfig, GetShard, GiveShard}"
    using msg by (simp_all add: message_ok_def Let_def)
  have update: "sko_CfgNum ?op \<le> int (version (current (extend g kv ops w) ?h)) \<or>
      sko_CfgNum ?op = int (Suc (version (current (extend g kv ops w) ?h))) \<and>
      updateConfigReady (current (extend g kv ops w) ?h)" if "sko_OpType ?op = UpdateConfig"
  proof (cases "?h = g")
    case True
    have old: "sko_CfgNum ?op \<le> int (version (current w g)) \<or>
      sko_CfgNum ?op = int (Suc (version (current w g))) \<and> updateConfigReady (current w g)"
      using msg that True by (simp add: message_ok_def Let_def)
    have len: "length (ownedShards (current w g)) = NShards" "length (ownedShards kv) = NShards"
      using kv current_ok [OF w] h True by (auto simp: kv_ok_def all_maps_def)
    show ?thesis
      using old later_version [OF kv(2)] later_ready [OF kv(2) _ _ len] True
      by (cases "version (current w g) = version kv") auto
  qed (use msg that in \<open>simp add: message_ok_def Let_def\<close>)
  have "(sko_OpType ?op = GetShard \<longrightarrow> 2 \<le> m \<and> passed_on H (extend g kv ops w) m s) \<and>
        (sko_OpType ?op = GiveShard \<longrightarrow> received H (extend g kv ops w) m s)"
    if "s < NShards \<and> sko_CfgNum ?op = int m \<and> sko_ShardNum ?op = int s" for m s
    using msg that passed_extend [OF kv(2)] received_extend [OF kv(2)]
    by (auto simp: message_ok_def Let_def)
  with h update show ?thesis unfolding message_ok_def Let_def by blast
qed

lemma fresh_other:
  assumes "\<forall>op \<in> set ops'. sko_OpType op \<in> {Put, Append} \<and> op_shard op \<noteq> int s"
    and "fresh ops s d ss"
  shows "fresh (ops @ ops') s d ss"
  using assms
proof (induction ops' rule: rev_induct)
  case (snoc op ops')
  then show ?case
    by (auto simp: fresh_def in_shard_write database_snoc append_assoc [symmetric]
        simp del: spec_op.simps append_assoc)
qed simp

lemma fits_other:
  "\<forall>op \<in> set ops'. sko_OpType op \<in> {Put, Append} \<and> op_shard op \<noteq> int s \<Longrightarrow> fits ops s kv \<Longrightarrow>
   fits (ops @ ops') s kv"
  using fresh_other by (auto simp: fits_def)

text \<open>The writes a group executes touch only shards that nobody waits for.\<close>

definition serves_all :: "World \<Rightarrow> int \<Rightarrow> SkOp list \<Rightarrow> bool" where
  "serves_all w g ops \<longleftrightarrow> (\<forall>op \<in> set ops. sko_OpType op \<in> {Put, Append} \<and>
     status (current w g) (nat (op_shard op)) = Exist)"

abbreviation untouched :: "SkOp list \<Rightarrow> nat \<Rightarrow> bool" where
  "untouched ops s \<equiv> \<forall>op \<in> set ops. sko_OpType op \<in> {Put, Append} \<and> op_shard op \<noteq> int s"

lemma op_shard_nat: "nat (op_shard op) = s \<longleftrightarrow> op_shard op = int s"
  using key2shard_range(1) [of "sko_Key op"] by auto

lemma untouched_waiting:
  assumes w: "groups_ok H w" "handover_ok H w" and g: "g \<noteq> 0" and "serves_all w g ops"
    and "s < NShards" "1 \<le> m" "passed_on H w m s" "\<not> received H w m s"
  shows "untouched ops s"
  using assms serving_last(5) [OF w g assms(5)] op_shard_nat unfolding serves_all_def by metis

lemma untouched_elsewhere:
  assumes w: "groups_ok H w" "handover_ok H w" and g: "g \<noteq> 0" and "serves_all w g ops"
    and "s < NShards" "h \<noteq> 0" "h \<noteq> g" "status (current w h) s = Exist"
  shows "untouched ops s"
  using assms serving_unique [OF w assms(5) _ _ g] op_shard_nat unfolding serves_all_def by metis

lemma served_extend:
  assumes w: "groups_ok H w" "handover_ok H w" "served_ok w" and g: "g \<noteq> 0"
    and writes: "serves_all w g ops"
    and serves: "\<And>s. s < NShards \<Longrightarrow> status kv s = Exist \<Longrightarrow> fits (wd_done w @ ops) s kv"
  shows "served_ok (extend g kv ops w)"
proof -
  have "fits (wd_done w @ ops) s (current w h)"
    if "h \<noteq> 0" "h \<noteq> g" "s < NShards" "status (current w h) s = Exist" for h s
    using that w(3) by (intro fits_other untouched_elsewhere [OF w(1,2) g writes])
      (auto simp: served_ok_def)
  with serves show ?thesis by (simp add: served_ok_def)
qed

lemma kept_extend:
  assumes w: "groups_ok H w" "handover_ok H w" "kept_ok H w" and g: "g \<noteq> 0"
    and kv: "later (current w g) kv" and writes: "serves_all w g ops"
    and keeps: "\<And>s. s < NShards \<Longrightarrow> version kv \<noteq> 0 \<Longrightarrow> owner H (version kv - 1) s = g \<Longrightarrow>
      \<not> received H (extend g kv ops w) (version kv) s \<Longrightarrow> fits (wd_done w @ ops) s kv"
  shows "kept_ok H (extend g kv ops w)"
proof -
  have "fits (wd_done w @ ops) s kv'" if h: "h \<noteq> 0" "kv' \<in> set (wd_states w h)" and s: "s < NShards"
    and v: "version kv' \<noteq> 0" "owner H (version kv' - 1) s = h"
    and not: "\<not> received H (extend g kv ops w) (version kv') s" for h kv' s
  proof (rule fits_other)
    have nr: "\<not> received H w (version kv') s" using not received_extend [OF kv s] by blast
    have "later kv' (current w h)" using w(1) h by (simp add: groups_ok_def)
    then have "passed_on H w (version kv') s"
      using later_version v h(1) by (simp add: passed_on_def)
    with nr s v(1) show "untouched ops s"
      by (intro untouched_waiting [OF w(1,2) g writes]) auto
    show "fits (wd_done w) s kv'" using w(3) h s v nr unfolding kept_ok_def by blast
  qed
  with keeps show ?thesis by (fastforce simp: kept_ok_def split: if_splits)
qed

lemma done_extend:
  assumes w: "groups_ok H w" "handover_ok H w" "done_ok H w" and g: "g \<noteq> 0"
    and kv: "later (current w g) kv" and writes: "serves_all w g ops" and new: "distinct (wd_done w @ ops)"
  shows "done_ok H (extend g kv ops w)"
proof -
  have "received H w 1 (nat (op_shard op))" if "op \<in> set ops" for op
  proof -
    from writes that have "status (current w g) (nat (op_shard op)) = Exist"
      by (simp add: serves_all_def)
    note sl = serving_last [OF w(1,2) g nat_key2shard this]
    show ?thesis using sl(2) by (intro received_down [OF w(2) sl(1) nat_key2shard]) auto
  qed
  with new w(3) show ?thesis
    by (auto simp: done_ok_def intro: received_extend [OF kv nat_key2shard])
qed

lemma data_extend:
  assumes w: "groups_ok H w" "handover_ok H w" and g: "g \<noteq> 0"
    and kv: "later (current w g) kv" and writes: "serves_all w g ops"
    and msg: "message_ok H w msg" "data_ok H w (snd msg)"
  shows "data_ok H (extend g kv ops w) (snd msg)"
  unfolding data_ok_def
proof (intro allI impI)
  fix m s
  assume *: "sko_OpType (snd msg) = GetShard \<and> s < NShards \<and> sko_CfgNum (snd msg) = int m \<and>
    sko_ShardNum (snd msg) = int s \<and> \<not> received H (extend g kv ops w) m s"
  then have nr: "\<not> received H w m s" using received_extend [OF kv] by blast
  moreover have "2 \<le> m" "passed_on H w m s"
    using msg(1) * by (auto simp: message_ok_def Let_def)
  ultimately have "untouched ops s"
    using * by (intro untouched_waiting [OF w g writes]) auto
  moreover have "fresh (wd_done w) s (sko_ShardData (snd msg)) (sko_SessionData (snd msg))"
    using msg(2) * nr by (simp add: data_ok_def)
  ultimately show "fresh (wd_done (extend g kv ops w)) s (sko_ShardData (snd msg)) (sko_SessionData (snd msg))"
    by (simp add: fresh_other)
qed

text \<open>
  What is left to show for a step of a group: the shards it newly has were passed on, what it
  serves or holds for others is up to date, and the write it executes is new and on a shard
  it serves.
\<close>

lemma world_ok_extend:
  assumes w: "world_ok H w" and g: "g \<noteq> 0" and kv: "kv_ok H g kv" "later (current w g) kv"
    and taken: "\<And>m s. 2 \<le> m \<Longrightarrow> s < NShards \<Longrightarrow> received H (extend g kv ops w) m s \<Longrightarrow>
      \<not> received H w m s \<Longrightarrow> passed_on H (extend g kv ops w) m s"
    and serves: "\<And>s. s < NShards \<Longrightarrow> status kv s = Exist \<Longrightarrow> fits (wd_done w @ ops) s kv"
    and keeps: "\<And>s. s < NShards \<Longrightarrow> version kv \<noteq> 0 \<Longrightarrow> owner H (version kv - 1) s = g \<Longrightarrow>
      \<not> received H (extend g kv ops w) (version kv) s \<Longrightarrow> fits (wd_done w @ ops) s kv"
    and writes: "serves_all w g ops" and new: "distinct (wd_done w @ ops)"
  shows "world_ok H (extend g kv ops w)"
proof -
  have ok: "groups_ok H w" "handover_ok H w" "served_ok w" "kept_ok H w" "done_ok H w"
    and net: "\<forall>msg \<in> set (wd_net w). message_ok H w msg \<and> data_ok H w (snd msg)"
    using w by (auto simp: world_ok_def)
  have "handover_ok H (extend g kv ops w)"
    using ok(2) taken passed_extend [OF kv(2)] unfolding handover_ok_def by blast
  then show ?thesis
    using net groups_extend [OF ok(1) kv] served_extend [OF ok(1-3) g writes serves]
      kept_extend [OF ok(1,2,4) g kv(2) writes keeps] done_extend [OF ok(1,2,5) g kv(2) writes new]
      message_extend [OF ok(1) kv] data_extend [OF ok(1,2) g kv(2) writes]
    by (simp add: world_ok_def)
qed

section \<open>Every command keeps the invariant\<close>

lemma world_okD:
  assumes "world_ok H w"
  shows "groups_ok H w" and "handover_ok H w" and "served_ok w" and "kept_ok H w" and "done_ok H w"
    and "msg \<in> set (wd_net w) \<Longrightarrow> message_ok H w msg \<and> data_ok H w (snd msg)"
  using assms by (auto simp: world_ok_def)

lemma fits_mono:
  assumes "fits ops s kv" and "kvDB kv' (int s) = kvDB kv (int s)"
    and "\<And>op. settled op kv \<Longrightarrow> settled op kv'"
  shows "fits ops s kv'"
  using assms by (auto simp: fits_def fresh_def settled_recorded)

lemma fits_served:
  "world_ok H w \<Longrightarrow> g \<noteq> 0 \<Longrightarrow> s < NShards \<Longrightarrow> status (current w g) s = Exist \<Longrightarrow>
   fits (wd_done w) s (current w g)"
  by (simp add: world_ok_def served_ok_def)

lemma fits_kept:
  assumes "world_ok H w" and "g \<noteq> 0" and "s < NShards" and "version (current w g) \<noteq> 0"
    and "owner H (version (current w g) - 1) s = g" and "\<not> received H w (version (current w g)) s"
  shows "fits (wd_done w) s (current w g)"
proof -
  have "current w g \<in> set (wd_states w g)"
    using world_okD(1) [OF assms(1)] assms(2) by (simp add: groups_ok_def current_def)
  with assms show ?thesis unfolding world_ok_def kept_ok_def by blast
qed

lemma received_same:
  assumes "version kv = version (current w g)" and "status kv s = status (current w g) s"
  shows "received H (extend g kv ops w) m s = received H w m s"
  using assms by (simp add: received_def Let_def)

lemma later_bump [simp]: "later (bump i kv) kv' = later kv kv'" "later kv (bump i kv') = later kv kv'"
  by (simp_all add: later_def)

lemma wrote_fields [simp]:
  "version (wrote op m kv) = version kv" "ownedShards (wrote op m kv) = ownedShards kv"
  by (simp_all add: version_def wrote_def)

lemma deliver_same:
  assumes w: "world_ok H w" and g: "g \<noteq> 0" and kv: "kv = current w g \<or> kv = bump i (current w g)"
  shows "world_ok H (extend g kv [] w)"
proof (rule world_ok_extend [OF w g])
  show "kv_ok H g kv" and "later (current w g) kv"
    using kv current_ok [OF world_okD(1) [OF w] g] by auto
  have same: "version kv = version (current w g)" "ownedShards kv = ownedShards (current w g)"
    "kvDB kv = kvDB (current w g)" "settled op (current w g) \<Longrightarrow> settled op kv" for op
    using kv by auto
  have fk: "fits ops s (current w g) \<Longrightarrow> fits ops s kv" for ops s
    by (erule fits_mono) (use same in auto)
  show "fits (wd_done w @ []) s kv" if "s < NShards" "status kv s = Exist" for s
    using fits_served [OF w g] that same by (intro fk) auto
  show "fits (wd_done w @ []) s kv" if "s < NShards" "version kv \<noteq> 0" "owner H (version kv - 1) s = g"
    "\<not> received H (extend g kv [] w) (version kv) s" for s
    using fits_kept [OF w g] that same received_same [OF same(1)] by (intro fk) auto
  show "passed_on H (extend g kv [] w) m s" if "received H (extend g kv [] w) m s" "\<not> received H w m s" for m s
    using that received_same same by metis
  show "distinct (wd_done w @ [])" using world_okD(5) [OF w] by (simp add: done_ok_def)
qed (simp add: serves_all_def)

lemma fits_wrote:
  assumes op: "executes op kv" and m: "kvDB kv (op_shard op) = Some m" and fits: "fits ops s kv"
  shows "fits (ops @ [op]) s (wrote op m kv)"
proof (cases "op_shard op = int s")
  case True
  have "sko_OpType op \<in> {Put, Append}" using op by (simp add: executes_def)
  with fits m True have "fresh (ops @ [op]) s (m(sko_Key op \<mapsto> written op (m (sko_Key op)))) (kv_sessions (wrote op m kv))"
    using settled_wrote(1) [OF op, of _ m] settled_wrote(2) [OF op, of m]
    by (auto simp: fits_def fresh_def settled_recorded database_snoc in_shard_write simp del: spec_op.simps)
  with True show ?thesis by (simp add: fits_def wrote_def)
next
  case False
  then have "fits (ops @ [op]) s kv"
    using fits op by (intro fits_other) (auto simp: executes_def)
  then show ?thesis
    by (rule fits_mono) (use False settled_wrote(1) [OF op] in \<open>auto simp: wrote_def\<close>)
qed

lemma deliver_write:
  assumes w: "world_ok H w" and g: "g \<noteq> 0" and op: "executes op (current w g)"
    and m: "kvDB (current w g) (op_shard op) = Some m"
  shows "world_ok H (extend g (wrote op m (bump i (current w g))) [op] w)"
proof (rule world_ok_extend [OF w g])
  let ?b = "bump i (current w g)"
  have ok: "kv_ok H g ?b" and ex: "executes op ?b" and m': "kvDB ?b (op_shard op) = Some m"
    using current_ok [OF world_okD(1) [OF w] g] op m by auto
  have ser: "status (current w g) (nat (op_shard op)) = Exist" "sko_OpType op \<in> {Put, Append}"
    using op by (auto simp: executes_def checkKeyInGroup_def)
  show "kv_ok H g (wrote op m ?b)" and "later (current w g) (wrote op m ?b)"
    using kv_ok_wrote [OF ok ex] by auto
  show "serves_all w g [op]" using ser by (simp add: serves_all_def)
  have fb: "fits ops s (current w g) \<Longrightarrow> fits ops s ?b" for ops s by (erule fits_mono) auto
  show "fits (wd_done w @ [op]) s (wrote op m ?b)" if "s < NShards" "status (wrote op m ?b) s = Exist" for s
    using that fits_served [OF w g] by (intro fits_wrote [OF ex m'] fb) auto
  show "fits (wd_done w @ [op]) s (wrote op m ?b)" if "s < NShards" "version (wrote op m ?b) \<noteq> 0"
    "owner H (version (wrote op m ?b) - 1) s = g"
    "\<not> received H (extend g (wrote op m ?b) [op] w) (version (wrote op m ?b)) s" for s
    using that received_same [of "wrote op m ?b" w g]
    by (intro fits_wrote [OF ex m'] fb fits_kept [OF w g]) auto
  show "passed_on H (extend g (wrote op m ?b) [op] w) k s"
    if "received H (extend g (wrote op m ?b) [op] w) k s" "\<not> received H w k s" for k s
    using that received_same [of "wrote op m ?b" w g] by auto
  have "recorded op (kv_sessions (current w g))" if "op \<in> set (wd_done w)"
    using fits_served [OF w g nat_key2shard ser(1)] that by (auto simp: fits_def fresh_def)
  moreover have "sko_OpType op \<noteq> Get" using ser(2) by auto
  then have "\<not> settled op (current w g)"
    using op by (simp add: executes_def sk_duplicate_settled)
  ultimately show "distinct (wd_done w @ [op])"
    using world_okD(5) [OF w] by (auto simp: done_ok_def settled_recorded)
qed

lemma recorded_merge: "recorded op new \<Longrightarrow> recorded op (mergeSessions new own)"
  by (auto simp: recorded_def mergeSessions_def split: option.splits)

lemma got_fields [simp]:
  "version (got op s kv) = version kv" "ownedShards (got op s kv) = (ownedShards kv)[s := Exist]"
  "t \<noteq> s \<Longrightarrow> kvDB (got op s kv) (int t) = kvDB kv (int t)"
  by (simp_all add: version_def got_def)

lemma gave_fields [simp]:
  "version (gave s kv) = version kv" "ownedShards (gave s kv) = (ownedShards kv)[s := NoExist]"
  "t \<noteq> s \<Longrightarrow> kvDB (gave s kv) (int t) = kvDB kv (int t)" "settled op (gave s kv) = settled op kv"
  by (simp_all add: version_def gave_def settled_def)

lemma deliver_got:
  assumes w: "world_ok H w" and g: "g \<noteq> 0" and s: "s < NShards"
    and st: "status (current w g) s = WaitGet" and msg: "(g, op) \<in> set (wd_net w)"
    and op: "sko_OpType op = GetShard" "sko_CfgNum op = int (version (current w g))" "sko_ShardNum op = int s"
  shows "world_ok H (extend g (got op s (bump i (current w g))) [] w)"
proof (rule world_ok_extend [OF w g])
  let ?b = "bump i (current w g)" and ?n = "version (current w g)"
  let ?w' = "extend g (got op s ?b) [] w"
  have cur: "kv_ok H g (current w g)" by (rule current_ok [OF world_okD(1) [OF w] g])
  then have ok: "kv_ok H g ?b" by auto
  have stb: "status ?b s = WaitGet" using st by simp
  have own: "owner H ?n s = g" using kv_ok_shard(6) [OF cur s st] .
  have len: "length (ownedShards (current w g)) = NShards" using cur by (simp add: kv_ok_def all_maps_def)
  show "kv_ok H g (got op s ?b)" and "later (current w g) (got op s ?b)"
    using kv_ok_got [OF ok s stb, of op] by auto
  show "serves_all w g []" by (simp add: serves_all_def)
  show "distinct (wd_done w @ [])" using world_okD(5) [OF w] by (simp add: done_ok_def)
  have "message_ok H w (g, op)" "data_ok H w op" using world_okD(6) [OF w msg] by auto
  then have pass: "passed_on H w ?n s"
    and data: "\<not> received H w ?n s \<Longrightarrow> fresh (wd_done w) s (sko_ShardData op) (sko_SessionData op)"
    using s op by (auto simp: message_ok_def data_ok_def Let_def)
  have not: "\<not> received H w ?n s" using own st by (simp add: received_def Let_def)
  have now: "received H ?w' ?n s" using own g s len by (simp add: received_def Let_def)
  have other: "received H ?w' m t = received H w m t" if "t \<noteq> s" for m t
    by (rule received_same) (use that in auto)
  have only: "m = ?n" if "received H ?w' m s" "\<not> received H w m s" for m
    using that s len by (auto simp: received_def Let_def split: if_splits)
  have "later (current w g) (got op s ?b)" using kv_ok_got [OF ok s stb, of op] by auto
  from passed_extend [OF this pass]
  show "passed_on H ?w' m t" if "received H ?w' m t" "\<not> received H w m t" for m t
    using that other only by (cases "t = s") auto
  have keep: "fits ops t (current w g) \<Longrightarrow> fits ops t (got op s ?b)" if "t \<noteq> s" for ops t
    by (erule fits_mono) (use that settled_got in auto)
  show "fits (wd_done w @ []) t (got op s ?b)" if "t < NShards" "status (got op s ?b) t = Exist" for t
  proof (cases "t = s")
    case True
    with data [OF not] show ?thesis
      by (auto simp: fits_def fresh_def got_def intro: recorded_merge)
  next
    case False
    with that fits_served [OF w g, of t] keep [OF False] show ?thesis by auto
  qed
  show "fits (wd_done w @ []) t (got op s ?b)" if "t < NShards" "version (got op s ?b) \<noteq> 0"
    "owner H (version (got op s ?b) - 1) t = g" "\<not> received H ?w' (version (got op s ?b)) t" for t
  proof -
    have "t \<noteq> s" using that(4) now by auto
    with that other [OF this] fits_kept [OF w g, of t] keep [OF this] show ?thesis by auto
  qed
qed

lemma deliver_gave:
  assumes w: "world_ok H w" and g: "g \<noteq> 0" and s: "s < NShards"
    and st: "status (current w g) s = WaitGive" and msg: "(g, op) \<in> set (wd_net w)"
    and op: "sko_OpType op = GiveShard" "sko_CfgNum op = int (version (current w g))" "sko_ShardNum op = int s"
  shows "world_ok H (extend g (gave s (bump i (current w g))) [] w)"
proof (rule world_ok_extend [OF w g])
  let ?b = "bump i (current w g)" and ?n = "version (current w g)"
  let ?w' = "extend g (gave s ?b) [] w"
  have cur: "kv_ok H g (current w g)" by (rule current_ok [OF world_okD(1) [OF w] g])
  then have ok: "kv_ok H g ?b" by auto
  have stb: "status ?b s = WaitGive" using st by simp
  have len: "length (ownedShards (current w g)) = NShards" using cur by (simp add: kv_ok_def all_maps_def)
  show kv': "kv_ok H g (gave s ?b)" "later (current w g) (gave s ?b)"
    using kv_ok_gave [OF ok s stb] by auto
  show "serves_all w g []" by (simp add: serves_all_def)
  show "distinct (wd_done w @ [])" using world_okD(5) [OF w] by (simp add: done_ok_def)
  have "message_ok H w (g, op)" using world_okD(6) [OF w msg] by auto
  then have rec: "received H w ?n s" using s op by (auto simp: message_ok_def Let_def)
  have less: "received H w m t" if "received H ?w' m t" "t < NShards" for m t
    using that len by (cases "t = s") (auto simp: received_def Let_def split: if_splits)
  show "passed_on H ?w' m t" if "t < NShards" "received H ?w' m t" "\<not> received H w m t" for m t
    using that less by blast
  have keep: "fits ops t (current w g) \<Longrightarrow> fits ops t (gave s ?b)" if "t \<noteq> s" for ops t
    by (erule fits_mono) (use that in auto)
  show "fits (wd_done w @ []) t (gave s ?b)" if "t < NShards" "status (gave s ?b) t = Exist" for t
  proof -
    have "t \<noteq> s" using that s len by auto
    with that fits_served [OF w g, of t] keep [OF this] show ?thesis by auto
  qed
  show "fits (wd_done w @ []) t (gave s ?b)" if "t < NShards" "version (gave s ?b) \<noteq> 0"
    "owner H (version (gave s ?b) - 1) t = g" "\<not> received H ?w' (version (gave s ?b)) t" for t
  proof -
    have nr: "\<not> received H w ?n t" using that(1,4) received_extend [OF kv'(2)] by auto
    then have "t \<noteq> s" using rec by auto
    with nr that fits_kept [OF w g, of t] keep [OF this] show ?thesis by auto
  qed
qed

lemma deliver_adopted:
  assumes hist: "hist_ok H" and w: "world_ok H w" and g: "g \<noteq> 0"
    and ready: "updateConfigReady (current w g)" and n: "Suc (version (current w g)) < length H"
  shows "world_ok H (extend g (adopted H (bump i (current w g))) [] w)"
proof (rule world_ok_extend [OF w g])
  let ?b = "bump i (current w g)" and ?n = "version (current w g)"
  let ?kv = "adopted H ?b"
  let ?w' = "extend g ?kv [] w"
  have cur: "kv_ok H g (current w g)" by (rule current_ok [OF world_okD(1) [OF w] g])
  then have ok: "kv_ok H g ?b" by auto
  have rb: "updateConfigReady ?b" using ready by (simp add: updateConfigReady_def)
  have nb: "Suc (version ?b) < length H" using n by simp
  have v: "version ?kv = Suc ?n" using version_adopted [OF hist nb] by simp
  show kv': "kv_ok H g ?kv" "later (current w g) ?kv"
    using kv_ok_adopted [OF hist nb ok rb] by auto
  show "serves_all w g []" by (simp add: serves_all_def)
  show "distinct (wd_done w @ [])" using world_okD(5) [OF w] by (simp add: done_ok_def)
  have here: "status (current w g) s = Exist" if "owner H ?n s = g" "s < NShards" for s
    using kv_ok_shard(1) [OF cur that(2)] that ready nth_mem [of s "ownedShards (current w g)"] cur
    by (fastforce simp: updateConfigReady_def kv_ok_def all_maps_def)
  have keep: "fits ops s (current w g) \<Longrightarrow> fits ops s ?kv" for ops s
    by (erule fits_mono) (simp_all add: adopted_def Let_def settled_def)
  have old: "fits (wd_done w @ []) s ?kv" if "s < NShards" "owner H ?n s = g" for s
    using fits_served [OF w g that(1) here [OF that(2,1)]] by (simp add: keep)
  show "fits (wd_done w @ []) s ?kv" if "s < NShards" "version ?kv \<noteq> 0" "owner H (version ?kv - 1) s = g" for s
    using that v by (intro old) auto
  show "fits (wd_done w @ []) s ?kv" if s: "s < NShards" and ex: "status ?kv s = Exist" for s
  proof -
    have "owner H (Suc ?n) s = g" and "status (current w g) s = Exist \<or> ?n = 0"
      using status_adopted [OF hist nb s ok rb] ex by (auto split: if_splits)
    then consider "status (current w g) s = Exist" | "?n = 0" "owner H 1 s = g" by auto
    then show ?thesis
    proof cases
      case 1
      then show ?thesis using fits_served [OF w g s] by (simp add: keep)
    next
      case 2
      then have "\<not> received H w 1 s" by (simp add: received_def Let_def)
      then have un: "\<forall>op \<in> set (wd_done w). op_shard op \<noteq> int s"
        using world_okD(5) [OF w] op_shard_nat by (metis done_ok_def)
      have "kvDB ?kv (int s) = Some (\<lambda>_. None)"
        using kv_ok_shard(4) [OF cur s 2(1)] by (simp add: adopted_def Let_def)
      with un show ?thesis by (simp add: fits_def fresh_def in_shard_untouched)
    qed
  qed
  show "passed_on H ?w' m s" if m: "2 \<le> m" and s: "s < NShards" and r: "received H ?w' m s"
    and nr: "\<not> received H w m s" for m s
  proof -
    have own: "owner H m s = g" using r nr by (auto simp: received_def Let_def split: if_splits)
    with r v have "m < Suc ?n \<or> m = Suc ?n \<and> status ?kv s = Exist" by (simp add: received_def Let_def)
    then consider "m < ?n" | "m = ?n" | "m = Suc ?n" "status ?kv s = Exist" by linarith
    then show ?thesis
    proof cases
      case 3
      then have "status (current w g) s = Exist"
        using status_adopted [OF hist nb s ok rb] m by (auto split: if_splits)
      then have "owner H ?n s = g" using kv_ok_shard(5) [OF cur s] by blast
      with 3(1) g v show ?thesis by (simp add: passed_on_def)
    qed (use nr own g here s in \<open>auto simp: received_def Let_def\<close>)
  qed
qed

lemma proposed_proper:
  assumes "world_ok H w" and "sko_OpType op \<in> {Get, Put, Append} \<or> (g, op) \<in> set (wd_net w)"
  shows "proper H op"
proof (cases "sko_OpType op \<in> {Get, Put, Append}")
  case False
  with assms have "message_ok H w (g, op)" using world_okD(6) by blast
  then show ?thesis by (simp add: message_ok_def Let_def)
qed (auto simp: proper_def)

lemma deliver_ok:
  assumes hist: "hist_ok H" and w: "world_ok H w"
    and op: "sko_OpType op \<in> {Get, Put, Append} \<or> (g, op) \<in> set (wd_net w)"
    and run: "deliver g op i w = Some w'"
  shows "world_ok H w'"
proof -
  let ?kv = "current w g"
  obtain kv' where g: "g \<noteq> 0" and i: "i > logLastApplied ?kv" and kv': "applied op i ?kv = Some kv'"
    and w': "w' = extend g kv' (if executes op ?kv then [op] else []) w"
    using run by (auto simp: deliver_def extend_def bind_eq_Some_conv split: if_splits)
  have ok: "kv_ok H g ?kv" by (rule current_ok [OF world_okD(1) [OF w] g])
  then have "\<not> passiveSnapshotBefore ?kv" by (simp add: kv_ok_def)
  with applied_gate [OF i, of op] kv'
  consider (dropped) "kv' = ?kv" "\<not> executes op ?kv" | (run) "sk_command op (bump i ?kv) = Some kv'"
    by (auto simp: executes_def dropped_def split: if_splits)
  then show ?thesis
  proof cases
    case dropped
    with deliver_same [OF w g, of kv'] w' show ?thesis by simp
  next
    case run
    have msg: "message_ok H w (g, op)" if "sko_OpType op \<notin> {Get, Put, Append}"
      using op that world_okD(6) [OF w] by blast
    have proper: "proper H op" by (rule proposed_proper [OF w op])
    have okb: "kv_ok H g (bump i ?kv)" using ok by auto
    show ?thesis
    proof (cases rule: sk_command_cases [OF hist okb proper run])
      case 1
      with deliver_same [OF w g disjI2 [OF refl], of i] w' show ?thesis by simp
    next
      case (2 m)
      with deliver_write [OF w g, of op m i] w' show ?thesis by simp
    next
      case 3
      then have "message_ok H w (g, op)" by (intro msg) auto
      then have "updateConfigReady ?kv" using 3 by (auto simp: message_ok_def Let_def)
      with 3 deliver_adopted [OF hist w g, of i] w' show ?thesis by (simp add: executes_def)
    next
      case (4 s)
      then have "(g, op) \<in> set (wd_net w)" using op by auto
      with 4 deliver_got [OF w g, of s op i] w' show ?thesis by (simp add: executes_def)
    next
      case (5 s)
      then have "(g, op) \<in> set (wd_net w)" using op by auto
      with 5 deliver_gave [OF w g, of s op i] w' show ?thesis by (simp add: executes_def)
    qed
  qed
qed

section \<open>Every proposal keeps the invariant\<close>

lemma net_fields [simp]:
  "current (w\<lparr>wd_net := n\<rparr>) g = current w g" "received H (w\<lparr>wd_net := n\<rparr>) m s = received H w m s"
  "passed_on H (w\<lparr>wd_net := n\<rparr>) m s = passed_on H w m s"
  "groups_ok H (w\<lparr>wd_net := n\<rparr>) = groups_ok H w"
  "message_ok H (w\<lparr>wd_net := n\<rparr>) msg = message_ok H w msg" "data_ok H (w\<lparr>wd_net := n\<rparr>) op = data_ok H w op"
  "handover_ok H (w\<lparr>wd_net := n\<rparr>) = handover_ok H w" "served_ok (w\<lparr>wd_net := n\<rparr>) = served_ok w"
  "kept_ok H (w\<lparr>wd_net := n\<rparr>) = kept_ok H w" "done_ok H (w\<lparr>wd_net := n\<rparr>) = done_ok H w"
  by (simp_all add: current_def received_def passed_on_def groups_ok_def message_ok_def data_ok_def
      handover_ok_def served_ok_def kept_ok_def done_ok_def Let_def)

lemma propose_ok:
  assumes w: "world_ok H w" and run: "propose g mop w = Some w'"
    and new: "\<And>op. mop = Some op \<Longrightarrow> message_ok H w (g, op) \<and> data_ok H w op"
  shows "world_ok H w'"
proof -
  obtain op where "mop = Some op" and w': "w' = w\<lparr>wd_net := wd_net w @ [(g, op)]\<rparr>"
    using run by (auto simp: propose_def)
  with new w show ?thesis unfolding w' world_ok_def by simp
qed

lemma state_atD:
  assumes "world_ok H w" and "state_at w g i = Some kv"
  shows "g \<noteq> 0" and "kv \<in> set (wd_states w g)" and "kv_ok H g kv" and "later kv (current w g)"
    and "kv_ok H g (current w g)"
proof -
  show "g \<noteq> 0" and "kv \<in> set (wd_states w g)"
    using assms(2) by (auto simp: state_at_def split: if_splits)
  with world_okD(1) [OF assms(1)] show "kv_ok H g kv" and "later kv (current w g)"
    and "kv_ok H g (current w g)"
    using current_ok unfolding groups_ok_def by blast+
qed

lemma poll_ok:
  assumes hist: "hist_ok H" and w: "world_ok H w"
    and checked: "state_at w g i = Some checked" and copied: "state_at w g k = Some kv"
    and same: "cfg_Num (curConfig checked) = cfg_Num (curConfig kv)" and op: "poll H checked kv = Some op"
  shows "message_ok H w (g, op) \<and> data_ok H w op"
proof -
  note ch = state_atD [OF w checked] and st = state_atD [OF w copied]
  let ?n = "version kv"
  have num: "cfg_Num (curConfig kv) = int ?n" by (rule kv_ok_num [OF hist st(3)])
  have n: "?n < length H" using st(3) by (simp add: kv_ok_def)
  have vc: "version checked = ?n" using same by (simp add: version_def)
  have ready: "updateConfigReady checked"
    and op': "getLastestConfig_op (curConfig kv) (queried H (int ?n + 1)) = Some op"
    using op num by (auto simp: poll_def getLastestConfig_def getLastestConfig_copy_def Let_def split: if_splits)
  have "Suc ?n < length H"
  proof (rule ccontr)
    assume "\<not> Suc ?n < length H"
    with n have "length H = Suc ?n" by simp
    then have "queried H (int ?n + 1) = last H" and "last H = H ! ?n"
      by (simp_all add: queried_def last_conv_nth flip: length_greater_0_conv)
    then have "queried H (int ?n + 1) = H ! ?n" by (rule trans)
    with op' num n hist show False by (simp add: getLastestConfig_op_def hist_num)
  qed
  then have q: "queried H (int ?n + 1) = H ! Suc ?n" by (simp add: queried_def nat_add_distrib)
  with op' num hist \<open>Suc ?n < length H\<close> have shape: "sko_OpType op = UpdateConfig"
    "sko_NewConfig op = H ! Suc ?n" "sko_CfgNum op = int (Suc ?n)"
    by (auto simp: getLastestConfig_op_def hist_num split: if_splits)
  have "length (ownedShards checked) = NShards" "length (ownedShards (current w g)) = NShards"
    using ch(3) st(5) by (auto simp: kv_ok_def all_maps_def)
  with later_ready [OF ch(4) _ ready] vc have "?n = version (current w g) \<Longrightarrow> updateConfigReady (current w g)"
    by simp
  moreover have "proper H op" using shape \<open>Suc ?n < length H\<close> by (auto simp: proper_def)
  ultimately show ?thesis
    using shape st(1) later_version [OF st(4)]
    by (auto simp: message_ok_def data_ok_def Let_def)
qed

lemma found_shard:
  assumes "find (\<lambda>r. fst r = s) (map (\<lambda>s. (s, f s)) xs) = Some r"
  shows "r = (s, f s) \<and> s \<in> set xs"
proof -
  obtain i where "i < length xs" "fst (map (\<lambda>s. (s, f s)) xs ! i) = s" "r = map (\<lambda>s. (s, f s)) xs ! i"
    using assms by (auto simp: find_Some_iff)
  then show ?thesis by auto
qed

lemma serversOf_owner:
  assumes "hist_ok H" and "m < length H" and "serversOf (H ! m) s \<noteq> []"
  shows "owner H m s \<noteq> 0"
  using assms by (auto simp: serversOf_def owner_def hist_ok_def split: option.splits)

lemma fetch_ok:
  assumes hist: "hist_ok H" and w: "world_ok H w" and kv: "state_at w g i = Some kv"
    and giver: "state_at w (cfg_Shards (preConfig kv) ! s) j = Some giver"
    and op: "fetch s kv giver = Some op"
  shows "message_ok H w (g, op) \<and> data_ok H w op"
proof -
  note st = state_atD [OF w kv] and gv = state_atD [OF w giver]
  let ?m = "version kv"
  have num: "cfg_Num (curConfig kv) = int ?m" "cfg_Num (curConfig giver) = int (version giver)"
    using kv_ok_num [OF hist] st(3) gv(3) by auto
  obtain r where r: "find (\<lambda>r. fst r = s) (checkAndGetShard_round kv) = Some r"
    using op by (auto simp: fetch_def split: option.splits)
  define args where "args = \<lparr>mg_ConfigNum = cfg_Num (curConfig kv), mg_ShardNum = int s\<rparr>"
  from found_shard [OF r [unfolded checkAndGetShard_round_def]]
  have r': "r = (s, serversOf (preConfig kv) s, args)" and "s \<in> set (shardsIn WaitGet kv)"
    by (auto simp: args_def)
  then have s: "s < NShards" and wait: "status kv s = WaitGet"
    using st(3) by (auto simp: shardsIn_def kv_ok_def all_maps_def)
  have start: "started (checkAndGetShard_reply args (Some (MigrateShard_sent True args giver))) = Some op"
    using op r r' by (auto simp: fetch_def split: if_splits)
  then have eq: "version giver = ?m"
    by (auto simp: started_def checkAndGetShard_reply_def MigrateShard_sent_def args_def num Let_def
        split: if_splits)
  have m: "2 \<le> ?m" using kv_ok_shard(3) [OF st(3) s wait] by blast
  have p: "owner H (?m - 1) s = cfg_Shards (preConfig kv) ! s"
    using st(3) by (simp add: kv_ok_def owner_def)
  have shape: "op = zero_SkOp\<lparr>sko_OpType := GetShard, sko_CfgNum := int ?m, sko_ShardNum := int s,
      sko_ShardData := (case kvDB giver (int s) of None \<Rightarrow> (\<lambda>_. None) | Some d \<Rightarrow> d),
      sko_SessionData := kv_sessions giver\<rparr>"
    using start eq by (simp add: started_def checkAndGetShard_reply_def MigrateShard_sent_def args_def num Let_def)
  have "passed_on H w ?m s"
    using p gv(1) later_version [OF gv(4)] eq by (simp add: passed_on_def)
  then have "message_ok H w (g, op)"
    using shape st(1) m s by (auto simp: message_ok_def proper_def Let_def)
  moreover have "fresh (wd_done w) s (sko_ShardData op) (sko_SessionData op)" if "\<not> received H w ?m s"
  proof -
    have "fits (wd_done w) s giver"
      using world_okD(4) [OF w] gv(1,2) s that eq m p unfolding kept_ok_def by fastforce
    then show ?thesis using shape by (auto simp: fits_def)
  qed
  then have "data_ok H w op" using shape by (simp add: data_ok_def)
  ultimately show ?thesis by blast
qed

lemma confirm_ok:
  assumes hist: "hist_ok H" and w: "world_ok H w" and kv: "state_at w g i = Some kv"
    and receiver: "state_at w (cfg_Shards (curConfig kv) ! s) j = Some receiver"
    and op: "confirm s kv receiver = Some op"
  shows "message_ok H w (g, op) \<and> data_ok H w op"
proof -
  note st = state_atD [OF w kv] and rv = state_atD [OF w receiver]
  let ?m = "version kv"
  have num: "cfg_Num (curConfig kv) = int ?m" "cfg_Num (curConfig receiver) = int (version receiver)"
    using kv_ok_num [OF hist] st(3) rv(3) by auto
  obtain r where r: "find (\<lambda>r. fst r = s) (checkAndFinishGiveShard_round kv) = Some r"
    using op by (auto simp: confirm_def split: option.splits)
  define args where "args = \<lparr>ak_ConfigNum = cfg_Num (curConfig kv), ak_ShardNum = int s\<rparr>"
  from found_shard [OF r [unfolded checkAndFinishGiveShard_round_def]]
  have r': "r = (s, serversOf (curConfig kv) s, args)" and "s \<in> set (shardsIn WaitGive kv)"
    by (auto simp: args_def)
  then have s: "s < NShards"
    using st(3) by (auto simp: shardsIn_def kv_ok_def all_maps_def)
  then have len: "s < length (ownedShards receiver)" using rv(3) by (simp add: kv_ok_def all_maps_def)
  have start: "started (checkAndFinishGiveShard_reply args (AckReceiveShard True args receiver)) = Some op"
    using op r r' by (auto simp: confirm_def split: if_splits)
  then have ack: "?m < version receiver \<or> ?m = version receiver \<and> status receiver s = Exist"
    using len
    by (auto simp: started_def checkAndFinishGiveShard_reply_def AckReceiveShard_def args_def num
        split: if_splits)
  have shape: "op = zero_SkOp\<lparr>sko_OpType := GiveShard, sko_CfgNum := int ?m, sko_ShardNum := int s\<rparr>"
    using start len
    by (auto simp: started_def checkAndFinishGiveShard_reply_def AckReceiveShard_def args_def num
        split: if_splits)
  have "owner H ?m s = cfg_Shards (curConfig kv) ! s" using st(3) by (simp add: kv_ok_def owner_def)
  then have "received H w ?m s"
    using ack rv(1) later_version [OF rv(4)] later_Exist [OF rv(4) _ s]
    by (cases "version receiver = version (current w (cfg_Shards (curConfig kv) ! s))")
      (auto simp: received_def Let_def)
  then show ?thesis
    using shape st(1) s by (auto simp: message_ok_def data_ok_def proper_def Let_def)
qed

lemma state_at_nth: "state_at w g i = Some kv \<Longrightarrow> kv = wd_states w g ! i"
  by (simp add: state_at_def split: if_splits)

lemma steady_step_ok:
  assumes "hist_ok H" and "world_ok H w" and "steady_step H e w = Some w'"
  shows "world_ok H w'"
proof -
  have run: "mig_step H e w = Some w'" and un: "unraced_poll e w"
    using assms(3) by (simp_all add: steady_step_def split: if_splits)
  show ?thesis
  proof (cases e)
    case (PollConfig g i k)
    with run obtain checked kv where at: "state_at w g i = Some checked" "state_at w g k = Some kv"
      and "propose g (poll H checked kv) w = Some w'"
      by (auto simp: bind_eq_Some_conv split: if_splits)
    moreover have "cfg_Num (curConfig checked) = cfg_Num (curConfig kv)"
      using un PollConfig at [THEN state_at_nth] by simp
    ultimately show ?thesis using propose_ok poll_ok [OF assms(1,2)] assms(2) by blast
  next
    case (Fetch g i s j)
    with run obtain kv giver where "state_at w g i = Some kv"
      "state_at w (cfg_Shards (preConfig kv) ! s) j = Some giver" "propose g (fetch s kv giver) w = Some w'"
      by (auto simp: bind_eq_Some_conv)
    then show ?thesis using propose_ok fetch_ok [OF assms(1,2)] assms(2) by blast
  next
    case (Confirm g i s j)
    with run obtain kv receiver where "state_at w g i = Some kv"
      "state_at w (cfg_Shards (curConfig kv) ! s) j = Some receiver" "propose g (confirm s kv receiver) w = Some w'"
      by (auto simp: bind_eq_Some_conv)
    then show ?thesis using propose_ok confirm_ok [OF assms(1,2)] assms(2) by blast
  next
    case (ClientOp g op i)
    with run assms show ?thesis by (auto split: if_splits intro: deliver_ok)
  next
    case (Commit k i)
    with run have "deliver (fst (wd_net w ! k)) (snd (wd_net w ! k)) i w = Some w'" "k < length (wd_net w)"
      by (auto split: if_splits)
    then show ?thesis by (intro deliver_ok [OF assms(1,2)]) auto
  qed
qed

lemma world_ok_init:
  assumes "hist_ok H"
  shows "world_ok H world_init"
proof -
  have cur: "current world_init g = StartServer 0 (-1) g" for g
    by (simp add: current_def world_init_def)
  have v: "version (StartServer 0 (-1) g) = 0" and st: "s < NShards \<Longrightarrow> status (StartServer 0 (-1) g) s = NoExist"
    for g s by (simp_all add: version_def StartServer_def zero_Config_def)
  have "groups_ok H world_init"
    using kv_ok_init [OF assms] by (auto simp: groups_ok_def cur) (auto simp: world_init_def)
  moreover have "\<not> received H world_init m s" if "s < NShards" for m s
    using st [OF that] by (simp add: received_def cur v Let_def)
  moreover have "wd_states world_init g = [StartServer 0 (-1) g]" "wd_done world_init = []" "wd_net world_init = []"
    for g by (simp_all add: world_init_def)
  ultimately show ?thesis
    using st v by (auto simp: world_ok_def handover_ok_def served_ok_def kept_ok_def done_ok_def cur)
qed

text \<open>The states the system can reach in unraced executions, for a history of configurations.\<close>

abbreviation mig_run :: "Config list \<Rightarrow> mig_event list \<Rightarrow> World option" where
  "mig_run H es \<equiv> run_steps (steady_step H) es world_init"

interpretation migration: step_machine "steady_step H" "\<lambda>w. hist_ok H \<and> world_ok H w" for H
  by unfold_locales (auto intro: steady_step_ok)

lemma mig_run_ok: "hist_ok H \<Longrightarrow> mig_run H es = Some w \<Longrightarrow> world_ok H w"
  using migration.run_inv [of H world_init es w] world_ok_init by blast

lemma deliver_total:
  assumes hist: "hist_ok H" and w: "world_ok H w" and g: "g \<noteq> 0"
    and op: "sko_OpType op \<in> {Get, Put, Append} \<or> (g, op) \<in> set (wd_net w)"
    and i: "i > logLastApplied (current w g)"
  shows "deliver g op i w \<noteq> None"
proof -
  have ok: "kv_ok H g (current w g)" by (rule current_ok [OF world_okD(1) [OF w] g])
  then have okb: "kv_ok H g (bump i (current w g))" and "\<not> passiveSnapshotBefore (current w g)"
    by (auto simp: kv_ok_def)
  moreover have "proper H op" by (rule proposed_proper [OF w op])
  ultimately have "applied op i (current w g) \<noteq> None"
    using applied_gate [OF i, of op] sk_command_total [OF hist okb] by auto
  with g i show ?thesis by (auto simp: deliver_def)
qed

text \<open>A shard that is given to nobody is never given: its group stays where it is.\<close>

definition abandoned :: "Config list \<Rightarrow> int \<Rightarrow> nat \<Rightarrow> nat \<Rightarrow> World \<Rightarrow> bool" where
  "abandoned H g s m w \<longleftrightarrow> hist_ok H \<and> world_ok H w \<and> g \<noteq> 0 \<and> s < NShards \<and> owner H m s = 0 \<and>
     version (current w g) = m \<and> status (current w g) s = WaitGive"

lemma abandoned_deliver:
  assumes ab: "abandoned H g s m w" and ok: "world_ok H w'"
    and op: "sko_OpType op \<in> {Get, Put, Append} \<or> (h, op) \<in> set (wd_net w)"
    and run: "deliver h op i w = Some w'"
  shows "abandoned H g s m w'"
proof -
  have w: "hist_ok H" "world_ok H w" "g \<noteq> 0" "s < NShards" "owner H m s = 0"
    and cur: "version (current w g) = m" "status (current w g) s = WaitGive"
    using ab by (auto simp: abandoned_def)
  obtain kv' where i: "i > logLastApplied (current w h)" and kv': "applied op i (current w h) = Some kv'"
    and w': "w' = extend h kv' (if executes op (current w h) then [op] else []) w"
    using run by (auto simp: deliver_def extend_def bind_eq_Some_conv split: if_splits)
  have "version kv' = m \<and> status kv' s = WaitGive" if "h = g"
  proof -
    note i = i [unfolded that] and kv' = kv' [unfolded that] and op = op [unfolded that]
    have okg: "kv_ok H g (current w g)" by (rule current_ok [OF world_okD(1) [OF w(2)] w(3)])
    then have len: "length (ownedShards (current w g)) = NShards"
      and "\<not> passiveSnapshotBefore (current w g)" by (auto simp: kv_ok_def all_maps_def)
    with applied_gate [OF i, of op] kv'
    consider (dropped) "kv' = current w g" | (run) "sk_command op (bump i (current w g)) = Some kv'"
      by (auto split: if_splits)
    then show ?thesis
    proof cases
      case run
      have msg: "message_ok H w (g, op)" if "sko_OpType op \<notin> {Get, Put, Append}"
        using op that world_okD(6) [OF w(2)] by blast
      have proper: "proper H op" by (rule proposed_proper [OF w(2) op])
      have okb: "kv_ok H g (bump i (current w g))" using okg by auto
      show ?thesis
      proof (cases rule: sk_command_cases [OF w(1) okb proper run])
        case 3
        then have "updateConfigReady (current w g)"
          using msg by (auto simp: message_ok_def Let_def)
        then show ?thesis
          using cur w(4) len nth_mem [of s "ownedShards (current w g)"]
          by (fastforce simp: updateConfigReady_def)
      next
        case (4 t)
        then have "t \<noteq> s" using cur by auto
        with 4 cur show ?thesis by simp
      next
        case (5 t)
        then have "received H w m t" using msg cur by (auto simp: message_ok_def Let_def)
        then have "t \<noteq> s" using w(5) by (auto simp: received_def Let_def)
        with 5 cur show ?thesis by simp
      qed (use cur in auto)
    qed (use cur in simp)
  qed
  with ok w cur w' show ?thesis by (auto simp: abandoned_def)
qed

lemma abandoned_step:
  assumes ab: "abandoned H g s m w" and step: "steady_step H e w = Some w'"
  shows "abandoned H g s m w'"
proof -
  have ok: "world_ok H w'" using ab step steady_step_ok by (auto simp: abandoned_def)
  have run: "mig_step H e w = Some w'" using step by (simp add: steady_step_def split: if_splits)
  have same: "current w' g = current w g" if "propose h mop w = Some w'" for h mop
    using that by (auto simp: propose_def)
  show ?thesis
  proof (cases e)
    case (ClientOp h op i)
    with run show ?thesis by (auto split: if_splits intro: abandoned_deliver [OF ab ok])
  next
    case (Commit k i)
    with run have "deliver (fst (wd_net w ! k)) (snd (wd_net w ! k)) i w = Some w'" "k < length (wd_net w)"
      by (auto split: if_splits)
    then show ?thesis by (intro abandoned_deliver [OF ab ok]) auto
  qed (use run same ab ok in \<open>auto simp: bind_eq_Some_conv abandoned_def split: if_splits\<close>)
qed

interpretation abandoned: step_machine "steady_step H" "abandoned H g s m" for H g s m
  by unfold_locales (rule abandoned_step)

end
