(* ===== verification/ShardRace.thy ===== *)
theory ShardRace
  imports ShardMigration
begin

text \<open>
  Executions of the sharded store (\<open>src/shardkv/server.go\<close>) in which a configuration is applied
  between the two critical sections of \<open>getLastestConfig\<close>. A group can then adopt a configuration
  while its shards still move; if that gives back a shard the group was about to give away, the
  group is stranded in it.
\<close>

section \<open>What a raced poll proposes\<close>

lemma poll_raced:
  assumes hist: "hist_ok H" and ready: "updateConfigReady checked" and ok: "kv_ok H g copied"
    and n: "Suc (version copied) < length H"
  shows "poll H checked copied = Some (zero_SkOp\<lparr>sko_OpType := UpdateConfig,
    sko_NewConfig := H ! Suc (version copied), sko_CfgNum := int (Suc (version copied))\<rparr>)"
proof -
  have num: "cfg_Num (curConfig copied) = int (version copied)" by (rule kv_ok_num [OF hist ok])
  have "queried H (int (version copied) + 1) = H ! Suc (version copied)"
    using n by (simp add: queried_def nat_add_distrib)
  with num hist n ready show ?thesis
    by (simp add: poll_def getLastestConfig_def getLastestConfig_copy_def getLastestConfig_op_def hist_num)
qed

section \<open>Stranded groups\<close>

text \<open>
  A group that owns a shard in its newest configuration \<open>n\<close> but has it in \<open>WaitGive\<close>, when
  neither the next configuration nor the end of the handover is on its way to it.
\<close>

definition stranded :: "int \<Rightarrow> nat \<Rightarrow> int \<Rightarrow> World \<Rightarrow> bool" where
  "stranded g s n w \<longleftrightarrow> s < NShards \<and> wd_states w g \<noteq> [] \<and> cfg_Num (curConfig (current w g)) = n \<and>
     (\<forall>kv \<in> set (wd_states w g). cfg_Num (curConfig kv) \<le> n \<and> length (ownedShards kv) = NShards \<and>
        (cfg_Num (curConfig kv) = n \<longrightarrow> status kv s = WaitGive \<and> cfg_Shards (curConfig kv) ! s = g)) \<and>
     (\<forall>op. (g, op) \<in> set (wd_net w) \<longrightarrow>
        (sko_OpType op = UpdateConfig \<longrightarrow> sko_CfgNum op \<le> n) \<and>
        (sko_OpType op = GiveShard \<longrightarrow> sko_CfgNum op = n \<longrightarrow> sko_ShardNum op \<noteq> int s))"

lemma applied_cases:
  "applied op i kv = Some kv' \<Longrightarrow> kv' = kv \<or> sk_command op (bump i kv) = Some kv'"
  using applied_gate [of kv i op] unfolding applied_def applyMessage_def command_msg_def
  by (cases "i > logLastApplied kv \<and> (passiveSnapshotBefore kv \<longrightarrow> i = logLastApplied kv + 1)")
    (auto simp: applied_def applyMessage_def command_msg_def executeClientCmd_def executeConfigCmd_def
      executeEmptyCmd_def apply_gate_def split: if_splits)

lemma writes_keep_shards:
  assumes "sk_applyClient op kv = Some (kv', r)"
  shows "curConfig kv' = curConfig kv \<and> ownedShards kv' = ownedShards kv"
  using assms
  by (auto simp: sk_applyClient_def sk_execute_def writeKey_def bind_eq_Some_conv Let_def
      split: if_splits SkOpType.splits option.splits)

lemma stranded_command:
  assumes run: "sk_command op kv = Some kv'" and st: "status kv s = WaitGive"
    and update: "sko_OpType op = UpdateConfig \<Longrightarrow> sko_CfgNum op \<le> cfg_Num (curConfig kv)"
    and give: "sko_OpType op = GiveShard \<Longrightarrow> sko_CfgNum op = cfg_Num (curConfig kv) \<Longrightarrow> sko_ShardNum op \<noteq> int s"
  shows "curConfig kv' = curConfig kv \<and> status kv' s = WaitGive \<and>
    length (ownedShards kv') = length (ownedShards kv)"
proof (cases "sko_OpType op \<in> {Get, Put, Append}")
  case True
  with run st writes_keep_shards [of op kv] show ?thesis
    by (auto simp: sk_command_def split: if_splits)
next
  case False
  show ?thesis
  proof (cases "sko_OpType op")
    case UpdateConfig
    with run st update show ?thesis by (auto simp: sk_command_def sk_configCmd_def)
  next
    case GetShard
    with run st show ?thesis
      by (auto simp: sk_command_def sk_configCmd_def bind_eq_Some_conv idx_def update_at_def nth_list_update
          split: if_splits)
  next
    case GiveShard
    with run st give show ?thesis
      by (auto simp: sk_command_def sk_configCmd_def bind_eq_Some_conv idx_def update_at_def nth_list_update
          split: if_splits)
  qed (use False run st in \<open>auto simp: sk_command_def\<close>)
qed

lemma stranded_deliver:
  assumes str: "stranded g s n w" and op: "sko_OpType op \<in> {Get, Put, Append} \<or> (h, op) \<in> set (wd_net w)"
    and run: "deliver h op i w = Some w'"
  shows "stranded g s n w'"
proof -
  obtain kv' where kv': "applied op i (current w h) = Some kv'"
    and w': "wd_states w' = (wd_states w)(h := kv' # wd_states w h)" "wd_net w' = wd_net w"
    using run by (auto simp: deliver_def bind_eq_Some_conv split: if_splits)
  have "cfg_Num (curConfig kv') = n \<and> length (ownedShards kv') = NShards \<and> status kv' s = WaitGive \<and>
      cfg_Shards (curConfig kv') ! s = g" if "h = g"
  proof -
    have "current w g \<in> set (wd_states w g)" using str by (simp add: stranded_def current_def)
    with str have cur: "cfg_Num (curConfig (current w g)) = n" "status (current w g) s = WaitGive"
      "cfg_Shards (curConfig (current w g)) ! s = g" "length (ownedShards (current w g)) = NShards"
      unfolding stranded_def by blast+
    from applied_cases [OF kv'] that consider "kv' = current w g" | "sk_command op (bump i (current w g)) = Some kv'"
      by blast
    then show ?thesis
    proof cases
      case 2
      have "curConfig kv' = curConfig (bump i (current w g)) \<and> status kv' s = WaitGive \<and>
          length (ownedShards kv') = length (ownedShards (bump i (current w g)))"
        by (rule stranded_command [OF 2]) (use cur str op that in \<open>auto simp: stranded_def\<close>)
      with cur show ?thesis by simp
    qed (use cur in simp)
  qed
  then show ?thesis using str w' by (cases "h = g") (auto simp: stranded_def current_def)
qed

lemma stranded_propose:
  assumes str: "stranded g s n w" and run: "propose h mop w = Some w'"
    and new: "\<And>op. h = g \<Longrightarrow> mop = Some op \<Longrightarrow>
      (sko_OpType op = UpdateConfig \<longrightarrow> sko_CfgNum op \<le> n) \<and>
      (sko_OpType op = GiveShard \<longrightarrow> sko_CfgNum op = n \<longrightarrow> sko_ShardNum op \<noteq> int s)"
  shows "stranded g s n w'"
proof -
  obtain op where op: "mop = Some op" and w': "w' = w\<lparr>wd_net := wd_net w @ [(h, op)]\<rparr>"
    using run by (auto simp: propose_def)
  have "current w' g = current w g" "wd_states w' = wd_states w" by (simp_all add: w' current_def)
  with str new [OF _ op] show ?thesis unfolding stranded_def by (simp add: w')
qed

lemma stranded_not_ready:
  assumes str: "stranded g s n w" and kv: "kv \<in> set (wd_states w g)" and ready: "updateConfigReady kv"
  shows "cfg_Num (curConfig kv) < n"
proof -
  have st: "cfg_Num (curConfig kv) \<le> n" "cfg_Num (curConfig kv) = n \<longrightarrow> status kv s = WaitGive"
    "s < length (ownedShards kv)"
    using str kv unfolding stranded_def by auto
  then have "status kv s \<in> set (ownedShards kv)" by simp
  with ready have "status kv s \<noteq> WaitGive" unfolding updateConfigReady_def by fastforce
  with st show ?thesis by auto
qed

lemma stranded_confirm:
  assumes str: "stranded g s n w" and kv: "kv \<in> set (wd_states w g)"
    and rcv: "state_at w (cfg_Shards (curConfig kv) ! t) j = Some receiver"
    and op: "confirm t kv receiver = Some op"
  shows "sko_OpType op = GiveShard \<and> (sko_CfgNum op = n \<longrightarrow> sko_ShardNum op \<noteq> int s)"
proof -
  obtain r where r: "find (\<lambda>r. fst r = t) (checkAndFinishGiveShard_round kv) = Some r"
    using op by (auto simp: confirm_def split: option.splits)
  define args where "args = \<lparr>ak_ConfigNum = cfg_Num (curConfig kv), ak_ShardNum = int t\<rparr>"
  from found_shard [OF r [unfolded checkAndFinishGiveShard_round_def]]
  have r': "r = (t, serversOf (curConfig kv) t, args)" by (auto simp: args_def)
  then have start: "started (checkAndFinishGiveShard_reply args (AckReceiveShard True args receiver)) = Some op"
    using op r by (auto simp: confirm_def split: if_splits)
  then have type: "sko_OpType op = GiveShard" "sko_CfgNum op = cfg_Num (curConfig kv)" "sko_ShardNum op = int t"
    by (auto simp: started_def checkAndFinishGiveShard_reply_def args_def split: option.splits if_splits)
  moreover have "t \<noteq> s" if n: "cfg_Num (curConfig kv) = n"
  proof
    assume "t = s"
    with str kv n have "cfg_Shards (curConfig kv) ! t = g" by (auto simp: stranded_def)
    with rcv have "receiver \<in> set (wd_states w g)" by (auto simp: state_at_def split: if_splits)
    with str have "cfg_Num (curConfig receiver) \<le> n" "length (ownedShards receiver) = NShards" "s < NShards"
      "cfg_Num (curConfig receiver) = n \<Longrightarrow> status receiver s = WaitGive"
      by (auto simp: stranded_def)
    with start \<open>t = s\<close> n show False
      by (auto simp: started_def checkAndFinishGiveShard_reply_def AckReceiveShard_def args_def
          split: if_splits)
  qed
  ultimately show ?thesis by auto
qed

lemma fetch_type:
  assumes "fetch t kv giver = Some op"
  shows "sko_OpType op = GetShard"
  using assms
  by (auto simp: fetch_def started_def checkAndGetShard_reply_def MigrateShard_sent_def Let_def
      split: option.splits if_splits)

lemma stranded_step:
  assumes str: "stranded g s n w" and step: "steady_step H e w = Some w'"
  shows "stranded g s n w'"
proof -
  have run: "mig_step H e w = Some w'" and un: "unraced_poll e w"
    using step by (simp_all add: steady_step_def split: if_splits)
  have at: "kv \<in> set (wd_states w h)" if "state_at w h i = Some kv" for h i kv
    using that by (auto simp: state_at_def split: if_splits)
  show ?thesis
  proof (cases e)
    case (PollConfig h i k)
    with run obtain checked kv where kv: "state_at w h i = Some checked" "state_at w h k = Some kv"
      and p: "propose h (poll H checked kv) w = Some w'"
      by (auto simp: bind_eq_Some_conv split: if_splits)
    have same: "cfg_Num (curConfig checked) = cfg_Num (curConfig kv)"
      using un PollConfig kv [THEN state_at_nth] by simp
    show ?thesis
    proof (rule stranded_propose [OF str p])
      fix op assume h: "h = g" and op: "poll H checked kv = Some op"
      then have "updateConfigReady checked" by (auto simp: poll_def getLastestConfig_def split: if_splits)
      with stranded_not_ready [OF str] at [OF kv(1)] h have "cfg_Num (curConfig checked) < n" by simp
      with op same show "(sko_OpType op = UpdateConfig \<longrightarrow> sko_CfgNum op \<le> n) \<and>
          (sko_OpType op = GiveShard \<longrightarrow> sko_CfgNum op = n \<longrightarrow> sko_ShardNum op \<noteq> int s)"
        by (auto simp: poll_def getLastestConfig_def getLastestConfig_copy_def getLastestConfig_op_def Let_def
            split: if_splits)
    qed
  next
    case (Fetch h i t j)
    with run obtain kv giver where p: "propose h (fetch t kv giver) w = Some w'"
      by (auto simp: bind_eq_Some_conv)
    show ?thesis by (rule stranded_propose [OF str p]) (auto dest: fetch_type)
  next
    case (Confirm h i t j)
    with run obtain kv receiver where kv: "state_at w h i = Some kv"
      "state_at w (cfg_Shards (curConfig kv) ! t) j = Some receiver"
      and p: "propose h (confirm t kv receiver) w = Some w'"
      by (auto simp: bind_eq_Some_conv)
    show ?thesis
      by (rule stranded_propose [OF str p]) (use stranded_confirm [OF str _ kv(2)] at [OF kv(1)] in auto)
  next
    case (ClientOp h op i)
    with run show ?thesis by (auto split: if_splits intro: stranded_deliver [OF str])
  next
    case (Commit k i)
    with run have "deliver (fst (wd_net w ! k)) (snd (wd_net w ! k)) i w = Some w'" "k < length (wd_net w)"
      by (auto split: if_splits)
    then show ?thesis by (intro stranded_deliver [OF str]) auto
  qed
qed

interpretation stranded: step_machine "steady_step H" "stranded g s n" for H g s n
  by unfold_locales (rule stranded_step)

section \<open>How a group gets stranded\<close>

lemma adopt_delivered:
  assumes hist: "hist_ok H" and ok: "kv_ok H g kv" and n: "Suc (version kv) < length H"
    and cur: "current w g = kv" and g: "g \<noteq> 0" and i: "i > logLastApplied kv"
    and op: "op = zero_SkOp\<lparr>sko_OpType := UpdateConfig, sko_NewConfig := H ! Suc (version kv),
      sko_CfgNum := int (Suc (version kv))\<rparr>"
  shows "deliver g op i w = Some (extend g (adopted H (bump i kv)) [] w)"
proof -
  have type: "sko_OpType op = UpdateConfig" "sko_CfgNum op = int (Suc (version kv))" by (simp_all add: op)
  have proper: "proper H op" using n by (auto simp: proper_def op)
  have "\<not> dropped op kv" and ex: "\<not> executes op kv" using type by (auto simp: dropped_def executes_def)
  moreover have "\<not> passiveSnapshotBefore kv" using ok by (simp add: kv_ok_def)
  ultimately have "applied op i kv = sk_command op (bump i kv)" using applied_gate [OF i, of op] by simp
  also have "\<dots> = Some (adopted H (bump i kv))"
    using sk_configCmd_UpdateConfig [OF hist kv_ok_bump [OF ok] type(1) proper, of i] type
    by (simp add: sk_command_def)
  finally show ?thesis using g i cur ex by (simp add: deliver_def extend_def)
qed

lemma deliver_net: "deliver g op i (w\<lparr>wd_net := net\<rparr>) = map_option (\<lambda>w. w\<lparr>wd_net := net\<rparr>) (deliver g op i w)"
  by (cases "applied op i (current w g)") (auto simp: deliver_def)

definition raced_poll :: "int \<Rightarrow> nat \<Rightarrow> int \<Rightarrow> mig_event list" where
  "raced_poll g k i = [PollConfig g 0 0, Commit k i, PollConfig g 1 0, Commit (Suc k) (i + 1)]"

lemma raced_poll_strands:
  assumes hist: "hist_ok H" and w: "world_ok H w" and g: "g \<noteq> 0" and s: "s < NShards"
    and serves: "status (current w g) s = Exist" and ready: "updateConfigReady (current w g)"
    and n: "version (current w g) + 2 < length H" and i: "i > logLastApplied (current w g)"
    and away: "owner H (version (current w g) + 1) s \<noteq> g" and returns: "owner H (version (current w g) + 2) s = g"
  shows "\<exists>w'. run_steps (mig_step H) (raced_poll g (length (wd_net w)) i) w = Some w' \<and>
    stranded g s (int (version (current w g) + 2)) w'"
proof -
  let ?kv = "current w g" and ?n = "version (current w g)" and ?net = "wd_net w"
  have ok: "kv_ok H g ?kv" by (rule current_ok [OF world_okD(1) [OF w] g])
  have ne: "wd_states w g \<noteq> []" using world_okD(1) [OF w] g by (auto simp: groups_ok_def)
  have n1: "Suc ?n < length H" using n by simp
  define op1 where "op1 = zero_SkOp\<lparr>sko_OpType := UpdateConfig, sko_NewConfig := H ! Suc ?n,
      sko_CfgNum := int (Suc ?n)\<rparr>"
  define kv1 where "kv1 = adopted H (bump i ?kv)"
  define w1 where "w1 = w\<lparr>wd_net := ?net @ [(g, op1)]\<rparr>"
  have at0: "state_at w g 0 = Some ?kv" using g ne by (simp add: state_at_def current_def hd_conv_nth)
  have "mig_step H (PollConfig g 0 0) w = Some w1"
    using poll_raced [OF hist ready ok n1] by (simp add: at0 propose_def w1_def op1_def)
  moreover define w2 where "w2 = extend g kv1 [] w1"
  have "mig_step H (Commit (length ?net) i) w1 = Some w2"
    using adopt_delivered [OF hist ok n1, of w1 i op1] g i by (simp add: w1_def w2_def kv1_def op1_def)
  moreover have okb: "kv_ok H g (bump i ?kv)" "updateConfigReady (bump i ?kv)" "Suc (version (bump i ?kv)) < length H"
    using ok ready n1 by (auto simp: updateConfigReady_def)
  then have ok1: "kv_ok H g kv1" and v1: "version kv1 = Suc ?n"
    using kv_ok_adopted(1) [OF hist okb(3,1,2)] version_adopted [OF hist okb(3)] by (simp_all add: kv1_def)
  have st1: "status kv1 s = WaitGive" "logLastApplied kv1 = i"
    using status_adopted [OF hist okb(3) s okb(1,2)] away serves by (simp_all add: kv1_def) (simp add: adopted_def Let_def)
  have n2: "Suc (version kv1) < length H" using n v1 by simp
  define op2 where "op2 = zero_SkOp\<lparr>sko_OpType := UpdateConfig, sko_NewConfig := H ! Suc (version kv1),
      sko_CfgNum := int (Suc (version kv1))\<rparr>"
  define w3 where "w3 = w2\<lparr>wd_net := ?net @ [(g, op1), (g, op2)]\<rparr>"
  have st2: "wd_states w2 g = kv1 # wd_states w g" "wd_net w2 = ?net @ [(g, op1)]"
    by (simp_all add: w2_def w1_def)
  then have "state_at w2 g 1 = Some ?kv" "state_at w2 g 0 = Some kv1"
    using at0 g by (simp_all add: state_at_def split: if_splits)
  then have "mig_step H (PollConfig g 1 0) w2 = Some w3"
    using poll_raced [OF hist ready ok1 n2] st2 by (simp add: propose_def w3_def op2_def)
  moreover define kv2 where "kv2 = adopted H (bump (i + 1) kv1)"
  define w4 where "w4 = extend g kv2 [] w3"
  have "current w3 g = kv1" by (simp add: w3_def w2_def)
  then have "mig_step H (Commit (Suc (length ?net)) (i + 1)) w3 = Some w4"
    using adopt_delivered [OF hist ok1 n2, of w3 "i + 1" op2] g st1
    by (simp add: w3_def w4_def kv2_def op2_def nth_append)
  ultimately have run: "run_steps (mig_step H) (raced_poll g (length ?net) i) w = Some w4"
    by (simp add: raced_poll_def)
  have kv2: "curConfig kv2 = H ! (?n + 2)" "length (ownedShards kv2) = NShards" "status kv2 s = WaitGive"
    using s st1 v1 ok1 returns by (simp_all add: kv2_def adopted_def Let_def newState_def kv_ok_def)
  have num: "cfg_Num (H ! (?n + 2)) = int (?n + 2)" by (rule hist_num [OF hist n])
  have old: "cfg_Num (curConfig kv) < int (?n + 2)" "length (ownedShards kv) = NShards"
    if "kv \<in> set (kv1 # wd_states w g)" for kv
  proof -
    have "kv_ok H g kv \<and> version kv \<le> Suc ?n"
      using that ok1 v1 world_okD(1) [OF w] g later_version by (auto simp: groups_ok_def) fastforce
    with kv_ok_num [OF hist] show "cfg_Num (curConfig kv) < int (?n + 2)" "length (ownedShards kv) = NShards"
      by (auto simp: kv_ok_def all_maps_def)
  qed
  have msgs: "sko_OpType op = UpdateConfig \<and> sko_CfgNum op \<le> int (?n + 2) \<or> sko_OpType op = GetShard \<or>
      sko_OpType op = GiveShard \<and> (sko_CfgNum op = int (?n + 2) \<longrightarrow> sko_ShardNum op \<noteq> int s)"
    if "(g, op) \<in> set ?net" for op
  proof -
    have m: "message_ok H w (g, op)" using world_okD(6) [OF w that] by blast
    have "\<not> received H w (?n + 2) s" using returns by (simp add: received_def Let_def)
    with m s have "\<not> (sko_OpType op = GiveShard \<and> sko_CfgNum op = int (?n + 2) \<and> sko_ShardNum op = int s)"
      unfolding message_ok_def Let_def snd_conv by blast
    with m show ?thesis by (auto simp: message_ok_def Let_def)
  qed
  have "stranded g s (int (?n + 2)) w4"
    unfolding stranded_def
  proof (intro conjI)
    show "\<forall>kv \<in> set (wd_states w4 g). cfg_Num (curConfig kv) \<le> int (?n + 2) \<and> length (ownedShards kv) = NShards \<and>
        (cfg_Num (curConfig kv) = int (?n + 2) \<longrightarrow> status kv s = WaitGive \<and> cfg_Shards (curConfig kv) ! s = g)"
      using old kv2 num returns st2 by (fastforce simp: w4_def w3_def owner_def)
    show "\<forall>op. (g, op) \<in> set (wd_net w4) \<longrightarrow>
        (sko_OpType op = UpdateConfig \<longrightarrow> sko_CfgNum op \<le> int (?n + 2)) \<and>
        (sko_OpType op = GiveShard \<longrightarrow> sko_CfgNum op = int (?n + 2) \<longrightarrow> sko_ShardNum op \<noteq> int s)"
      using msgs v1 by (fastforce simp: w4_def w3_def op1_def op2_def)
  qed (use s kv2 num in \<open>simp_all add: w4_def w3_def\<close>)
  with run show ?thesis by blast
qed

end
