(* ===== verification/ShardReplica.thy ===== *)
theory ShardReplica
  imports ShardMigration
begin

text \<open>
  One server of a group (\<open>src/shardkv/server.go\<close>) with its RPC handlers: the apply loop runs the
  commands of the group and answers through the channels in which the handlers wait, whatever
  \<open>GetState\<close> returns, while handlers register, receive and close channels at any time.
\<close>

section \<open>The server\<close>

datatype member_event =
    Register int                        \<comment> \<open>a handler whose \<open>Start\<close> returned this index\<close>
  | Receive nat                         \<comment> \<open>a handler receives from its channel\<close>
  | Close int                           \<comment> \<open>the goroutine a handler leaves behind\<close>
  | Run SkOp int int "int \<times> bool"  \<comment> \<open>a command, its index and term, and what \<open>GetState\<close> returns\<close>

text \<open>\<open>None\<close>: the server panics or blocks; for \<open>Receive\<close>, the handler waits.\<close>

fun member_step :: "member_event \<Rightarrow> ShardKV \<Rightarrow> ShardKV option" where
  "member_step (Register i) kv = (case sk_afterStart i True kv of Inl _ \<Rightarrow> None | Inr (kv', _) \<Rightarrow> Some kv')"
| "member_step (Receive c) kv =
     (if c < length (chans (kv_notify kv))
      then map_option (\<lambda>(_, n). kv\<lparr>kv_notify := n\<rparr>) (recvNotify zero_SkReply c (kv_notify kv)) else None)"
| "member_step (Close i) kv = sk_closeNotifyCh i kv"
| "member_step (Run op i t st) kv = applyMessage (command_msg (Some op) i t) st kv"

text \<open>The states a server of group \<open>g\<close> can be in that has run what leads the group to its
  \<open>k\<close>-th state, counted from the newest one.\<close>

inductive member_of :: "World \<Rightarrow> int \<Rightarrow> nat \<Rightarrow> ShardKV \<Rightarrow> bool" for w g where
  start: "member_of w g (length (wd_states w g) - 1) (StartServer n limit g)"
| handler: "member_of w g k kv \<Longrightarrow> e \<in> range Register \<union> range Receive \<union> range Close \<Longrightarrow>
    member_step e kv = Some kv' \<Longrightarrow> member_of w g k kv'"
| run: "member_of w g (Suc k) kv \<Longrightarrow> logLastApplied (wd_states w g ! Suc k) < i \<Longrightarrow>
    applied op i (wd_states w g ! Suc k) = Some (wd_states w g ! k) \<Longrightarrow>
    member_step (Run op i t st) kv = Some kv' \<Longrightarrow> member_of w g k kv'"

section \<open>The invariant\<close>

text \<open>No channel is closed twice, and no answer waits where the next command may be answered.\<close>

definition channels_ready :: "ShardKV \<Rightarrow> bool" where
  "channels_ready kv \<longleftrightarrow> notify_wf (kv_notify kv) \<and>
     (\<forall>i c. notifyMapCh (kv_notify kv) i = Some c \<longrightarrow> logLastApplied kv < i \<longrightarrow>
        ch_buf (chans (kv_notify kv) ! c) = [])"

definition keeps_up :: "ShardKV \<Rightarrow> ShardKV \<Rightarrow> bool" where
  "keeps_up kv kg \<longleftrightarrow> same_machine kv kg \<and> logLastApplied kv = logLastApplied kg \<and>
     \<not> passiveSnapshotBefore kv \<and> channels_ready kv"

lemma channels_Register:
  assumes ok: "channels_ready kv" and step: "member_step (Register i) kv = Some kv'"
  shows "channels_ready kv' \<and> kv' = kv\<lparr>kv_notify := kv_notify kv'\<rparr>"
proof -
  let ?n = "kv_notify kv"
  have kv': "kv' = kv\<lparr>kv_notify := fst (createNotifyCh i ?n)\<rparr>"
    using step by (auto simp: sk_afterStart_def split: prod.splits)
  have "c < length (chans ?n)" if "notifyMapCh ?n j = Some c" for j c
    using ok that by (auto simp: channels_ready_def notify_wf_def)
  with ok createNotifyCh_wf [of ?n i] show ?thesis
    by (auto simp: kv' channels_ready_def createNotifyCh_def nth_append Let_def)
qed

lemma channels_Receive:
  assumes ok: "channels_ready kv" and step: "member_step (Receive c) kv = Some kv'"
  shows "channels_ready kv' \<and> kv' = kv\<lparr>kv_notify := kv_notify kv'\<rparr>"
proof -
  obtain r n where n: "recvNotify zero_SkReply c (kv_notify kv) = Some (r, n)" and kv': "kv' = kv\<lparr>kv_notify := n\<rparr>"
    and "c < length (chans (kv_notify kv))"
    using step by (auto split: if_splits)
  then show ?thesis
    using ok by (auto simp: recvNotify_def channels_ready_def notify_wf_def nth_list_update
        split: list.splits if_splits)
qed

lemma channels_Close:
  assumes ok: "channels_ready kv" and step: "member_step (Close i) kv = Some kv'"
  shows "channels_ready kv' \<and> kv' = kv\<lparr>kv_notify := kv_notify kv'\<rparr>"
proof -
  obtain n where n: "closeNotifyCh i (kv_notify kv) = Some n" and kv': "kv' = kv\<lparr>kv_notify := n\<rparr>"
    using step by (auto simp: sk_closeNotifyCh_def bind_eq_Some_conv)
  moreover have "notify_wf n" using closeNotifyCh_wf [of "kv_notify kv" i] n ok by (auto simp: channels_ready_def)
  ultimately show ?thesis
    using ok by (auto simp: closeNotifyCh_def channels_ready_def notify_wf_def nth_list_update
        split: option.splits if_splits)
qed

text \<open>The reply path of a command: with a free channel the answer never blocks.\<close>

lemma notify_ready:
  assumes ok: "channels_ready kv" and i: "logLastApplied kv < i"
    and later: "kv_notify kv1 = kv_notify kv" "logLastApplied kv1 = i"
  shows "\<exists>n. sk_notify i t st r kv1 = Some (kv1\<lparr>kv_notify := n\<rparr>) \<and> channels_ready (kv1\<lparr>kv_notify := n\<rparr>)"
proof -
  let ?n = "kv_notify kv"
  have quiet: "channels_ready (kv1\<lparr>kv_notify := ?n\<rparr>)" using ok i later by (auto simp: channels_ready_def)
  show ?thesis
  proof (cases "notifyMapCh ?n i \<noteq> None \<and> snd st \<and> t = fst st")
    case True
    then obtain c where c: "notifyMapCh ?n i = Some c" by auto
    with ok i have free: "\<not> ch_closed (chans ?n ! c)" "ch_buf (chans ?n ! c) = []" "c < length (chans ?n)"
      by (auto simp: channels_ready_def notify_wf_def)
    define n' where "n' = ?n\<lparr>chans := (chans ?n)[c := (chans ?n ! c)\<lparr>ch_buf := [r]\<rparr>]\<rparr>"
    have send: "sendNotify i r ?n = Some n'" using c free by (simp add: sendNotify_def n'_def)
    have "inj_on (notifyMapCh ?n) (dom (notifyMapCh ?n))" using ok by (simp add: channels_ready_def notify_wf_def)
    with c have other: "c' \<noteq> c" if "notifyMapCh ?n j = Some c'" "j > i" for j c'
      using that by (metis domI inj_onD less_irrefl)
    have "chans n' ! c' = chans ?n ! c'" if "notifyMapCh ?n j = Some c'" "j > i" for j c'
      using other [OF that] by (simp add: n'_def)
    moreover have "notify_wf n'" using sendNotify_wf [OF _ send] ok by (simp add: channels_ready_def)
    moreover have "notifyMapCh n' = notifyMapCh ?n" by (simp add: n'_def)
    ultimately have "channels_ready (kv1\<lparr>kv_notify := n'\<rparr>)"
      using ok later i by (simp add: channels_ready_def)
    with True send later show ?thesis by (auto simp: sk_notify_def)
  next
    case False
    with quiet later show ?thesis
      by (intro exI [of _ ?n]) (auto simp: sk_notify_def)
  qed
qed

lemma command_notify:
  assumes "sk_command op kv = Some kv'"
  shows "kv_notify kv' = kv_notify kv"
proof (cases "sko_OpType op \<in> {Get, Put, Append}")
  case True
  with sk_command_client' [OF True assms] show ?thesis by (auto simp: wrote_def)
next
  case False
  have "kv_notify (fold (updateOneShard c) xs kv) = kv_notify kv" for c xs
    by (induction xs arbitrary: kv) (auto simp: updateOneShard_def Let_def split: prod.split)
  with False assms show ?thesis
    by (auto simp: sk_command_def sk_configCmd_def updateShardState_def Let_def bind_eq_Some_conv
        split: if_splits SkOpType.splits)
qed

text \<open>A command of the group runs in every server that keeps up with it, whatever \<open>GetState\<close>
  returns.\<close>

lemma run_keeps_up:
  assumes up: "keeps_up kv kg" and i: "logLastApplied kg < i"
    and noflag: "\<not> passiveSnapshotBefore kg" and kg: "applied op i kg = Some kg'"
  shows "\<exists>kv'. member_step (Run op i t st) kv = Some kv' \<and> keeps_up kv' kg'"
proof -
  have same: "same_machine kv kg" and ready: "channels_ready kv" and flag: "\<not> passiveSnapshotBefore kv"
    and last: "logLastApplied kv = logLastApplied kg"
    using up by (simp_all add: keeps_up_def)
  have gate: "apply_gate i kv = Some (bump i kv)" using i last flag by (simp add: apply_gate_def bump_def)
  have drop: "dropped op kv = dropped op kg" and key: "checkKeyInGroup key kv = checkKeyInGroup key kg" for key
    using same by (simp_all add: dropped_def same_machine_def checkKeyInGroup_def)
  have G: "(if dropped op kg then Some kg else sk_command op (bump i kg)) = Some kg'"
    using applied_gate [of kg i op] i noflag kg by simp
  show ?thesis
  proof (cases "dropped op kg")
    case True
    then have "member_step (Run op i t st) kv = Some kv"
      by (cases "sko_OpType op")
        (simp_all add: applyMessage_def command_msg_def dropped_def executeClientCmd_def key)
    with G True up show ?thesis by (intro exI [of _ kv]) simp
  next
    case False
    have "rel_option same_machine (sk_command op (bump i kv)) (sk_command op (bump i kg))"
      by (rule sk_command_same) (simp add: same)
    moreover have "sk_command op (bump i kg) = Some kg'" using G False by simp
    ultimately obtain kv1 where kv1: "sk_command op (bump i kv) = Some kv1" "same_machine kv1 kg'"
      by (auto simp: option_rel_Some2)
    have more: "logLastApplied kv1 = i" "\<not> passiveSnapshotBefore kv1" "kv_notify kv1 = kv_notify kv"
      "logLastApplied kg' = i"
      using sk_command_quiet [OF kv1(1)] command_notify [OF kv1(1)] G False sk_command_quiet [of op "bump i kg" kg']
      by (auto simp: bump_def)
    have plain: "keeps_up (kv1\<lparr>kv_notify := n\<rparr>) kg'" if "channels_ready (kv1\<lparr>kv_notify := n\<rparr>)" for n
      using that kv1(2) more by (simp add: keeps_up_def same_machine_def)
    show ?thesis
    proof (cases "sko_OpType op \<in> {Get, Put, Append}")
      case True
      with False key have k: "checkKeyInGroup (sko_Key op) kv" by (auto simp: dropped_def)
      with True kv1(1) obtain r where r: "sk_applyClient op (bump i kv) = Some (kv1, r)"
        by (auto simp: sk_command_def)
      from notify_ready [OF ready _ more(3,1), of t st r] i last obtain n where
        "sk_notify i t st r kv1 = Some (kv1\<lparr>kv_notify := n\<rparr>)" "channels_ready (kv1\<lparr>kv_notify := n\<rparr>)" by auto
      with True k gate r plain show ?thesis
        by (auto simp: applyMessage_def command_msg_def executeClientCmd_def)
    next
      case other: False
      have "channels_ready kv1" using ready more i last by (auto simp: channels_ready_def)
      with kv1(2) more have "keeps_up kv1 kg'" by (simp add: keeps_up_def)
      moreover have "member_step (Run op i t st) kv = Some kv1"
        using other False kv1(1) gate
        by (cases "sko_OpType op")
          (simp_all add: applyMessage_def command_msg_def executeConfigCmd_def executeEmptyCmd_def
            sk_command_def dropped_def)
      ultimately show ?thesis by blast
    qed
  qed
qed

lemma replica_keeps_up:
  assumes first: "wd_states w g ! (length (wd_states w g) - 1) = StartServer 0 (-1) g"
    and quiet: "\<And>kv. kv \<in> set (wd_states w g) \<Longrightarrow> \<not> passiveSnapshotBefore kv" and ne: "wd_states w g \<noteq> []"
    and rep: "member_of w g k kv"
  shows "k < length (wd_states w g) \<and> keeps_up kv (wd_states w g ! k)"
  using rep
proof induction
  case (start n limit)
  have "channels_ready (StartServer n limit g)"
    using notify_wf_init by (simp add: channels_ready_def StartServer_def no_channels_def)
  with first ne show ?case by (simp add: keeps_up_def same_machine_def StartServer_def)
next
  case (handler k kv e kv')
  then have ok: "channels_ready kv" by (simp add: keeps_up_def)
  have "channels_ready kv' \<and> kv' = kv\<lparr>kv_notify := kv_notify kv'\<rparr>"
    using handler(2,3) channels_Register [OF ok] channels_Receive [OF ok] channels_Close [OF ok] by blast
  then have kv': "channels_ready kv'" "kv' = kv\<lparr>kv_notify := kv_notify kv'\<rparr>" by blast+
  have "logLastApplied kv' = logLastApplied kv" "passiveSnapshotBefore kv' = passiveSnapshotBefore kv"
    "same_machine kv' kv"
    by (subst kv'(2); simp add: same_machine_def)+
  with handler kv'(1) show ?case by (auto simp: keeps_up_def same_machine_def)
next
  case (run k kv i op t st kv')
  have "\<not> passiveSnapshotBefore (wd_states w g ! Suc k)" using quiet run by auto
  with run_keeps_up [of kv "wd_states w g ! Suc k" i op "wd_states w g ! k" t st] run show ?case by auto
qed

text \<open>The oldest state of a group is the initial one.\<close>

lemma deliver_first:
  assumes "deliver h op i w = Some w'" and "wd_states w g \<noteq> []"
  shows "wd_states w' g \<noteq> [] \<and> last (wd_states w' g) = last (wd_states w g)"
  using assms by (auto simp: deliver_def bind_eq_Some_conv split: if_splits)

lemma step_first:
  assumes "steady_step H e w = Some w'" and "wd_states w g \<noteq> []"
  shows "wd_states w' g \<noteq> [] \<and> last (wd_states w' g) = last (wd_states w g)"
proof -
  have run: "mig_step H e w = Some w'" using assms(1) by (simp add: steady_step_def split: if_splits)
  have same: "wd_states w' = wd_states w" if "propose h mop w = Some w'" for h mop
    using that by (auto simp: propose_def)
  show ?thesis
    using run assms(2)
    by (cases e) (auto simp: bind_eq_Some_conv dest: same deliver_first split: if_splits)
qed

interpretation first_state: step_machine "steady_step H"
  "\<lambda>w. wd_states w g \<noteq> [] \<and> last (wd_states w g) = StartServer 0 (-1) g" for H g
  by unfold_locales (use step_first in fastforce)

lemma run_member:
  assumes "hist_ok H" and run: "mig_run H es = Some w" and g: "g \<noteq> 0" and rep: "member_of w g k kv"
  shows "k < length (wd_states w g) \<and> keeps_up kv (wd_states w g ! k)"
proof (rule replica_keeps_up [OF _ _ _ rep])
  have "wd_states w g \<noteq> [] \<and> last (wd_states w g) = StartServer 0 (-1) g"
    by (rule first_state.run_inv [OF _ run]) (simp add: world_init_def)
  then show ne: "wd_states w g \<noteq> []" and "wd_states w g ! (length (wd_states w g) - 1) = StartServer 0 (-1) g"
    using last_conv_nth [of "wd_states w g"] by auto
  show "\<not> passiveSnapshotBefore kv" if "kv \<in> set (wd_states w g)" for kv
    using world_okD(1) [OF mig_run_ok [OF assms(1,2)]] g that by (auto simp: groups_ok_def kv_ok_def)
qed

end
