(* ===== verification/ShardKVTheorems.thy ===== *)
theory ShardKVTheorems
  imports ShardRace ShardReplica
begin

text \<open>
  The properties of the sharded key/value store (\<open>src/shardkv\<close>): the groups together implement
  one database, whatever the order in which they follow the configurations; and the cases in
  which a group or a replica stops for ever.
\<close>

section \<open>A run with two groups\<close>

definition ex_servers :: groups where
  "ex_servers = [1 \<mapsto> [''a''], 2 \<mapsto> [''b'']]"

text \<open>Group 1 has everything, then shard 7 moves to group 2, then everybody leaves.\<close>

definition ex_history :: "Config list" where
  "ex_history = [zero_Config,
     \<lparr>cfg_Num = 1, cfg_Shards = replicate 10 1, cfg_Groups = ex_servers\<rparr>,
     \<lparr>cfg_Num = 2, cfg_Shards = (replicate 10 1)[7 := 2], cfg_Groups = ex_servers\<rparr>,
     \<lparr>cfg_Num = 3, cfg_Shards = replicate 10 0, cfg_Groups = (\<lambda>_. None)\<rparr>]"

definition ex_op :: "SkOpType \<Rightarrow> int \<Rightarrow> string \<Rightarrow> SkOp" where
  "ex_op t n v = zero_SkOp\<lparr>sko_ClientId := 9, sko_CmdNum := n, sko_OpType := t, sko_Key := ''a'',
     sko_Value := v\<rparr>"

text \<open>A write in group 1, the handover of its shard, and in group 2 an append and a late
  duplicate of the first write.\<close>

definition ex_events :: "mig_event list" where
  "ex_events = [PollConfig 1 0 0, Commit 0 1, PollConfig 2 0 0, Commit 1 1,
     ClientOp 1 (ex_op Put 1 ''x'') 2, PollConfig 1 0 0, Commit 2 3, PollConfig 2 0 0, Commit 3 2,
     Fetch 2 0 7 0, Commit 4 3, Confirm 1 0 7 0, Commit 5 4,
     ClientOp 2 (ex_op Append 2 ''y'') 4, ClientOp 2 (ex_op Put 1 ''x'') 5]"

definition ex_world :: World where
  "ex_world = the (mig_run ex_history ex_events)"

lemma ex_history_ok: "hist_ok ex_history"
  by (auto simp: hist_ok_def ex_history_def NShards_def ex_servers_def zero_Config_def less_Suc_eq)

lemma ex_world_run: "mig_run ex_history ex_events = Some ex_world"
proof -
  have "case mig_run ex_history ex_events of None \<Rightarrow> False | Some _ \<Rightarrow> True" by code_simp
  then show ?thesis unfolding ex_world_def by (metis option.case(1) option.exhaust_sel)
qed

lemma ex_world_served: "status (current ex_world 2) 7 = Exist" "status (current ex_world 1) 7 = NoExist"
  and ex_world_done: "map sko_Value (wd_done ex_world) = [''x'', ''y'']"
  by code_simp+

section \<open>The groups together\<close>

text \<open>C1: In executions in which no group applies a configuration between the check and the copy of
  a turn of \<open>getLastestConfig\<close> (\<open>race_loses_write\<close> below shows that this is needed), in every
  reachable state of the system - configurations, handovers and client commands in any order,
  with delayed and repeated messages and lagging replicas - each write was executed at most once
  in all groups together, and a group that serves a shard holds exactly what the executed writes,
  in their order, leave in that shard of one flat database.\<close>

theorem one_database:
  assumes "hist_ok H" and "mig_run H es = Some w"
    and "g \<noteq> 0" and "s < NShards" and "status (current w g) s = Exist"
  shows "distinct (wd_done w) \<and>
    kvDB (current w g) (int s) = Some (in_shard s (database (wd_done w)))"
proof -
  have w: "world_ok H w" by (rule mig_run_ok [OF assms(1,2)])
  from fits_served [OF w assms(3-5)] world_okD(5) [OF w] show ?thesis
    by (auto simp: fits_def fresh_def done_ok_def)
qed

lemma one_database_witness:
  "distinct (wd_done ex_world) \<and>
   kvDB (current ex_world 2) (int 7) = Some (in_shard 7 (database (wd_done ex_world)))"
  by (rule one_database [OF ex_history_ok ex_world_run]) (simp_all add: ex_world_served NShards_def)

text \<open>C13: In executions in which no group applies a configuration between the check and the copy of
  a turn of \<open>getLastestConfig\<close>, at no time do two groups serve the same shard.\<close>

theorem one_server_per_shard:
  assumes "hist_ok H" and "mig_run H es = Some w" and "s < NShards"
    and "g \<noteq> 0" and "status (current w g) s = Exist"
    and "g' \<noteq> 0" and "status (current w g') s = Exist"
  shows "g = g'"
  using world_okD(1,2) [OF mig_run_ok [OF assms(1,2)]] assms(3-7) by (rule serving_unique)

lemma one_server_per_shard_witness:
  "status (current ex_world 2) 7 = Exist \<and> status (current ex_world 1) 7 \<noteq> Exist"
  using one_server_per_shard [OF ex_history_ok ex_world_run, of 7 1 2] ex_world_served
  by (auto simp: NShards_def)

text \<open>C18: In executions in which no group applies a configuration between the check and the copy of
  a turn of \<open>getLastestConfig\<close>, a Get that is applied in a group that serves its key answers what the flat database
  holds, \<open>ErrNoKey\<close> if it holds nothing, and changes nothing.\<close>

theorem get_answers_database:
  assumes "hist_ok H" and "mig_run H es = Some w" and "g \<noteq> 0"
    and "sko_OpType op = Get" and "checkKeyInGroup (sko_Key op) (current w g)"
  shows "sk_applyClient op (current w g) = Some (current w g,
    case database (wd_done w) (sko_Key op) of
      None \<Rightarrow> \<lparr>skr_Err = ErrNoKey, skr_Value = ''''\<rparr>
    | Some v \<Rightarrow> \<lparr>skr_Err = OK, skr_Value = v\<rparr>)"
proof -
  let ?s = "nat (op_shard op)"
  have "fits (wd_done w) ?s (current w g)"
    using fits_served [OF mig_run_ok [OF assms(1,2)] assms(3) nat_key2shard] assms(5)
    by (simp add: checkKeyInGroup_def)
  then have "kvDB (current w g) (op_shard op) = Some (in_shard ?s (database (wd_done w)))"
    by (auto simp: fits_def fresh_def)
  from sk_applyClient_Get [OF assms(4) this] show ?thesis by (simp add: in_shard_def)
qed

lemma get_answers_database_witness:
  "sk_applyClient (ex_op Get 3 '''') (current ex_world 2) =
     Some (current ex_world 2, \<lparr>skr_Err = OK, skr_Value = ''xy''\<rparr>)"
proof -
  have "database (wd_done ex_world) ''a'' = Some ''xy''" by code_simp
  moreover have "sko_Key (ex_op Get 3 '''') = ''a''" "sko_OpType (ex_op Get 3 '''') = Get"
    by (simp_all add: ex_op_def)
  moreover have "checkKeyInGroup ''a'' (current ex_world 2)" by code_simp
  ultimately show ?thesis
    using get_answers_database [OF ex_history_ok ex_world_run, of 2 "ex_op Get 3 ''''"] by simp
qed



text \<open>In every replica state a group has been in, the shards it serves or waits for are the ones
  its configuration gives it, it waits to give only shards of the previous one, and the previous
  configuration it remembers is the one just before.\<close>

theorem group_follows_config:
  assumes "hist_ok H" and "mig_run H es = Some w" and "g \<noteq> 0"
    and "kv \<in> set (wd_states w g)" and "s < NShards"
  shows "\<exists>n < length H. curConfig kv = H ! n \<and> preConfig kv = H ! (n - 1) \<and>
    (status kv s \<in> {Exist, WaitGet} \<longleftrightarrow> cfg_Shards (H ! n) ! s = g) \<and>
    (status kv s = WaitGive \<longrightarrow> 0 < n \<and> cfg_Shards (H ! (n - 1)) ! s = g) \<and>
    (status kv s = WaitGet \<longrightarrow> 2 \<le> n \<and> cfg_Shards (H ! (n - 1)) ! s \<noteq> g)"
proof -
  have "kv_ok H g kv"
    using world_okD(1) [OF mig_run_ok [OF assms(1,2)]] assms(3,4) unfolding groups_ok_def by blast
  then show ?thesis
    using kv_ok_shard(1-3) [OF \<open>kv_ok H g kv\<close> assms(5)]
    by (intro exI [of _ "version kv"]) (auto simp: kv_ok_def owner_def)
qed

lemma group_follows_config_witness:
  "\<exists>n < length ex_history. curConfig (current ex_world 2) = ex_history ! n \<and>
    preConfig (current ex_world 2) = ex_history ! (n - 1)"
proof -
  have "current ex_world 2 \<in> set (wd_states ex_world 2)"
    using world_okD(1) [OF mig_run_ok [OF ex_history_ok ex_world_run]]
    by (simp add: groups_ok_def current_def)
  from group_follows_config [OF ex_history_ok ex_world_run _ this, of 7] show ?thesis
    by (auto simp: NShards_def)
qed

section \<open>Requests\<close>

definition put_append_op :: "PutAppendArgs \<Rightarrow> SkOp" where
  "put_append_op args = zero_SkOp\<lparr>sko_ClientId := pa_ClientId args, sko_CmdNum := pa_CmdNum args,
     sko_OpType := pa_Op args, sko_Key := pa_Key args, sko_Value := pa_Value args\<rparr>"

text \<open>The way of a new Put or Append through a leader: the handler proposes it, registers a
  channel for the index it gets, and the apply loop writes the value, records the session and
  leaves the reply in that channel, from which the handler answers the client.\<close>

theorem put_append_answered:
  assumes maps: "all_maps kv" and n: "notify_wf (kv_notify kv)"
    and gate: "\<not> passiveSnapshotBefore kv" "i > logLastApplied kv"
    and args: "pa_Op args \<in> {Put, Append}" "checkKeyInGroup (pa_Key args) kv"
    and new: "\<not> settled (put_append_op args) kv"
  shows "\<exists>kv1 c kv2 m reply notify.
    PutAppend_enter args kv = Proposes (put_append_op args) \<and>
    sk_afterStart i True kv = Inr (kv1, c) \<and>
    executeClientCmd (put_append_op args) i t (t, True) kv1 = Some kv2 \<and>
    kvDB kv (key2shard (pa_Key args)) = Some m \<and>
    kvDB kv2 = (kvDB kv)(key2shard (pa_Key args) \<mapsto> m(pa_Key args \<mapsto>
      (if pa_Op args = Append then (case m (pa_Key args) of None \<Rightarrow> [] | Some v \<Rightarrow> v) else [])
        @ pa_Value args)) \<and>
    recvNotify zero_SkReply c (kv_notify kv2) = Some (reply, notify) \<and>
    skr_Err reply = (if pa_Op args = Append \<and> m (pa_Key args) = None then ErrNoKey else OK) \<and>
    sk_afterWait (pa_Key args) (Some reply) kv2 = (reply, True) \<and>
    settled (put_append_op args) kv2"
proof -
  let ?op = "put_append_op args"
  have op: "sko_OpType ?op \<in> {Put, Append}" "sko_Key ?op = pa_Key args" "sko_Value ?op = pa_Value args"
    "sko_OpType ?op = pa_Op args"
    using args by (simp_all add: put_append_op_def)
  have "kvDB kv (int (nat (op_shard ?op))) \<noteq> None" using maps nat_key2shard unfolding all_maps_def by blast
  then obtain m where m: "kvDB kv (op_shard ?op) = Some m" by auto
  obtain n' c where n': "createNotifyCh i (kv_notify kv) = (n', c)" by fastforce
  define kv1 where "kv1 = kv\<lparr>kv_notify := n'\<rparr>"
  have start: "sk_afterStart i True kv = Inr (kv1, c)" by (simp add: sk_afterStart_def n' kv1_def)
  have c: "notifyMapCh n' i = Some c" "chans n' ! c = \<lparr>ch_buf = [], ch_closed = False\<rparr>" "c < length (chans n')"
    using n' by (auto simp: createNotifyCh_def Let_def)
  have enter: "PutAppend_enter args kv = Proposes ?op"
    using args(2) new
    by (auto simp: PutAppend_enter_def put_append_op_def settled_def Let_def split: option.splits)
  let ?b = "bump i kv1"
  have g: "apply_gate i kv1 = Some ?b" using gate by (simp add: apply_gate_def bump_def kv1_def)
  have run: "sk_applyClient ?op ?b = Some (wrote ?op m ?b, write_reply ?op (m (pa_Key args)))"
    using sk_applyClient_write [OF op(1), of ?b m] m new op(2) by (simp add: kv1_def settled_def)
  define kv2 where "kv2 = (wrote ?op m ?b)\<lparr>kv_notify := n'\<lparr>chans := (chans n')[c :=
    (chans n' ! c)\<lparr>ch_buf := [write_reply ?op (m (pa_Key args))]\<rparr>]\<rparr>\<rparr>"
  have key1: "checkKeyInGroup (pa_Key args) kv1" using args(2) by (simp add: kv1_def checkKeyInGroup_def)
  have "executeClientCmd ?op i t (t, True) kv1 = Some kv2"
    using g run key1 c op(2)
    by (simp add: executeClientCmd_def sk_notify_def sendNotify_def kv2_def wrote_def bump_def kv1_def)
  moreover have "checkKeyInGroup (pa_Key args) kv2"
    using args(2) by (simp add: kv2_def wrote_def bump_def kv1_def checkKeyInGroup_def)
  moreover have "kvDB kv2 = (kvDB kv)(op_shard ?op \<mapsto> m(pa_Key args \<mapsto> written ?op (m (pa_Key args))))"
    by (simp add: kv2_def wrote_def bump_def kv1_def op(2))
  moreover have "settled ?op kv2"
    by (simp add: kv2_def wrote_def settled_def)
  moreover have "recvNotify zero_SkReply c (kv_notify kv2) = Some (write_reply ?op (m (pa_Key args)),
      (kv_notify kv2)\<lparr>chans := (chans (kv_notify kv2))[c := (chans (kv_notify kv2) ! c)\<lparr>ch_buf := []\<rparr>]\<rparr>)"
    using c(3) by (simp add: recvNotify_def kv2_def)
  moreover have "skr_Err (write_reply ?op (m (pa_Key args))) =
      (if pa_Op args = Append \<and> m (pa_Key args) = None then ErrNoKey else OK)"
    using op by (simp add: write_reply_def zero_SkReply_def)
  ultimately show ?thesis
    using enter start m op
    by (intro exI [of _ kv1] exI [of _ c] exI [of _ kv2] exI [of _ m]
        exI [of _ "write_reply ?op (m (pa_Key args))"] exI)
      (auto simp: sk_afterWait_def written_def)
qed

definition ex_server :: ShardKV where
  "ex_server = (StartServer 0 (-1) 1)\<lparr>ownedShards := replicate NShards Exist, logLastApplied := 4\<rparr>"

definition ex_put_append :: PutAppendArgs where
  "ex_put_append = \<lparr>pa_Key = ''a'', pa_Value = ''v'', pa_Op = Append, pa_ClientId = 9, pa_CmdNum = 1\<rparr>"

lemma put_append_answered_witness:
  "\<exists>kv1 c kv2. sk_afterStart 5 True ex_server = Inr (kv1, c) \<and>
     executeClientCmd (put_append_op ex_put_append) 5 2 (2, True) kv1 = Some kv2 \<and>
     settled (put_append_op ex_put_append) kv2"
proof -
  have "all_maps ex_server" "notify_wf (kv_notify ex_server)" "\<not> passiveSnapshotBefore ex_server"
    "5 > logLastApplied ex_server" "pa_Op ex_put_append \<in> {Put, Append}"
    "checkKeyInGroup (pa_Key ex_put_append) ex_server" "\<not> settled (put_append_op ex_put_append) ex_server"
    using notify_wf_init
    by (simp_all add: ex_server_def ex_put_append_def all_maps_def StartServer_def checkKeyInGroup_def settled_def)
  from put_append_answered [OF this, of 2] show ?thesis by blast
qed

text \<open>C32: An Append to a key that does not exist is executed, but answered \<open>ErrNoKey\<close>, and as long as
  its session record stands every retry is answered so, or with \<open>ErrWrongGroup\<close>: the clerk, which
  accepts only \<open>OK\<close>, asks for ever.\<close>

theorem append_never_returns:
  assumes args: "pa_Op args = Append" and new: "\<not> settled (put_append_op args) kv"
    and m: "kvDB kv (key2shard (pa_Key args)) = Some m" "m (pa_Key args) = None"
  shows "\<exists>kv' reply. sk_applyClient (put_append_op args) kv = Some (kv', reply) \<and>
    readKey (key2shard (pa_Key args)) (pa_Key args) kv' = Some (pa_Value args) \<and>
    (\<forall>kv'' answers latest ck.
       kv_sessions kv'' (pa_ClientId args) = kv_sessions kv' (pa_ClientId args) \<and>
       (\<forall>r. Some r \<in> set answers \<longrightarrow> PutAppend_enter args kv'' = Answers r) \<longrightarrow>
       SkClerk_PutAppend answers latest ck = (ck\<lparr>kck_config := latest\<rparr>, False))"
proof -
  let ?op = "put_append_op args"
  have op: "sko_OpType ?op \<in> {Put, Append}" "sko_Key ?op = pa_Key args" "sko_OpType ?op = Append"
    "sko_Value ?op = pa_Value args" "sko_CmdNum ?op = pa_CmdNum args" "sko_ClientId ?op = pa_ClientId args"
    using args by (simp_all add: put_append_op_def)
  let ?kv' = "wrote ?op m kv"
  have run: "sk_applyClient ?op kv = Some (?kv', write_reply ?op (m (pa_Key args)))"
    using sk_applyClient_write [OF op(1) _ new] m op(2) by simp
  have clerk: "SkClerk_PutAppend answers latest ck = (ck\<lparr>kck_config := latest\<rparr>, False)"
    if s: "kv_sessions kv'' (pa_ClientId args) = kv_sessions ?kv' (pa_ClientId args)"
      and a: "\<forall>r. Some r \<in> set answers \<longrightarrow> PutAppend_enter args kv'' = Answers r"
    for kv'' answers latest ck
  proof -
    have "skr_Err r \<in> {ErrNoKey, ErrWrongGroup}" if "Some r \<in> set answers" for r
      using a that s op m
      by (auto simp: PutAppend_enter_def wrote_def write_reply_def zero_SkReply_def Let_def
          split: if_splits)
    then have "tryServers (\<lambda>r. skr_Err r = OK) answers = None"
    proof (induction answers)
      case (Cons x xs)
      then show ?case by (cases x) fastforce+
    qed simp
    then show ?thesis by (simp add: SkClerk_PutAppend_def)
  qed
  have "readKey (key2shard (pa_Key args)) (pa_Key args) ?kv' = Some (pa_Value args)"
    using op m by (simp add: readKey_def wrote_def written_def)
  with run clerk show ?thesis by blast
qed

lemma append_never_returns_witness:
  "\<exists>kv' reply. sk_applyClient (put_append_op ex_put_append) ex_server = Some (kv', reply) \<and>
    readKey (key2shard ''a'') ''a'' kv' = Some ''v''"
proof -
  have "pa_Op ex_put_append = Append" "\<not> settled (put_append_op ex_put_append) ex_server"
    by (simp_all add: ex_put_append_def ex_server_def settled_def StartServer_def)
  moreover have "kvDB ex_server (key2shard (pa_Key ex_put_append)) = Some (\<lambda>_. None)"
    using key2shard_range by (simp add: ex_server_def StartServer_def)
  ultimately show ?thesis
    using append_never_returns [of ex_put_append ex_server "\<lambda>_. None"]
    by (fastforce simp: ex_put_append_def)
qed

section \<open>Snapshots\<close>

definition snapshot_message :: "int \<Rightarrow> SkSnapshot \<Rightarrow> (SkOp, SkSnapshot) ApplyMsg" where
  "snapshot_message n data = \<lparr>am_CommandValid = False, am_Command = None, am_CommandIndex = 0,
     am_CommandTerm = 0, am_SnapshotValid = True, am_SnapshotIndex = n, am_StateMachineState = Some data\<rparr>"

text \<open>C23: A replica that installs the snapshot another replica of its group took holds the same state
  machine, and applying the entries that follow keeps the two the same, provided the first of
  them is not a client command on a shard the group does not serve.\<close>

theorem snapshot_catches_up:
  assumes taken: "checkSnapshotNeed_copy nowStateSize kv = Some (n, data)" and "\<not> passiveSnapshotBefore kv"
    and "kv_gid kv = kv_gid kv2" and first: "ops \<noteq> [] \<Longrightarrow> \<not> dropped (hd ops) kv"
  shows "\<exists>kv3. applyMessage (snapshot_message n data) st kv2 = Some kv3 \<and> same_machine kv kv3 \<and>
    logLastApplied kv3 = n \<and> rel_option same_machine (replay (n + 1) ops kv) (replay (n + 1) ops kv3)"
proof -
  have n: "n = logLastApplied kv" and data: "data = sk_snapshot kv"
    using taken by (auto simp: checkSnapshotNeed_copy_def split: if_splits)
  define kv3 where "kv3 = (applySnapshotToSM (Some data) kv2)\<lparr>logLastApplied := n, passiveSnapshotBefore := True\<rparr>"
  have install: "applyMessage (snapshot_message n data) st kv2 = Some kv3"
    by (simp add: applyMessage_def snapshot_message_def kv3_def)
  have same: "same_machine kv kv3"
    using assms(3) by (simp add: same_machine_def kv3_def applySnapshotToSM_def data sk_snapshot_def)
  have last: "logLastApplied kv3 = n" by (simp add: kv3_def)
  have "rel_option same_machine (replay (n + 1) ops kv) (replay (n + 1) ops kv3)"
  proof (cases ops)
    case (Cons op ops')
    then have d: "\<not> dropped op kv" using first by simp
    then have d3: "\<not> dropped op kv3"
      using same by (simp add: dropped_def same_machine_def checkKeyInGroup_def)
    have A: "applied op (n + 1) kv = sk_command op (bump (n + 1) kv)"
      using applied_gate [of kv "n + 1" op] n d assms(2) by simp
    have B: "applied op (n + 1) kv3 = sk_command op (bump (n + 1) kv3)"
      using applied_gate [of kv3 "n + 1" op] last d3 by simp
    have "rel_option same_machine (sk_command op (bump (n + 1) kv)) (sk_command op (bump (n + 1) kv3))"
      by (rule sk_command_same) (simp add: same)
    then show ?thesis
    proof (cases rule: option.rel_cases)
      case (Some a b)
      with sk_command_quiet [of op "bump (n + 1) kv" a] sk_command_quiet [of op "bump (n + 1) kv3" b]
      have "rel_option same_machine (replay (n + 1 + 1) ops' a) (replay (n + 1 + 1) ops' b)"
        by (intro replay_same) auto
      with Some Cons A B show ?thesis by simp
    qed (use Cons A B in simp)
  qed (simp add: same)
  with install same last show ?thesis by blast
qed

definition ex_full :: ShardKV where
  "ex_full = ex_server\<lparr>maxraftstate := 10\<rparr>"

lemma snapshot_catches_up_witness:
  "\<exists>kv3. applyMessage (snapshot_message 4 (sk_snapshot ex_full)) (0, False) (StartServer 1 10 1) = Some kv3 \<and>
     rel_option same_machine (replay (4 + 1) [ex_op Put 1 ''x''] ex_full) (replay (4 + 1) [ex_op Put 1 ''x''] kv3)"
proof -
  have a: "checkSnapshotNeed_copy 11 ex_full = Some (4, sk_snapshot ex_full)"
    by (simp add: checkSnapshotNeed_copy_def ex_full_def ex_server_def)
  have b: "\<not> passiveSnapshotBefore ex_full" "kv_gid ex_full = kv_gid (StartServer 1 10 1)"
    and d: "\<not> dropped (hd [ex_op Put 1 ''x'']) ex_full"
    by (simp_all add: ex_full_def ex_server_def StartServer_def dropped_def checkKeyInGroup_def ex_op_def)
  from snapshot_catches_up [OF a b d, of "(0, False)"] show ?thesis by blast
qed

text \<open>If the first entry after an installed snapshot is a client command on a shard the group does
  not serve, the replica drops it without counting it, and then every further entry, whatever
  it is, because none of them follows the snapshot directly.\<close>

theorem replica_stuck_after_snapshot:
  assumes "applyMessage (snapshot_message n data) st kv = Some kv'"
    and "sko_OpType op \<in> {Get, Put, Append}" and "\<not> checkKeyInGroup (sko_Key op) kv'"
  shows "replay (n + 1) (op # ops) kv' = Some kv'"
proof -
  have kv': "passiveSnapshotBefore kv'" "logLastApplied kv' = n"
    using assms(1) by (auto simp: applyMessage_def snapshot_message_def)
  have "dropped op kv'" using assms(2,3) unfolding dropped_def by blast
  moreover have "applied op (n + 1) kv' = (if dropped op kv' then Some kv' else sk_command op (bump (n + 1) kv'))"
    by (rule applied_gate) (simp_all add: kv'(2))
  ultimately have "applied op (n + 1) kv' = Some kv'" by simp
  moreover have "replay (n + 1 + 1) ops kv' = Some kv'"
    by (rule dropped_forever [OF kv'(1)]) (simp add: kv'(2))
  ultimately show ?thesis by simp
qed

lemma replica_stuck_after_snapshot_witness:
  "\<exists>kv'. applyMessage (snapshot_message 4 (sk_snapshot (StartServer 0 10 1))) (0, False)
       (StartServer 1 10 1) = Some kv' \<and>
     replay (4 + 1) (ex_op Put 1 ''x'' # [zero_SkOp\<lparr>sko_OpType := EmptyOp\<rparr>]) kv' = Some kv' \<and>
     logLastApplied kv' = 4"
proof -
  define kv' where "kv' = (StartServer 1 10 1)\<lparr>logLastApplied := 4, passiveSnapshotBefore := True\<rparr>"
  have run: "applyMessage (snapshot_message 4 (sk_snapshot (StartServer 0 10 1))) (0, False)
      (StartServer 1 10 1) = Some kv'"
    by (simp add: applyMessage_def snapshot_message_def applySnapshotToSM_def sk_snapshot_def
        StartServer_def kv'_def)
  have "\<not> checkKeyInGroup (sko_Key (ex_op Put 1 ''x'')) kv'"
    using nat_key2shard by (simp add: checkKeyInGroup_def kv'_def StartServer_def)
  moreover have "sko_OpType (ex_op Put 1 ''x'') \<in> {Get, Put, Append}" by (simp add: ex_op_def)
  ultimately show ?thesis
    using replica_stuck_after_snapshot [OF run, of "ex_op Put 1 ''x''"] run by (auto simp: kv'_def)
qed

section \<open>Configuration changes that never end\<close>

text \<open>A group that has to give a shard which the new configuration assigns to nobody (the last
  group left) waits for an acknowledgement that cannot come: in every continuation it stays in
  that configuration, also after groups join again.\<close>

theorem group_stuck_without_receiver:
  assumes "hist_ok H" and "mig_run H es = Some w" and "g \<noteq> 0" and "s < NShards"
    and "status (current w g) s = WaitGive" and "cfg_Shards (curConfig (current w g)) ! s = 0"
    and "run_steps (steady_step H) es' w = Some w'"
  shows "curConfig (current w' g) = curConfig (current w g) \<and> status (current w' g) s = WaitGive"
proof -
  have w: "world_ok H w" by (rule mig_run_ok [OF assms(1,2)])
  have ok: "kv_ok H g (current w g)" by (rule current_ok [OF world_okD(1) [OF w] assms(3)])
  then have "owner H (version (current w g)) s = 0" using assms(6) by (simp add: kv_ok_def owner_def)
  with w assms have "abandoned H g s (version (current w g)) w" by (simp add: abandoned_def)
  then have ab: "abandoned H g s (version (current w g)) w'"
    by (rule abandoned.run_inv [OF _ assms(7)])
  then have "kv_ok H g (current w' g)" and v: "version (current w' g) = version (current w g)"
    using current_ok world_okD(1) by (auto simp: abandoned_def)
  with ok have "curConfig (current w' g) = curConfig (current w g)" unfolding kv_ok_def by metis
  with ab show ?thesis by (simp add: abandoned_def)
qed

text \<open>The run above, continued: everybody leaves.\<close>

definition ex_leaving :: World where
  "ex_leaving = the (mig_run ex_history (ex_events @ [PollConfig 1 0 0, Commit 6 5]))"

lemma ex_leaving_run: "mig_run ex_history (ex_events @ [PollConfig 1 0 0, Commit 6 5]) = Some ex_leaving"
proof -
  have "case mig_run ex_history (ex_events @ [PollConfig 1 0 0, Commit 6 5]) of None \<Rightarrow> False | Some _ \<Rightarrow> True"
    by code_simp
  then show ?thesis unfolding ex_leaving_def by (metis option.case(1) option.exhaust_sel)
qed

lemma group_stuck_without_receiver_witness:
  "\<exists>w'. run_steps (steady_step ex_history) [PollConfig 2 0 0, Commit 7 9] ex_leaving = Some w' \<and>
     status (current w' 1) 0 = WaitGive"
proof -
  have "case run_steps (steady_step ex_history) [PollConfig 2 0 0, Commit 7 9] ex_leaving of
      None \<Rightarrow> False | Some _ \<Rightarrow> True" by code_simp
  then obtain w' where run: "run_steps (steady_step ex_history) [PollConfig 2 0 0, Commit 7 9] ex_leaving = Some w'"
    by (auto split: option.splits)
  have "status (current ex_leaving 1) 0 = WaitGive" "cfg_Shards (curConfig (current ex_leaving 1)) ! 0 = 0"
    by code_simp+
  from group_stuck_without_receiver [OF ex_history_ok ex_leaving_run _ _ this run] run show ?thesis
    by (auto simp: NShards_def)
qed

section \<open>Races of \<open>getLastestConfig\<close>\<close>

text \<open>C33: The check that no shard is moving and the reading of the configuration number are two
  critical sections. If the next configuration takes a shard away from a group that serves it and
  the one after gives it back, and the first is applied between the two sections, the group adopts
  the second while the shard still moves, and is stranded: it owns the shard but has it in
  \<open>WaitGive\<close>, and so it stays in that configuration and refuses every request for that shard in
  every continuation in which no further configuration is applied within \<open>getLastestConfig\<close>.\<close>

theorem config_race_strands_shard:
  assumes hist: "hist_ok H" and run: "mig_run H es = Some w" and g: "g \<noteq> 0"
    and s: "s < NShards" "status (current w g) s = Exist" and ready: "updateConfigReady (current w g)"
    and n: "n = version (current w g)" "n + 2 < length H"
    and moves: "cfg_Shards (H ! (n + 1)) ! s \<noteq> g" "cfg_Shards (H ! (n + 2)) ! s = g"
    and i: "i > logLastApplied (current w g)"
  shows "\<exists>w'. run_steps (mig_step H) (raced_poll g (length (wd_net w)) i) w = Some w' \<and>
    (\<forall>es' w'' key. run_steps (steady_step H) es' w' = Some w'' \<and> key2shard key = int s \<longrightarrow>
       cfg_Num (curConfig (current w'' g)) = int (n + 2) \<and> cfg_Shards (curConfig (current w'' g)) ! s = g \<and>
       status (current w'' g) s = WaitGive \<and> \<not> checkKeyInGroup key (current w'' g))"
proof -
  have w: "world_ok H w" by (rule mig_run_ok [OF hist run])
  obtain w' where w': "run_steps (mig_step H) (raced_poll g (length (wd_net w)) i) w = Some w'"
    and str: "stranded g s (int (n + 2)) w'"
    using raced_poll_strands [OF hist w g s ready _ i] n moves by (auto simp: owner_def)
  have "cfg_Num (curConfig (current w'' g)) = int (n + 2) \<and> cfg_Shards (curConfig (current w'' g)) ! s = g \<and>
      status (current w'' g) s = WaitGive \<and> \<not> checkKeyInGroup key (current w'' g)"
    if "run_steps (steady_step H) es' w' = Some w''" "key2shard key = int s" for es' w'' key
  proof -
    have str: "stranded g s (int (n + 2)) w''" by (rule stranded.run_inv [OF str that(1)])
    moreover from this have "current w'' g \<in> set (wd_states w'' g)" by (simp add: stranded_def current_def)
    ultimately show ?thesis using that(2) by (auto simp: stranded_def checkKeyInGroup_def)
  qed
  with w' show ?thesis by blast
qed

text \<open>Shard 7 moves through the groups of a list; group 1 has all the others.\<close>

definition ex_moving :: "int list \<Rightarrow> Config list" where
  "ex_moving gs = zero_Config # map (\<lambda>(n, g). \<lparr>cfg_Num = int (Suc n), cfg_Shards = (replicate 10 1)[7 := g],
     cfg_Groups = [1 \<mapsto> [''a''], 2 \<mapsto> [''b''], 3 \<mapsto> [''c'']]\<rparr>) (enumerate 0 gs)"

lemma ex_moving_ok: "hist_ok (ex_moving [1, 2, 3])" "hist_ok (ex_moving [1, 2, 1])"
  by (auto simp: hist_ok_def ex_moving_def NShards_def zero_Config_def less_Suc_eq)

definition ex_settled :: World where
  "ex_settled = the (mig_run (ex_moving [1, 2, 1]) [PollConfig 1 0 0, Commit 0 1])"

lemma ex_settled_run: "mig_run (ex_moving [1, 2, 1]) [PollConfig 1 0 0, Commit 0 1] = Some ex_settled"
proof -
  have "case mig_run (ex_moving [1, 2, 1]) [PollConfig 1 0 0, Commit 0 1] of None \<Rightarrow> False | Some _ \<Rightarrow> True"
    by code_simp
  then show ?thesis unfolding ex_settled_def by (metis option.case(1) option.exhaust_sel)
qed

lemma config_race_strands_shard_witness:
  "\<exists>w'. run_steps (mig_step (ex_moving [1, 2, 1])) (raced_poll 1 1 2) ex_settled = Some w' \<and>
    (\<forall>es' w''. run_steps (steady_step (ex_moving [1, 2, 1])) es' w' = Some w'' \<longrightarrow>
       cfg_Num (curConfig (current w'' 1)) = 3 \<and> \<not> checkKeyInGroup ''a'' (current w'' 1))"
proof -
  have st: "status (current ex_settled 1) 7 = Exist" "updateConfigReady (current ex_settled 1)"
    "version (current ex_settled 1) = 1" "length (wd_net ex_settled) = 1"
    "logLastApplied (current ex_settled 1) = 1" by code_simp+
  have c: "cfg_Shards (ex_moving [1, 2, 1] ! (1 + 1)) ! 7 \<noteq> 1" "cfg_Shards (ex_moving [1, 2, 1] ! (1 + 2)) ! 7 = 1"
    "1 + 2 < length (ex_moving [1, 2, 1])"
    by code_simp+
  have "key2shard ''a'' = int 7" by code_simp
  with config_race_strands_shard [OF ex_moving_ok(2) ex_settled_run _ _ st(1,2) st(3) [symmetric] c(3,1,2), of 2] st
  show ?thesis by (auto simp: NShards_def)
qed



end
