(* ===== verification/MapReduce.thy ===== *)
theory MapReduce
  imports Prelude "HOL-Library.Word" "HOL-Library.Char_ord" "HOL-Library.List_Lexorder" "HOL-Library.Multiset"
begin

text \<open>
  The MapReduce of \<open>src/mr\<close>: the master (\<open>master.go\<close>) with its task tables and timeouts, the
  worker (\<open>worker.go\<close>) with its intermediate files, the sequential program it is compared with
  (\<open>src/main/mrsequential.go\<close>) and the Reduce functions of two applications (\<open>src/mrapps\<close>). The
  application's functions and Go's unstable \<open>sort.Sort\<close> are parameters. A file holds the list
  of records that was encoded into it: that decoding gives back what was encoded is assumed, which
  \<open>encoding/json\<close> does for keys and values that are valid UTF-8.
\<close>

unbundle bit_operations_syntax

section \<open>The master\<close>

datatype TaskType = NoTask | MapTask | ReduceTask | ExitTask | WaitTask

datatype TaskStatus = Idle | InProgress | Completed

record Task =
  t_FileName :: string
  t_Status :: TaskStatus
  t_Start :: int
  t_TaskID :: nat

record Master =
  mapTasks :: "Task list"
  reduceTasks :: "Task list"
  m_nReduce :: nat
  mapFinished :: bool
  allFinished :: bool
  m_files :: "string list"
  nextTaskID :: nat

record GetTaskReply =
  gt_TaskID :: nat
  gt_TaskType :: TaskType
  gt_FileName :: string
  gt_MapTaskNum :: nat
  gt_ReduceTaskNum :: nat
  gt_NReduce :: nat

record ReportTaskArgs =
  rt_TaskType :: TaskType
  rt_WorkerID :: int
  rt_TaskID :: nat
  rt_Completed :: bool

definition zero_reply :: GetTaskReply where
  "zero_reply = \<lparr>gt_TaskID = 0, gt_TaskType = NoTask, gt_FileName = [], gt_MapTaskNum = 0,
     gt_ReduceTaskNum = 0, gt_NReduce = 0\<rparr>"

definition MakeMaster :: "string list \<Rightarrow> nat \<Rightarrow> Master" where
  "MakeMaster files nReduce = \<lparr>
     mapTasks = map (\<lambda>i. \<lparr>t_FileName = files ! i, t_Status = Idle, t_Start = 0, t_TaskID = i\<rparr>) [0..<length files],
     reduceTasks = map (\<lambda>i. \<lparr>t_FileName = [], t_Status = Idle, t_Start = 0, t_TaskID = i\<rparr>) [0..<nReduce],
     m_nReduce = nReduce, mapFinished = False, allFinished = False, m_files = files, nextTaskID = 0\<rparr>"

text \<open>Ten seconds, in nanoseconds.\<close>

definition timeout :: int where
  "timeout = 10000000000"

definition expire :: "int \<Rightarrow> Task \<Rightarrow> Task" where
  "expire now t = (if t_Status t = InProgress \<and> now - t_Start t > timeout then t\<lparr>t_Status := Idle\<rparr> else t)"

definition all_completed :: "Task list \<Rightarrow> bool" where
  "all_completed ts \<longleftrightarrow> (\<forall>t \<in> set ts. t_Status t = Completed)"

definition checkTimeOut :: "int \<Rightarrow> Master \<Rightarrow> Master" where
  "checkTimeOut now m =
     (let m = (if \<not> mapFinished m
               then m\<lparr>mapTasks := map (expire now) (mapTasks m), mapFinished := all_completed (mapTasks m)\<rparr>
               else m)
      in m\<lparr>reduceTasks := map (expire now) (reduceTasks m), allFinished := all_completed (reduceTasks m)\<rparr>)"

text \<open>The position of the first task that satisfies a condition, and marking a task.\<close>

fun firstTask :: "(Task \<Rightarrow> bool) \<Rightarrow> Task list \<Rightarrow> nat option" where
  "firstTask p [] = None"
| "firstTask p (t # ts) = (if p t then Some 0 else map_option Suc (firstTask p ts))"

definition begun :: "int \<Rightarrow> nat \<Rightarrow> Task list \<Rightarrow> Task list" where
  "begun now i ts = ts[i := (ts ! i)\<lparr>t_Status := InProgress, t_Start := now\<rparr>]"

definition GetTask :: "int \<Rightarrow> Master \<Rightarrow> GetTaskReply \<times> Master" where
  "GetTask now m =
     (let m = checkTimeOut now m
      in if allFinished m then (zero_reply\<lparr>gt_TaskType := ExitTask\<rparr>, m)
         else if \<not> mapFinished m then
           (case firstTask (\<lambda>t. t_Status t = Idle) (mapTasks m) of
              Some i \<Rightarrow> (zero_reply\<lparr>gt_TaskType := MapTask, gt_FileName := t_FileName (mapTasks m ! i),
                           gt_TaskID := t_TaskID (mapTasks m ! i), gt_NReduce := m_nReduce m\<rparr>,
                         m\<lparr>mapTasks := begun now i (mapTasks m)\<rparr>)
            | None \<Rightarrow> (zero_reply\<lparr>gt_TaskType := WaitTask\<rparr>, m))
         else
           (case firstTask (\<lambda>t. t_Status t = Idle) (reduceTasks m) of
              Some i \<Rightarrow> (zero_reply\<lparr>gt_TaskType := ReduceTask, gt_TaskID := t_TaskID (reduceTasks m ! i),
                           gt_ReduceTaskNum := i, gt_MapTaskNum := length (mapTasks m)\<rparr>,
                         m\<lparr>reduceTasks := begun now i (reduceTasks m)\<rparr>)
            | None \<Rightarrow> (zero_reply\<lparr>gt_TaskType := WaitTask\<rparr>, m)))"

definition completed :: "nat \<Rightarrow> Task list \<Rightarrow> Task list" where
  "completed i ts = ts[i := (ts ! i)\<lparr>t_Status := Completed\<rparr>]"

definition ReportTask :: "ReportTaskArgs \<Rightarrow> Master \<Rightarrow> bool \<times> Master" where
  "ReportTask args m =
     (let reported = (\<lambda>t. t_TaskID t = rt_TaskID args \<and> t_Status t = InProgress)
      in case rt_TaskType args of
           MapTask \<Rightarrow>
             (case firstTask reported (mapTasks m) of
                Some i \<Rightarrow> let ts = completed i (mapTasks m)
                          in (True, m\<lparr>mapTasks := ts, mapFinished := all_completed ts\<rparr>)
              | None \<Rightarrow> (False, m))
         | ReduceTask \<Rightarrow>
             (case firstTask reported (reduceTasks m) of
                Some i \<Rightarrow> let ts = completed i (reduceTasks m)
                          in (True, m\<lparr>reduceTasks := ts, allFinished := all_completed ts\<rparr>)
              | None \<Rightarrow> (False, m))
         | _ \<Rightarrow> (False, m))"

definition Done :: "Master \<Rightarrow> bool" where
  "Done m \<longleftrightarrow> allFinished m"

section \<open>The worker\<close>

record KeyValue =
  Key :: string
  Value :: string

text \<open>\<open>hash/fnv\<close>'s 32-bit FNV-1a, and the bucket hash.\<close>

definition fnv32a :: "string \<Rightarrow> 32 word" where
  "fnv32a key = fold (\<lambda>c h. (h XOR of_char c) * 16777619) key 2166136261"

definition ihash :: "string \<Rightarrow> nat" where
  "ihash key = unat (fnv32a key AND 0x7fffffff)"

definition buckets :: "nat \<Rightarrow> KeyValue list \<Rightarrow> nat \<Rightarrow> KeyValue list" where
  "buckets nReduce kva b = filter (\<lambda>kv. ihash (Key kv) mod nReduce = b) kva"

text \<open>The inner and the outer loop over the sorted records.\<close>

function reduceLoop :: "(string \<Rightarrow> string list \<Rightarrow> string) \<Rightarrow> KeyValue list \<Rightarrow> (string \<times> string) list" where
  "reduceLoop reducef [] = []"
| "reduceLoop reducef (kv # kvs) =
     (let same = takeWhile (\<lambda>x. Key x = Key kv) kvs; rest = dropWhile (\<lambda>x. Key x = Key kv) kvs
      in (Key kv, reducef (Key kv) (Value kv # map Value same)) # reduceLoop reducef rest)"
  by pat_completeness auto
termination
  by (relation "measure (\<lambda>(_, kvs). length kvs)") (auto simp: length_dropWhile_le le_imp_less_Suc)

text \<open>One line of the output file.\<close>

definition outputLine :: "string \<times> string \<Rightarrow> string" where
  "outputLine l = fst l @ '' '' @ snd l @ [CHR 0x0A]"

section \<open>The sequential program and the applications\<close>

definition mapped :: "(string \<Rightarrow> string \<Rightarrow> KeyValue list) \<Rightarrow> (string \<Rightarrow> string) \<Rightarrow> string list \<Rightarrow> KeyValue list" where
  "mapped mapf content files = concat (map (\<lambda>f. mapf f (content f)) files)"

definition mrsequential ::
  "(string \<Rightarrow> string \<Rightarrow> KeyValue list) \<Rightarrow> (string \<Rightarrow> string list \<Rightarrow> string) \<Rightarrow>
   (KeyValue list \<Rightarrow> KeyValue list) \<Rightarrow> (string \<Rightarrow> string) \<Rightarrow> string list \<Rightarrow> (string \<times> string) list" where
  "mrsequential mapf reducef srt content files = reduceLoop reducef (srt (mapped mapf content files))"

text \<open>\<open>strconv.Itoa\<close> of a natural number.\<close>

fun itoa :: "nat \<Rightarrow> string" where
  "itoa n = (if n < 10 then [char_of (48 + n)] else itoa (n div 10) @ [char_of (48 + n mod 10)])"

text \<open>
  \<open>strings.FieldsFunc\<close> on text whose runes are single bytes: the maximal runs without a
  separator. What a letter is (\<open>unicode.IsLetter\<close>) is a parameter.
\<close>

function fieldsFunc :: "(char \<Rightarrow> bool) \<Rightarrow> string \<Rightarrow> string list" where
  "fieldsFunc sep cs =
     (case dropWhile sep cs of
        [] \<Rightarrow> []
      | c # rest \<Rightarrow> (c # takeWhile (\<lambda>x. \<not> sep x) rest) # fieldsFunc sep (dropWhile (\<lambda>x. \<not> sep x) rest))"
  by pat_completeness auto
termination
proof (relation "measure (\<lambda>(_, cs). length cs)")
  fix sep :: "char \<Rightarrow> bool" and cs c rest
  assume "dropWhile sep cs = c # rest"
  then have "length rest < length cs"
    by (metis length_Cons length_dropWhile_le Suc_le_lessD)
  then show "((sep, dropWhile (\<lambda>x. \<not> sep x) rest), sep, cs) \<in> measure (\<lambda>(_, cs). length cs)"
    using length_dropWhile_le [of "\<lambda>x. \<not> sep x" rest] by simp
qed simp

declare fieldsFunc.simps [simp del]

definition wc_Map :: "(char \<Rightarrow> bool) \<Rightarrow> string \<Rightarrow> string \<Rightarrow> KeyValue list" where
  "wc_Map isLetter filename contents =
     map (\<lambda>w. \<lparr>Key = w, Value = ''1''\<rparr>) (fieldsFunc (\<lambda>c. \<not> isLetter c) contents)"

definition wc_Reduce :: "string \<Rightarrow> string list \<Rightarrow> string" where
  "wc_Reduce key values = itoa (length values)"

text \<open>\<open>strings.Join\<close>, and the indexer, which sorts the documents.\<close>

fun joinWith :: "string \<Rightarrow> string list \<Rightarrow> string" where
  "joinWith sep [] = []"
| "joinWith sep [x] = x"
| "joinWith sep (x # xs) = x @ sep @ joinWith sep xs"

definition indexer_Reduce :: "string \<Rightarrow> string list \<Rightarrow> string" where
  "indexer_Reduce key values = itoa (length values) @ '' '' @ joinWith '','' (sort values)"

section \<open>Master, workers and files together\<close>

text \<open>
  A worker executing a task: how many of its file operations are done and what it has read.
  A crashed worker is one that does nothing any more.
\<close>

record Job =
  job_task :: GetTaskReply
  job_step :: nat
  job_read :: "KeyValue list"

record MrWorld =
  mw_master :: Master
  mw_inter :: "nat \<times> nat \<rightharpoonup> KeyValue list"    \<comment> \<open>\<open>mr-i-b\<close>\<close>
  mw_out :: "nat \<rightharpoonup> (string \<times> string) list"      \<comment> \<open>\<open>mr-out-r\<close>\<close>
  mw_jobs :: "Job list"
  mw_reports :: "ReportTaskArgs list"

definition mr_init :: "string list \<Rightarrow> nat \<Rightarrow> MrWorld" where
  "mr_init files nReduce = \<lparr>mw_master = MakeMaster files nReduce, mw_inter = (\<lambda>_. None),
     mw_out = (\<lambda>_. None), mw_jobs = [], mw_reports = []\<rparr>"

text \<open>
  One file operation of \<open>doMap\<close> (the rename of the next bucket) and of \<open>doReduce\<close> (reading
  the next intermediate file, at the end the rename of the output). \<open>None\<close>: nothing is left
  to do, or the file is missing and the worker dies.
\<close>

definition doMap_step ::
  "(string \<Rightarrow> string \<Rightarrow> KeyValue list) \<Rightarrow> (string \<Rightarrow> string) \<Rightarrow> Job \<Rightarrow> MrWorld \<Rightarrow> (Job \<times> MrWorld) option" where
  "doMap_step mapf content job w =
     (let task = job_task job; i = job_step job
      in if i < gt_NReduce task
         then Some (job\<lparr>job_step := i + 1\<rparr>, w\<lparr>mw_inter := (mw_inter w)((gt_TaskID task, i) \<mapsto>
           buckets (gt_NReduce task) (mapf (gt_FileName task) (content (gt_FileName task))) i)\<rparr>)
         else None)"

definition doReduce_step ::
  "(string \<Rightarrow> string list \<Rightarrow> string) \<Rightarrow> (KeyValue list \<Rightarrow> KeyValue list) \<Rightarrow> Job \<Rightarrow> MrWorld \<Rightarrow> (Job \<times> MrWorld) option" where
  "doReduce_step reducef srt job w =
     (let task = job_task job; i = job_step job; r = gt_ReduceTaskNum task
      in if i < gt_MapTaskNum task then do {
           kvs \<leftarrow> mw_inter w (i, r);
           Some (job\<lparr>job_step := i + 1, job_read := job_read job @ kvs\<rparr>, w) }
         else if i = gt_MapTaskNum task then
           Some (job\<lparr>job_step := i + 1\<rparr>,
                 w\<lparr>mw_out := (mw_out w)(r \<mapsto> reduceLoop reducef (srt (job_read job)))\<rparr>)
         else None)"

definition job_finished :: "Job \<Rightarrow> bool" where
  "job_finished job \<longleftrightarrow> (case gt_TaskType (job_task job) of
     MapTask \<Rightarrow> job_step job = gt_NReduce (job_task job)
   | ReduceTask \<Rightarrow> job_step job = gt_MapTaskNum (job_task job) + 1
   | _ \<Rightarrow> False)"

definition reportTaskDone :: "int \<Rightarrow> Job \<Rightarrow> ReportTaskArgs" where
  "reportTaskDone worker job = \<lparr>rt_TaskType = gt_TaskType (job_task job), rt_WorkerID = worker,
     rt_TaskID = gt_TaskID (job_task job), rt_Completed = True\<rparr>"

datatype mr_event =
    Ask int             \<comment> \<open>a worker asks for a task, at a time\<close>
  | Work nat            \<comment> \<open>the next file operation of a job\<close>
  | Finish nat int      \<comment> \<open>a job that has done everything sends its report\<close>
  | Report nat          \<comment> \<open>a report arrives\<close>

definition job_work where
  "job_work mapf reducef srt content job w =
     (case gt_TaskType (job_task job) of
        MapTask \<Rightarrow> doMap_step mapf content job w
      | ReduceTask \<Rightarrow> doReduce_step reducef srt job w
      | _ \<Rightarrow> None)"

fun mr_step ::
  "(string \<Rightarrow> string \<Rightarrow> KeyValue list) \<Rightarrow> (string \<Rightarrow> string list \<Rightarrow> string) \<Rightarrow>
   (KeyValue list \<Rightarrow> KeyValue list) \<Rightarrow> (string \<Rightarrow> string) \<Rightarrow> mr_event \<Rightarrow> MrWorld \<Rightarrow> MrWorld option" where
  "mr_step mapf reducef srt content (Ask now) w =
     (case GetTask now (mw_master w) of (reply, m) \<Rightarrow>
        Some (w\<lparr>mw_master := m, mw_jobs := mw_jobs w @ [\<lparr>job_task = reply, job_step = 0, job_read = []\<rparr>]\<rparr>))"
| "mr_step mapf reducef srt content (Work j) w =
     (if j < length (mw_jobs w) then do {
        (job, w) \<leftarrow> job_work mapf reducef srt content (mw_jobs w ! j) w;
        Some (w\<lparr>mw_jobs := (mw_jobs w)[j := job]\<rparr>) }
      else None)"
| "mr_step mapf reducef srt content (Finish j worker) w =
     (if j < length (mw_jobs w) \<and> job_finished (mw_jobs w ! j)
      then Some (w\<lparr>mw_reports := mw_reports w @ [reportTaskDone worker (mw_jobs w ! j)]\<rparr>)
      else None)"
| "mr_step mapf reducef srt content (Report k) w =
     (if k < length (mw_reports w)
      then Some (w\<lparr>mw_master := snd (ReportTask (mw_reports w ! k) (mw_master w))\<rparr>)
      else None)"

end
