(* ===== verification/MapReduceRun.thy ===== *)
theory MapReduceRun
  imports MapReduce
begin

text \<open>
  The invariant of the MapReduce system - the files that exist are right, and the master counts
  a task as completed only when its files exist - and what the reduce loop computes.
\<close>

section \<open>The master\<close>

text \<open>\<open>M i\<close>: the files of map task \<open>i\<close> exist; \<open>R r\<close>: the output of reduce task \<open>r\<close> exists.\<close>

definition tasks_ok :: "(nat \<Rightarrow> bool) \<Rightarrow> (nat \<Rightarrow> string) \<Rightarrow> nat \<Rightarrow> Task list \<Rightarrow> bool" where
  "tasks_ok P names n ts \<longleftrightarrow> length ts = n \<and>
     (\<forall>i < n. t_TaskID (ts ! i) = i \<and> t_FileName (ts ! i) = names i \<and>
        (t_Status (ts ! i) = Completed \<longrightarrow> P i))"

definition master_ok :: "string list \<Rightarrow> nat \<Rightarrow> (nat \<Rightarrow> bool) \<Rightarrow> (nat \<Rightarrow> bool) \<Rightarrow> Master \<Rightarrow> bool" where
  "master_ok files n M R m \<longleftrightarrow> m_nReduce m = n \<and>
     tasks_ok M ((!) files) (length files) (mapTasks m) \<and> tasks_ok R (\<lambda>_. []) n (reduceTasks m) \<and>
     (mapFinished m \<longrightarrow> (\<forall>i < length files. M i)) \<and> (allFinished m \<longrightarrow> (\<forall>r < n. R r))"

lemma tasks_ok_mono: "tasks_ok P names n ts \<Longrightarrow> (\<And>i. P i \<Longrightarrow> Q i) \<Longrightarrow> tasks_ok Q names n ts"
  by (auto simp: tasks_ok_def)

lemma master_ok_mono:
  "master_ok files n M R m \<Longrightarrow> (\<And>i. M i \<Longrightarrow> M' i) \<Longrightarrow> (\<And>r. R r \<Longrightarrow> R' r) \<Longrightarrow> master_ok files n M' R' m"
  by (auto simp: master_ok_def intro: tasks_ok_mono)

lemma expire_fields [simp]:
  "t_TaskID (expire now t) = t_TaskID t" "t_FileName (expire now t) = t_FileName t"
  "t_Status (expire now t) = Completed \<longleftrightarrow> t_Status t = Completed"
  by (simp_all add: expire_def)

lemma tasks_ok_expire: "tasks_ok P names n ts \<Longrightarrow> tasks_ok P names n (map (expire now) ts)"
  by (simp add: tasks_ok_def)

lemma tasks_ok_all: "tasks_ok P names n ts \<Longrightarrow> all_completed ts \<Longrightarrow> i < n \<Longrightarrow> P i"
  by (auto simp: tasks_ok_def all_completed_def)

lemma tasks_ok_begun: "tasks_ok P names n ts \<Longrightarrow> tasks_ok P names n (begun now i ts)"
  by (cases "i < length ts") (auto simp: tasks_ok_def begun_def nth_list_update)

lemma tasks_ok_completed: "tasks_ok P names n ts \<Longrightarrow> P i \<Longrightarrow> tasks_ok P names n (completed i ts)"
  by (cases "i < length ts") (auto simp: tasks_ok_def completed_def nth_list_update)

lemma firstTask_Some: "firstTask p ts = Some i \<Longrightarrow> i < length ts \<and> p (ts ! i)"
  by (induction ts arbitrary: i) (auto split: if_splits)

lemma firstTask_None: "firstTask p ts = None \<longleftrightarrow> (\<forall>t \<in> set ts. \<not> p t)"
  by (induction ts) auto

lemma checkTimeOut_ok:
  assumes "master_ok files n M R m"
  shows "master_ok files n M R (checkTimeOut now m)"
  using assms tasks_ok_all [of M] tasks_ok_all [of R]
  by (auto simp: master_ok_def checkTimeOut_def Let_def intro: tasks_ok_expire)

text \<open>The task a reply describes.\<close>

definition assigned :: "string list \<Rightarrow> nat \<Rightarrow> (nat \<Rightarrow> bool) \<Rightarrow> GetTaskReply \<Rightarrow> bool" where
  "assigned files n M reply \<longleftrightarrow>
     (gt_TaskType reply = MapTask \<longrightarrow> gt_TaskID reply < length files \<and> gt_NReduce reply = n \<and>
        gt_FileName reply = files ! gt_TaskID reply) \<and>
     (gt_TaskType reply = ReduceTask \<longrightarrow> gt_TaskID reply < n \<and> gt_ReduceTaskNum reply = gt_TaskID reply \<and>
        gt_MapTaskNum reply = length files \<and> (\<forall>i < length files. M i))"

lemma GetTask_ok:
  assumes ok: "master_ok files n M R m" and run: "GetTask now m = (reply, m')"
  shows "master_ok files n M R m' \<and> assigned files n M reply"
proof -
  let ?m = "checkTimeOut now m"
  note c = checkTimeOut_ok [OF ok, of now]
  consider "allFinished ?m" | "\<not> allFinished ?m" "\<not> mapFinished ?m" | "\<not> allFinished ?m" "mapFinished ?m" by blast
  then show ?thesis
  proof cases
    case 1
    with run c show ?thesis by (auto simp: GetTask_def Let_def assigned_def zero_reply_def)
  next
    case 2
    show ?thesis
    proof (cases "firstTask (\<lambda>t. t_Status t = Idle) (mapTasks ?m)")
      case None
      with 2 run c show ?thesis by (auto simp: GetTask_def Let_def assigned_def zero_reply_def)
    next
      case (Some i)
      with firstTask_Some [OF Some] 2 run c show ?thesis
        by (auto simp: GetTask_def Let_def assigned_def zero_reply_def master_ok_def
            intro: tasks_ok_begun) (auto simp: tasks_ok_def)
    qed
  next
    case 3
    show ?thesis
    proof (cases "firstTask (\<lambda>t. t_Status t = Idle) (reduceTasks ?m)")
      case None
      with 3 run c show ?thesis by (auto simp: GetTask_def Let_def assigned_def zero_reply_def)
    next
      case (Some i)
      with firstTask_Some [OF Some] 3 run c show ?thesis
        by (auto simp: GetTask_def Let_def assigned_def zero_reply_def master_ok_def
            intro: tasks_ok_begun) (auto simp: tasks_ok_def)
    qed
  qed
qed

lemma ReportTask_ok:
  assumes ok: "master_ok files n M R m"
    and "rt_TaskType args = MapTask \<Longrightarrow> M (rt_TaskID args)"
    and "rt_TaskType args = ReduceTask \<Longrightarrow> R (rt_TaskID args)"
  shows "master_ok files n M R (snd (ReportTask args m))"
proof -
  let ?p = "\<lambda>t. t_TaskID t = rt_TaskID args \<and> t_Status t = InProgress"
  consider (map) i where "rt_TaskType args = MapTask" "firstTask ?p (mapTasks m) = Some i"
    | (reduce) i where "rt_TaskType args = ReduceTask" "firstTask ?p (reduceTasks m) = Some i"
    | (none) "snd (ReportTask args m) = m"
    by (cases "rt_TaskType args"; cases "firstTask ?p (mapTasks m)"; cases "firstTask ?p (reduceTasks m)")
      (auto simp: ReportTask_def Let_def)
  then show ?thesis
  proof cases
    case (map i)
    have "M i" using firstTask_Some [OF map(2)] assms(2) [OF map(1)] ok
      by (auto simp: master_ok_def tasks_ok_def)
    with ok have t: "tasks_ok M ((!) files) (length files) (completed i (mapTasks m))"
      by (auto simp: master_ok_def intro: tasks_ok_completed)
    from map ok t tasks_ok_all [OF t] show ?thesis
      by (auto simp: ReportTask_def Let_def master_ok_def)
  next
    case (reduce i)
    have "R i" using firstTask_Some [OF reduce(2)] assms(3) [OF reduce(1)] ok
      by (auto simp: master_ok_def tasks_ok_def)
    with ok have t: "tasks_ok R (\<lambda>_. []) n (completed i (reduceTasks m))"
      by (auto simp: master_ok_def intro: tasks_ok_completed)
    from reduce ok t tasks_ok_all [OF t] show ?thesis
      by (auto simp: ReportTask_def Let_def master_ok_def)
  qed (use ok in simp)
qed

lemma MakeMaster_ok: "master_ok files n M R (MakeMaster files n)"
  by (auto simp: master_ok_def tasks_ok_def MakeMaster_def)

section \<open>The files\<close>

definition bucket where
  "bucket mapf content files n i b = buckets n (mapf (files ! i) (content (files ! i))) b"

definition reduced where
  "reduced mapf reducef srt content files n r =
     reduceLoop reducef (srt (concat (map (\<lambda>i. bucket mapf content files n i r) [0..<length files])))"

abbreviation has_map :: "nat \<Rightarrow> MrWorld \<Rightarrow> nat \<Rightarrow> bool" where
  "has_map n w i \<equiv> \<forall>b < n. mw_inter w (i, b) \<noteq> None"

abbreviation has_out :: "MrWorld \<Rightarrow> nat \<Rightarrow> bool" where
  "has_out w r \<equiv> mw_out w r \<noteq> None"

definition job_ok where
  "job_ok mapf content files n w job \<longleftrightarrow> assigned files n (has_map n w) (job_task job) \<and>
     (gt_TaskType (job_task job) = MapTask \<longrightarrow> job_step job \<le> n \<and>
        (\<forall>b < job_step job. mw_inter w (gt_TaskID (job_task job), b) \<noteq> None)) \<and>
     (gt_TaskType (job_task job) = ReduceTask \<longrightarrow> job_step job \<le> length files + 1 \<and>
        job_read job = concat (map (\<lambda>i. bucket mapf content files n i (gt_TaskID (job_task job)))
          [0..<min (job_step job) (length files)]) \<and>
        (job_step job = length files + 1 \<longrightarrow> has_out w (gt_TaskID (job_task job))))"

definition report_ok :: "nat \<Rightarrow> MrWorld \<Rightarrow> ReportTaskArgs \<Rightarrow> bool" where
  "report_ok n w args \<longleftrightarrow> (rt_TaskType args = MapTask \<longrightarrow> has_map n w (rt_TaskID args)) \<and>
     (rt_TaskType args = ReduceTask \<longrightarrow> has_out w (rt_TaskID args))"

definition files_ok where
  "files_ok mapf reducef srt content files n w \<longleftrightarrow>
     (\<forall>i b v. mw_inter w (i, b) = Some v \<longrightarrow> v = bucket mapf content files n i b) \<and>
     (\<forall>r v. mw_out w r = Some v \<longrightarrow> v = reduced mapf reducef srt content files n r)"

definition mr_ok where
  "mr_ok mapf reducef srt content files n w \<longleftrightarrow>
     files_ok mapf reducef srt content files n w \<and>
     master_ok files n (has_map n w) (has_out w) (mw_master w) \<and>
     (\<forall>job \<in> set (mw_jobs w). job_ok mapf content files n w job) \<and>
     (\<forall>args \<in> set (mw_reports w). report_ok n w args)"

text \<open>Files only appear.\<close>

definition more_files :: "MrWorld \<Rightarrow> MrWorld \<Rightarrow> bool" where
  "more_files w w' \<longleftrightarrow> (\<forall>x. mw_inter w x \<noteq> None \<longrightarrow> mw_inter w' x \<noteq> None) \<and>
     (\<forall>r. mw_out w r \<noteq> None \<longrightarrow> mw_out w' r \<noteq> None)"

lemma job_ok_more: "job_ok mapf content files n w job \<Longrightarrow> more_files w w' \<Longrightarrow> job_ok mapf content files n w' job"
  unfolding job_ok_def assigned_def more_files_def by blast

lemma report_ok_more: "report_ok n w args \<Longrightarrow> more_files w w' \<Longrightarrow> report_ok n w' args"
  unfolding report_ok_def more_files_def by blast

lemma mr_ok_more:
  assumes ok: "mr_ok mapf reducef srt content files n w" and more: "more_files w w'"
    and same: "mw_master w' = mw_master w" "mw_reports w' = mw_reports w"
    and files: "files_ok mapf reducef srt content files n w'"
    and jobs: "\<And>job. job \<in> set (mw_jobs w') \<Longrightarrow> job \<in> set (mw_jobs w) \<or> job_ok mapf content files n w' job"
  shows "mr_ok mapf reducef srt content files n w'"
proof -
  have "master_ok files n (has_map n w') (has_out w') (mw_master w)"
  proof (rule master_ok_mono)
    show "master_ok files n (has_map n w) (has_out w) (mw_master w)" using ok by (simp add: mr_ok_def)
  qed (use more in \<open>simp_all add: more_files_def\<close>)
  moreover have "job_ok mapf content files n w' job" if "job \<in> set (mw_jobs w')" for job
    using jobs [OF that] ok job_ok_more [OF _ more] unfolding mr_ok_def by blast
  moreover have "report_ok n w' args" if "args \<in> set (mw_reports w')" for args
    using that ok report_ok_more [OF _ more] unfolding mr_ok_def same by blast
  ultimately show ?thesis using files same unfolding mr_ok_def by simp
qed

lemma mr_ok_map:
  assumes ok: "mr_ok mapf reducef srt content files n w" and job: "job \<in> set (mw_jobs w)"
    and task: "gt_TaskType (job_task job) = MapTask" and run: "doMap_step mapf content job w = Some (job', w')"
  shows "mr_ok mapf reducef srt content files n (w'\<lparr>mw_jobs := (mw_jobs w')[j := job']\<rparr>)"
proof -
  let ?i = "gt_TaskID (job_task job)" and ?b = "job_step job"
  have j: "job_ok mapf content files n w job" using ok job by (simp add: mr_ok_def)
  have a: "gt_NReduce (job_task job) = n" "gt_FileName (job_task job) = files ! ?i"
    using j task by (auto simp: job_ok_def assigned_def)
  have b: "?b < n" and job': "job' = job\<lparr>job_step := ?b + 1\<rparr>"
    and w': "w' = w\<lparr>mw_inter := (mw_inter w)((?i, ?b) \<mapsto> bucket mapf content files n ?i ?b)\<rparr>"
    using run a by (auto simp: doMap_step_def bucket_def Let_def split: if_splits)
  let ?w = "w'\<lparr>mw_jobs := (mw_jobs w')[j := job']\<rparr>"
  have more: "more_files w ?w" by (auto simp: more_files_def w')
  show ?thesis
  proof (rule mr_ok_more [OF ok more])
    show "files_ok mapf reducef srt content files n ?w"
      using ok by (auto simp: mr_ok_def files_ok_def w')
    have "job_ok mapf content files n ?w job'"
      using job_ok_more [OF j more] b task by (auto simp: job_ok_def job' w' less_Suc_eq)
    then show "job0 \<in> set (mw_jobs w) \<or> job_ok mapf content files n ?w job0" if "job0 \<in> set (mw_jobs ?w)" for job0
      using that set_update_subset_insert [of "mw_jobs w" j job'] by (auto simp: w')
  qed (simp_all add: w')
qed

lemma mr_ok_reduce:
  assumes ok: "mr_ok mapf reducef srt content files n w" and job: "job \<in> set (mw_jobs w)"
    and task: "gt_TaskType (job_task job) = ReduceTask" and run: "doReduce_step reducef srt job w = Some (job', w')"
  shows "mr_ok mapf reducef srt content files n (w'\<lparr>mw_jobs := (mw_jobs w')[j := job']\<rparr>)"
proof -
  let ?r = "gt_TaskID (job_task job)" and ?i = "job_step job" and ?N = "length files"
  have j: "job_ok mapf content files n w job" using ok job by (simp add: mr_ok_def)
  have a: "gt_ReduceTaskNum (job_task job) = ?r" "gt_MapTaskNum (job_task job) = ?N"
    using j task by (auto simp: job_ok_def assigned_def)
  have read: "job_read job = concat (map (\<lambda>i. bucket mapf content files n i ?r) [0..<min ?i ?N])"
    using j task by (simp add: job_ok_def)
  have "more_files w w' \<and> mw_master w' = mw_master w \<and> mw_reports w' = mw_reports w \<and>
    mw_jobs w' = mw_jobs w \<and> files_ok mapf reducef srt content files n w' \<and>
    job_ok mapf content files n w' job'"
  proof (cases "?i < ?N")
    case True
    then obtain kvs where kvs: "mw_inter w (?i, ?r) = Some kvs" and w': "w' = w"
      and job': "job' = job\<lparr>job_step := ?i + 1, job_read := job_read job @ kvs\<rparr>"
      using run a by (auto simp: doReduce_step_def Let_def bind_eq_Some_conv)
    have "kvs = bucket mapf content files n ?i ?r"
      using ok kvs by (simp add: mr_ok_def files_ok_def)
    then have "job_read job' = concat (map (\<lambda>i. bucket mapf content files n i ?r) [0..<min (?i + 1) ?N])"
      using True read by (simp add: job' min_def)
    then have "job_ok mapf content files n w job'"
      using j True by (simp add: job_ok_def job' task)
    then show ?thesis using ok by (simp add: w' mr_ok_def more_files_def)
  next
    case False
    then have "?i = ?N" and job': "job' = job\<lparr>job_step := ?i + 1\<rparr>"
      and w': "w' = w\<lparr>mw_out := (mw_out w)(?r \<mapsto> reduceLoop reducef (srt (job_read job)))\<rparr>"
      using run a by (auto simp: doReduce_step_def Let_def split: if_splits)
    then have v: "reduceLoop reducef (srt (job_read job)) = reduced mapf reducef srt content files n ?r"
      using read by (simp add: reduced_def)
    have more: "more_files w w'" by (auto simp: more_files_def w')
    moreover have "files_ok mapf reducef srt content files n w'"
      using ok v by (auto simp: mr_ok_def files_ok_def w')
    moreover have "job_ok mapf content files n w' job'"
      using job_ok_more [OF j more] \<open>?i = ?N\<close> by (simp add: job_ok_def job' task w')
    ultimately show ?thesis by (simp add: w')
  qed
  then have *: "more_files w w'" "mw_master w' = mw_master w" "mw_reports w' = mw_reports w"
    "mw_jobs w' = mw_jobs w" "files_ok mapf reducef srt content files n w'"
    "job_ok mapf content files n w' job'" by blast+
  show ?thesis
  proof (rule mr_ok_more [OF ok])
    show "job0 \<in> set (mw_jobs w) \<or> job_ok mapf content files n (w'\<lparr>mw_jobs := (mw_jobs w')[j := job']\<rparr>) job0"
      if "job0 \<in> set (mw_jobs (w'\<lparr>mw_jobs := (mw_jobs w')[j := job']\<rparr>))" for job0
      using that *(4,6) set_update_subset_insert [of "mw_jobs w" j job'] by (auto simp: job_ok_def)
  qed (use * in \<open>simp_all add: more_files_def files_ok_def\<close>)
qed

lemma mr_step_ok:
  assumes ok: "mr_ok mapf reducef srt content files n w"
    and run: "mr_step mapf reducef srt content e w = Some w'"
  shows "mr_ok mapf reducef srt content files n w'"
proof (cases e)
  case (Ask now)
  obtain reply m where g: "GetTask now (mw_master w) = (reply, m)" by fastforce
  with ok have "master_ok files n (has_map n w) (has_out w) m \<and> assigned files n (has_map n w) reply"
    by (intro GetTask_ok) (auto simp: mr_ok_def)
  with ok run Ask g show ?thesis
    by (auto simp: mr_ok_def files_ok_def job_ok_def report_ok_def)
next
  case (Work j)
  then obtain job w1 where j: "j < length (mw_jobs w)"
    and s: "job_work mapf reducef srt content (mw_jobs w ! j) w = Some (job, w1)"
    and w': "w' = w1\<lparr>mw_jobs := (mw_jobs w1)[j := job]\<rparr>"
    using run by (auto simp: bind_eq_Some_conv split: if_splits)
  have "mw_jobs w1 = mw_jobs w"
    using s by (auto simp: job_work_def doMap_step_def doReduce_step_def Let_def bind_eq_Some_conv
        split: if_splits TaskType.splits)
  with s w' j show ?thesis
    using mr_ok_map [OF ok nth_mem [OF j], of job w1 j] mr_ok_reduce [OF ok nth_mem [OF j], of job w1 j]
    by (auto simp: job_work_def split: TaskType.splits)
next
  case (Finish j worker)
  then have j: "j < length (mw_jobs w)" "job_finished (mw_jobs w ! j)"
    and w': "w' = w\<lparr>mw_reports := mw_reports w @ [reportTaskDone worker (mw_jobs w ! j)]\<rparr>"
    using run by (auto split: if_splits)
  have "job_ok mapf content files n w (mw_jobs w ! j)" using ok j nth_mem by (auto simp: mr_ok_def)
  with j(2) have "report_ok n w (reportTaskDone worker (mw_jobs w ! j))"
    by (auto simp: report_ok_def reportTaskDone_def job_finished_def job_ok_def assigned_def)
  with ok show ?thesis
    by (auto simp: w' mr_ok_def files_ok_def job_ok_def report_ok_def)
next
  case (Report k)
  then have k: "k < length (mw_reports w)"
    and w': "w' = w\<lparr>mw_master := snd (ReportTask (mw_reports w ! k) (mw_master w))\<rparr>"
    using run by (auto split: if_splits)
  have "report_ok n w (mw_reports w ! k)" using ok k nth_mem by (auto simp: mr_ok_def)
  then have "master_ok files n (has_map n w) (has_out w) (snd (ReportTask (mw_reports w ! k) (mw_master w)))"
    using ok by (intro ReportTask_ok) (auto simp: mr_ok_def report_ok_def)
  with ok show ?thesis
    by (auto simp: w' mr_ok_def files_ok_def job_ok_def report_ok_def)
qed

interpretation mapreduce: step_machine "mr_step mapf reducef srt content"
    "mr_ok mapf reducef srt content files n" for mapf reducef srt content files n
  by unfold_locales (rule mr_step_ok)

lemma mr_run_ok:
  "run_steps (mr_step mapf reducef srt content) es (mr_init files n) = Some w \<Longrightarrow>
   mr_ok mapf reducef srt content files n w"
  using mapreduce.run_inv [of mapf reducef srt content files n "mr_init files n" es w]
  by (simp add: mr_ok_def mr_init_def files_ok_def MakeMaster_ok)

section \<open>What the reduce loop computes\<close>

text \<open>
  \<open>sort.Sort\<close> orders by key and is otherwise free; a Reduce function must not depend on the
  order of its values for the result to be determined.
\<close>

definition sorts_by_key :: "(KeyValue list \<Rightarrow> KeyValue list) \<Rightarrow> bool" where
  "sorts_by_key srt \<longleftrightarrow> (\<forall>kvs. mset (srt kvs) = mset kvs \<and> sorted (map Key (srt kvs)))"

definition ignores_order :: "(string \<Rightarrow> string list \<Rightarrow> string) \<Rightarrow> bool" where
  "ignores_order reducef \<longleftrightarrow> (\<forall>k vs vs'. mset vs = mset vs' \<longrightarrow> reducef k vs = reducef k vs')"

definition values_of :: "string \<Rightarrow> KeyValue list \<Rightarrow> string list" where
  "values_of k kvs = map Value (filter (\<lambda>kv. Key kv = k) kvs)"

text \<open>The lines of a result: one for every key, in order.\<close>

definition lines_of :: "(string \<Rightarrow> string list \<Rightarrow> string) \<Rightarrow> KeyValue list \<Rightarrow> (string \<times> string) list" where
  "lines_of reducef kvs = map (\<lambda>k. (k, reducef k (values_of k kvs))) (sorted_list_of_set (Key ` set kvs))"

lemma lines_of_block:
  assumes same: "\<forall>x \<in> set same. Key x = Key kv" and gt: "\<forall>x \<in> set rest. Key kv < Key x"
  shows "lines_of reducef (kv # same @ rest) =
    (Key kv, reducef (Key kv) (Value kv # map Value same)) # lines_of reducef rest"
proof -
  let ?k = "Key kv"
  have v0: "values_of ?k (kv # same @ rest) = Value kv # map Value same"
    using same gt by (simp add: values_of_def filter_id_conv filter_empty_conv) fastforce
  have vj: "values_of j (kv # same @ rest) = values_of j rest" if "?k < j" for j
    using same that by (auto simp: values_of_def filter_empty_conv)
  have keys: "Key ` set (kv # same @ rest) = insert ?k (Key ` set rest)" using same by auto
  have "sorted_list_of_set (insert ?k (Key ` set rest)) = insort ?k (sorted_list_of_set (Key ` set rest))"
    using gt by (subst sorted_list_of_set.sorted_key_list_of_set_insert) auto
  also have "\<dots> = ?k # sorted_list_of_set (Key ` set rest)"
    using gt by (intro insort_is_Cons) (auto intro: less_imp_le)
  finally have "lines_of reducef (kv # same @ rest) = (?k, reducef ?k (Value kv # map Value same)) #
      map (\<lambda>j. (j, reducef j (values_of j (kv # same @ rest)))) (sorted_list_of_set (Key ` set rest))"
    by (simp add: lines_of_def keys v0 del: set_append list.set)
  moreover have "map (\<lambda>j. (j, reducef j (values_of j (kv # same @ rest)))) (sorted_list_of_set (Key ` set rest)) =
      lines_of reducef rest"
    unfolding lines_of_def using vj gt by (intro map_cong refl) auto
  ultimately show ?thesis by simp
qed

lemma sorted_dropWhile_greater:
  assumes "sorted (map Key kvs)" and "\<forall>x \<in> set kvs. k \<le> Key x"
  shows "\<forall>x \<in> set (dropWhile (\<lambda>x. Key x = k) kvs). k < Key x"
  using assms
proof (induction kvs)
  case (Cons y ys)
  then show ?case by (cases "Key y = k") (auto simp: order.strict_iff_order dest: order.trans)
qed simp

lemma reduceLoop_sorted:
  "sorted (map Key kvs) \<Longrightarrow> reduceLoop reducef kvs = lines_of reducef kvs"
proof (induction reducef kvs rule: reduceLoop.induct)
  case (1 reducef)
  then show ?case by (simp add: lines_of_def)
next
  case (2 reducef kv kvs)
  let ?same = "takeWhile (\<lambda>x. Key x = Key kv) kvs" and ?rest = "dropWhile (\<lambda>x. Key x = Key kv) kvs"
  have sorted: "sorted (map Key kvs)" and ge: "\<forall>x \<in> set kvs. Key kv \<le> Key x"
    using "2.prems" by auto
  then have sr: "sorted (map Key ?rest)"
    by (metis map_append sorted_append takeWhile_dropWhile_id)
  have "\<forall>x \<in> set ?same. Key x = Key kv"
    by (rule ballI) (rule set_takeWhileD [THEN conjunct2])
  from lines_of_block [OF this sorted_dropWhile_greater [OF sorted ge]]
  have "lines_of reducef (kv # ?same @ ?rest) =
      (Key kv, reducef (Key kv) (Value kv # map Value ?same)) # lines_of reducef ?rest" .
  with "2.IH" [OF refl refl sr] show ?case by (simp add: Let_def)
qed

lemma lines_of_sort:
  assumes "sorts_by_key srt" and "ignores_order reducef"
  shows "reduceLoop reducef (srt kvs) = lines_of reducef kvs"
proof -
  have perm: "mset (srt kvs) = mset kvs" and "sorted (map Key (srt kvs))"
    using assms(1) by (simp_all add: sorts_by_key_def)
  then have "reduceLoop reducef (srt kvs) = lines_of reducef (srt kvs)" by (intro reduceLoop_sorted)
  moreover have "set (srt kvs) = set kvs" using perm by (metis set_mset_mset)
  moreover have "mset (values_of k (srt kvs)) = mset (values_of k kvs)" for k
    by (simp add: values_of_def mset_filter perm)
  then have "reducef k (values_of k (srt kvs)) = reducef k (values_of k kvs)" for k
    using assms(2) unfolding ignores_order_def by blast
  ultimately show ?thesis by (simp add: lines_of_def)
qed

lemma values_of_bucket:
  "values_of k (filter (\<lambda>kv. h (Key kv) = r) kvs) = (if h k = r then values_of k kvs else [])"
  by (auto simp: values_of_def filter_empty_conv intro!: arg_cong [where f = "map Value"] filter_cong)

lemma mset_sorted_set: "mset (sorted_list_of_set A) = mset_set A"
  by (metis mset_sorted_list_of_multiset sorted_list_of_mset_set)

lemma lines_of_buckets:
  fixes h :: "string \<Rightarrow> nat"
  shows "mset (concat (map (\<lambda>r. lines_of reducef (filter (\<lambda>kv. h (Key kv) = r) kvs)) [0..<n])) =
    image_mset (\<lambda>k. (k, reducef k (values_of k kvs))) (mset_set {k \<in> Key ` set kvs. h k < n})"
proof (induction n)
  case (Suc n)
  have fin: "finite {k \<in> Key ` set kvs. P k}" for P by simp
  have "Key ` set (filter (\<lambda>kv. h (Key kv) = n) kvs) = {k \<in> Key ` set kvs. h k = n}" by auto
  then have line: "mset (lines_of reducef (filter (\<lambda>kv. h (Key kv) = n) kvs)) =
      image_mset (\<lambda>k. (k, reducef k (values_of k kvs))) (mset_set {k \<in> Key ` set kvs. h k = n})"
    by (simp add: lines_of_def values_of_bucket mset_sorted_set) (rule image_mset_cong, simp)
  have "{k \<in> Key ` set kvs. h k < Suc n} = {k \<in> Key ` set kvs. h k < n} \<union> {k \<in> Key ` set kvs. h k = n}"
    by auto
  moreover have "mset_set ({k \<in> Key ` set kvs. h k < n} \<union> {k \<in> Key ` set kvs. h k = n}) =
      mset_set {k \<in> Key ` set kvs. h k < n} + mset_set {k \<in> Key ` set kvs. h k = n}"
    by (rule mset_set_Union [OF fin fin]) auto
  ultimately show ?case using Suc line by simp
qed (simp add: lines_of_def)

lemma wc_ignores_order: "ignores_order wc_Reduce"
  unfolding ignores_order_def wc_Reduce_def by (metis size_mset)

lemma indexer_ignores_order: "ignores_order indexer_Reduce"
  unfolding ignores_order_def indexer_Reduce_def
  by (metis size_mset mset_sort properties_for_sort sorted_sort)

lemma sort_key_sorts: "sorts_by_key (sort_key Key)"
  by (simp add: sorts_by_key_def)

section \<open>One worker is enough\<close>

lemma expired_idle:
  assumes "t_Status t = InProgress \<longrightarrow> now - t_Start t > timeout"
  shows "t_Status (expire now t) = Idle \<or> t_Status (expire now t) = Completed"
  using assms by (cases "t_Status t") (auto simp: expire_def)

lemma firstTask_idle:
  assumes "\<not> all_completed ts" and "\<forall>t \<in> set ts. t_Status t = InProgress \<longrightarrow> now - t_Start t > timeout"
  obtains i where "firstTask (\<lambda>t. t_Status t = Idle) (map (expire now) ts) = Some i"
    and "i < length ts" and "t_Status (ts ! i) \<noteq> Completed"
proof -
  obtain t where "t \<in> set ts" "t_Status t \<noteq> Completed" using assms(1) by (auto simp: all_completed_def)
  then have "t_Status (expire now t) = Idle" using assms(2) expired_idle [of t now] by auto
  with \<open>t \<in> set ts\<close> have "firstTask (\<lambda>t. t_Status t = Idle) (map (expire now) ts) \<noteq> None"
    by (auto simp: firstTask_None)
  then obtain i where i: "firstTask (\<lambda>t. t_Status t = Idle) (map (expire now) ts) = Some i" by auto
  from firstTask_Some [OF i] have "i < length ts" "t_Status (expire now (ts ! i)) = Idle" by auto
  moreover from this(2) have "t_Status (ts ! i) \<noteq> Completed" using expire_fields(3) by (metis TaskStatus.distinct(3))
  ultimately show thesis using i that by blast
qed

text \<open>A request after all running tasks have timed out is given an unfinished task.\<close>

lemma GetTask_gives:
  assumes ok: "master_ok files n M R m" and todo: "\<not> all_completed (reduceTasks m)"
    and late: "\<forall>t \<in> set (mapTasks m @ reduceTasks m). t_Status t = InProgress \<longrightarrow> now - t_Start t > timeout"
  obtains (map) reply i where "GetTask now m = (reply, m\<lparr>mapTasks := begun now i (map (expire now) (mapTasks m)),
        mapFinished := False, reduceTasks := map (expire now) (reduceTasks m), allFinished := False\<rparr>)"
      and "gt_TaskType reply = MapTask" and "gt_TaskID reply = i" and "i < length (mapTasks m)"
      and "t_Status (mapTasks m ! i) \<noteq> Completed"
  | (reduce) reply i where "GetTask now m = (reply, (checkTimeOut now m)\<lparr>reduceTasks := begun now i (map (expire now) (reduceTasks m))\<rparr>)"
      and "gt_TaskType reply = ReduceTask" and "gt_TaskID reply = i" and "i < length (reduceTasks m)"
      and "t_Status (reduceTasks m ! i) \<noteq> Completed"
proof -
  let ?m = "checkTimeOut now m"
  have na: "\<not> allFinished ?m" using todo by (simp add: checkTimeOut_def Let_def)
  have r: "reduceTasks ?m = map (expire now) (reduceTasks m)" by (simp add: checkTimeOut_def Let_def)
  show thesis
  proof (cases "mapFinished ?m")
    case False
    then have nm: "\<not> mapFinished m" and nc: "\<not> all_completed (mapTasks m)"
      by (auto simp: checkTimeOut_def Let_def split: if_splits)
    obtain i where i: "firstTask (\<lambda>t. t_Status t = Idle) (map (expire now) (mapTasks m)) = Some i"
      "i < length (mapTasks m)" "t_Status (mapTasks m ! i) \<noteq> Completed"
      by (rule firstTask_idle [OF nc, of now]) (use late in auto)
    have m: "?m = m\<lparr>mapTasks := map (expire now) (mapTasks m), mapFinished := False,
        reduceTasks := map (expire now) (reduceTasks m), allFinished := False\<rparr>"
      using nm nc todo by (simp add: checkTimeOut_def Let_def)
    have id: "t_TaskID (mapTasks m ! i) = i" using ok i(2) by (auto simp: master_ok_def tasks_ok_def)
    from i m na False id show thesis
      by (intro map [of _ i], simp_all add: GetTask_def Let_def zero_reply_def) simp_all
  next
    case True
    obtain i where i: "firstTask (\<lambda>t. t_Status t = Idle) (map (expire now) (reduceTasks m)) = Some i"
      "i < length (reduceTasks m)" "t_Status (reduceTasks m ! i) \<noteq> Completed"
      by (rule firstTask_idle [OF todo, of now]) (use late in auto)
    have id: "t_TaskID (reduceTasks m ! i) = i" using ok i(2) by (auto simp: master_ok_def tasks_ok_def)
    from i na True id r show thesis
      by (intro reduce [of _ i], simp_all add: GetTask_def Let_def zero_reply_def) simp_all
  qed
qed

definition pending :: "Task list \<Rightarrow> nat" where
  "pending ts = length (filter (\<lambda>t. t_Status t \<noteq> Completed) ts)"

definition unfinished :: "Master \<Rightarrow> nat" where
  "unfinished m = pending (mapTasks m) + pending (reduceTasks m)"

lemma pending_expire [simp]: "pending (map (expire now) ts) = pending ts"
  by (simp add: pending_def filter_map comp_def)

lemma pending_begun: "i < length ts \<Longrightarrow> t_Status (ts ! i) \<noteq> Completed \<Longrightarrow> pending (begun now i ts) = pending ts"
proof (induction ts arbitrary: i)
  case (Cons t ts)
  then show ?case by (cases i) (auto simp: pending_def begun_def)
qed simp

lemma pending_completed: "i < length ts \<Longrightarrow> t_Status (ts ! i) \<noteq> Completed \<Longrightarrow> pending (completed i ts) < pending ts"
proof (induction ts arbitrary: i)
  case (Cons t ts)
  then show ?case by (cases i) (auto simp: pending_def completed_def)
qed simp

text \<open>A report about a task in progress completes it.\<close>

lemma ReportTask_completes:
  assumes ok: "master_ok files n M R m" and job: "rt_TaskType args = MapTask \<and> ts = mapTasks m \<or>
      rt_TaskType args = ReduceTask \<and> ts = reduceTasks m"
    and i: "i < length ts" "t_Status (ts ! i) = InProgress" "rt_TaskID args = i"
  shows "unfinished (snd (ReportTask args m)) < unfinished m"
proof -
  let ?p = "\<lambda>t. t_TaskID t = rt_TaskID args \<and> t_Status t = InProgress"
  have id: "\<And>k. k < length ts \<Longrightarrow> t_TaskID (ts ! k) = k"
    using ok job by (auto simp: master_ok_def tasks_ok_def)
  have "firstTask ?p ts \<noteq> None" using i id by (auto simp: firstTask_None dest: nth_mem)
  then obtain k where k: "firstTask ?p ts = Some k" by blast
  with firstTask_Some [OF k] id i have "k = i" by auto
  have "pending (completed i ts) < pending ts" using i by (intro pending_completed) auto
  with k \<open>k = i\<close> job show ?thesis
    by (auto simp: ReportTask_def Let_def unfinished_def)
qed

lemma work_map:
  assumes "j < length (mw_jobs w)" and "gt_TaskType (job_task (mw_jobs w ! j)) = MapTask"
    and "gt_NReduce (job_task (mw_jobs w ! j)) = job_step (mw_jobs w ! j) + d"
  shows "\<exists>w'. run_steps (mr_step mapf reducef srt content) (replicate d (Work j)) w = Some w' \<and>
    mw_master w' = mw_master w \<and> mw_reports w' = mw_reports w \<and> j < length (mw_jobs w') \<and>
    job_task (mw_jobs w' ! j) = job_task (mw_jobs w ! j) \<and> job_finished (mw_jobs w' ! j)"
  using assms
proof (induction d arbitrary: w)
  case 0
  then show ?case by (simp add: job_finished_def)
next
  case (Suc d)
  let ?job = "mw_jobs w ! j"
  obtain w1 where w1: "mr_step mapf reducef srt content (Work j) w = Some w1" "mw_master w1 = mw_master w"
    "mw_reports w1 = mw_reports w" "mw_jobs w1 = (mw_jobs w)[j := ?job\<lparr>job_step := job_step ?job + 1\<rparr>]"
    using Suc.prems by (auto simp: job_work_def doMap_step_def Let_def)
  then have "\<exists>w'. run_steps (mr_step mapf reducef srt content) (replicate d (Work j)) w1 = Some w' \<and>
    mw_master w' = mw_master w1 \<and> mw_reports w' = mw_reports w1 \<and> j < length (mw_jobs w') \<and>
    job_task (mw_jobs w' ! j) = job_task (mw_jobs w1 ! j) \<and> job_finished (mw_jobs w' ! j)"
    using Suc.prems by (intro Suc.IH) auto
  with w1 Suc.prems(1) show ?case by (auto simp del: mr_step.simps)
qed

lemma work_reduce:
  assumes "j < length (mw_jobs w)" and "gt_TaskType (job_task (mw_jobs w ! j)) = ReduceTask"
    and "gt_MapTaskNum (job_task (mw_jobs w ! j)) + 1 = job_step (mw_jobs w ! j) + d"
    and "\<forall>i < gt_MapTaskNum (job_task (mw_jobs w ! j)).
      mw_inter w (i, gt_ReduceTaskNum (job_task (mw_jobs w ! j))) \<noteq> None"
  shows "\<exists>w'. run_steps (mr_step mapf reducef srt content) (replicate d (Work j)) w = Some w' \<and>
    mw_master w' = mw_master w \<and> mw_reports w' = mw_reports w \<and> j < length (mw_jobs w') \<and>
    job_task (mw_jobs w' ! j) = job_task (mw_jobs w ! j) \<and> job_finished (mw_jobs w' ! j)"
  using assms
proof (induction d arbitrary: w)
  case 0
  then show ?case by (simp add: job_finished_def)
next
  case (Suc d)
  let ?job = "mw_jobs w ! j"
  let ?N = "gt_MapTaskNum (job_task ?job)"
  have "\<exists>w1 read. mr_step mapf reducef srt content (Work j) w = Some w1 \<and> mw_master w1 = mw_master w \<and>
    mw_reports w1 = mw_reports w \<and> mw_inter w1 = mw_inter w \<and>
    mw_jobs w1 = (mw_jobs w)[j := ?job\<lparr>job_step := job_step ?job + 1, job_read := read\<rparr>]"
  proof (cases "job_step ?job < ?N")
    case True
    then obtain kvs where "mw_inter w (job_step ?job, gt_ReduceTaskNum (job_task ?job)) = Some kvs"
      using Suc.prems(4) by blast
    with True Suc.prems show ?thesis by (simp add: job_work_def doReduce_step_def Let_def) blast
  next
    case False
    with Suc.prems have "job_step ?job = ?N" by simp
    with Suc.prems show ?thesis
      by (intro exI [of _ "w\<lparr>mw_out := (mw_out w)(gt_ReduceTaskNum (job_task ?job) \<mapsto>
          reduceLoop reducef (srt (job_read ?job))),
          mw_jobs := (mw_jobs w)[j := ?job\<lparr>job_step := job_step ?job + 1\<rparr>]\<rparr>"] exI [of _ "job_read ?job"])
        (simp add: job_work_def doReduce_step_def Let_def)
  qed
  then obtain w1 read where w1: "mr_step mapf reducef srt content (Work j) w = Some w1" "mw_master w1 = mw_master w"
    "mw_reports w1 = mw_reports w" "mw_inter w1 = mw_inter w"
    "mw_jobs w1 = (mw_jobs w)[j := ?job\<lparr>job_step := job_step ?job + 1, job_read := read\<rparr>]" by blast
  then have "\<exists>w'. run_steps (mr_step mapf reducef srt content) (replicate d (Work j)) w1 = Some w' \<and>
    mw_master w' = mw_master w1 \<and> mw_reports w' = mw_reports w1 \<and> j < length (mw_jobs w') \<and>
    job_task (mw_jobs w' ! j) = job_task (mw_jobs w1 ! j) \<and> job_finished (mw_jobs w' ! j)"
    using Suc.prems by (intro Suc.IH) auto
  with w1 Suc.prems(1) show ?case by (auto simp del: mr_step.simps)
qed

lemma late_enough: "\<exists>now. \<forall>t \<in> set ts. now - t_Start t > timeout"
proof (induction ts)
  case (Cons t ts)
  then obtain now where "\<forall>t \<in> set ts. now - t_Start t > timeout" by blast
  then show ?case by (intro exI [of _ "max now (t_Start t + timeout + 1)"]) fastforce
qed simp

lemma begun_fields [simp]:
  "length (begun now i ts) = length ts"
  "i < length ts \<Longrightarrow> t_Status (begun now i ts ! i) = InProgress \<and> t_Start (begun now i ts ! i) = now"
  by (simp_all add: begun_def)

lemma GetTask_starts:
  assumes ok: "master_ok files n M R m" and todo: "\<not> all_completed (reduceTasks m)"
    and late: "\<forall>t \<in> set (mapTasks m @ reduceTasks m). t_Status t = InProgress \<longrightarrow> now - t_Start t > timeout"
  shows "\<exists>reply m' ts. GetTask now m = (reply, m') \<and> unfinished m' = unfinished m \<and>
    (gt_TaskType reply = MapTask \<and> ts = mapTasks m' \<or> gt_TaskType reply = ReduceTask \<and> ts = reduceTasks m') \<and>
    gt_TaskID reply < length ts \<and> t_Status (ts ! gt_TaskID reply) = InProgress \<and>
    t_Start (ts ! gt_TaskID reply) = now"
  using ok todo late
proof (cases rule: GetTask_gives)
  case (map reply i)
  have "pending (begun now i (List.map (expire now) (mapTasks m))) = pending (mapTasks m)"
    using map by (subst pending_begun) auto
  with map show ?thesis by (auto simp: unfinished_def)
next
  case (reduce reply i)
  have "pending (begun now i (List.map (expire now) (reduceTasks m))) = pending (reduceTasks m)"
    using reduce by (subst pending_begun) auto
  moreover have "pending (mapTasks (checkTimeOut now m)) = pending (mapTasks m)"
    by (simp add: checkTimeOut_def Let_def)
  ultimately show ?thesis using reduce by (auto simp: unfinished_def)
qed

lemma one_round:
  assumes ok: "mr_ok mapf reducef srt content files n w" and todo: "\<not> all_completed (reduceTasks (mw_master w))"
  shows "\<exists>es w'. run_steps (mr_step mapf reducef srt content) es w = Some w' \<and>
    unfinished (mw_master w') < unfinished (mw_master w)"
proof -
  let ?m = "mw_master w" and ?j = "length (mw_jobs w)" and ?step = "mr_step mapf reducef srt content"
  have m_ok: "master_ok files n (has_map n w) (has_out w) ?m" using ok by (simp add: mr_ok_def)
  obtain now where "\<forall>t \<in> set (mapTasks ?m @ reduceTasks ?m). now - t_Start t > timeout"
    using late_enough by blast
  with GetTask_starts [OF m_ok todo, of now] obtain reply m1 ts
    where g: "GetTask now ?m = (reply, m1)" and u: "unfinished m1 = unfinished ?m"
      and ts: "gt_TaskType reply = MapTask \<and> ts = mapTasks m1 \<or> gt_TaskType reply = ReduceTask \<and> ts = reduceTasks m1"
        "gt_TaskID reply < length ts" "t_Status (ts ! gt_TaskID reply) = InProgress"
    by blast
  define w1 where "w1 = w\<lparr>mw_master := m1,
    mw_jobs := mw_jobs w @ [\<lparr>job_task = reply, job_step = 0, job_read = []\<rparr>]\<rparr>"
  have ask: "?step (Ask now) w = Some w1" by (simp add: g w1_def)
  have ok1: "mr_ok mapf reducef srt content files n w1" by (rule mr_step_ok [OF ok ask])
  then have "job_ok mapf content files n w1 (mw_jobs w1 ! ?j)" by (simp add: mr_ok_def w1_def)
  then have as: "assigned files n (has_map n w1) reply" by (simp add: job_ok_def w1_def)
  have j1: "?j < length (mw_jobs w1)" "job_task (mw_jobs w1 ! ?j) = reply" "job_step (mw_jobs w1 ! ?j) = 0"
    by (simp_all add: w1_def)
  obtain d w2 where work: "run_steps ?step (replicate d (Work ?j)) w1 = Some w2" "mw_master w2 = mw_master w1"
    "mw_reports w2 = mw_reports w1" "?j < length (mw_jobs w2)" "job_task (mw_jobs w2 ! ?j) = reply"
    "job_finished (mw_jobs w2 ! ?j)"
    using work_map [of ?j w1 "gt_NReduce reply"] work_reduce [of ?j w1 "gt_MapTaskNum reply + 1"] j1 ts(1) as
    unfolding assigned_def by (metis add.left_neutral)
  define args where "args = reportTaskDone 0 (mw_jobs w2 ! ?j)"
  define w3 where "w3 = w2\<lparr>mw_reports := mw_reports w2 @ [args]\<rparr>"
  define w4 where "w4 = w3\<lparr>mw_master := snd (ReportTask args (mw_master w3))\<rparr>"
  have finish: "?step (Finish ?j 0) w2 = Some w3" using work by (simp add: w3_def args_def)
  have report: "?step (Report (length (mw_reports w2))) w3 = Some w4"
    by (simp add: w4_def) (simp add: w3_def)
  have m3: "mw_master w3 = m1" using work(2) by (simp add: w3_def w1_def)
  have "unfinished (snd (ReportTask args m1)) < unfinished m1"
  proof (rule ReportTask_completes)
    show "master_ok files n (has_map n w1) (has_out w1) m1" using ok1 by (simp add: mr_ok_def w1_def)
    show "rt_TaskType args = MapTask \<and> ts = mapTasks m1 \<or> rt_TaskType args = ReduceTask \<and> ts = reduceTasks m1"
      using ts(1) work(5) by (simp add: args_def reportTaskDone_def)
  qed (use ts work(5) in \<open>simp_all add: args_def reportTaskDone_def\<close>)
  then have "unfinished (mw_master w4) < unfinished ?m" using u by (simp add: w4_def m3)
  moreover have "run_steps ?step (Ask now # replicate d (Work ?j) @ [Finish ?j 0, Report (length (mw_reports w2))]) w = Some w4"
    using ask work(1) finish report by (simp add: run_steps_append del: mr_step.simps)
  ultimately show ?thesis by blast
qed

lemma completable:
  assumes "mr_ok mapf reducef srt content files n w"
  shows "\<exists>es w'. run_steps (mr_step mapf reducef srt content) es w = Some w' \<and> Done (mw_master w')"
  using assms
proof (induction "unfinished (mw_master w)" arbitrary: w rule: less_induct)
  case less
  show ?case
  proof (cases "all_completed (reduceTasks (mw_master w))")
    case True
    then have "allFinished (checkTimeOut 0 (mw_master w))" by (simp add: checkTimeOut_def Let_def)
    then have "run_steps (mr_step mapf reducef srt content) [Ask 0] w = Some (w\<lparr>mw_master := checkTimeOut 0 (mw_master w),
        mw_jobs := mw_jobs w @ [\<lparr>job_task = zero_reply\<lparr>gt_TaskType := ExitTask\<rparr>, job_step = 0, job_read = []\<rparr>]\<rparr>)"
      by (simp add: GetTask_def Let_def)
    with \<open>allFinished _\<close> show ?thesis
      by - (rule exI [of _ "[Ask 0]"], simp add: Done_def del: mr_step.simps)
  next
    case False
    obtain es w1 where es: "run_steps (mr_step mapf reducef srt content) es w = Some w1"
      "unfinished (mw_master w1) < unfinished (mw_master w)"
      using one_round [OF less.prems False] by blast
    have "mr_ok mapf reducef srt content files n w1" by (rule mapreduce.run_inv [OF less.prems es(1)])
    from less.hyps [OF es(2) this] obtain es' w' where
      "run_steps (mr_step mapf reducef srt content) es' w1 = Some w'" "Done (mw_master w')" by blast
    with es(1) show ?thesis by (intro exI [of _ "es @ es'"] exI [of _ w']) (simp add: run_steps_append)
  qed
qed

end
