(* ===== verification/MapReduceTheorems.thy ===== *)
theory MapReduceTheorems
  imports MapReduceRun
begin

text \<open>
  The properties of MapReduce (\<open>src/mr\<close>): when the master is done the output files are there
  and together are what the sequential program writes, whatever workers crashed or were slow;
  and a single live worker can always finish the job.
\<close>

section \<open>Word count of two files\<close>

definition ex_letter :: "char \<Rightarrow> bool" where
  "ex_letter c \<longleftrightarrow> c \<noteq> CHR '' ''"

definition ex_content :: "string \<Rightarrow> string" where
  "ex_content f = (if f = ''f'' then ''b a b'' else ''a'')"

abbreviation "ex_step \<equiv> mr_step (wc_Map ex_letter) wc_Reduce (sort_key Key) ex_content"
abbreviation "ex_files \<equiv> [''f'', ''g'']"

lemma ex_finishes: "\<exists>es w. run_steps ex_step es (mr_init ex_files 2) = Some w \<and> Done (mw_master w)"
  using completable [OF mr_run_ok, of _ _ _ _ "[]"] by simp

section \<open>Properties\<close>

text \<open>C17: In every reachable state - workers ask, work, crash and report in any order, late and
  repeatedly - every output file that exists is the result of its reduce task over the
  intermediate data of all input files, never a partial one, and when the master says it is
  done, all of them exist.\<close>

theorem outputs_complete:
  assumes "run_steps (mr_step mapf reducef srt content) es (mr_init files n) = Some w"
  shows "(\<forall>r out. mw_out w r = Some out \<longrightarrow> out = reduceLoop reducef (srt (concat
      (map (\<lambda>f. buckets n (mapf f (content f)) r) files)))) \<and>
    (Done (mw_master w) \<longrightarrow> (\<forall>r < n. mw_out w r \<noteq> None))"
proof -
  have ok: "mr_ok mapf reducef srt content files n w" by (rule mr_run_ok [OF assms])
  have "map (\<lambda>i. bucket mapf content files n i r) [0..<length files] =
      map (\<lambda>f. buckets n (mapf f (content f)) r) files" for r
    by (rule nth_equalityI) (simp_all add: bucket_def)
  with ok show ?thesis
    by (auto simp: mr_ok_def files_ok_def reduced_def master_ok_def Done_def)
qed

lemma outputs_complete_witness:
  "\<exists>es w. run_steps ex_step es (mr_init ex_files 2) = Some w \<and> mw_out w 0 \<noteq> None \<and> mw_out w 1 \<noteq> None"
proof -
  obtain es w where run: "run_steps ex_step es (mr_init ex_files 2) = Some w" and "Done (mw_master w)"
    using ex_finishes by blast
  then have "\<forall>r < 2. mw_out w r \<noteq> None" using outputs_complete [OF run] by blast
  with run show ?thesis by (intro exI [of _ es] exI [of _ w]) simp
qed

text \<open>C6: The distributed job computes what the sequential program does: when the master is done,
  the lines of all output files together are those of \<open>mrsequential\<close>, for any sorting by key
  on either side and a Reduce function that does not depend on the order of its values - as
  those of word count and the indexer.\<close>

theorem distributed_is_sequential:
  assumes run: "run_steps (mr_step mapf reducef srt content) es (mr_init files n) = Some w"
    and "Done (mw_master w)" and "0 < n"
    and "sorts_by_key srt" and "sorts_by_key srt'" and "ignores_order reducef"
  shows "mset (concat (map (\<lambda>r. the (mw_out w r)) [0..<n])) = mset (mrsequential mapf reducef srt' content files)"
proof -
  let ?kva = "mapped mapf content files"
  have ok: "mr_ok mapf reducef srt content files n w" by (rule mr_run_ok [OF run])
  have b: "concat (map (\<lambda>i. bucket mapf content files n i r) [0..<length files]) =
      filter (\<lambda>kv. ihash (Key kv) mod n = r) ?kva" for r
  proof -
    have "map (\<lambda>i. bucket mapf content files n i r) [0..<length files] =
        map (\<lambda>f. buckets n (mapf f (content f)) r) files"
      by (rule nth_equalityI) (simp_all add: bucket_def)
    then show ?thesis by (simp add: mapped_def filter_concat buckets_def comp_def)
  qed
  have "the (mw_out w r) = lines_of reducef (filter (\<lambda>kv. ihash (Key kv) mod n = r) ?kva)" if "r < n" for r
  proof -
    have "has_out w r"
      using ok assms(2) that unfolding mr_ok_def master_ok_def Done_def by blast
    then obtain out where out: "mw_out w r = Some out" by blast
    then have "out = reduced mapf reducef srt content files n r" using ok by (simp add: mr_ok_def files_ok_def)
    then show ?thesis using out lines_of_sort [OF assms(4,6)] by (simp add: reduced_def b)
  qed
  then have eq: "map (\<lambda>r. the (mw_out w r)) [0..<n] =
      map (\<lambda>r. lines_of reducef (filter (\<lambda>kv. ihash (Key kv) mod n = r) ?kva)) [0..<n]" by simp
  have "mset (concat (map (\<lambda>r. the (mw_out w r)) [0..<n])) =
      image_mset (\<lambda>k. (k, reducef k (values_of k ?kva))) (mset_set {k \<in> Key ` set ?kva. ihash k mod n < n})"
    unfolding eq by (rule lines_of_buckets)
  also have "{k \<in> Key ` set ?kva. ihash k mod n < n} = Key ` set ?kva" using assms(3) by auto
  also have "image_mset (\<lambda>k. (k, reducef k (values_of k ?kva))) (mset_set (Key ` set ?kva)) =
      mset (mrsequential mapf reducef srt' content files)"
    by (simp add: mrsequential_def lines_of_sort [OF assms(5,6)] lines_of_def mset_sorted_set)
  finally show ?thesis .
qed

lemma distributed_is_sequential_witness:
  "\<exists>es w. run_steps ex_step es (mr_init ex_files 2) = Some w \<and>
     mset (concat (map (\<lambda>r. the (mw_out w r)) [0..<2])) = mset [(''a'', ''2''), (''b'', ''2'')]"
proof -
  obtain es w where run: "run_steps ex_step es (mr_init ex_files 2) = Some w" and done': "Done (mw_master w)"
    using ex_finishes by blast
  have two: "(0::nat) < 2" by simp
  have "mrsequential (wc_Map ex_letter) wc_Reduce (sort_key Key) ex_content ex_files =
      [(''a'', ''2''), (''b'', ''2'')]" by code_simp
  with distributed_is_sequential [OF run done' two sort_key_sorts sort_key_sorts wc_ignores_order] run
  show ?thesis by metis
qed

text \<open>C25: Whatever has happened - crashed workers, lost or late reports - the job can still be
  finished, and a request that comes after all running tasks have timed out is given an
  unfinished task, which is then marked as running from that moment.\<close>

theorem job_can_finish:
  assumes "run_steps (mr_step mapf reducef srt content) es (mr_init files n) = Some w"
  shows "(\<exists>es' w'. run_steps (mr_step mapf reducef srt content) es' w = Some w' \<and> Done (mw_master w')) \<and>
    (\<forall>now. \<not> all_completed (reduceTasks (mw_master w)) \<and>
       (\<forall>t \<in> set (mapTasks (mw_master w) @ reduceTasks (mw_master w)).
          t_Status t = InProgress \<longrightarrow> now - t_Start t > timeout) \<longrightarrow>
       (\<exists>reply m' ts. GetTask now (mw_master w) = (reply, m') \<and>
          (gt_TaskType reply = MapTask \<and> ts = mapTasks m' \<or> gt_TaskType reply = ReduceTask \<and> ts = reduceTasks m') \<and>
          gt_TaskID reply < length ts \<and> t_Status (ts ! gt_TaskID reply) = InProgress \<and>
          t_Start (ts ! gt_TaskID reply) = now))"
proof -
  have ok: "mr_ok mapf reducef srt content files n w" by (rule mr_run_ok [OF assms])
  then have m: "master_ok files n (has_map n w) (has_out w) (mw_master w)" by (simp add: mr_ok_def)
  from completable [OF ok] GetTask_starts [OF m] show ?thesis by blast
qed

lemma job_can_finish_witness:
  "\<exists>es' w'. run_steps ex_step es' (mr_init ex_files 2) = Some w' \<and> Done (mw_master w')"
  using job_can_finish [of "wc_Map ex_letter" wc_Reduce "sort_key Key" ex_content "[]" ex_files 2] by simp

end
