(* ===== verification/KVRaft.thy ===== *)
theory KVRaft
  imports Service
begin

text \<open>
  The replicated key/value server of \<open>src/kvraft\<close>: the apply loop with its duplicate table, the
  snapshots, the channels to the RPC handlers, and the clerk. The Raft peer below
  (\<open>src/raft-Lab2D\<close>) is the environment: its answers and the messages it sends are inputs.
\<close>

section \<open>Data\<close>

datatype KvOpType = GetOp | PutOp | AppendOp | UnknownOp

record KvOp =
  ko_SeqId :: int
  ko_Key :: string
  ko_Value :: string
  ko_ClientId :: int
  ko_Index :: int
  ko_OpType :: KvOpType

type_synonym kv_snapshot = "(string \<rightharpoonup> string) \<times> (int \<rightharpoonup> int)"

record KVServer =
  ks_me :: nat
  ks_dead :: int
  ks_maxraftstate :: int
  seqMap :: "int \<rightharpoonup> int"
  waitCh :: "KvOp Notify"
  kvPersist :: "string \<rightharpoonup> string"
  lastIncludeIndex :: int

text \<open>The messages of \<open>applyCh\<close>; a command or a snapshot.\<close>

record KvMsg =
  km_CommandValid :: bool
  km_Command :: KvOp
  km_CommandIndex :: int
  km_SnapshotValid :: bool
  km_Snapshot :: "kv_snapshot option"
  km_SnapshotIndex :: int

definition DecodeSnapShot :: "kv_snapshot option \<Rightarrow> KVServer \<Rightarrow> KVServer" where
  "DecodeSnapShot snapshot kv =
     (case snapshot of
        None \<Rightarrow> kv
      | Some (db, seqs) \<Rightarrow> kv\<lparr>kvPersist := db, seqMap := seqs\<rparr>)"

definition PersistSnapShot :: "KVServer \<Rightarrow> kv_snapshot" where
  "PersistSnapShot kv = (kvPersist kv, seqMap kv)"

definition StartKVServer :: "nat \<Rightarrow> int \<Rightarrow> kv_snapshot option \<Rightarrow> KVServer" where
  "StartKVServer i maxstate snapshot = DecodeSnapShot snapshot
     \<lparr>ks_me = i, ks_dead = 0, ks_maxraftstate = maxstate, seqMap = (\<lambda>_. None), waitCh = no_channels,
      kvPersist = (\<lambda>_. None), lastIncludeIndex = -1\<rparr>"

definition KvKill :: "('rf \<Rightarrow> 'rf) \<Rightarrow> KVServer \<times> 'rf \<Rightarrow> KVServer \<times> 'rf" where
  "KvKill kill s = ((fst s)\<lparr>ks_dead := 1\<rparr>, kill (snd s))"

definition KvKilled :: "KVServer \<Rightarrow> bool" where
  "KvKilled kv \<longleftrightarrow> ks_dead kv = 1"

section \<open>The apply loop\<close>

definition ifDuplicate :: "int \<Rightarrow> int \<Rightarrow> KVServer \<Rightarrow> bool" where
  "ifDuplicate clientId seqId kv \<longleftrightarrow>
     (case seqMap kv clientId of None \<Rightarrow> False | Some lastSeqId \<Rightarrow> seqId \<le> lastSeqId)"

definition kv_write :: "KvOp \<Rightarrow> (string \<rightharpoonup> string) \<Rightarrow> (string \<rightharpoonup> string)" where
  "kv_write op db =
     (case ko_OpType op of
        PutOp \<Rightarrow> db(ko_Key op \<mapsto> ko_Value op)
      | AppendOp \<Rightarrow> db(ko_Key op \<mapsto> (case db (ko_Key op) of None \<Rightarrow> [] | Some v \<Rightarrow> v) @ ko_Value op)
      | _ \<Rightarrow> db)"

definition kv_apply :: "KvOp \<Rightarrow> KVServer \<Rightarrow> KVServer" where
  "kv_apply op kv =
     (if ifDuplicate (ko_ClientId op) (ko_SeqId op) kv then kv
      else kv\<lparr>kvPersist := kv_write op (kvPersist kv),
              seqMap := (seqMap kv)(ko_ClientId op \<mapsto> ko_SeqId op)\<rparr>)"

text \<open>\<open>getWaitCh\<close> returns the channel of an index, a new one if there is none.\<close>

definition getWaitCh :: "int \<Rightarrow> KVServer \<Rightarrow> KVServer \<times> nat" where
  "getWaitCh index kv =
     (case notifyMapCh (waitCh kv) index of
        Some c \<Rightarrow> (kv, c)
      | None \<Rightarrow> (case createNotifyCh index (waitCh kv) of (n, c) \<Rightarrow> (kv\<lparr>waitCh := n\<rparr>, c)))"

text \<open>
  One turn of the loop. It goes on, with the snapshot handed to Raft if one was taken; or it
  returns for ever; or it blocks, in the call of \<open>Snapshot\<close> or on a full channel. \<open>stateSize\<close> is what
  \<open>GetRaftStateSize\<close> and \<open>installs\<close> what \<open>CondInstallSnapshot\<close> returns, \<open>hangs\<close> tells whether a call of
  \<open>Snapshot\<close> hangs (\<open>snapshot_deadlock\<close> shows that it can).
\<close>

datatype kv_turn =
    Continues KVServer "(int \<times> kv_snapshot) option"
  | Returns KVServer
  | Blocks KVServer "(int \<times> kv_snapshot) option"

definition kv_command :: "int \<Rightarrow> bool \<Rightarrow> KvMsg \<Rightarrow> KVServer \<Rightarrow> kv_turn" where
  "kv_command stateSize hangs msg kv =
     (if km_CommandIndex msg \<le> lastIncludeIndex kv then Returns kv
      else let op = km_Command msg;
               kv = kv_apply op kv;
               snapshot = (if ks_maxraftstate kv \<noteq> -1 \<and> stateSize > ks_maxraftstate kv
                           then Some (km_CommandIndex msg, PersistSnapShot kv) else None)
           in if snapshot \<noteq> None \<and> hangs then Blocks kv None
              else case getWaitCh (km_CommandIndex msg) kv of (kv, c) \<Rightarrow>
                (case sendNotify (km_CommandIndex msg) op (waitCh kv) of
                   Some n \<Rightarrow> Continues (kv\<lparr>waitCh := n\<rparr>) snapshot
                 | None \<Rightarrow> Blocks kv snapshot))"

definition kv_install :: "bool \<Rightarrow> KvMsg \<Rightarrow> KVServer \<Rightarrow> KVServer" where
  "kv_install installs msg kv =
     (if installs then (DecodeSnapShot (km_Snapshot msg) kv)\<lparr>lastIncludeIndex := km_SnapshotIndex msg\<rparr>
      else kv)"

definition applyMsgHandlerLoop :: "int \<Rightarrow> bool \<Rightarrow> bool \<Rightarrow> KvMsg \<Rightarrow> KVServer \<Rightarrow> kv_turn" where
  "applyMsgHandlerLoop stateSize hangs installs msg kv =
     (if KvKilled kv then Returns kv
      else case (if km_CommandValid msg then kv_command stateSize hangs msg kv else Continues kv None) of
             Continues kv s \<Rightarrow> Continues (if km_SnapshotValid msg then kv_install installs msg kv else kv) s
           | r \<Rightarrow> r)"

section \<open>RPC handlers and the clerk\<close>

record KvGetArgs =
  kga_Key :: string
  kga_SeqId :: int
  kga_ClientId :: int

record KvPutAppendArgs =
  kpa_Key :: string
  kpa_Value :: string
  kpa_Op :: KvOpType
  kpa_SeqId :: int
  kpa_ClientId :: int

record KvReply =
  kr_Err :: Err
  kr_Value :: string

definition KvGet_op :: "KvGetArgs \<Rightarrow> KvOp" where
  "KvGet_op args = \<lparr>ko_SeqId = kga_SeqId args, ko_Key = kga_Key args, ko_Value = [],
     ko_ClientId = kga_ClientId args, ko_Index = 0, ko_OpType = GetOp\<rparr>"

definition KvPutAppend_op :: "KvPutAppendArgs \<Rightarrow> KvOp" where
  "KvPutAppend_op args = \<lparr>ko_SeqId = kpa_SeqId args, ko_Key = kpa_Key args, ko_Value = kpa_Value args,
     ko_ClientId = kpa_ClientId args, ko_Index = 0, ko_OpType = kpa_Op args\<rparr>"

text \<open>
  The start of both handlers: a killed server or a follower refuses; otherwise the operation
  goes to \<open>Start\<close> and its index gives the channel to wait on.
\<close>

definition kv_enter :: "bool \<Rightarrow> int \<Rightarrow> KVServer \<Rightarrow> (KVServer \<times> nat) option" where
  "kv_enter isLeader index kv = (if KvKilled kv \<or> \<not> isLeader then None else Some (getWaitCh index kv))"

text \<open>The select: an operation from the channel, or the timer. \<open>Get\<close> reads the map only then.\<close>

definition kv_matches :: "KvOp \<Rightarrow> KvOp option \<Rightarrow> bool" where
  "kv_matches op res \<longleftrightarrow> (case res of
     None \<Rightarrow> False | Some r \<Rightarrow> ko_ClientId op = ko_ClientId r \<and> ko_SeqId op = ko_SeqId r)"

definition KvGet_reply :: "KvGetArgs \<Rightarrow> KvOp option \<Rightarrow> KVServer \<Rightarrow> KvReply" where
  "KvGet_reply args res kv =
     (if kv_matches (KvGet_op args) res
      then \<lparr>kr_Err = OK, kr_Value = (case kvPersist kv (kga_Key args) of None \<Rightarrow> [] | Some v \<Rightarrow> v)\<rparr>
      else \<lparr>kr_Err = ErrWrongLeader, kr_Value = []\<rparr>)"

definition KvPutAppend_reply :: "KvPutAppendArgs \<Rightarrow> KvOp option \<Rightarrow> Err" where
  "KvPutAppend_reply args res = (if kv_matches (KvPutAppend_op args) res then OK else ErrWrongLeader)"

text \<open>The deferred function deletes the channel's entry without closing it.\<close>

definition kv_leave :: "int \<Rightarrow> KVServer \<Rightarrow> KVServer" where
  "kv_leave index kv = kv\<lparr>waitCh := (waitCh kv)\<lparr>notifyMapCh := (notifyMapCh (waitCh kv))(index := None)\<rparr>\<rparr>"

text \<open>The handlers, with the state in which they read and in which they leave.\<close>

definition KvGet :: "KvGetArgs \<Rightarrow> bool \<times> int \<Rightarrow> KvOp option \<Rightarrow> KVServer \<Rightarrow> KVServer \<Rightarrow> KvReply \<times> KVServer" where
  "KvGet args st res later kv =
     (case kv_enter (fst st) (snd st) kv of
        None \<Rightarrow> (\<lparr>kr_Err = ErrWrongLeader, kr_Value = []\<rparr>, kv)
      | Some _ \<Rightarrow> (KvGet_reply args res later, kv_leave (snd st) later))"

definition KvPutAppend :: "KvPutAppendArgs \<Rightarrow> bool \<times> int \<Rightarrow> KvOp option \<Rightarrow> KVServer \<Rightarrow> KVServer \<Rightarrow> Err \<times> KVServer" where
  "KvPutAppend args st res later kv =
     (case kv_enter (fst st) (snd st) kv of
        None \<Rightarrow> (ErrWrongLeader, kv)
      | Some _ \<Rightarrow> (KvPutAppend_reply args res, kv_leave (snd st) later))"

record KvClerk =
  kc_servers :: nat
  kc_seqId :: int
  kc_leaderId :: nat
  kc_clientId :: int

definition MakeKvClerk :: "nat \<Rightarrow> int \<Rightarrow> nat \<Rightarrow> KvClerk" where
  "MakeKvClerk servers nrand first = \<lparr>kc_servers = servers, kc_seqId = 0, kc_leaderId = first, kc_clientId = nrand\<rparr>"

text \<open>
  The loop of both operations over the answers of the calls (\<open>None\<close>: the call failed): the
  server and the answer that ends it, or \<open>None\<close> while it goes on.
\<close>

fun kv_ask :: "(KvReply \<Rightarrow> bool) \<Rightarrow> nat \<Rightarrow> nat \<Rightarrow> KvReply option list \<Rightarrow> (nat \<times> KvReply) option" where
  "kv_ask accept n server [] = None"
| "kv_ask accept n server (r # rs) =
     (case r of
        Some reply \<Rightarrow> if accept reply then Some (server, reply) else kv_ask accept n ((server + 1) mod n) rs
      | None \<Rightarrow> kv_ask accept n ((server + 1) mod n) rs)"

definition KvClerk_Get :: "string \<Rightarrow> KvReply option list \<Rightarrow> KvClerk \<Rightarrow> KvGetArgs \<times> (KvClerk \<times> string) option" where
  "KvClerk_Get key rs ck =
     (let ck = ck\<lparr>kc_seqId := kc_seqId ck + 1\<rparr>
      in (\<lparr>kga_Key = key, kga_SeqId = kc_seqId ck, kga_ClientId = kc_clientId ck\<rparr>,
          map_option (\<lambda>(server, reply). (ck\<lparr>kc_leaderId := server\<rparr>,
              if kr_Err reply = ErrNoKey then [] else kr_Value reply))
            (kv_ask (\<lambda>r. kr_Err r = ErrNoKey \<or> kr_Err r = OK) (kc_servers ck) (kc_leaderId ck) rs)))"

definition KvClerk_PutAppend ::
  "string \<Rightarrow> string \<Rightarrow> KvOpType \<Rightarrow> KvReply option list \<Rightarrow> KvClerk \<Rightarrow> KvPutAppendArgs \<times> KvClerk option" where
  "KvClerk_PutAppend key newValue op rs ck =
     (let ck = ck\<lparr>kc_seqId := kc_seqId ck + 1\<rparr>
      in (\<lparr>kpa_Key = key, kpa_Value = newValue, kpa_Op = op, kpa_SeqId = kc_seqId ck, kpa_ClientId = kc_clientId ck\<rparr>,
          map_option (\<lambda>(server, reply). ck\<lparr>kc_leaderId := server\<rparr>)
            (kv_ask (\<lambda>r. kr_Err r = OK) (kc_servers ck) (kc_leaderId ck) rs)))"

definition KvClerk_Put :: "string \<Rightarrow> string \<Rightarrow> KvReply option list \<Rightarrow> KvClerk \<Rightarrow> KvPutAppendArgs \<times> KvClerk option" where
  "KvClerk_Put key value rs ck = KvClerk_PutAppend key value PutOp rs ck"

definition KvClerk_Append :: "string \<Rightarrow> string \<Rightarrow> KvReply option list \<Rightarrow> KvClerk \<Rightarrow> KvPutAppendArgs \<times> KvClerk option" where
  "KvClerk_Append key value rs ck = KvClerk_PutAppend key value AppendOp rs ck"

section \<open>The duplicate table\<close>

definition kv_settled :: "KvOp \<Rightarrow> KVServer \<Rightarrow> bool" where
  "kv_settled op kv \<longleftrightarrow> ifDuplicate (ko_ClientId op) (ko_SeqId op) kv"

lemma kv_settled_apply: "kv_settled op kv \<Longrightarrow> kv_settled op (kv_apply op' kv)"
  by (auto simp: kv_settled_def kv_apply_def ifDuplicate_def split: option.splits)

lemma kv_apply_settles: "kv_settled op (kv_apply op kv)"
  by (auto simp: kv_settled_def kv_apply_def ifDuplicate_def)

lemma kv_apply_settled [simp]: "kv_settled op kv \<Longrightarrow> kv_apply op kv = kv"
  by (simp add: kv_settled_def kv_apply_def)

interpretation kvraft: session_service kv_apply "\<lambda>_. True" kv_settled
  by unfold_locales (auto intro: kv_settled_apply kv_apply_settles)

text \<open>The operations of a log that are executed, from a state on.\<close>

fun kv_executed :: "KvOp list \<Rightarrow> KVServer \<Rightarrow> KvOp list" where
  "kv_executed [] kv = []"
| "kv_executed (op # ops) kv =
     (if kv_settled op kv then [] else [op]) @ kv_executed ops (kv_apply op kv)"

lemma kv_executed_db: "kvPersist (fold kv_apply ops kv) = fold kv_write (kv_executed ops kv) (kvPersist kv)"
  by (induction ops arbitrary: kv) (auto simp: kv_apply_def kv_settled_def)

lemma kv_executed_later: "op \<in> set (kv_executed ops kv) \<Longrightarrow> \<not> kv_settled op kv"
  by (induction ops arbitrary: kv) (force dest: kv_settled_apply split: if_splits)+

text \<open>The executed operations of a client come in the order of their numbers.\<close>

lemma kv_executed_increasing:
  "sorted_wrt (\<lambda>a b. ko_ClientId a = ko_ClientId b \<longrightarrow> ko_SeqId a < ko_SeqId b) (kv_executed ops kv)"
proof (induction ops arbitrary: kv)
  case (Cons op ops)
  have "ko_SeqId op < ko_SeqId b" if "b \<in> set (kv_executed ops (kv_apply op kv))"
    "ko_ClientId op = ko_ClientId b" "\<not> kv_settled op kv" for b
    using kv_executed_later [OF that(1)] that(2,3)
    by (auto simp: kv_settled_def kv_apply_def ifDuplicate_def)
  with Cons show ?case by auto
qed simp

lemma kv_log_settled: "op \<in> set ops \<Longrightarrow> kv_settled op (fold kv_apply ops kv)"
proof (induction ops arbitrary: kv)
  case (Cons op' ops)
  then show ?case
    using kvraft.settled_run [OF TrueI kv_apply_settles, of op ops kv] by auto
qed simp

end
