(* ===== verification/KVReplicas.thy ===== *)
theory KVReplicas
  imports KVRaft
begin

text \<open>
  All replicas of the key/value service of \<open>src/kvraft\<close> over one log. The log \<open>L\<close> is what the
  Raft peers agree on: a peer delivers its commands in order from index 1 on, skips over a
  snapshot that is past what it has delivered, and restarts after the snapshot it stored. What
  is left of Raft is its one deviation from that, which the loop must cope with: \<open>applyLog\<close>
  copies committed commands before it sends them, so a snapshot can overtake them and commands
  it covers are delivered after it.
\<close>

section \<open>The replicas\<close>

text \<open>
  \<open>rp_last\<close> is the index up to which the replica has the log, \<open>rp_running\<close> says that its apply
  loop still runs, and \<open>rp_received\<close> holds the operations that handlers received from their
  channels and have not answered yet. Handlers may hold any channel and leave at any time.
\<close>

record KvReplica =
  rp_server :: KVServer
  rp_last :: nat
  rp_running :: bool
  rp_received :: "KvOp list"

record KvWorld =
  kw_replicas :: "nat \<Rightarrow> KvReplica"
  kw_snapshots :: "(int \<times> kv_snapshot) list"

datatype kv_event =
    KvEnter bool int
  | KvReceive nat
  | KvLeave int
  | KvDeliver int bool
  | KvStale int int
  | KvInstall nat
  | KvRestart nat int "nat option"
  | KvStop

definition zero_KvOp :: KvOp where
  "zero_KvOp = \<lparr>ko_SeqId = 0, ko_Key = [], ko_Value = [], ko_ClientId = 0, ko_Index = 0, ko_OpType = UnknownOp\<rparr>"

definition kv_command_msg :: "int \<Rightarrow> KvOp \<Rightarrow> KvMsg" where
  "kv_command_msg i op = \<lparr>km_CommandValid = True, km_Command = op, km_CommandIndex = i,
     km_SnapshotValid = False, km_Snapshot = None, km_SnapshotIndex = 0\<rparr>"

definition kv_snapshot_msg :: "int \<Rightarrow> kv_snapshot \<Rightarrow> KvMsg" where
  "kv_snapshot_msg i s = \<lparr>km_CommandValid = False, km_Command = zero_KvOp, km_CommandIndex = 0,
     km_SnapshotValid = True, km_Snapshot = Some s, km_SnapshotIndex = i\<rparr>"

definition after_turn :: "nat \<Rightarrow> kv_turn \<Rightarrow> KvReplica \<Rightarrow> KvReplica \<times> (int \<times> kv_snapshot) list" where
  "after_turn n t rp =
     (case t of
        Continues kv s \<Rightarrow> (rp\<lparr>rp_server := kv, rp_last := n\<rparr>, case s of None \<Rightarrow> [] | Some x \<Rightarrow> [x])
      | Returns kv \<Rightarrow> (rp\<lparr>rp_server := kv, rp_running := False\<rparr>, [])
      | Blocks kv s \<Rightarrow> (rp\<lparr>rp_server := kv, rp_last := n, rp_running := False\<rparr>, case s of None \<Rightarrow> [] | Some x \<Rightarrow> [x]))"

text \<open>
  A step of one replica, with the snapshots it hands to Raft; \<open>None\<close>: it cannot take it. A
  snapshot is installed, or read at a restart, from those that replicas have handed to Raft;
  \<open>CondInstallSnapshot\<close> always returns true.
\<close>

fun replica_step ::
  "KvOp list \<Rightarrow> (int \<times> kv_snapshot) list \<Rightarrow> kv_event \<Rightarrow> KvReplica \<Rightarrow> (KvReplica \<times> (int \<times> kv_snapshot) list) option" where
  "replica_step L snaps (KvEnter isLeader i) rp =
     map_option (\<lambda>(kv, c). (rp\<lparr>rp_server := kv\<rparr>, [])) (kv_enter isLeader i (rp_server rp))"
| "replica_step L snaps (KvReceive c) rp =
     (if c < length (chans (waitCh (rp_server rp)))
      then map_option (\<lambda>(r, n). (rp\<lparr>rp_server := (rp_server rp)\<lparr>waitCh := n\<rparr>, rp_received := r # rp_received rp\<rparr>, []))
             (recvNotify zero_KvOp c (waitCh (rp_server rp)))
      else None)"
| "replica_step L snaps (KvLeave i) rp = Some (rp\<lparr>rp_server := kv_leave i (rp_server rp)\<rparr>, [])"
| "replica_step L snaps (KvDeliver stateSize hangs) rp =
     (if rp_running rp \<and> rp_last rp < length L
      then Some (after_turn (rp_last rp + 1)
             (applyMsgHandlerLoop stateSize hangs True (kv_command_msg (int (rp_last rp + 1)) (L ! rp_last rp)) (rp_server rp)) rp)
      else None)"
| "replica_step L snaps (KvStale i stateSize) rp =
     (if rp_running rp \<and> 0 < i \<and> i \<le> lastIncludeIndex (rp_server rp) \<and> nat i \<le> length L
      then Some (after_turn (rp_last rp)
             (applyMsgHandlerLoop stateSize False True (kv_command_msg i (L ! (nat i - 1))) (rp_server rp)) rp)
      else None)"
| "replica_step L snaps (KvInstall k) rp =
     (if rp_running rp \<and> k < length snaps \<and> int (rp_last rp) < fst (snaps ! k)
      then Some (after_turn (nat (fst (snaps ! k)))
             (applyMsgHandlerLoop 0 False True (kv_snapshot_msg (fst (snaps ! k)) (snd (snaps ! k))) (rp_server rp)) rp)
      else None)"
| "replica_step L snaps (KvRestart i maxstate k) rp =
     (case k of
        None \<Rightarrow> Some (\<lparr>rp_server = StartKVServer i maxstate None, rp_last = 0, rp_running = True, rp_received = []\<rparr>, [])
      | Some k \<Rightarrow> if k < length snaps
          then Some (\<lparr>rp_server = StartKVServer i maxstate (Some (snd (snaps ! k))),
                      rp_last = nat (fst (snaps ! k)), rp_running = True, rp_received = []\<rparr>, [])
          else None)"
| "replica_step L snaps KvStop rp = Some (rp\<lparr>rp_server := fst (KvKill (\<lambda>_. ()) (rp_server rp, ()))\<rparr>, [])"

definition kv_step :: "KvOp list \<Rightarrow> nat \<times> kv_event \<Rightarrow> KvWorld \<Rightarrow> KvWorld option" where
  "kv_step L e w =
     map_option (\<lambda>(rp, new). \<lparr>kw_replicas = (kw_replicas w)(fst e := rp), kw_snapshots = kw_snapshots w @ new\<rparr>)
       (replica_step L (kw_snapshots w) (snd e) (kw_replicas w (fst e)))"

definition kv_init :: "int \<Rightarrow> KvWorld" where
  "kv_init maxstate = \<lparr>kw_replicas = (\<lambda>s. \<lparr>rp_server = StartKVServer s maxstate None, rp_last = 0,
     rp_running = True, rp_received = []\<rparr>), kw_snapshots = []\<rparr>"

section \<open>What a prefix of the log stores\<close>

definition kv_fresh :: KVServer where
  "kv_fresh = StartKVServer 0 (-1) None"

definition prefix_data :: "nat \<Rightarrow> KvOp list \<Rightarrow> kv_snapshot" where
  "prefix_data n L = PersistSnapShot (fold kv_apply (take n L) kv_fresh)"

lemma data_apply:
  "PersistSnapShot a = PersistSnapShot b \<Longrightarrow> PersistSnapShot (kv_apply op a) = PersistSnapShot (kv_apply op b)"
  by (simp add: PersistSnapShot_def kv_apply_def ifDuplicate_def)

lemma data_fold:
  "PersistSnapShot a = PersistSnapShot b \<Longrightarrow> PersistSnapShot (fold kv_apply ops a) = PersistSnapShot (fold kv_apply ops b)"
proof (induction ops arbitrary: a b)
  case (Cons op ops)
  show ?case using Cons.IH [OF data_apply [OF Cons.prems]] by simp
qed simp

lemma prefix_data_Suc:
  assumes "n < length L" and "PersistSnapShot kv = prefix_data n L"
  shows "PersistSnapShot (kv_apply (L ! n) kv) = prefix_data (Suc n) L"
  using data_apply [OF assms(2) [unfolded prefix_data_def], of "L ! n"] assms(1)
  by (simp add: prefix_data_def take_Suc_conv_app_nth)

lemma data_start [simp]:
  "PersistSnapShot (StartKVServer i m None) = prefix_data 0 L"
  "PersistSnapShot (StartKVServer i m (Some s)) = s"
  by (auto simp: PersistSnapShot_def StartKVServer_def DecodeSnapShot_def prefix_data_def kv_fresh_def
      split: prod.splits)

lemma start_fields [simp]:
  "waitCh (StartKVServer i m s) = no_channels" "lastIncludeIndex (StartKVServer i m s) = -1"
  "ks_dead (StartKVServer i m s) = 0" "ks_maxraftstate (StartKVServer i m s) = m"
  by (auto simp: StartKVServer_def DecodeSnapShot_def split: option.splits)

lemma kv_apply_fields [simp]:
  "waitCh (kv_apply op kv) = waitCh kv" "lastIncludeIndex (kv_apply op kv) = lastIncludeIndex kv"
  "ks_dead (kv_apply op kv) = ks_dead kv" "ks_maxraftstate (kv_apply op kv) = ks_maxraftstate kv"
  by (simp_all add: kv_apply_def)

lemma data_waitCh [simp]:
  "PersistSnapShot (kv\<lparr>waitCh := n\<rparr>) = PersistSnapShot kv" "PersistSnapShot (kv\<lparr>ks_dead := d\<rparr>) = PersistSnapShot kv"
  by (simp_all add: PersistSnapShot_def)

lemma data_decode [simp]:
  "PersistSnapShot ((DecodeSnapShot (Some s) kv)\<lparr>lastIncludeIndex := i\<rparr>) = s"
  "waitCh (DecodeSnapShot s' kv) = waitCh kv" "ks_dead (DecodeSnapShot s' kv) = ks_dead kv"
  by (auto simp: PersistSnapShot_def DecodeSnapShot_def split: option.splits prod.splits)

section \<open>Channels\<close>

text \<open>
  What holds of the channels of a replica that has applied the operations \<open>ops\<close>, up to index
  \<open>n\<close>: the channels of later indices are empty, and what is in a channel has been applied.
\<close>

definition channels_ok :: "nat \<Rightarrow> KvOp set \<Rightarrow> KvOp Notify \<Rightarrow> bool" where
  "channels_ok n ops m \<longleftrightarrow> notify_wf m \<and> (\<forall>c < length (chans m). \<not> ch_closed (chans m ! c)) \<and>
     (\<forall>i c. notifyMapCh m i = Some c \<and> int n < i \<longrightarrow> ch_buf (chans m ! c) = []) \<and>
     (\<forall>c < length (chans m). set (ch_buf (chans m ! c)) \<subseteq> ops)"

lemma channels_init [simp]: "channels_ok n ops no_channels"
  by (simp add: channels_ok_def notify_wf_init) (simp add: no_channels_def)

lemma channels_mono: "channels_ok n ops m \<Longrightarrow> n \<le> n' \<Longrightarrow> ops \<subseteq> ops' \<Longrightarrow> channels_ok n' ops' m"
  unfolding channels_ok_def by force

lemma channels_create:
  assumes "channels_ok n ops m"
  shows "channels_ok n ops (fst (createNotifyCh i m))"
proof -
  have wf: "notify_wf m" using assms by (simp add: channels_ok_def)
  then have "c < length (chans m)" if "notifyMapCh m j = Some c" for j c
    using that by (auto simp: notify_wf_def)
  with assms createNotifyCh_wf [OF wf, of i] show ?thesis
    by (auto simp: channels_ok_def createNotifyCh_def Let_def nth_append less_Suc_eq split: if_splits)
qed

lemma getWaitCh_fields [simp]:
  "PersistSnapShot (fst (getWaitCh i kv)) = PersistSnapShot kv"
  "lastIncludeIndex (fst (getWaitCh i kv)) = lastIncludeIndex kv" "ks_dead (fst (getWaitCh i kv)) = ks_dead kv"
  by (auto simp: getWaitCh_def split: option.splits prod.splits)

lemma getWaitCh_pair:
  assumes "getWaitCh i kv = (kv', c)"
  shows "PersistSnapShot kv' = PersistSnapShot kv" "ks_dead kv' = ks_dead kv"
  using getWaitCh_fields(1,3) [of i kv] assms by simp_all

lemma getWaitCh_channels:
  assumes "channels_ok n ops (waitCh kv)"
  shows "channels_ok n ops (waitCh (fst (getWaitCh i kv)))"
  using assms channels_create [OF assms, of i] by (auto simp: getWaitCh_def split: option.splits prod.splits)

lemma getWaitCh_entry: "notifyMapCh (waitCh (fst (getWaitCh i kv))) i = Some (snd (getWaitCh i kv))"
  by (auto simp: getWaitCh_def createNotifyCh_def Let_def split: option.splits)

text \<open>Sending on the channel of the next index never blocks.\<close>

lemma send_next:
  assumes ok: "channels_ok n ops m" and c: "notifyMapCh m i = Some c" and i: "i = int (Suc n)"
  shows "\<exists>m'. sendNotify i op m = Some m' \<and> channels_ok (Suc n) (insert op ops) m' \<and>
    notifyMapCh m' = notifyMapCh m \<and> ch_buf (chans m' ! c) = [op]"
proof -
  have bound: "c < length (chans m)" and "\<not> ch_closed (chans m ! c)"
    using ok c by (auto simp: channels_ok_def notify_wf_def)
  moreover have "ch_buf (chans m ! c) = []"
    using ok c i unfolding channels_ok_def by (metis lessI of_nat_less_iff)
  ultimately obtain m' where m': "sendNotify i op m = Some m'"
      "m' = m\<lparr>chans := (chans m)[c := (chans m ! c)\<lparr>ch_buf := [op]\<rparr>]\<rparr>"
    using c by (auto simp: sendNotify_def)
  have other: "c' \<noteq> c \<and> ch_buf (chans m ! c') = []" if "notifyMapCh m j = Some c'" "int (Suc n) < j" for j c'
  proof -
    have "c' \<noteq> c"
      using ok c that i unfolding channels_ok_def notify_wf_def inj_on_def dom_def
      by (metis (mono_tags, lifting) less_irrefl mem_Collect_eq option.distinct(1))
    moreover have "int n < j" using that(2) by simp
    ultimately show ?thesis using ok that(1) by (simp add: channels_ok_def)
  qed
  have "notify_wf m'" using ok sendNotify_wf [OF _ m'(1)] by (simp add: channels_ok_def)
  moreover have "ch_buf (chans m' ! c') = []" if "notifyMapCh m' j = Some c'" "int (Suc n) < j" for j c'
    using other [of j c'] that by (simp add: m'(2))
  moreover have "\<not> ch_closed (chans m' ! c') \<and> set (ch_buf (chans m' ! c')) \<subseteq> insert op ops"
    if "c' < length (chans m')" for c'
    using ok that by (cases "c' = c") (auto simp: channels_ok_def m'(2))
  ultimately have "channels_ok (Suc n) (insert op ops) m'" by (auto simp: channels_ok_def)
  with m' bound show ?thesis by auto
qed

lemma recv_channels:
  assumes ok: "channels_ok n ops m" and "c < length (chans m)" and "recvNotify z c m = Some (r, m')"
  shows "channels_ok n ops m' \<and> r \<in> ops"
proof -
  from assms obtain rs where rs: "ch_buf (chans m ! c) = r # rs"
      "m' = m\<lparr>chans := (chans m)[c := (chans m ! c)\<lparr>ch_buf := []\<rparr>]\<rparr>"
    by (auto simp: channels_ok_def recvNotify_def split: list.splits if_splits)
  with ok assms(2) show ?thesis
    by (auto simp: channels_ok_def notify_wf_def nth_list_update subset_iff split: if_splits)
qed

lemma leave_channels:
  "channels_ok n ops (waitCh kv) \<Longrightarrow> channels_ok n ops (waitCh (kv_leave i kv))"
  by (auto simp: channels_ok_def kv_leave_def notify_wf_def inj_on_def dom_def)

section \<open>The invariant\<close>

definition snapshots_ok :: "KvOp list \<Rightarrow> (int \<times> kv_snapshot) list \<Rightarrow> bool" where
  "snapshots_ok L snaps \<longleftrightarrow>
     (\<forall>(i, s) \<in> set snaps. 0 \<le> i \<and> nat i \<le> length L \<and> s = prefix_data (nat i) L)"

definition replica_ok :: "KvOp list \<Rightarrow> KvReplica \<Rightarrow> bool" where
  "replica_ok L rp \<longleftrightarrow> rp_last rp \<le> length L \<and>
     lastIncludeIndex (rp_server rp) \<le> int (rp_last rp) \<and>
     PersistSnapShot (rp_server rp) = prefix_data (rp_last rp) L \<and>
     channels_ok (rp_last rp) (set (take (rp_last rp) L)) (waitCh (rp_server rp)) \<and>
     set (rp_received rp) \<subseteq> set (take (rp_last rp) L)"

definition kv_world_ok :: "KvOp list \<Rightarrow> KvWorld \<Rightarrow> bool" where
  "kv_world_ok L w \<longleftrightarrow> snapshots_ok L (kw_snapshots w) \<and> (\<forall>s. replica_ok L (kw_replicas w s))"

text \<open>
  Delivering the next command: the loop goes on, what it stores is that of the longer prefix,
  and the operation waits in the channel of its index.
\<close>

lemma deliver_next:
  assumes ok: "replica_ok L rp" and n: "rp_last rp < length L" and "\<not> KvKilled (rp_server rp)"
    and i: "i = int (Suc (rp_last rp))"
  shows "\<exists>kv c s. applyMsgHandlerLoop stateSize False installs (kv_command_msg i (L ! rp_last rp)) (rp_server rp) =
      Continues kv s \<and>
    replica_ok L (rp\<lparr>rp_server := kv, rp_last := Suc (rp_last rp)\<rparr>) \<and>
    notifyMapCh (waitCh kv) i = Some c \<and> ch_buf (chans (waitCh kv) ! c) = [L ! rp_last rp] \<and>
    (\<forall>c'. notifyMapCh (waitCh (rp_server rp)) i = Some c' \<longrightarrow> c = c') \<and>
    snapshots_ok L (case s of None \<Rightarrow> [] | Some x \<Rightarrow> [x])"
proof -
  let ?n = "rp_last rp" and ?op = "L ! rp_last rp"
  define kv where "kv = kv_apply ?op (rp_server rp)"
  define kv' where "kv' = fst (getWaitCh i kv)"
  define c where "c = snd (getWaitCh i kv)"
  define s where "s = (if ks_maxraftstate kv \<noteq> -1 \<and> stateSize > ks_maxraftstate kv
      then Some (i, PersistSnapShot kv) else None)"
  have data: "PersistSnapShot kv = prefix_data (Suc ?n) L"
    unfolding kv_def by (rule prefix_data_Suc [OF n]) (use ok in \<open>simp add: replica_ok_def\<close>)
  have set': "set (take (Suc ?n) L) = insert ?op (set (take ?n L))"
    using n by (simp add: take_Suc_conv_app_nth)
  have c: "notifyMapCh (waitCh kv') i = Some c"
    unfolding kv'_def c_def by (rule getWaitCh_entry)
  have "channels_ok ?n (set (take ?n L)) (waitCh kv')"
    unfolding kv'_def by (rule getWaitCh_channels) (use ok in \<open>simp add: replica_ok_def kv_def\<close>)
  from send_next [OF this c i] obtain m where m: "sendNotify i ?op (waitCh kv') = Some m"
      "channels_ok (Suc ?n) (set (take (Suc ?n) L)) m" "notifyMapCh m = notifyMapCh (waitCh kv')"
      "ch_buf (chans m ! c) = [?op]" unfolding set' by blast
  have "lastIncludeIndex (rp_server rp) < i" using ok i by (simp add: replica_ok_def)
  then have turn: "applyMsgHandlerLoop stateSize False installs (kv_command_msg i ?op) (rp_server rp) =
      Continues (kv'\<lparr>waitCh := m\<rparr>) s"
    using assms(3) m(1)
    by (simp add: applyMsgHandlerLoop_def kv_command_def kv_command_msg_def Let_def case_prod_beta kv'_def kv_def s_def)
  have "replica_ok L (rp\<lparr>rp_server := kv'\<lparr>waitCh := m\<rparr>, rp_last := Suc ?n\<rparr>)"
    using ok n data m(2) set' by (auto simp: replica_ok_def kv'_def kv_def)
  moreover have "snapshots_ok L (case s of None \<Rightarrow> [] | Some x \<Rightarrow> [x])"
    using n data i by (auto simp: snapshots_ok_def s_def nat_add_distrib)
  moreover have "c = c'" if "notifyMapCh (waitCh (rp_server rp)) i = Some c'" for c'
    using that by (simp add: c_def getWaitCh_def kv_def)
  ultimately show ?thesis
    using turn c m(3,4) by (intro exI [of _ "kv'\<lparr>waitCh := m\<rparr>"] exI [of _ c] exI [of _ s]) simp
qed

text \<open>If the call of \<open>Snapshot\<close> hangs, the loop blocks after the command was executed.\<close>

lemma deliver_hangs:
  assumes "\<not> KvKilled (rp_server rp)" and ok: "replica_ok L rp" and n: "rp_last rp < length L" and i: "i = int (Suc (rp_last rp))"
  shows "applyMsgHandlerLoop stateSize hangs installs (kv_command_msg i (L ! rp_last rp)) (rp_server rp) =
      applyMsgHandlerLoop stateSize False installs (kv_command_msg i (L ! rp_last rp)) (rp_server rp) \<or>
    (\<exists>kv. applyMsgHandlerLoop stateSize hangs installs (kv_command_msg i (L ! rp_last rp)) (rp_server rp) = Blocks kv None \<and>
      replica_ok L (rp\<lparr>rp_server := kv, rp_last := Suc (rp_last rp), rp_running := False\<rparr>))"
proof -
  let ?n = "rp_last rp"
  define kv where "kv = kv_apply (L ! ?n) (rp_server rp)"
  have "PersistSnapShot kv = prefix_data (Suc ?n) L"
    unfolding kv_def by (rule prefix_data_Suc [OF n]) (use ok in \<open>simp add: replica_ok_def\<close>)
  moreover have "set (take ?n L) \<subseteq> set (take (Suc ?n) L)" by (rule set_take_subset_set_take) simp
  ultimately have "replica_ok L (rp\<lparr>rp_server := kv, rp_last := Suc ?n, rp_running := False\<rparr>)"
    using ok n by (auto simp: replica_ok_def kv_def intro: channels_mono)
  moreover have "lastIncludeIndex (rp_server rp) < i" using ok i by (simp add: replica_ok_def)
  ultimately show ?thesis
    using assms(1) by (cases hangs)
      (auto simp: applyMsgHandlerLoop_def kv_command_def kv_command_msg_def Let_def kv_def)
qed

lemma snapshot_nth:
  assumes "snapshots_ok L snaps" and "k < length snaps"
  shows "0 \<le> fst (snaps ! k)" "nat (fst (snaps ! k)) \<le> length L" "snd (snaps ! k) = prefix_data (nat (fst (snaps ! k))) L"
  using assms(1) nth_mem [OF assms(2)] by (simp_all add: snapshots_ok_def case_prod_beta)

lemma snapshot_turn:
  assumes "snapshots_ok L snaps" and "k < length snaps" and "int (rp_last rp) < fst (snaps ! k)"
    and "replica_ok L rp"
  shows "replica_ok L (rp\<lparr>rp_server := kv_install True (kv_snapshot_msg (fst (snaps ! k)) (snd (snaps ! k))) (rp_server rp),
      rp_last := nat (fst (snaps ! k))\<rparr>)"
proof -
  define i s where "i = fst (snaps ! k)" and "s = snd (snaps ! k)"
  note s = snapshot_nth [OF assms(1,2), folded i_def s_def]
  have le: "rp_last rp \<le> nat i" using assms(3) by (simp add: i_def)
  then have sub: "set (take (rp_last rp) L) \<subseteq> set (take (nat i) L)" by (simp add: set_take_subset_set_take)
  with assms(4) have "channels_ok (nat i) (set (take (nat i) L)) (waitCh (rp_server rp))"
    using channels_mono [OF _ le sub] by (simp add: replica_ok_def)
  with s sub assms(4) show ?thesis unfolding i_def [symmetric] s_def [symmetric]
    by (auto simp: replica_ok_def kv_install_def kv_snapshot_msg_def)
qed

lemma install_turn:
  "\<not> KvKilled kv \<Longrightarrow> applyMsgHandlerLoop sz hangs installs (kv_snapshot_msg i s) kv =
     Continues (kv_install installs (kv_snapshot_msg i s) kv) None"
  by (simp add: applyMsgHandlerLoop_def kv_snapshot_msg_def)

lemma killed_turn: "KvKilled kv \<Longrightarrow> applyMsgHandlerLoop sz hangs installs msg kv = Returns kv"
  by (simp add: applyMsgHandlerLoop_def)

text \<open>The loop ends at a command that a snapshot covers.\<close>

lemma stale_turn:
  "i \<le> lastIncludeIndex kv \<Longrightarrow> applyMsgHandlerLoop sz hangs installs (kv_command_msg i op) kv = Returns kv"
  by (simp add: applyMsgHandlerLoop_def kv_command_def kv_command_msg_def)

lemma replica_restart:
  assumes "snapshots_ok L snaps" and "k < length snaps"
  shows "replica_ok L \<lparr>rp_server = StartKVServer i m (Some (snd (snaps ! k))),
    rp_last = nat (fst (snaps ! k)), rp_running = True, rp_received = []\<rparr>"
  using snapshot_nth [OF assms] by (simp add: replica_ok_def)

lemma replica_start:
  "replica_ok L \<lparr>rp_server = StartKVServer i m None, rp_last = 0, rp_running = r, rp_received = []\<rparr>"
  by (simp add: replica_ok_def)

lemma replica_server_ok:
  assumes "replica_ok L rp" and "PersistSnapShot kv = PersistSnapShot (rp_server rp)"
    and "lastIncludeIndex kv = lastIncludeIndex (rp_server rp)"
    and "channels_ok (rp_last rp) (set (take (rp_last rp) L)) (waitCh kv)"
  shows "replica_ok L (rp\<lparr>rp_server := kv\<rparr>)" "replica_ok L (rp\<lparr>rp_server := kv, rp_running := b\<rparr>)"
  using assms by (auto simp: replica_ok_def)

lemma replica_stop_ok: "replica_ok L rp \<Longrightarrow> replica_ok L (rp\<lparr>rp_running := b\<rparr>)"
  by (simp add: replica_ok_def)

lemma no_snapshots [simp]: "snapshots_ok L []"
  by (simp add: snapshots_ok_def)

lemma replica_step_ok:
  assumes snaps: "snapshots_ok L snaps" and ok: "replica_ok L rp"
    and step: "replica_step L snaps e rp = Some (rp', new)"
  shows "replica_ok L rp' \<and> snapshots_ok L new"
proof (cases e)
  case (KvEnter isLeader i)
  have "channels_ok (rp_last rp) (set (take (rp_last rp) L)) (waitCh (fst (getWaitCh i (rp_server rp))))"
    by (rule getWaitCh_channels) (use ok in \<open>simp add: replica_ok_def\<close>)
  moreover have "rp' = rp\<lparr>rp_server := fst (getWaitCh i (rp_server rp))\<rparr>" "new = []"
    using step KvEnter by (auto simp: kv_enter_def split: if_splits)
  ultimately show ?thesis using replica_server_ok(1) [OF ok] by simp
next
  case (KvReceive c)
  then obtain r n where r: "c < length (chans (waitCh (rp_server rp)))"
      "recvNotify zero_KvOp c (waitCh (rp_server rp)) = Some (r, n)" "new = []"
      "rp' = rp\<lparr>rp_server := (rp_server rp)\<lparr>waitCh := n\<rparr>, rp_received := r # rp_received rp\<rparr>"
    using step by (auto split: if_splits)
  have "channels_ok (rp_last rp) (set (take (rp_last rp) L)) n \<and> r \<in> set (take (rp_last rp) L)"
    by (rule recv_channels [OF _ r(1,2)]) (use ok in \<open>simp add: replica_ok_def\<close>)
  with ok r(3,4) show ?thesis by (simp add: replica_ok_def)
next
  case (KvLeave i)
  with ok step leave_channels [of _ _ "rp_server rp" i] show ?thesis
    by (auto simp: replica_ok_def kv_leave_def PersistSnapShot_def)
next
  case (KvDeliver stateSize hangs)
  then have n: "rp_last rp < length L" using step by (simp split: if_splits)
  let ?turn = "\<lambda>hangs. applyMsgHandlerLoop stateSize hangs True (kv_command_msg (int (Suc (rp_last rp))) (L ! rp_last rp)) (rp_server rp)"
  show ?thesis
  proof (cases "KvKilled (rp_server rp)")
    case True
    with KvDeliver step ok show ?thesis
      by (auto simp: killed_turn after_turn_def replica_stop_ok split: if_splits)
  next
    case False
    from deliver_next [OF ok n False refl, of stateSize True] obtain kv s where
      goes: "?turn False = Continues kv s" "replica_ok L (rp\<lparr>rp_server := kv, rp_last := Suc (rp_last rp)\<rparr>)"
      "snapshots_ok L (case s of None \<Rightarrow> [] | Some x \<Rightarrow> [x])" by blast
    from deliver_hangs [OF False ok n refl, of stateSize hangs True]
    consider "?turn hangs = ?turn False" | kv where "?turn hangs = Blocks kv None"
      "replica_ok L (rp\<lparr>rp_server := kv, rp_last := Suc (rp_last rp), rp_running := False\<rparr>)" by blast
    then show ?thesis
      using KvDeliver step goes by cases (auto simp: after_turn_def snapshots_ok_def split: if_splits)
  qed
next
  case (KvStale i stateSize)
  with step ok show ?thesis
    by (auto simp: stale_turn after_turn_def replica_stop_ok split: if_splits)
next
  case (KvInstall k)
  with step have k: "k < length snaps" "int (rp_last rp) < fst (snaps ! k)" by (simp_all split: if_splits)
  show ?thesis
  proof (cases "KvKilled (rp_server rp)")
    case True
    with KvInstall step ok show ?thesis
      by (auto simp: killed_turn after_turn_def replica_stop_ok split: if_splits)
  next
    case False
    with KvInstall step snapshot_turn [OF snaps k ok] show ?thesis
      by (auto simp: install_turn after_turn_def split: if_splits)
  qed
next
  case (KvRestart i m k)
  with step snaps show ?thesis
    by (auto simp: replica_start intro: replica_restart split: option.splits if_splits)
next
  case KvStop
  with step ok show ?thesis by (auto simp: replica_ok_def KvKill_def)
qed

lemma kv_step_ok:
  assumes "kv_world_ok L w" and "kv_step L e w = Some w'"
  shows "kv_world_ok L w'"
proof -
  obtain rp new where s: "replica_step L (kw_snapshots w) (snd e) (kw_replicas w (fst e)) = Some (rp, new)"
      "w' = \<lparr>kw_replicas = (kw_replicas w)(fst e := rp), kw_snapshots = kw_snapshots w @ new\<rparr>"
    using assms(2) by (auto simp: kv_step_def)
  with replica_step_ok [OF _ _ s(1)] assms(1) show ?thesis
    by (auto simp: kv_world_ok_def snapshots_ok_def)
qed

interpretation kvreplicas: step_machine "kv_step L" "kv_world_ok L" for L
  by unfold_locales (rule kv_step_ok)

lemma kv_init_ok: "kv_world_ok L (kv_init m)"
  by (simp add: kv_world_ok_def kv_init_def replica_start)

lemmas kv_run_ok = kvreplicas.run_inv [OF kv_init_ok]

section \<open>Loops that run and loops that have ended\<close>

definition loop_alive :: "KvReplica \<Rightarrow> bool" where
  "loop_alive rp \<longleftrightarrow> rp_running rp \<and> \<not> KvKilled (rp_server rp)"

fun ends_loop :: "kv_event \<Rightarrow> bool" where
  "ends_loop (KvStale i z) = True"
| "ends_loop (KvDeliver z hangs) = hangs"
| "ends_loop KvStop = True"
| "ends_loop _ = False"

fun restarts :: "kv_event \<Rightarrow> bool" where
  "restarts (KvRestart i m k) = True"
| "restarts _ = False"

lemma kv_install_dead [simp]: "ks_dead (kv_install b msg kv) = ks_dead kv"
  by (simp add: kv_install_def)

lemma replica_step_alive:
  assumes "replica_ok L rp" and "loop_alive rp" and "\<not> ends_loop e" and "replica_step L snaps e rp = Some (rp', new)"
  shows "loop_alive rp'"
proof (cases e)
  case (KvDeliver stateSize hangs)
  then have n: "rp_last rp < length L" and "\<not> hangs" using KvDeliver assms(3,4) by (auto split: if_splits)
  have live: "\<not> KvKilled (rp_server rp)" using assms(2) by (simp add: loop_alive_def)
  from deliver_next [OF assms(1) n live refl, of stateSize True] obtain kv s where
    turn: "applyMsgHandlerLoop stateSize False True (kv_command_msg (int (Suc (rp_last rp))) (L ! rp_last rp)) (rp_server rp) =
      Continues kv s" by blast
  then have "ks_dead kv = ks_dead (rp_server rp)"
    using live by (auto simp: applyMsgHandlerLoop_def kv_command_def kv_command_msg_def Let_def case_prod_beta
        split: if_splits option.splits)
  with turn KvDeliver \<open>\<not> hangs\<close> assms show ?thesis
    by (auto simp: after_turn_def loop_alive_def KvKilled_def split: if_splits)
qed (use assms in \<open>auto simp: loop_alive_def KvKilled_def kv_enter_def after_turn_def install_turn kv_leave_def
      getWaitCh_pair split: if_splits option.splits prod.splits\<close>)

lemma replica_step_ended:
  assumes "\<not> rp_running rp" and "\<not> restarts e" and "replica_step L snaps e rp = Some (rp', new)"
  shows "\<not> rp_running rp' \<and> rp_last rp' = rp_last rp \<and> PersistSnapShot (rp_server rp') = PersistSnapShot (rp_server rp)"
  using assms by (cases e) (auto simp: kv_enter_def kv_leave_def KvKill_def getWaitCh_pair split: if_splits prod.splits)

text \<open>What the steps of one replica do to it, for a run of all of them.\<close>

lemma run_replica:
  assumes "run_steps (kv_step L) es w = Some w'" and "P (kw_replicas w s)" and "kv_world_ok L w"
    and "\<And>e snaps rp rp' new. (s, e) \<in> set es \<Longrightarrow> P rp \<Longrightarrow> replica_ok L rp \<Longrightarrow>
      replica_step L snaps e rp = Some (rp', new) \<Longrightarrow> P rp'"
  shows "P (kw_replicas w' s)"
  using assms
proof (induction es arbitrary: w)
  case (Cons e es)
  then obtain v where v: "kv_step L e w = Some v" "run_steps (kv_step L) es v = Some w'"
    by (auto simp: bind_eq_Some_conv)
  obtain rp new where r: "replica_step L (kw_snapshots w) (snd e) (kw_replicas w (fst e)) = Some (rp, new)"
      "v = \<lparr>kw_replicas = (kw_replicas w)(fst e := rp), kw_snapshots = kw_snapshots w @ new\<rparr>"
    using v(1) by (auto simp: kv_step_def)
  have "P (kw_replicas v s)"
  proof (cases "fst e = s")
    case True
    have "(s, snd e) \<in> set (e # es)" using True by (cases e) simp
    moreover have "replica_ok L (kw_replicas w s)" using Cons.prems(3) by (simp add: kv_world_ok_def)
    ultimately show ?thesis using Cons.prems(2,4) r True by simp
  qed (use Cons.prems(2) r in simp)
  with Cons.IH [OF v(2)] Cons.prems(3,4) v(1) show ?case by (meson kv_step_ok list.set_intros(2))
qed simp

lemma deliver_step:
  assumes "kv_world_ok L w" and "loop_alive (kw_replicas w s)" and "rp_last (kw_replicas w s) < length L"
  shows "\<exists>w' c. kv_step L (s, KvDeliver z False) w = Some w' \<and> loop_alive (kw_replicas w' s) \<and>
    rp_last (kw_replicas w' s) = Suc (rp_last (kw_replicas w s)) \<and>
    ch_buf (chans (waitCh (rp_server (kw_replicas w' s))) ! c) = [L ! rp_last (kw_replicas w s)] \<and>
    (\<forall>c'. notifyMapCh (waitCh (rp_server (kw_replicas w s))) (int (Suc (rp_last (kw_replicas w s)))) = Some c' \<longrightarrow> c = c')"
proof -
  let ?rp = "kw_replicas w s"
  have ok: "replica_ok L ?rp" and live: "\<not> KvKilled (rp_server ?rp)" and run: "rp_running ?rp"
    using assms(1,2) by (simp_all add: kv_world_ok_def loop_alive_def)
  from deliver_next [OF ok assms(3) live refl, of z True] obtain kv c sn where
    turn: "applyMsgHandlerLoop z False True (kv_command_msg (int (Suc (rp_last ?rp))) (L ! rp_last ?rp)) (rp_server ?rp) = Continues kv sn"
      "ch_buf (chans (waitCh kv) ! c) = [L ! rp_last ?rp]"
      "\<forall>c'. notifyMapCh (waitCh (rp_server ?rp)) (int (Suc (rp_last ?rp))) = Some c' \<longrightarrow> c = c'" by blast
  have step: "replica_step L (kw_snapshots w) (KvDeliver z False) ?rp =
      Some (after_turn (Suc (rp_last ?rp)) (Continues kv sn) ?rp)"
    using run assms(3) turn(1) by simp
  obtain rp' new where r: "after_turn (Suc (rp_last ?rp)) (Continues kv sn) ?rp = (rp', new)" by fastforce
  have "loop_alive rp'"
    by (rule replica_step_alive [OF ok assms(2) _ step [unfolded r]]) simp
  with turn r step show ?thesis
    by (intro exI [of _ "\<lparr>kw_replicas = (kw_replicas w)(s := rp'), kw_snapshots = kw_snapshots w @ new\<rparr>"] exI [of _ c])
      (auto simp: kv_step_def after_turn_def)
qed

text \<open>A live replica gets through the whole log.\<close>

lemma deliver_all:
  assumes "kv_world_ok L w" and "loop_alive (kw_replicas w s)" and "n + rp_last (kw_replicas w s) = length L"
  shows "\<exists>w'. run_steps (kv_step L) (replicate n (s, KvDeliver z False)) w = Some w' \<and>
    rp_last (kw_replicas w' s) = length L"
  using assms
proof (induction n arbitrary: w)
  case (Suc n)
  then obtain v where v: "kv_step L (s, KvDeliver z False) w = Some v" "loop_alive (kw_replicas v s)"
      "rp_last (kw_replicas v s) = Suc (rp_last (kw_replicas w s))"
    using deliver_step [OF Suc.prems(1,2), of z] by fastforce
  with Suc.IH [OF kv_step_ok [OF Suc.prems(1) v(1)] v(2)] Suc.prems(3) show ?case by auto
qed simp

end
