(* ===== verification/KVRaftTheorems.thy ===== *)
theory KVRaftTheorems
  imports KVReplicas
begin

text \<open>
  The properties of the key/value service (\<open>src/kvraft\<close>) over one log: every replica stores what
  its prefix of the log writes, answers come from the log, the apply loop serves every waiting
  handler, a snapshot stands for the log it covers; and the one message that ends the loop.
\<close>

section \<open>A log of three operations\<close>

definition ex_kv :: "KvOpType \<Rightarrow> int \<Rightarrow> string \<Rightarrow> KvOp" where
  "ex_kv t i v = \<lparr>ko_SeqId = i, ko_Key = ''k'', ko_Value = v, ko_ClientId = 7, ko_Index = 0, ko_OpType = t\<rparr>"

definition ex_log :: "KvOp list" where
  "ex_log = [ex_kv PutOp 1 ''a'', ex_kv AppendOp 2 ''b'', ex_kv AppendOp 2 ''b'', ex_kv GetOp 3 []]"

definition ex_get :: KvGetArgs where
  "ex_get = \<lparr>kga_Key = ''k'', kga_SeqId = 3, kga_ClientId = 7\<rparr>"

abbreviation "ex_served \<equiv>
  [(0, KvDeliver 9 False), (0, KvDeliver 9 False), (0, KvEnter True 4), (0, KvDeliver 9 False), (0, KvDeliver 9 False), (0, KvReceive 2)]"

abbreviation "ex_overtaken \<equiv> [(0, KvDeliver 9 False), (0, KvDeliver 9 False), (1, KvInstall 1)]"

section \<open>Properties\<close>

text \<open>C5: In every reachable state of the service, each replica stores exactly what the prefix of
  the log it has reached writes: the database is the writes of the executed operations in log
  order, where the operations of one client are executed with increasing numbers, so a retried
  operation is written once, and every operation of the prefix is recorded as done. Deliveries,
  snapshots that replace them, crashes and restarts come in any order.\<close>

theorem replicas_follow_log:
  assumes "run_steps (kv_step L) es (kv_init m) = Some w"
  shows "let rp = kw_replicas w s; executed = kv_executed (take (rp_last rp) L) kv_fresh in
    kvPersist (rp_server rp) = fold kv_write executed (\<lambda>_. None) \<and>
    sorted_wrt (\<lambda>a b. ko_ClientId a = ko_ClientId b \<longrightarrow> ko_SeqId a < ko_SeqId b) executed \<and>
    (\<forall>op \<in> set (take (rp_last rp) L). kv_settled op (rp_server rp))"
proof -
  let ?rp = "kw_replicas w s"
  let ?kv = "fold kv_apply (take (rp_last ?rp) L) kv_fresh"
  have "PersistSnapShot (rp_server ?rp) = PersistSnapShot ?kv"
    using kv_run_ok [OF assms] by (simp add: kv_world_ok_def replica_ok_def prefix_data_def)
  then have same: "kvPersist (rp_server ?rp) = kvPersist ?kv" "seqMap (rp_server ?rp) = seqMap ?kv"
    by (simp_all add: PersistSnapShot_def)
  have "kvPersist kv_fresh = (\<lambda>_. None)"
    by (simp add: kv_fresh_def StartKVServer_def DecodeSnapShot_def)
  moreover have "kv_settled op (rp_server ?rp)" if "op \<in> set (take (rp_last ?rp) L)" for op
    using kv_log_settled [OF that] same(2) by (simp add: kv_settled_def ifDuplicate_def)
  ultimately show ?thesis
    using kv_executed_increasing by (simp add: Let_def same(1) kv_executed_db)
qed

lemma replicas_follow_log_witness:
  "\<exists>w. run_steps (kv_step ex_log) ex_served (kv_init (-1)) = Some w \<and>
     kvPersist (rp_server (kw_replicas w 0)) ''k'' = Some ''ab''"
proof -
  have "(case run_steps (kv_step ex_log) ex_served (kv_init (-1)) of
      None \<Rightarrow> False | Some w \<Rightarrow> rp_last (kw_replicas w 0) = 4)" by code_simp
  then obtain w where run: "run_steps (kv_step ex_log) ex_served (kv_init (-1)) = Some w"
      and n: "rp_last (kw_replicas w 0) = 4"
    by (auto split: option.splits)
  have "fold kv_write (kv_executed (take 4 ex_log) kv_fresh) (\<lambda>_. None) ''k'' = Some ''ab''" by code_simp
  with replicas_follow_log [OF run, of 0] n run show ?thesis by (simp add: Let_def)
qed

text \<open>C16: A request answered OK is in the log: the operation a handler received was applied on its
  replica, a Get's value is that of its key in a prefix of the log that holds the Get, and a
  Put or Append answered OK is recorded as done. A handler that times out refuses.\<close>

theorem answers_from_log:
  assumes "run_steps (kv_step L) es (kv_init m) = Some w"
    and "r \<in> set (rp_received (kw_replicas w s))"
  shows "let kv = rp_server (kw_replicas w s); n = rp_last (kw_replicas w s) in
    (kr_Err (KvGet_reply get (Some r) kv) = OK \<longrightarrow>
       (\<exists>i < n. ko_ClientId (L ! i) = kga_ClientId get \<and> ko_SeqId (L ! i) = kga_SeqId get) \<and>
       kr_Value (KvGet_reply get (Some r) kv) =
         (case fold kv_write (kv_executed (take n L) kv_fresh) (\<lambda>_. None) (kga_Key get) of None \<Rightarrow> [] | Some v \<Rightarrow> v)) \<and>
    (KvPutAppend_reply put (Some r) = OK \<longrightarrow> kv_settled (KvPutAppend_op put) kv) \<and>
    kr_Err (KvGet_reply get None kv) = ErrWrongLeader \<and> KvPutAppend_reply put None = ErrWrongLeader"
proof -
  let ?rp = "kw_replicas w s"
  have ok: "replica_ok L ?rp" using kv_run_ok [OF assms(1)] by (simp add: kv_world_ok_def)
  then have r: "r \<in> set (take (rp_last ?rp) L)" using assms(2) by (auto simp: replica_ok_def)
  have same: "PersistSnapShot (rp_server ?rp) = PersistSnapShot (fold kv_apply (take (rp_last ?rp) L) kv_fresh)"
    using ok by (simp add: replica_ok_def prefix_data_def)
  then have settled: "kv_settled r (rp_server ?rp)"
    using kv_log_settled [OF r, of kv_fresh] by (simp add: kv_settled_def ifDuplicate_def PersistSnapShot_def)
  have db: "kvPersist (rp_server ?rp) = fold kv_write (kv_executed (take (rp_last ?rp) L) kv_fresh) (\<lambda>_. None)"
    using same kv_executed_db [of "take (rp_last ?rp) L" kv_fresh]
    by (simp add: PersistSnapShot_def) (simp add: kv_fresh_def StartKVServer_def DecodeSnapShot_def)
  obtain i where i: "i < rp_last ?rp" "L ! i = r"
    using r by (auto simp: in_set_conv_nth)
  have "\<exists>i < rp_last ?rp. ko_ClientId (L ! i) = ko_ClientId r \<and> ko_SeqId (L ! i) = ko_SeqId r"
    using i by blast
  then show ?thesis
    using settled by (simp add: Let_def KvGet_reply_def KvPutAppend_reply_def kv_matches_def KvGet_op_def
        KvPutAppend_op_def kv_settled_def db)
qed

lemma answers_from_log_witness:
  "\<exists>w. run_steps (kv_step ex_log) ex_served (kv_init (-1)) = Some w \<and>
     KvGet_reply ex_get (Some (ex_kv GetOp 3 [])) (rp_server (kw_replicas w 0)) = \<lparr>kr_Err = OK, kr_Value = ''ab''\<rparr>"
proof -
  have "(case run_steps (kv_step ex_log) ex_served (kv_init (-1)) of None \<Rightarrow> False
      | Some w \<Rightarrow> rp_last (kw_replicas w 0) = 4 \<and> rp_received (kw_replicas w 0) = [ex_kv GetOp 3 []])" by code_simp
  then obtain w where run: "run_steps (kv_step ex_log) ex_served (kv_init (-1)) = Some w"
      and n: "rp_last (kw_replicas w 0) = 4" and r: "ex_kv GetOp 3 [] \<in> set (rp_received (kw_replicas w 0))"
    by (auto split: option.splits)
  have "fold kv_write (kv_executed (take 4 ex_log) kv_fresh) (\<lambda>_. None) ''k'' = Some ''ab''" by code_simp
  with answers_from_log [OF run r, of ex_get] n run show ?thesis
    by (simp add: Let_def KvGet_reply_def kv_matches_def KvGet_op_def ex_get_def ex_kv_def)
qed

text \<open>C14: The apply loop of a replica neither ends nor blocks on a reply channel, whoever enters,
  leaves, crashes and restarts, as long as it is not killed, meets no command that an installed
  snapshot covers (there it returns, \<open>overtaken_command_ends_loop\<close>) and every call of \<open>rf.Snapshot\<close> returns
  (\<open>snapshot_deadlock\<close> shows one that does not): it can always apply the next command, a handler
  that waits for that index then finds the operation in its channel, and it gets through the whole
  log.\<close>

theorem loop_serves_log:
  assumes run: "run_steps (kv_step L) es (kv_init m) = Some w"
    and good: "\<And>e. (s, e) \<in> set es \<Longrightarrow> \<not> ends_loop e"
  shows "let rp = kw_replicas w s in
    (\<exists>w'. run_steps (kv_step L) (replicate (length L - rp_last rp) (s, KvDeliver z False)) w = Some w' \<and>
       rp_last (kw_replicas w' s) = length L) \<and>
    (rp_last rp < length L \<longrightarrow> (\<exists>w'. kv_step L (s, KvDeliver z False) w = Some w' \<and>
       rp_running (kw_replicas w' s) \<and>
       (\<forall>c. notifyMapCh (waitCh (rp_server rp)) (int (Suc (rp_last rp))) = Some c \<longrightarrow>
          ch_buf (chans (waitCh (rp_server (kw_replicas w' s))) ! c) = [L ! rp_last rp])))"
proof -
  let ?rp = "kw_replicas w s"
  have ok: "kv_world_ok L w" by (rule kv_run_ok [OF run])
  have "loop_alive (kw_replicas (kv_init m) s)"
    by (simp add: kv_init_def loop_alive_def KvKilled_def)
  then have alive: "loop_alive ?rp"
    by (rule run_replica [OF run _ kv_init_ok]) (rule replica_step_alive, assumption+, rule good)
  have "length L - rp_last ?rp + rp_last ?rp = length L"
    using ok by (simp add: kv_world_ok_def replica_ok_def)
  note whole = deliver_all [OF ok alive this, of z]
  show ?thesis
  proof (cases "rp_last ?rp < length L")
    case True
    from deliver_step [OF ok alive True, of z] obtain w' c where
      w': "kv_step L (s, KvDeliver z False) w = Some w'" "rp_running (kw_replicas w' s)"
      "ch_buf (chans (waitCh (rp_server (kw_replicas w' s))) ! c) = [L ! rp_last ?rp]"
      "\<forall>c'. notifyMapCh (waitCh (rp_server ?rp)) (int (Suc (rp_last ?rp))) = Some c' \<longrightarrow> c = c'"
      unfolding loop_alive_def by blast
    then show ?thesis using whole unfolding Let_def by blast
  qed (use whole in \<open>simp add: Let_def\<close>)
qed

lemma loop_serves_log_witness:
  "\<exists>w w'. run_steps (kv_step ex_log) [(0, KvEnter True 1)] (kv_init (-1)) = Some w \<and>
     kv_step ex_log (0, KvDeliver 9 False) w = Some w' \<and>
     ch_buf (chans (waitCh (rp_server (kw_replicas w' 0))) ! 0) = [ex_kv PutOp 1 ''a'']"
proof -
  have "(case run_steps (kv_step ex_log) [(0, KvEnter True 1)] (kv_init (-1)) of None \<Rightarrow> False
      | Some w \<Rightarrow> rp_last (kw_replicas w 0) = 0 \<and> notifyMapCh (waitCh (rp_server (kw_replicas w 0))) 1 = Some 0)"
    by code_simp
  then obtain w where w: "run_steps (kv_step ex_log) [(0, KvEnter True 1)] (kv_init (-1)) = Some w"
      "rp_last (kw_replicas w 0) = 0" "notifyMapCh (waitCh (rp_server (kw_replicas w 0))) 1 = Some 0"
    by (auto split: option.splits)
  have "\<not> ends_loop e" if "(0, e) \<in> set [(0, KvEnter True 1)]" for e
    using that by auto
  from loop_serves_log [where s = 0 and z = 9, OF w(1) this] w(2,3) have
    "\<exists>w'. kv_step ex_log (0, KvDeliver 9 False) w = Some w' \<and>
       ch_buf (chans (waitCh (rp_server (kw_replicas w' 0))) ! 0) = [ex_log ! 0]"
    by (simp add: Let_def ex_log_def) blast
  with w(1) show ?thesis by (auto simp: ex_log_def)
qed

text \<open>C24: A snapshot stands for the log it covers: a server started from any snapshot that a replica
  handed to Raft, and then given the operations that follow it, stores the same database and
  the same duplicate table as one that applied the whole log from the beginning.\<close>

theorem snapshot_stands_for_log:
  assumes run: "run_steps (kv_step L) es (kv_init m) = Some w"
    and "k < length (kw_snapshots w)"
  shows "let (i, snapshot) = kw_snapshots w ! k in 0 \<le> i \<and> nat i \<le> length L \<and>
    PersistSnapShot (fold kv_apply (drop (nat i) L) (StartKVServer me maxstate (Some snapshot))) =
    PersistSnapShot (fold kv_apply L (StartKVServer me' maxstate' None))"
proof -
  obtain i snapshot where k: "kw_snapshots w ! k = (i, snapshot)" by (cases "kw_snapshots w ! k")
  have "snapshots_ok L (kw_snapshots w)" using kv_run_ok [OF run] by (simp add: kv_world_ok_def)
  note s = snapshot_nth [OF this assms(2), unfolded k fst_conv snd_conv]
  have "PersistSnapShot (StartKVServer me maxstate (Some snapshot)) =
      PersistSnapShot (fold kv_apply (take (nat i) L) kv_fresh)"
    using s(3) by (simp add: prefix_data_def)
  then have "PersistSnapShot (fold kv_apply (drop (nat i) L) (StartKVServer me maxstate (Some snapshot))) =
      PersistSnapShot (fold kv_apply (take (nat i) L @ drop (nat i) L) kv_fresh)"
    unfolding fold_append o_apply by (rule data_fold)
  also have "\<dots> = PersistSnapShot (fold kv_apply L (StartKVServer me' maxstate' None))"
    unfolding append_take_drop_id unfolding kv_fresh_def by (rule data_fold) (metis data_start(1))
  finally show ?thesis using s(1,2) k by simp
qed

lemma snapshot_stands_for_log_witness:
  "\<exists>w s. run_steps (kv_step ex_log) ex_overtaken (kv_init 0) = Some w \<and> kw_snapshots w ! 1 = (2, s) \<and>
     PersistSnapShot (fold kv_apply (drop 2 ex_log) (StartKVServer 2 0 (Some s))) =
     PersistSnapShot (fold kv_apply ex_log (StartKVServer 1 0 None))"
proof -
  have "(case run_steps (kv_step ex_log) ex_overtaken (kv_init 0) of None \<Rightarrow> False
      | Some w \<Rightarrow> map fst (kw_snapshots w) = [1, 2])" by code_simp
  then obtain w where run: "run_steps (kv_step ex_log) ex_overtaken (kv_init 0) = Some w"
      and s: "map fst (kw_snapshots w) = [1, 2]" by (auto split: option.splits)
  from s have "1 < length (kw_snapshots w)" "fst (kw_snapshots w ! 1) = 2"
    by (auto simp: map_eq_Cons_conv)
  with snapshot_stands_for_log [OF run, of 1 2 0 1 0] run show ?thesis
    by (cases "kw_snapshots w ! 1") auto
qed

text \<open>A command that a snapshot has overtaken - \<open>applyLog\<close> copied it before the snapshot was
  installed and sends it afterwards - ends the apply loop instead of being skipped: from then
  on the replica applies nothing, whatever happens until it restarts, while its handlers go on
  taking requests as long as it is not killed.\<close>

theorem overtaken_command_ends_loop:
  assumes run: "run_steps (kv_step L) es (kv_init m) = Some w"
    and stale: "kv_step L (s, KvStale i z) w = Some w'"
    and later: "run_steps (kv_step L) es' w' = Some w''" and "\<And>e. (s, e) \<in> set es' \<Longrightarrow> \<not> restarts e"
  shows "\<not> rp_running (kw_replicas w'' s) \<and> rp_last (kw_replicas w'' s) = rp_last (kw_replicas w s) \<and>
    kvPersist (rp_server (kw_replicas w'' s)) = kvPersist (rp_server (kw_replicas w s)) \<and>
    (\<not> KvKilled (rp_server (kw_replicas w'' s)) \<longrightarrow> kv_enter True j (rp_server (kw_replicas w'' s)) \<noteq> None)"
proof -
  let ?rp = "kw_replicas w s"
  define P :: "KvReplica \<Rightarrow> bool" where "P rp \<longleftrightarrow> \<not> rp_running rp \<and> rp_last rp = rp_last ?rp \<and>
    PersistSnapShot (rp_server rp) = PersistSnapShot (rp_server ?rp)" for rp
  have "P (kw_replicas w' s)"
    using stale by (auto simp: kv_step_def P_def stale_turn after_turn_def split: if_splits)
  moreover have "kv_world_ok L w'" by (rule kv_step_ok [OF kv_run_ok [OF run] stale])
  moreover have "P rp'" if "(s, e) \<in> set es'" "P rp" "replica_step L snaps e rp = Some (rp', new)"
    for e snaps rp rp' new
    using replica_step_ended [OF _ assms(4) [OF that(1)] that(3)] that(2) by (simp add: P_def)
  ultimately have "P (kw_replicas w'' s)" using run_replica [OF later, of P] by blast
  then show ?thesis by (simp add: P_def PersistSnapShot_def kv_enter_def)
qed

lemma overtaken_command_ends_loop_witness:
  "\<exists>w w'. run_steps (kv_step ex_log) ex_overtaken (kv_init 0) = Some w \<and>
     kv_step ex_log (1, KvStale 1 0) w = Some w' \<and> rp_last (kw_replicas w 1) = 2 \<and> \<not> rp_running (kw_replicas w' 1)"
proof -
  have "(case run_steps (kv_step ex_log) ex_overtaken (kv_init 0) of None \<Rightarrow> False
      | Some w \<Rightarrow> rp_last (kw_replicas w 1) = 2 \<and> kv_step ex_log (1, KvStale 1 0) w \<noteq> None)"
    by code_simp
  then obtain w w' where run: "run_steps (kv_step ex_log) ex_overtaken (kv_init 0) = Some w"
      "kv_step ex_log (1, KvStale 1 0) w = Some w'" "rp_last (kw_replicas w 1) = 2"
    by (auto split: option.splits)
  have "run_steps (kv_step ex_log) [] w' = Some w'" by simp
  from overtaken_command_ends_loop [OF run(1,2) this] run show ?thesis by auto
qed

end
