(* ===== verification/Raft2D.thy ===== *)
theory Raft2D
  imports Prelude
begin

text \<open>
  The earlier Raft library \<open>src/raft-Lab2D\<close>, which \<open>src/kvraft\<close> runs on: \<open>raft.go\<close>,
  \<open>persister.go\<close> and \<open>constant.go\<close>. One definition per critical section under \<open>rf.mu\<close>; \<open>None\<close> is
  an index out of range. The three notification channels hold at most \<open>chanLen\<close> messages; a
  section that sends to a full one waits, so it can only run while there is room (\<open>has_room\<close>).
\<close>

section \<open>Data\<close>

datatype RoleType = Leader | Candidate | Follower

record 'c LogEntries =
  l_Command :: "'c option"
  l_Term :: int
  l_Index :: int

record 'c AppendArgs2D =
  aa_Term :: int
  aa_LeaderId :: int
  aa_PrevLogIdx :: int
  aa_PrevLogTerm :: int
  aa_LeaderCommit :: int
  aa_Entries :: "'c LogEntries list"

record AppendReply2D =
  ar_Term :: int
  ar_Success :: bool
  ar_ConflictTerm :: int
  ar_ConflictIndex :: int

record 's SnapshotArgs2D =
  sa_Term :: int
  sa_LeaderId :: int
  sa_LastIncludedIndex :: int
  sa_LastIncludedTerm :: int
  sa_Data :: "'s option"

record SnapshotReply2D =
  sr_Term :: int
  sr_Accept :: bool

record VoteArgs2D =
  va_Term :: int
  va_CandidateId :: int
  va_LastLogIdx :: int
  va_LastLogTerm :: int

record VoteReply2D =
  vr_Term :: int
  vr_VoteGranted :: bool

text \<open>The messages to the service.\<close>

datatype ('c, 's) ApplyMsg2D =
    CommandMsg "'c option" int int        \<comment> \<open>command, index, term\<close>
  | SnapshotMsg "'s option" int int       \<comment> \<open>data, term, index\<close>

text \<open>The encoded state is \<open>currentTerm\<close>, \<open>voteFor\<close> and \<open>logs\<close>.\<close>

record ('c, 's) Persister2D =
  raftstate :: "(int \<times> int \<times> 'c LogEntries list) option"
  snapshot :: "'s option"

record ('c, 's) Raft2D =
  npeers :: nat
  persister :: "('c, 's) Persister2D"
  me :: int
  dead :: int
  role :: RoleType
  currentTerm :: int
  voteFor :: int
  voteCount :: int
  appendEntriesChan :: "AppendReply2D list"
  LeaderMsgChan :: nat
  voteMsgChan :: nat
  commitIndex :: int
  lastApplied :: int
  logs :: "'c LogEntries list"
  nextIndex :: "int list"
  matchIndex :: "int list"
  passiveSnapshotting :: bool
  activeSnapshotting :: bool

definition chanLen :: nat where "chanLen = 10"

definition noVoted :: int where "noVoted = -1"

definition has_room :: "('c, 's) Raft2D \<Rightarrow> bool" where
  "has_room rf \<longleftrightarrow> length (appendEntriesChan rf) \<le> chanLen \<and> LeaderMsgChan rf \<le> chanLen \<and> voteMsgChan rf \<le> chanLen"

definition zero_AppendReply2D :: AppendReply2D where
  "zero_AppendReply2D = \<lparr>ar_Term = 0, ar_Success = False, ar_ConflictTerm = 0, ar_ConflictIndex = 0\<rparr>"

section \<open>The persister\<close>

definition MakePersister2D :: "('c, 's) Persister2D" where
  "MakePersister2D = \<lparr>raftstate = None, snapshot = None\<rparr>"

definition SaveRaftState2D :: "int \<times> int \<times> 'c LogEntries list \<Rightarrow> ('c, 's) Persister2D \<Rightarrow> ('c, 's) Persister2D" where
  "SaveRaftState2D state ps = ps\<lparr>raftstate := Some state\<rparr>"

definition SaveStateAndSnapshot2D ::
  "int \<times> int \<times> 'c LogEntries list \<Rightarrow> 's option \<Rightarrow> ('c, 's) Persister2D \<Rightarrow> ('c, 's) Persister2D" where
  "SaveStateAndSnapshot2D state data ps = ps\<lparr>raftstate := Some state, snapshot := data\<rparr>"

text \<open>What the encoder writes.\<close>

definition encoded :: "('c, 's) Raft2D \<Rightarrow> int \<times> int \<times> 'c LogEntries list" where
  "encoded rf = (currentTerm rf, voteFor rf, logs rf)"

definition persist2D :: "('c, 's) Raft2D \<Rightarrow> ('c, 's) Raft2D" where
  "persist2D rf = rf\<lparr>persister := SaveRaftState2D (encoded rf) (persister rf)\<rparr>"

definition saveSnapshot2D :: "'s option \<Rightarrow> ('c, 's) Raft2D \<Rightarrow> ('c, 's) Raft2D" where
  "saveSnapshot2D data rf = rf\<lparr>persister := SaveStateAndSnapshot2D (encoded rf) data (persister rf)\<rparr>"

section \<open>Reading the log, changing the role\<close>

definition getLastLog :: "('c, 's) Raft2D \<Rightarrow> 'c LogEntries option" where
  "getLastLog rf = last_elem (logs rf)"

definition getFirstLog :: "('c, 's) Raft2D \<Rightarrow> 'c LogEntries option" where
  "getFirstLog rf = idx (logs rf) 0"

definition getLogLen :: "('c, 's) Raft2D \<Rightarrow> int option" where
  "getLogLen rf = map_option (\<lambda>e. l_Index e + 1) (getLastLog rf)"

definition CheckCurrentTermLog2D :: "('c, 's) Raft2D \<Rightarrow> bool option" where
  "CheckCurrentTermLog2D rf = map_option (\<lambda>e. currentTerm rf = l_Term e) (last_elem (logs rf))"

definition ConvertToCandidate :: "('c, 's) Raft2D \<Rightarrow> ('c, 's) Raft2D" where
  "ConvertToCandidate rf =
     rf\<lparr>role := Candidate, currentTerm := currentTerm rf + 1, voteFor := me rf, voteCount := 1\<rparr>"

text \<open>\<open>ConvertToFollower\<close> is the same with the lock.\<close>

definition ConvertToFollowerNoLock :: "int \<Rightarrow> ('c, 's) Raft2D \<Rightarrow> ('c, 's) Raft2D" where
  "ConvertToFollowerNoLock t rf = rf\<lparr>role := Follower, currentTerm := t, voteFor := noVoted, voteCount := 0\<rparr>"

definition ConvertToLeaderNoLock :: "('c, 's) Raft2D \<Rightarrow> ('c, 's) Raft2D option" where
  "ConvertToLeaderNoLock rf = do {
     e \<leftarrow> getLastLog rf;
     Some (rf\<lparr>nextIndex := replicate (npeers rf) (l_Index e + 1), matchIndex := replicate (npeers rf) 0,
              role := Leader\<rparr>) }"

definition GetState2D :: "('c, 's) Raft2D \<Rightarrow> int \<times> bool" where
  "GetState2D rf = (currentTerm rf, role rf = Leader)"

definition GetPassiveFlagAndSetActiveFlag2D :: "('c, 's) Raft2D \<Rightarrow> bool \<times> ('c, 's) Raft2D" where
  "GetPassiveFlagAndSetActiveFlag2D rf =
     (passiveSnapshotting rf, if \<not> passiveSnapshotting rf then rf\<lparr>activeSnapshotting := True\<rparr> else rf)"

definition SetActiveSnapShottingFlag2D :: "bool \<Rightarrow> ('c, 's) Raft2D \<Rightarrow> ('c, 's) Raft2D" where
  "SetActiveSnapShottingFlag2D flag rf = rf\<lparr>activeSnapshotting := flag\<rparr>"

definition SetPassiveSnapshottingFlag2D :: "bool \<Rightarrow> ('c, 's) Raft2D \<Rightarrow> ('c, 's) Raft2D" where
  "SetPassiveSnapshottingFlag2D flag rf = rf\<lparr>passiveSnapshotting := flag\<rparr>"

definition Kill2D :: "('c, 's) Raft2D \<Rightarrow> ('c, 's) Raft2D" where
  "Kill2D rf = rf\<lparr>dead := 1\<rparr>"

definition killed2D :: "('c, 's) Raft2D \<Rightarrow> bool" where
  "killed2D rf \<longleftrightarrow> dead rf = 1"

section \<open>Starting\<close>

definition readPersist2D ::
  "(int \<times> int \<times> 'c LogEntries list) option \<Rightarrow> ('c, 's) Raft2D \<Rightarrow> ('c, 's) Raft2D option" where
  "readPersist2D data rf =
     (case data of
        None \<Rightarrow> Some rf
      | Some (t, v, l) \<Rightarrow> do {
          let rf = rf\<lparr>currentTerm := t, voteFor := v, logs := l\<rparr>;
          e \<leftarrow> getFirstLog rf;
          Some (rf\<lparr>lastApplied := l_Index e\<rparr>) })"

definition Make2D :: "nat \<Rightarrow> int \<Rightarrow> ('c, 's) Persister2D \<Rightarrow> ('c, 's) Raft2D option" where
  "Make2D n i ps = readPersist2D (raftstate ps)
     \<lparr>npeers = n, persister = ps, me = i, dead = 0, role = Follower, currentTerm = 0, voteFor = noVoted,
      voteCount = 0, appendEntriesChan = [], LeaderMsgChan = 0, voteMsgChan = 0, commitIndex = 0, lastApplied = 0,
      logs = [\<lparr>l_Command = None, l_Term = 0, l_Index = 0\<rparr>], nextIndex = replicate n 0, matchIndex = replicate n 0,
      passiveSnapshotting = False, activeSnapshotting = False\<rparr>"

section \<open>Voting\<close>

definition sendAllRequestVote :: "('c, 's) Raft2D \<Rightarrow> (VoteArgs2D \<times> nat list) option" where
  "sendAllRequestVote rf = do {
     lastLog \<leftarrow> getLastLog rf;
     Some (\<lparr>va_Term = currentTerm rf, va_CandidateId = me rf, va_LastLogIdx = l_Index lastLog,
            va_LastLogTerm = l_Term lastLog\<rparr>,
           filter (\<lambda>i. int i \<noteq> me rf \<and> role rf = Candidate) [0..<npeers rf]) }"

text \<open>The deferred \<open>persist\<close> runs on every path.\<close>

definition RequestVoteHandler :: "VoteArgs2D \<Rightarrow> ('c, 's) Raft2D \<Rightarrow> (VoteReply2D \<times> ('c, 's) Raft2D) option" where
  "RequestVoteHandler args rf =
     (let reply = \<lparr>vr_Term = currentTerm rf, vr_VoteGranted = False\<rparr>;
          rf = (if va_Term args > currentTerm rf
                then (ConvertToFollowerNoLock (va_Term args) rf)\<lparr>voteMsgChan := voteMsgChan rf + 1\<rparr> else rf)
      in if va_Term args < currentTerm rf then Some (reply, persist2D rf)
         else do {
           lastLog \<leftarrow> getLastLog rf;
           if va_LastLogTerm args < l_Term lastLog \<or>
              va_LastLogTerm args = l_Term lastLog \<and> va_LastLogIdx args < l_Index lastLog
           then Some (reply\<lparr>vr_Term := currentTerm rf, vr_VoteGranted := False\<rparr>, persist2D rf)
           else if role rf = Follower \<and> (voteFor rf = noVoted \<or> voteFor rf = va_CandidateId args)
           then Some (reply\<lparr>vr_VoteGranted := True, vr_Term := va_Term args\<rparr>,
                      persist2D (rf\<lparr>voteFor := va_CandidateId args, voteMsgChan := voteMsgChan rf + 1\<rparr>))
           else Some (reply, persist2D rf) })"

text \<open>The second part of \<open>sendRequestVote\<close>, after the call has returned.\<close>

definition sendRequestVote_reply ::
  "VoteArgs2D \<Rightarrow> VoteReply2D \<Rightarrow> ('c, 's) Raft2D \<Rightarrow> ('c, 's) Raft2D option" where
  "sendRequestVote_reply args reply rf =
     (if role rf \<noteq> Candidate \<or> va_Term args \<noteq> currentTerm rf then Some (persist2D rf)
      else if vr_Term reply > currentTerm rf then
        Some (persist2D ((ConvertToFollowerNoLock (vr_Term reply) rf)\<lparr>voteMsgChan := voteMsgChan rf + 1\<rparr>))
      else if vr_VoteGranted reply then
        (let rf = rf\<lparr>voteCount := voteCount rf + 1\<rparr>
         in if 2 * voteCount rf > int (npeers rf) then do {
              rf \<leftarrow> ConvertToLeaderNoLock rf;
              Some (persist2D (rf\<lparr>LeaderMsgChan := LeaderMsgChan rf + 1\<rparr>)) }
            else Some (persist2D rf))
      else Some (persist2D rf))"

section \<open>Commands, commit and apply\<close>

definition appendLog :: "'c \<Rightarrow> ('c, 's) Raft2D \<Rightarrow> ('c LogEntries \<times> ('c, 's) Raft2D) option" where
  "appendLog command rf = do {
     lastLog \<leftarrow> getLastLog rf;
     let newLog = \<lparr>l_Command = Some command, l_Term = currentTerm rf, l_Index = l_Index lastLog + 1\<rparr>;
     Some (newLog, rf\<lparr>logs := logs rf @ [newLog]\<rparr>) }"

definition Start2D :: "'c \<Rightarrow> ('c, 's) Raft2D \<Rightarrow> ((int \<times> int \<times> bool) \<times> ('c, 's) Raft2D) option" where
  "Start2D command rf =
     (if role rf \<noteq> Leader then Some ((-1, -1, False), rf)
      else do {
        (newLog, rf) \<leftarrow> appendLog command rf;
        Some ((l_Index newLog, l_Term newLog, True), rf) })"

text \<open>The number of peers known to hold the entry at an index, the leader itself included.\<close>

definition holders :: "int \<Rightarrow> ('c, 's) Raft2D \<Rightarrow> nat" where
  "holders i rf = 1 + length (filter (\<lambda>j. int j \<noteq> me rf \<and> matchIndex rf ! j \<ge> i) [0..<length (matchIndex rf)])"

text \<open>The loop of \<open>checkCommitIndex\<close>, from position \<open>i\<close> down to \<open>lo\<close>.\<close>

function commitLoop :: "int \<Rightarrow> int \<Rightarrow> int \<Rightarrow> ('c, 's) Raft2D \<Rightarrow> ('c, 's) Raft2D option" where
  "commitLoop snapShotIndex lo i rf =
     (if i < lo then Some rf
      else do {
        e \<leftarrow> idx (logs rf) i;
        if l_Term e < currentTerm rf \<or> role rf \<noteq> Leader then Some rf
        else if holders (i + snapShotIndex) rf > npeers rf div 2 then
          Some (if role rf = Leader then rf\<lparr>commitIndex := i + snapShotIndex\<rparr> else rf)
        else commitLoop snapShotIndex lo (i - 1) rf })"
  by pat_completeness auto
termination
  by (relation "measure (\<lambda>(_, lo, i, _). nat (i - lo + 1))") auto

declare commitLoop.simps [simp del]

definition checkCommitIndex :: "('c, 's) Raft2D \<Rightarrow> ('c, 's) Raft2D option" where
  "checkCommitIndex rf = do {
     first \<leftarrow> getFirstLog rf;
     commitLoop (l_Index first) (commitIndex rf - l_Index first) (int (length (logs rf)) - 1) rf }"

text \<open>
  The critical section of \<open>applyLog\<close>: the entries it copies, and later sends without the lock.
  Slicing past the length is out of range here.
\<close>

definition applyLog :: "('c, 's) Raft2D \<Rightarrow> ('c LogEntries list \<times> ('c, 's) Raft2D) option" where
  "applyLog rf = do {
     first \<leftarrow> getFirstLog rf;
     if commitIndex rf \<le> lastApplied rf then Some ([], rf)
     else do {
       upTo \<leftarrow> slice_to (logs rf) (commitIndex rf - l_Index first + 1);
       copyLogs \<leftarrow> slice_from upTo (lastApplied rf - l_Index first + 1);
       Some (copyLogs, rf\<lparr>lastApplied := commitIndex rf\<rparr>) } }"

definition applyLog_msg :: "'c LogEntries \<Rightarrow> ('c, 's) ApplyMsg2D" where
  "applyLog_msg e = CommandMsg (l_Command e) (l_Index e) (l_Term e)"

section \<open>Appending entries\<close>

text \<open>
  What \<open>SendAllAppendEntries\<close> sends to one peer: entries, or the snapshot if the peer is behind it.
\<close>

datatype ('c, 's) sends2D = SendsAppend "'c AppendArgs2D" | SendsSnapshot "'s SnapshotArgs2D"

definition SendAllAppendEntries_args :: "nat \<Rightarrow> ('c, 's) Raft2D \<Rightarrow> ('c, 's) sends2D option" where
  "SendAllAppendEntries_args server rf = do {
     nextId \<leftarrow> idx (nextIndex rf) (int server);
     firstLog \<leftarrow> getFirstLog rf;
     if nextId > l_Index firstLog then do {
       lastLog \<leftarrow> idx (logs rf) (nextId - l_Index firstLog - 1);
       entries \<leftarrow> slice_from (logs rf) (nextId - l_Index firstLog);
       Some (SendsAppend \<lparr>aa_Term = currentTerm rf, aa_LeaderId = me rf, aa_PrevLogIdx = l_Index lastLog,
         aa_PrevLogTerm = l_Term lastLog, aa_LeaderCommit = commitIndex rf, aa_Entries = entries\<rparr>) }
     else Some (SendsSnapshot \<lparr>sa_Term = currentTerm rf, sa_LeaderId = me rf,
       sa_LastIncludedIndex = l_Index firstLog, sa_LastIncludedTerm = l_Term firstLog,
       sa_Data = snapshot (persister rf)\<rparr>) }"

definition SendAllAppendEntries :: "('c, 's) Raft2D \<Rightarrow> (nat \<times> ('c, 's) sends2D option) list" where
  "SendAllAppendEntries rf = map (\<lambda>server. (server, SendAllAppendEntries_args server rf))
     (filter (\<lambda>server. int server \<noteq> me rf \<and> role rf = Leader) [0..<npeers rf])"

text \<open>The leader's search for the conflict term, from position \<open>j\<close> down.\<close>

fun conflictLoop :: "int \<Rightarrow> 'c LogEntries list \<Rightarrow> nat \<Rightarrow> nat option" where
  "conflictLoop conflictTerm xs 0 = None"
| "conflictLoop conflictTerm xs (Suc j) =
     (if l_Term (xs ! j) = conflictTerm then Some j
      else if l_Term (xs ! j) < conflictTerm then None
      else conflictLoop conflictTerm xs j)"

definition SendAppendEntries_reply ::
  "nat \<Rightarrow> 'c AppendArgs2D \<Rightarrow> AppendReply2D \<Rightarrow> ('c, 's) Raft2D \<Rightarrow> ('c, 's) Raft2D option" where
  "SendAppendEntries_reply i args reply rf =
     (if aa_Term args \<noteq> currentTerm rf \<or> role rf \<noteq> Leader then Some (persist2D rf)
      else let rf = (if ar_Term reply > currentTerm rf then ConvertToFollowerNoLock (ar_Term reply) rf else rf)
      in if \<not> ar_Success reply then do {
           first \<leftarrow> getFirstLog rf;
           next' \<leftarrow> update_at (nextIndex rf) (int i)
             (if ar_ConflictTerm reply = -1 then ar_ConflictIndex reply
              else case conflictLoop (ar_ConflictTerm reply) (logs rf) (length (logs rf)) of
                     Some j \<Rightarrow> int j + 1 + l_Index first
                   | None \<Rightarrow> ar_ConflictIndex reply);
           Some (persist2D (rf\<lparr>nextIndex := next'\<rparr>)) }
         else do {
           n \<leftarrow> idx (nextIndex rf) (int i);
           m \<leftarrow> idx (matchIndex rf) (int i);
           Some (persist2D (rf\<lparr>
             nextIndex := (nextIndex rf)[i := max (aa_PrevLogIdx args + int (length (aa_Entries args)) + 1) n],
             matchIndex := (matchIndex rf)[i := max (aa_PrevLogIdx args + int (length (aa_Entries args))) m]\<rparr>)) })"

text \<open>
  The follower: the first position of the run of entries whose term is not \<open>t\<close>, searched from
  position \<open>j\<close> down (\<open>None\<close>: the loop ends without a \<open>break\<close>), and the repair of the log.
\<close>

fun firstOfTerm :: "int \<Rightarrow> 'c LogEntries list \<Rightarrow> nat \<Rightarrow> nat option" where
  "firstOfTerm t xs j =
     (if l_Term (xs ! j) \<noteq> t then Some (j + 1)
      else case j of 0 \<Rightarrow> None | Suc k \<Rightarrow> firstOfTerm t xs k)"

declare firstOfTerm.simps [simp del]

fun repairLog :: "int \<Rightarrow> 'c LogEntries list \<Rightarrow> 'c LogEntries list \<Rightarrow> 'c LogEntries list option" where
  "repairLog cur xs [] = Some xs"
| "repairLog cur xs (e # es) =
     (if cur \<ge> int (length xs) then map_option (\<lambda>ys. ys @ e # es) (slice_to xs cur)
      else do {
        x \<leftarrow> idx xs cur;
        if l_Term x \<noteq> l_Term e then map_option (\<lambda>ys. ys @ e # es) (slice_to xs cur)
        else repairLog (cur + 1) xs es })"

definition AppendEntries_follow2D :: "int \<Rightarrow> ('c, 's) Raft2D \<Rightarrow> ('c, 's) Raft2D" where
  "AppendEntries_follow2D t rf =
     (let rf = (if currentTerm rf < t \<or> currentTerm rf = t \<and> role rf = Candidate
                then ConvertToFollowerNoLock t rf else rf)
      in rf\<lparr>appendEntriesChan := appendEntriesChan rf @ [zero_AppendReply2D\<lparr>ar_Term := currentTerm rf, ar_Success := True\<rparr>]\<rparr>)"

definition AppendEntriesHandler ::
  "'c AppendArgs2D \<Rightarrow> ('c, 's) Raft2D \<Rightarrow> (AppendReply2D \<times> ('c, 's) Raft2D) option" where
  "AppendEntriesHandler args rf =
     (let reply = zero_AppendReply2D\<lparr>ar_Term := currentTerm rf\<rparr>
      in if currentTerm rf > aa_Term args then Some (reply, persist2D rf)
         else let rf = AppendEntries_follow2D (aa_Term args) rf in do {
           n \<leftarrow> getLogLen rf;
           first \<leftarrow> getFirstLog rf;
           let prev = aa_PrevLogIdx args;
           let logIndex = prev - l_Index first;
           if prev \<ge> n then Some (reply\<lparr>ar_ConflictTerm := -1, ar_ConflictIndex := n\<rparr>, persist2D rf)
           else if prev < l_Index first then
             Some (reply\<lparr>ar_ConflictTerm := -1, ar_ConflictIndex := l_Index first\<rparr>, persist2D rf)
           else if logIndex < 0 \<or> logIndex \<ge> int (length (logs rf)) then
             Some (reply\<lparr>ar_ConflictTerm := -1, ar_ConflictIndex := n\<rparr>, persist2D rf)
           else do {
             lastLog \<leftarrow> idx (logs rf) logIndex;
             if aa_PrevLogTerm args \<noteq> l_Term lastLog then
               Some (reply\<lparr>ar_ConflictTerm := l_Term lastLog,
                           ar_ConflictIndex := (case firstOfTerm (l_Term lastLog) (logs rf) (nat logIndex) of
                             Some j \<Rightarrow> int j + l_Index first | None \<Rightarrow> 0)\<rparr>, persist2D rf)
             else do {
               logs' \<leftarrow> repairLog (logIndex + 1) (logs rf) (aa_Entries args);
               let rf = rf\<lparr>logs := logs'\<rparr>;
               n \<leftarrow> getLogLen rf;
               let rf = (if aa_LeaderCommit args > commitIndex rf
                         then rf\<lparr>commitIndex := min n (aa_LeaderCommit args)\<rparr> else rf);
               Some (reply\<lparr>ar_Success := True\<rparr>, persist2D rf) } } })"

section \<open>Snapshots\<close>

text \<open>\<open>CondInstallSnapshot\<close> does nothing and returns true.\<close>

definition CondInstallSnapshot2D :: "int \<Rightarrow> int \<Rightarrow> 's option \<Rightarrow> bool" where
  "CondInstallSnapshot2D lastIncludedTerm lastIncludedIndex data = True"

definition trimIndex :: "int \<Rightarrow> ('c, 's) Raft2D \<Rightarrow> ('c, 's) Raft2D option" where
  "trimIndex index rf = do {
     first \<leftarrow> getFirstLog rf;
     if l_Index first \<ge> index then Some rf
     else do {
       l \<leftarrow> slice_from (logs rf) (index - l_Index first);
       e \<leftarrow> idx l 0;
       Some (rf\<lparr>logs := l[0 := e\<lparr>l_Command := None\<rparr>]\<rparr>) } }"

definition Snapshot2D :: "int \<Rightarrow> 's option \<Rightarrow> ('c, 's) Raft2D \<Rightarrow> ('c, 's) Raft2D option" where
  "Snapshot2D index data rf = map_option (saveSnapshot2D data) (trimIndex index rf)"

definition SendInstallSnapshotRpc_reply ::
  "nat \<Rightarrow> 's SnapshotArgs2D \<Rightarrow> SnapshotReply2D \<Rightarrow> ('c, 's) Raft2D \<Rightarrow> ('c, 's) Raft2D option" where
  "SendInstallSnapshotRpc_reply i args reply rf =
     (if sa_Term args \<noteq> currentTerm rf then Some rf
      else let rf = (if sr_Term reply > currentTerm rf then ConvertToFollowerNoLock (sr_Term reply) rf else rf)
      in do {
        first \<leftarrow> getFirstLog rf;
        if currentTerm rf \<noteq> sa_Term args \<or> role rf \<noteq> Leader \<or> sa_LastIncludedIndex args \<noteq> l_Index first then Some rf
        else do {
          n \<leftarrow> idx (nextIndex rf) (int i);
          m \<leftarrow> idx (matchIndex rf) (int i);
          Some (saveSnapshot2D (sa_Data args) (rf\<lparr>
            nextIndex := (nextIndex rf)[i := max n (sa_LastIncludedIndex args + 1)],
            matchIndex := (matchIndex rf)[i := max m (sa_LastIncludedIndex args)]\<rparr>)) } })"

text \<open>The log after a snapshot: the entries behind it are kept whatever their terms.\<close>

definition InstallSnapshot_logs :: "'s SnapshotArgs2D \<Rightarrow> 'c LogEntries list \<Rightarrow> 'c LogEntries list option" where
  "InstallSnapshot_logs args l = do {
     lastLog \<leftarrow> last_elem l;
     first \<leftarrow> idx l 0;
     let head = \<lparr>l_Command = None, l_Term = sa_LastIncludedTerm args, l_Index = sa_LastIncludedIndex args\<rparr>;
     if l_Index lastLog \<le> sa_LastIncludedIndex args then Some [head]
     else do {
       newLogs \<leftarrow> slice_from l (sa_LastIncludedIndex args - l_Index first);
       Some (newLogs[0 := head]) } }"

text \<open>
  The handler holds \<open>rf.mu\<close> to its end, also while it sends the last component to the
  service. Only in the last case it uses two places of \<open>appendEntriesChan\<close>.
\<close>

definition InstallSnapshotHandler ::
  "'s SnapshotArgs2D \<Rightarrow> ('c, 's) Raft2D \<Rightarrow> (SnapshotReply2D \<times> ('c, 's) Raft2D \<times> ('c, 's) ApplyMsg2D option) option" where
  "InstallSnapshotHandler args rf =
     (let reply = \<lparr>sr_Term = currentTerm rf, sr_Accept = False\<rparr>
      in if currentTerm rf > sa_Term args \<or> activeSnapshotting rf then Some (reply, rf, None)
         else let rf = AppendEntries_follow2D (sa_Term args) rf in
         if sa_LastIncludedIndex args \<le> commitIndex rf then Some (reply, rf, None)
         else let rf = AppendEntries_follow2D (sa_Term args) rf in do {
           l \<leftarrow> InstallSnapshot_logs args (logs rf);
           let rf = saveSnapshot2D (sa_Data args) (rf\<lparr>passiveSnapshotting := True,
             commitIndex := sa_LastIncludedIndex args, lastApplied := sa_LastIncludedIndex args, logs := l\<rparr>);
           Some (reply\<lparr>sr_Accept := True\<rparr>, rf,
             Some (SnapshotMsg (sa_Data args) (sa_LastIncludedTerm args) (sa_LastIncludedIndex args))) })"

section \<open>The ticker\<close>

text \<open>
  Where the ticker is: before it reads the role, before \<open>SendAllAppendEntries\<close>, in the \<open>select\<close>
  of the role it read, or between a check in the \<open>select\<close> and the call that follows.
\<close>

datatype ticker = AtTop | Sending | InSelect RoleType | ToFollower int | ToCandidate

text \<open>What happens next: the ticker goes on, or a case of the \<open>select\<close> is chosen.\<close>

datatype tick = Proceed | OnVoteMsg | OnAppendEntries | OnTimeout | OnLeaderMsg

text \<open>What a step starts: nothing, \<open>sendAllRequestVote\<close>, or the calls of a leader's turn.\<close>

datatype starts = Nothing | StartsVotes | StartsAppends

fun ticker_step :: "tick \<Rightarrow> ticker \<Rightarrow> ('c, 's) Raft2D \<Rightarrow> (ticker \<times> ('c, 's) Raft2D \<times> starts) option" where
  "ticker_step Proceed AtTop rf =
     (if killed2D rf then None
      else Some (if role rf = Leader then Sending else InSelect (role rf), rf, Nothing))"
| "ticker_step Proceed Sending rf = Some (InSelect Leader, rf, StartsAppends)"
| "ticker_step Proceed (ToFollower t) rf = Some (AtTop, ConvertToFollowerNoLock t rf, Nothing)"
| "ticker_step Proceed ToCandidate rf = Some (AtTop, ConvertToCandidate rf, StartsVotes)"
| "ticker_step OnVoteMsg (InSelect r) rf =
     (if r \<noteq> Leader \<and> voteMsgChan rf > 0 then Some (AtTop, rf\<lparr>voteMsgChan := voteMsgChan rf - 1\<rparr>, Nothing) else None)"
| "ticker_step OnAppendEntries (InSelect r) rf =
     (case appendEntriesChan rf of
        [] \<Rightarrow> None
      | resp # rest \<Rightarrow>
          Some (if ar_Term resp > currentTerm rf \<or> r = Candidate \<and> ar_Term resp = currentTerm rf
                then ToFollower (ar_Term resp) else AtTop, rf\<lparr>appendEntriesChan := rest\<rparr>, Nothing))"
| "ticker_step OnTimeout (InSelect r) rf =
     Some (if r = Follower \<or> r = Candidate \<and> role rf = Candidate then ToCandidate else AtTop, rf, Nothing)"
| "ticker_step OnLeaderMsg (InSelect r) rf =
     (if r = Candidate \<and> LeaderMsgChan rf > 0 then Some (AtTop, rf\<lparr>LeaderMsgChan := LeaderMsgChan rf - 1\<rparr>, Nothing) else None)"
| "ticker_step _ _ rf = None"

end
