(* ===== verification/Raft2DCluster.thy ===== *)
theory Raft2DCluster
  imports Raft2D
begin

text \<open>
  A cluster of \<open>src/raft-Lab2D\<close> peers: their tickers, the goroutines these start, the appliers,
  the services above them, and a network that delivers every request and every answer at most
  once, in any order. An answer to a request from before a restart may reach the restarted
  peer, which is more than the network does; no execution given here uses it. A peer whose \<open>InstallSnapshotHandler\<close> is sending a snapshot to its
  service holds its lock.
\<close>

section \<open>The cluster\<close>

datatype ('c, 's) msg2D =
    VoteReq nat VoteArgs2D                          \<comment> \<open>to a peer\<close>
  | VoteAns nat VoteArgs2D VoteReply2D              \<comment> \<open>back to the candidate\<close>
  | AppendReq nat "'c AppendArgs2D"
  | AppendAns nat nat "'c AppendArgs2D" AppendReply2D    \<comment> \<open>leader, follower\<close>
  | SnapReq nat "'s SnapshotArgs2D"
  | SnapAns nat nat "'s SnapshotArgs2D" SnapshotReply2D

record ('c, 's) Peer2D =
  p_raft :: "('c, 's) Raft2D"
  p_ticker :: ticker
  p_votes :: nat                             \<comment> \<open>\<open>sendAllRequestVote\<close> goroutines to run\<close>
  p_commits :: nat                           \<comment> \<open>\<open>checkCommitIndex\<close> goroutines to run\<close>
  p_copies :: "'c LogEntries list"           \<comment> \<open>what \<open>applyLog\<close> has still to send\<close>
  p_holds :: "(('c, 's) ApplyMsg2D \<times> ('c, 's) msg2D) option"
    \<comment> \<open>a handler that holds the lock until its message is taken, and its answer\<close>
  p_service :: "('c, 's) ApplyMsg2D list"    \<comment> \<open>what the service has received\<close>

record ('c, 's) Cluster2D =
  peers2D :: "nat \<Rightarrow> ('c, 's) Peer2D"
  net2D :: "('c, 's) msg2D list"

datatype ('c, 's) event2D =
    Tick nat tick
  | RunVotes nat
  | RunCommit nat
  | Deliver nat
  | Propose nat 'c
  | TakeSnapshot nat int 's
  | ApplyTurn nat
  | TakeCommand nat
  | TakeInstalled nat
  | Restart nat

definition started2D :: "nat \<Rightarrow> ('c, 's) Raft2D \<Rightarrow> ('c, 's) Peer2D" where
  "started2D n rf = \<lparr>p_raft = rf, p_ticker = AtTop, p_votes = 0, p_commits = 0, p_copies = [],
     p_holds = None, p_service = []\<rparr>"

definition cluster_init2D :: "nat \<Rightarrow> ('c, 's) Cluster2D" where
  "cluster_init2D n = \<lparr>peers2D = (\<lambda>i. started2D n (the (Make2D n (int i) MakePersister2D))), net2D = []\<rparr>"

definition set_peer2D :: "nat \<Rightarrow> ('c, 's) Peer2D \<Rightarrow> ('c, 's) msg2D list \<Rightarrow> ('c, 's) Cluster2D \<Rightarrow> ('c, 's) Cluster2D" where
  "set_peer2D i p ms w = w\<lparr>peers2D := (peers2D w)(i := p), net2D := net2D w @ ms\<rparr>"

text \<open>A critical section: the lock is free and the channels it sends to have room.\<close>

definition section2D :: "('c, 's) Peer2D \<Rightarrow> ('c, 's) Raft2D option \<Rightarrow> ('c, 's) Peer2D option" where
  "section2D p r = (case r of
     None \<Rightarrow> None
   | Some rf \<Rightarrow> if p_holds p = None \<and> has_room rf then Some (p\<lparr>p_raft := rf\<rparr>) else None)"

definition sent_to :: "nat \<Rightarrow> ('c, 's) sends2D \<Rightarrow> ('c, 's) msg2D" where
  "sent_to j s = (case s of SendsAppend a \<Rightarrow> AppendReq j a | SendsSnapshot a \<Rightarrow> SnapReq j a)"

text \<open>A step of the ticker: it needs the lock unless it is in its \<open>select\<close>.\<close>

definition tick_peer :: "tick \<Rightarrow> ('c, 's) Peer2D \<Rightarrow> (('c, 's) Peer2D \<times> ('c, 's) msg2D list) option" where
  "tick_peer t p =
     (if p_holds p \<noteq> None \<and> t = Proceed then None
      else do {
        (tk, rf, st) \<leftarrow> ticker_step t (p_ticker p) (p_raft p);
        let p = p\<lparr>p_ticker := tk, p_raft := rf\<rparr>;
        case st of
          Nothing \<Rightarrow> Some (p, [])
        | StartsVotes \<Rightarrow> Some (p\<lparr>p_votes := p_votes p + 1\<rparr>, [])
        | StartsAppends \<Rightarrow>
            let sends = SendAllAppendEntries rf
            in if \<exists>s \<in> set sends. snd s = None then None
               else Some (p\<lparr>p_commits := p_commits p + 1\<rparr>, map (\<lambda>(j, s). sent_to j (the s)) sends) })"

definition votes_peer :: "('c, 's) Peer2D \<Rightarrow> (('c, 's) Peer2D \<times> ('c, 's) msg2D list) option" where
  "votes_peer p =
     (if p_votes p = 0 \<or> p_holds p \<noteq> None then None
      else do {
        (args, js) \<leftarrow> sendAllRequestVote (p_raft p);
        Some (p\<lparr>p_votes := p_votes p - 1\<rparr>, map (\<lambda>j. VoteReq j args) js) })"

definition commit_peer :: "('c, 's) Peer2D \<Rightarrow> (('c, 's) Peer2D \<times> ('c, 's) msg2D list) option" where
  "commit_peer p =
     (if p_commits p = 0 then None
      else do {
        p \<leftarrow> section2D p (checkCommitIndex (p_raft p));
        Some (p\<lparr>p_commits := p_commits p - 1\<rparr>, []) })"

text \<open>The receiver of a message, and what it does.\<close>

fun receiver :: "('c, 's) msg2D \<Rightarrow> nat" where
  "receiver (VoteReq j a) = j"
| "receiver (VoteAns j a r) = j"
| "receiver (AppendReq j a) = j"
| "receiver (AppendAns j i a r) = j"
| "receiver (SnapReq j a) = j"
| "receiver (SnapAns j i a r) = j"

fun handle :: "('c, 's) msg2D \<Rightarrow> ('c, 's) Peer2D \<Rightarrow> (('c, 's) Peer2D \<times> ('c, 's) msg2D list) option" where
  "handle (VoteReq j a) p = do {
     (reply, rf) \<leftarrow> RequestVoteHandler a (p_raft p);
     p \<leftarrow> section2D p (Some rf);
     Some (p, [VoteAns (nat (va_CandidateId a)) a reply]) }"
| "handle (VoteAns j a r) p = do {
     p \<leftarrow> section2D p (sendRequestVote_reply a r (p_raft p));
     Some (p, []) }"
| "handle (AppendReq j a) p = do {
     (reply, rf) \<leftarrow> AppendEntriesHandler a (p_raft p);
     p \<leftarrow> section2D p (Some rf);
     Some (p, [AppendAns (nat (aa_LeaderId a)) j a reply]) }"
| "handle (AppendAns j i a r) p = do {
     p \<leftarrow> section2D p (SendAppendEntries_reply i a r (p_raft p));
     Some (p, []) }"
| "handle (SnapReq j a) p = do {
     (reply, rf, apply) \<leftarrow> InstallSnapshotHandler a (p_raft p);
     p \<leftarrow> section2D p (Some rf);
     let answer = SnapAns (nat (sa_LeaderId a)) j a reply;
     case apply of
       None \<Rightarrow> Some (p, [answer])
     | Some m \<Rightarrow> Some (p\<lparr>p_holds := Some (m, answer)\<rparr>, []) }"
| "handle (SnapAns j i a r) p = do {
     p \<leftarrow> section2D p (SendInstallSnapshotRpc_reply i a r (p_raft p));
     Some (p, []) }"

definition apply_peer :: "('c, 's) Peer2D \<Rightarrow> (('c, 's) Peer2D \<times> ('c, 's) msg2D list) option" where
  "apply_peer p =
     (if p_copies p \<noteq> [] \<or> killed2D (p_raft p) then None
      else do {
        (copies, rf) \<leftarrow> applyLog (p_raft p);
        p \<leftarrow> section2D p (Some rf);
        Some (p\<lparr>p_copies := copies\<rparr>, []) })"

definition command_peer :: "('c, 's) Peer2D \<Rightarrow> (('c, 's) Peer2D \<times> ('c, 's) msg2D list) option" where
  "command_peer p = (case p_copies p of
     [] \<Rightarrow> None
   | e # es \<Rightarrow> Some (p\<lparr>p_copies := es, p_service := p_service p @ [applyLog_msg e]\<rparr>, []))"

definition installed_peer :: "('c, 's) Peer2D \<Rightarrow> (('c, 's) Peer2D \<times> ('c, 's) msg2D list) option" where
  "installed_peer p = (case p_holds p of
     None \<Rightarrow> None
   | Some (m, answer) \<Rightarrow> Some (p\<lparr>p_holds := None, p_service := p_service p @ [m]\<rparr>, [answer]))"

definition propose_peer :: "'c \<Rightarrow> ('c, 's) Peer2D \<Rightarrow> (('c, 's) Peer2D \<times> ('c, 's) msg2D list) option" where
  "propose_peer c p = do {
     (r, rf) \<leftarrow> Start2D c (p_raft p);
     p \<leftarrow> section2D p (Some rf);
     Some (p, []) }"

definition snapshot_peer :: "int \<Rightarrow> 's \<Rightarrow> ('c, 's) Peer2D \<Rightarrow> (('c, 's) Peer2D \<times> ('c, 's) msg2D list) option" where
  "snapshot_peer i s p =
     (if (\<exists>m \<in> set (p_service p). case m of CommandMsg c j t \<Rightarrow> j = i | SnapshotMsg d t j \<Rightarrow> False)
      then do {
        p \<leftarrow> section2D p (Snapshot2D i (Some s) (p_raft p));
        Some (p, []) }
      else None)"

definition restart_peer :: "('c, 's) Peer2D \<Rightarrow> (('c, 's) Peer2D \<times> ('c, 's) msg2D list) option" where
  "restart_peer p = do {
     rf \<leftarrow> Make2D (npeers (p_raft p)) (me (p_raft p)) (persister (p_raft p));
     Some (started2D (npeers rf) rf, []) }"

definition at_peer where
  "at_peer i f w = do { (p, ms) \<leftarrow> f (peers2D w i); Some (set_peer2D i p ms w) }"

fun step2D :: "('c, 's) event2D \<Rightarrow> ('c, 's) Cluster2D \<Rightarrow> ('c, 's) Cluster2D option" where
  "step2D (Tick i t) w = at_peer i (tick_peer t) w"
| "step2D (RunVotes i) w = at_peer i votes_peer w"
| "step2D (RunCommit i) w = at_peer i commit_peer w"
| "step2D (Deliver k) w =
     (if k < length (net2D w)
      then at_peer (receiver (net2D w ! k)) (handle (net2D w ! k)) (w\<lparr>net2D := take k (net2D w) @ drop (Suc k) (net2D w)\<rparr>)
      else None)"
| "step2D (Propose i c) w = at_peer i (propose_peer c) w"
| "step2D (TakeSnapshot i index s) w = at_peer i (snapshot_peer index s) w"
| "step2D (ApplyTurn i) w = at_peer i apply_peer w"
| "step2D (TakeCommand i) w = at_peer i command_peer w"
| "step2D (TakeInstalled i) w = at_peer i installed_peer w"
| "step2D (Restart i) w = at_peer i restart_peer w"

end
