(* ===== verification/Raft2DLog.thy ===== *)
theory Raft2DLog
  imports Raft2DCluster
begin

text \<open>
  The invariant of a \<open>src/raft-Lab2D\<close> cluster: every log, in memory, on disk or in a message,
  has consecutive indices, so the arithmetic that turns an index into a position is right.
\<close>

section \<open>Consecutive indices\<close>

definition from_index :: "int \<Rightarrow> 'c LogEntries list \<Rightarrow> bool" where
  "from_index i l \<longleftrightarrow> (\<forall>k < length l. l_Index (l ! k) = i + int k)"

definition log_ok :: "'c LogEntries list \<Rightarrow> bool" where
  "log_ok l \<longleftrightarrow> l \<noteq> [] \<and> from_index (l_Index (hd l)) l"

lemma from_index_Nil [simp]: "from_index i []"
  by (simp add: from_index_def)

lemma from_index_Cons [simp]: "from_index i (e # l) \<longleftrightarrow> l_Index e = i \<and> from_index (i + 1) l"
  by (auto simp: from_index_def nth_Cons algebra_simps split: nat.splits)

lemma from_index_append [simp]:
  "from_index i (xs @ ys) \<longleftrightarrow> from_index i xs \<and> from_index (i + int (length xs)) ys"
  by (induction xs arbitrary: i) (auto simp: algebra_simps)

lemma from_index_take: "from_index i l \<Longrightarrow> from_index i (take n l)"
  by (simp add: from_index_def)

lemma from_index_drop: "from_index i l \<Longrightarrow> n \<le> length l \<Longrightarrow> from_index (i + int n) (drop n l)"
  by (simp add: from_index_def algebra_simps)

lemma log_ok_hd: "log_ok l \<Longrightarrow> idx l 0 = Some (hd l)"
  by (cases l) (auto simp: log_ok_def idx_def)

lemma log_ok_last: "log_ok l \<Longrightarrow> l \<noteq> [] \<and> l_Index (last l) = l_Index (hd l) + int (length l) - 1"
  by (cases l rule: rev_cases) (auto simp: log_ok_def last_conv_nth)

lemma log_ok_nth: "log_ok l \<Longrightarrow> k < length l \<Longrightarrow> l_Index (l ! k) = l_Index (hd l) + int k"
  by (simp add: log_ok_def from_index_def)

lemma log_ok_drop:
  assumes "log_ok l" and "n < length l"
  shows "log_ok (drop n l)" "l_Index (hd (drop n l)) = l_Index (hd l) + int n"
proof -
  show h: "l_Index (hd (drop n l)) = l_Index (hd l) + int n"
    using assms by (simp add: hd_drop_conv_nth log_ok_nth)
  show "log_ok (drop n l)"
    using assms from_index_drop [of "l_Index (hd l)" l n] unfolding log_ok_def h by simp
qed

lemma log_ok_head:
  "log_ok l \<Longrightarrow> l_Index e = l_Index (hd l) \<Longrightarrow> log_ok (l[0 := e])"
  by (cases l) (auto simp: log_ok_def)

lemma log_ok_append:
  "log_ok l \<Longrightarrow> from_index (l_Index (hd l) + int (length l)) es \<Longrightarrow> log_ok (l @ es)"
  by (simp add: log_ok_def)

section \<open>Repairing a log\<close>

text \<open>What the loop does: it keeps the entries that agree in their term, and replaces the rest.\<close>

lemma repairLog_spec:
  assumes "log_ok xs" and "0 < cur" and "cur \<le> length xs" and "from_index (l_Index (hd xs) + int cur) es"
  shows "\<exists>k ys. k \<le> length es \<and> repairLog (int cur) xs es = Some ys \<and> log_ok ys \<and> hd ys = hd xs \<and>
    (\<forall>j < k. cur + j < length xs \<and> l_Term (xs ! (cur + j)) = l_Term (es ! j)) \<and>
    (if k = length es then ys = xs
     else ys = take (cur + k) xs @ drop k es \<and>
       (cur + k < length xs \<longrightarrow> l_Term (xs ! (cur + k)) \<noteq> l_Term (es ! k)))"
  using assms(2-)
proof (induction es arbitrary: cur)
  case Nil
  with assms(1) show ?case by simp
next
  case (Cons e es)
  show ?case
  proof (cases "cur < length xs \<and> l_Term (xs ! cur) = l_Term e")
    case True
    have "from_index (l_Index (hd xs) + int (Suc cur)) es" using Cons.prems(3) by (simp add: algebra_simps)
    with Cons.IH [of "Suc cur"] True obtain k ys where k: "k \<le> length es"
      "repairLog (int (Suc cur)) xs es = Some ys" "log_ok ys" "hd ys = hd xs"
      "\<forall>j < k. Suc cur + j < length xs \<and> l_Term (xs ! (Suc cur + j)) = l_Term (es ! j)"
      "if k = length es then ys = xs
       else ys = take (Suc cur + k) xs @ drop k es \<and>
         (Suc cur + k < length xs \<longrightarrow> l_Term (xs ! (Suc cur + k)) \<noteq> l_Term (es ! k))" by auto
    have "\<forall>j < Suc k. cur + j < length xs \<and> l_Term (xs ! (cur + j)) = l_Term ((e # es) ! j)"
      using True k(5) by (auto simp: less_Suc_eq_0_disj)
    moreover have "repairLog (int cur) xs (e # es) = Some ys" using True k(2) by (simp add: add.commute)
    ultimately show ?thesis using k(1,3,4,6) by (intro exI [of _ "Suc k"] exI [of _ ys]) auto
  next
    case False
    then have "repairLog (int cur) xs (e # es) = Some (take cur xs @ e # es)"
      using Cons.prems by auto
    moreover have "log_ok (take cur xs @ e # es)"
      using assms(1) Cons.prems by (cases xs) (auto simp: log_ok_def from_index_take)
    moreover have "hd (take cur xs @ e # es) = hd xs"
      using assms(1) Cons.prems by (cases xs) (auto simp: log_ok_def)
    ultimately show ?thesis using False by (intro exI [of _ 0] exI [of _ "take cur xs @ e # es"]) auto
  qed
qed

text \<open>The search for the run of the conflicting term stays in the log.\<close>

lemma getFirst_ok [simp]: "log_ok (logs rf) \<Longrightarrow> getFirstLog rf = Some (hd (logs rf))"
  by (simp add: getFirstLog_def log_ok_hd)

lemma getLast_ok [simp]: "log_ok (logs rf) \<Longrightarrow> getLastLog rf = Some (last (logs rf))"
  by (simp add: getLastLog_def log_ok_def)

lemma getLogLen_ok [simp]:
  "log_ok (logs rf) \<Longrightarrow> getLogLen rf = Some (l_Index (hd (logs rf)) + int (length (logs rf)))"
  using log_ok_last [of "logs rf"] by (simp add: getLogLen_def)

lemma persist_fields [simp]:
  "logs (persist2D rf) = logs rf" "nextIndex (persist2D rf) = nextIndex rf" "matchIndex (persist2D rf) = matchIndex rf"
  "npeers (persist2D rf) = npeers rf" "me (persist2D rf) = me rf" "role (persist2D rf) = role rf"
  "currentTerm (persist2D rf) = currentTerm rf" "voteFor (persist2D rf) = voteFor rf"
  "commitIndex (persist2D rf) = commitIndex rf"
  "raftstate (persister (persist2D rf)) = Some (currentTerm rf, voteFor rf, logs rf)"
  by (simp_all add: persist2D_def SaveRaftState2D_def encoded_def)

lemma save_fields [simp]:
  "logs (saveSnapshot2D d rf) = logs rf" "nextIndex (saveSnapshot2D d rf) = nextIndex rf"
  "matchIndex (saveSnapshot2D d rf) = matchIndex rf" "npeers (saveSnapshot2D d rf) = npeers rf"
  "me (saveSnapshot2D d rf) = me rf" "snapshot (persister (saveSnapshot2D d rf)) = d"
  "raftstate (persister (saveSnapshot2D d rf)) = Some (currentTerm rf, voteFor rf, logs rf)"
  by (simp_all add: saveSnapshot2D_def SaveStateAndSnapshot2D_def encoded_def)

lemma follower_fields [simp]:
  "logs (ConvertToFollowerNoLock t rf) = logs rf" "nextIndex (ConvertToFollowerNoLock t rf) = nextIndex rf"
  "matchIndex (ConvertToFollowerNoLock t rf) = matchIndex rf" "npeers (ConvertToFollowerNoLock t rf) = npeers rf"
  "me (ConvertToFollowerNoLock t rf) = me rf" "persister (ConvertToFollowerNoLock t rf) = persister rf"
  "commitIndex (ConvertToFollowerNoLock t rf) = commitIndex rf"
  by (simp_all add: ConvertToFollowerNoLock_def)

lemma follow_fields [simp]:
  "logs (AppendEntries_follow2D t rf) = logs rf" "nextIndex (AppendEntries_follow2D t rf) = nextIndex rf"
  "matchIndex (AppendEntries_follow2D t rf) = matchIndex rf" "npeers (AppendEntries_follow2D t rf) = npeers rf"
  "me (AppendEntries_follow2D t rf) = me rf" "persister (AppendEntries_follow2D t rf) = persister rf"
  "commitIndex (AppendEntries_follow2D t rf) = commitIndex rf"
  "currentTerm (AppendEntries_follow2D t rf) = (if currentTerm rf < t then t else currentTerm rf)"
  by (auto simp: AppendEntries_follow2D_def Let_def ConvertToFollowerNoLock_def)

section \<open>The handlers\<close>

text \<open>Whatever the message, the handler ends, keeps the log well-formed and saves it.\<close>

lemma append_total:
  assumes ok: "log_ok (logs rf)" and es: "from_index (aa_PrevLogIdx args + 1) (aa_Entries args)"
  shows "\<exists>reply rf'. AppendEntriesHandler args rf = Some (reply, rf') \<and> log_ok (logs rf') \<and>
    nextIndex rf' = nextIndex rf \<and> matchIndex rf' = matchIndex rf \<and> npeers rf' = npeers rf \<and> me rf' = me rf \<and>
    raftstate (persister rf') = Some (currentTerm rf', voteFor rf', logs rf')"
proof -
  let ?rf = "AppendEntries_follow2D (aa_Term args) rf"
  define i where "i = aa_PrevLogIdx args - l_Index (hd (logs rf))"
  show ?thesis
  proof (cases "currentTerm rf > aa_Term args \<or> i < 0 \<or> i \<ge> int (length (logs rf))")
    case True
    with ok show ?thesis by (auto simp: AppendEntriesHandler_def Let_def i_def)
  next
    case False
    have at: "idx (logs rf) i = Some (logs rf ! nat i)" using False by (simp add: idx_def)
    define p where "p = nat i + 1"
    have p: "0 < p" "p \<le> length (logs rf)" "int p = i + 1" using False by (simp_all add: p_def Suc_le_eq nat_less_iff)
    have "from_index (l_Index (hd (logs rf)) + int p) (aa_Entries args)" using es by (simp add: p(3) i_def add.commute)
    from repairLog_spec [OF ok p(1,2) this] obtain ys where
      k: "repairLog (i + 1) (logs rf) (aa_Entries args) = Some ys" "log_ok ys"
      unfolding p(3) by blast
    have len: "getLogLen (?rf\<lparr>logs := ys\<rparr>) = Some (l_Index (hd ys) + int (length ys))" using k(2) by simp
    show ?thesis
      using ok False k at by (auto simp: AppendEntriesHandler_def Let_def len simp flip: i_def)
  qed
qed

lemma vote_total:
  assumes "log_ok (logs rf)"
  shows "\<exists>reply rf'. RequestVoteHandler args rf = Some (reply, rf') \<and> logs rf' = logs rf \<and>
    nextIndex rf' = nextIndex rf \<and> matchIndex rf' = matchIndex rf \<and> npeers rf' = npeers rf \<and> me rf' = me rf \<and>
    raftstate (persister rf') = Some (currentTerm rf', voteFor rf', logs rf')"
  using assms by (simp add: RequestVoteHandler_def Let_def)

section \<open>The invariant\<close>

definition raft_ok2D :: "nat \<Rightarrow> ('c, 's) Raft2D \<Rightarrow> bool" where
  "raft_ok2D n rf \<longleftrightarrow> log_ok (logs rf) \<and> npeers rf = n \<and> length (nextIndex rf) = n \<and> length (matchIndex rf) = n \<and>
     (\<forall>t v l. raftstate (persister rf) = Some (t, v, l) \<longrightarrow> log_ok l)"

fun msg_ok2D :: "nat \<Rightarrow> ('c, 's) msg2D \<Rightarrow> bool" where
  "msg_ok2D n (AppendReq j a) \<longleftrightarrow> j < n \<and> from_index (aa_PrevLogIdx a + 1) (aa_Entries a)"
| "msg_ok2D n (AppendAns j i a r) \<longleftrightarrow> i < n"
| "msg_ok2D n (SnapReq j a) \<longleftrightarrow> j < n"
| "msg_ok2D n (SnapAns j i a r) \<longleftrightarrow> i < n"
| "msg_ok2D n _ \<longleftrightarrow> True"

definition peer_ok2D :: "nat \<Rightarrow> ('c, 's) Peer2D \<Rightarrow> bool" where
  "peer_ok2D n p \<longleftrightarrow> raft_ok2D n (p_raft p) \<and> (\<forall>m a. p_holds p = Some (m, a) \<longrightarrow> msg_ok2D n a)"

definition cluster_ok2D :: "nat \<Rightarrow> ('c, 's) Cluster2D \<Rightarrow> bool" where
  "cluster_ok2D n w \<longleftrightarrow> (\<forall>i. peer_ok2D n (peers2D w i)) \<and> (\<forall>m \<in> set (net2D w). msg_ok2D n m)"

text \<open>A peer that differs in other fields only, and one that has just saved a well-formed log.\<close>

lemma raft_ok_cong:
  "raft_ok2D n rf \<Longrightarrow> logs rf' = logs rf \<Longrightarrow> npeers rf' = npeers rf \<Longrightarrow> nextIndex rf' = nextIndex rf \<Longrightarrow>
     matchIndex rf' = matchIndex rf \<Longrightarrow> persister rf' = persister rf \<Longrightarrow> raft_ok2D n rf'"
  by (simp add: raft_ok2D_def)

lemma raft_ok_saved:
  "log_ok (logs rf) \<Longrightarrow> npeers rf = n \<Longrightarrow> length (nextIndex rf) = n \<Longrightarrow> length (matchIndex rf) = n \<Longrightarrow>
     raftstate (persister rf) = Some (t, v, logs rf) \<Longrightarrow> raft_ok2D n rf"
  by (simp add: raft_ok2D_def)

lemma raft_ok_persist: "raft_ok2D n rf \<Longrightarrow> raft_ok2D n (persist2D rf)"
  by (simp add: raft_ok2D_def)

lemma raft_ok_follower: "raft_ok2D n rf \<Longrightarrow> raft_ok2D n (ConvertToFollowerNoLock t rf)"
  by (rule raft_ok_cong) simp_all

lemma raft_ok_follow: "raft_ok2D n rf \<Longrightarrow> raft_ok2D n (AppendEntries_follow2D t rf)"
  by (rule raft_ok_cong) simp_all

lemma raft_ok_candidate: "raft_ok2D n rf \<Longrightarrow> raft_ok2D n (ConvertToCandidate rf)"
  by (rule raft_ok_cong) (simp_all add: ConvertToCandidate_def)

lemma save_ok:
  "log_ok (logs rf) \<Longrightarrow> npeers rf = n \<Longrightarrow> length (nextIndex rf) = n \<Longrightarrow> length (matchIndex rf) = n \<Longrightarrow>
     raft_ok2D n (saveSnapshot2D d rf)"
  by (simp add: raft_ok2D_def)

lemma vote_answer_total:
  assumes "raft_ok2D n rf"
  shows "\<exists>rf'. sendRequestVote_reply a r rf = Some rf' \<and> raft_ok2D n rf'"
  using assms
  by (auto simp: sendRequestVote_reply_def Let_def ConvertToLeaderNoLock_def raft_ok2D_def)

lemma append_answer_total:
  assumes "raft_ok2D n rf" and "i < n"
  shows "\<exists>rf'. SendAppendEntries_reply i a r rf = Some rf' \<and> raft_ok2D n rf'"
  using assms by (auto simp: SendAppendEntries_reply_def Let_def raft_ok2D_def update_at_def)

lemma snapshot_answer_ok:
  assumes "raft_ok2D n rf" and "i < n"
  shows "\<exists>rf'. SendInstallSnapshotRpc_reply i a r rf = Some rf' \<and> raft_ok2D n rf'"
proof -
  define rf0 where "rf0 = (if sr_Term r > currentTerm rf then ConvertToFollowerNoLock (sr_Term r) rf else rf)"
  have "raft_ok2D n rf0" using assms(1) by (simp add: rf0_def raft_ok_follower)
  with assms show ?thesis
    by (auto simp: SendInstallSnapshotRpc_reply_def Let_def raft_ok2D_def simp flip: rf0_def)
qed

lemma install_ok:
  assumes "raft_ok2D n rf" and "InstallSnapshotHandler a rf = Some (reply, rf', m)"
  shows "raft_ok2D n rf'"
proof (cases "currentTerm rf > sa_Term a \<or> activeSnapshotting rf \<or> sa_LastIncludedIndex a \<le> commitIndex rf")
  case True
  with assms show ?thesis by (auto simp: InstallSnapshotHandler_def Let_def raft_ok_follow split: if_splits)
next
  case False
  let ?rf = "AppendEntries_follow2D (sa_Term a) (AppendEntries_follow2D (sa_Term a) rf)"
  obtain l where l: "InstallSnapshot_logs a (logs rf) = Some l"
    and rf': "rf' = saveSnapshot2D (sa_Data a) (?rf\<lparr>passiveSnapshotting := True,
      commitIndex := sa_LastIncludedIndex a, lastApplied := sa_LastIncludedIndex a, logs := l\<rparr>)"
    using False assms(2) by (auto simp: InstallSnapshotHandler_def Let_def bind_eq_Some_conv)
  have ok: "log_ok (logs rf)" using assms(1) by (simp add: raft_ok2D_def)
  define s where "s = sa_LastIncludedIndex a - l_Index (hd (logs rf))"
  have "log_ok l"
  proof (cases "l_Index (last (logs rf)) \<le> sa_LastIncludedIndex a")
    case True
    with l ok show ?thesis by (auto simp: InstallSnapshot_logs_def log_ok_hd log_ok_def Let_def)
  next
    case False
    then have s: "0 \<le> s" "nat s < length (logs rf)"
      and new: "l = (drop (nat s) (logs rf))[0 := \<lparr>l_Command = None, l_Term = sa_LastIncludedTerm a, l_Index = sa_LastIncludedIndex a\<rparr>]"
      using l ok log_ok_last [OF ok]
      by (auto simp: InstallSnapshot_logs_def log_ok_hd Let_def bind_eq_Some_conv slice_from_def s_def split: if_splits)
    then show ?thesis
      using log_ok_drop [OF ok s(2)] by (auto simp: s_def intro!: log_ok_head)
  qed
  then show ?thesis unfolding rf' using assms(1) by (intro save_ok) (auto simp: raft_ok2D_def)
qed

lemma trim_ok:
  assumes "log_ok (logs rf)" and "trimIndex i rf = Some rf'"
  shows "log_ok (logs rf') \<and> npeers rf' = npeers rf \<and> nextIndex rf' = nextIndex rf \<and> matchIndex rf' = matchIndex rf"
proof (cases "l_Index (hd (logs rf)) \<ge> i")
  case False
  define k where "k = nat (i - l_Index (hd (logs rf)))"
  have k: "k < length (logs rf)" and
    rf': "rf' = rf\<lparr>logs := (drop k (logs rf))[0 := (drop k (logs rf) ! 0)\<lparr>l_Command := None\<rparr>]\<rparr>"
    using assms False by (auto simp: trimIndex_def bind_eq_Some_conv slice_from_def idx_def k_def split: if_splits)
  show ?thesis
    using log_ok_drop [OF assms(1) k] k by (auto simp: rf' hd_conv_nth intro!: log_ok_head)
qed (use assms in \<open>simp add: trimIndex_def\<close>)

lemma snapshot_ok2D: "raft_ok2D n rf \<Longrightarrow> Snapshot2D i d rf = Some rf' \<Longrightarrow> raft_ok2D n rf'"
  using trim_ok [of rf i] by (auto simp: Snapshot2D_def raft_ok2D_def)

lemma start_ok2D: "raft_ok2D n rf \<Longrightarrow> Start2D c rf = Some (r, rf') \<Longrightarrow> raft_ok2D n rf'"
  using log_ok_last [of "logs rf"]
  by (auto simp: Start2D_def appendLog_def raft_ok2D_def Let_def intro!: log_ok_append split: if_splits)

lemma commitLoop_fields:
  "commitLoop s lo i rf = Some rf' \<Longrightarrow> logs rf' = logs rf \<and> npeers rf' = npeers rf \<and>
     nextIndex rf' = nextIndex rf \<and> matchIndex rf' = matchIndex rf \<and> persister rf' = persister rf"
proof (induction s lo i rf rule: commitLoop.induct)
  case (1 s lo i rf)
  show ?case
  proof (cases "i < lo \<or> rf' = rf")
    case True
    with 1(2) show ?thesis by (auto simp: commitLoop.simps [of s lo i rf])
  next
    case False
    with 1 show ?thesis
      by (auto simp: commitLoop.simps [of s lo i rf] bind_eq_Some_conv split: if_splits)
  qed
qed

lemma commit_ok2D: "raft_ok2D n rf \<Longrightarrow> checkCommitIndex rf = Some rf' \<Longrightarrow> raft_ok2D n rf'"
  by (auto simp: checkCommitIndex_def bind_eq_Some_conv raft_ok2D_def commitLoop_fields)

lemma apply_ok2D: "raft_ok2D n rf \<Longrightarrow> applyLog rf = Some (l, rf') \<Longrightarrow> raft_ok2D n rf'"
  by (auto simp: applyLog_def bind_eq_Some_conv raft_ok2D_def split: if_splits)

lemma make_ok2D:
  assumes "Make2D n i ps = Some rf" and "\<And>t v l. raftstate ps = Some (t, v, l) \<Longrightarrow> log_ok l"
  shows "raft_ok2D n rf"
  using assms by (auto simp: Make2D_def readPersist2D_def raft_ok2D_def Let_def bind_eq_Some_conv log_ok_def split: option.splits prod.splits)

section \<open>The cluster\<close>

definition keeps2D :: "nat \<Rightarrow> (('c, 's) Peer2D \<Rightarrow> (('c, 's) Peer2D \<times> ('c, 's) msg2D list) option) \<Rightarrow> bool" where
  "keeps2D n f \<longleftrightarrow> (\<forall>p p' ms. peer_ok2D n p \<longrightarrow> f p = Some (p', ms) \<longrightarrow>
     peer_ok2D n p' \<and> (\<forall>m \<in> set ms. msg_ok2D n m))"

lemma section_ok:
  assumes "section2D p r = Some p'" and "peer_ok2D n p" and "\<And>rf. r = Some rf \<Longrightarrow> raft_ok2D n rf"
  shows "peer_ok2D n p'"
  using assms by (auto simp: section2D_def peer_ok2D_def split: option.splits if_splits)

lemma sends_ok:
  assumes "raft_ok2D n rf" and "SendAllAppendEntries_args j rf = Some s" and "j < n"
  shows "msg_ok2D n (sent_to j s)"
proof (cases s)
  case (SendsAppend a)
  have ok: "log_ok (logs rf)" using assms(1) by (simp add: raft_ok2D_def)
  define h where "h = l_Index (hd (logs rf))"
  obtain y where y: "idx (nextIndex rf) (int j) = Some y" using assms(2)
    by (auto simp: SendAllAppendEntries_args_def bind_eq_Some_conv)
  define k where "k = y - h"
  from SendsAppend ok assms(2) y obtain x where
    k: "0 \<le> k" "k \<le> int (length (logs rf))" "aa_Entries a = drop (nat k) (logs rf)"
      "idx (logs rf) (k - 1) = Some x" "aa_PrevLogIdx a = l_Index x"
    by (auto simp: SendAllAppendEntries_args_def bind_eq_Some_conv slice_from_def h_def k_def split: if_splits)
  from idx_SomeD [OF k(4)] have "l_Index x = h + (k - 1)"
    using log_ok_nth [OF ok, of "nat (k - 1)"] by (simp add: h_def nat_less_iff)
  moreover have "from_index (h + int (nat k)) (drop (nat k) (logs rf))"
    by (rule from_index_drop) (use ok k in \<open>auto simp: log_ok_def h_def nat_le_iff\<close>)
  ultimately show ?thesis using k assms(3) SendsAppend by (simp add: sent_to_def algebra_simps)
qed (use assms(3) in \<open>simp add: sent_to_def\<close>)

lemma ticker_ok:
  assumes "raft_ok2D n rf" and "ticker_step t tk rf = Some (tk', rf', st)"
  shows "raft_ok2D n rf'"
  using assms
  by (cases "(t, tk, rf)" rule: ticker_step.cases)
    (auto simp: raft_ok_follower raft_ok_candidate elim: raft_ok_cong split: if_splits list.splits)

lemma tick_keeps: "keeps2D n (tick_peer t)"
  unfolding keeps2D_def
proof (intro allI impI)
  fix p :: "('c, 's) Peer2D" and p' ms
  assume p: "peer_ok2D n p" and step: "tick_peer t p = Some (p', ms)"
  then obtain tk rf st where t: "ticker_step t (p_ticker p) (p_raft p) = Some (tk, rf, st)"
    by (auto simp: tick_peer_def bind_eq_Some_conv split: if_splits)
  have rf: "raft_ok2D n rf" using ticker_ok [OF _ t] p by (simp add: peer_ok2D_def)
  have "msg_ok2D n (sent_to j (the s))" if "(j, s) \<in> set (SendAllAppendEntries rf)" "s \<noteq> None" for j s
  proof -
    from that rf have "j < n" "SendAllAppendEntries_args j rf = Some (the s)"
      by (auto simp: SendAllAppendEntries_def raft_ok2D_def)
    then show ?thesis using sends_ok [OF rf] by blast
  qed
  then show "peer_ok2D n p' \<and> (\<forall>m \<in> set ms. msg_ok2D n m)"
    using p rf step t by (cases st) (fastforce simp: tick_peer_def peer_ok2D_def Let_def split: if_splits)+
qed

lemma handle_keeps:
  fixes m :: "('c, 's) msg2D"
  assumes m: "msg_ok2D n m"
  shows "keeps2D n (handle m)"
  unfolding keeps2D_def
proof (intro allI impI)
  fix p :: "('c, 's) Peer2D" and p' ms
  assume p: "peer_ok2D n p" and step: "handle m p = Some (p', ms)"
  have raft: "raft_ok2D n (p_raft p)" and log: "log_ok (logs (p_raft p))"
    using p by (auto simp: peer_ok2D_def raft_ok2D_def)
  show "peer_ok2D n p' \<and> (\<forall>m \<in> set ms. msg_ok2D n m)"
  proof (cases m)
    case (VoteReq j a)
    from vote_total [OF log, of a] obtain reply rf where v: "RequestVoteHandler a (p_raft p) = Some (reply, rf)"
      "raft_ok2D n rf" using raft by (auto simp: raft_ok2D_def)
    with VoteReq step show ?thesis by (auto simp: bind_eq_Some_conv intro: section_ok [OF _ p])
  next
    case (VoteAns j a r)
    with step vote_answer_total [OF raft, of a r] show ?thesis
      by (auto simp: bind_eq_Some_conv intro: section_ok [OF _ p])
  next
    case (AppendReq j a)
    with m have "from_index (aa_PrevLogIdx a + 1) (aa_Entries a)" by simp
    from append_total [OF log this] obtain reply rf where v: "AppendEntriesHandler a (p_raft p) = Some (reply, rf)"
      "raft_ok2D n rf" using raft by (auto simp: raft_ok2D_def)
    with AppendReq step m show ?thesis by (auto simp: bind_eq_Some_conv intro: section_ok [OF _ p])
  next
    case (AppendAns j i a r)
    with step m append_answer_total [OF raft, of i a r] show ?thesis
      by (auto simp: bind_eq_Some_conv intro: section_ok [OF _ p])
  next
    case (SnapReq j a)
    with step obtain reply rf apply' q where s: "InstallSnapshotHandler a (p_raft p) = Some (reply, rf, apply')"
      "section2D p (Some rf) = Some q" by (auto simp: bind_eq_Some_conv)
    have "peer_ok2D n q" by (rule section_ok [OF s(2) p]) (use install_ok [OF raft s(1)] in simp)
    with SnapReq s step m show ?thesis by (cases apply') (auto simp: peer_ok2D_def Let_def)
  next
    case (SnapAns j i a r)
    with step m snapshot_answer_ok [OF raft, of i a r] show ?thesis
      by (auto simp: bind_eq_Some_conv intro: section_ok [OF _ p])
  qed
qed

lemma votes_keep: "keeps2D n votes_peer"
  by (auto simp: keeps2D_def votes_peer_def bind_eq_Some_conv peer_ok2D_def split: if_splits)

lemma commit_keeps: "keeps2D n commit_peer"
  by (auto simp: keeps2D_def commit_peer_def bind_eq_Some_conv section2D_def peer_ok2D_def intro: commit_ok2D
      split: if_splits option.splits)

lemma apply_keeps: "keeps2D n apply_peer"
  by (auto simp: keeps2D_def apply_peer_def bind_eq_Some_conv section2D_def peer_ok2D_def intro: apply_ok2D split: if_splits)

lemma command_keeps: "keeps2D n command_peer"
  by (auto simp: keeps2D_def command_peer_def peer_ok2D_def split: list.splits)

lemma installed_keeps: "keeps2D n installed_peer"
  by (auto simp: keeps2D_def installed_peer_def peer_ok2D_def split: option.splits)

lemma propose_keeps: "keeps2D n (propose_peer c)"
  by (auto simp: keeps2D_def propose_peer_def bind_eq_Some_conv section2D_def peer_ok2D_def intro: start_ok2D split: if_splits)

lemma snapshot_keeps: "keeps2D n (snapshot_peer i s)"
  by (auto simp: keeps2D_def snapshot_peer_def bind_eq_Some_conv section2D_def peer_ok2D_def intro: snapshot_ok2D
      split: if_splits option.splits)

lemma restart_keeps: "keeps2D n restart_peer"
  unfolding keeps2D_def
proof (intro allI impI)
  fix p :: "('c, 's) Peer2D" and p' ms
  assume p: "peer_ok2D n p" and "restart_peer p = Some (p', ms)"
  then obtain rf where rf: "Make2D (npeers (p_raft p)) (me (p_raft p)) (persister (p_raft p)) = Some rf"
      "p' = started2D (npeers rf) rf" "ms = []"
    by (auto simp: restart_peer_def bind_eq_Some_conv)
  have "raft_ok2D (npeers (p_raft p)) rf"
    by (rule make_ok2D [OF rf(1)]) (use p in \<open>simp add: peer_ok2D_def raft_ok2D_def\<close>)
  with p rf show "peer_ok2D n p' \<and> (\<forall>m \<in> set ms. msg_ok2D n m)"
    by (simp add: peer_ok2D_def started2D_def raft_ok2D_def)
qed

lemmas all_keep = tick_keeps votes_keep commit_keeps apply_keeps command_keeps installed_keeps propose_keeps
  snapshot_keeps restart_keeps

lemma at_peer_ok:
  assumes "keeps2D n f" and "cluster_ok2D n w" and "at_peer i f w = Some w'"
  shows "cluster_ok2D n w'"
proof -
  from assms(3) obtain p ms where f: "f (peers2D w i) = Some (p, ms)" and w': "w' = set_peer2D i p ms w"
    by (auto simp: at_peer_def bind_eq_Some_conv)
  have "peer_ok2D n p \<and> (\<forall>m \<in> set ms. msg_ok2D n m)"
    using assms(1,2) f by (auto simp: keeps2D_def cluster_ok2D_def)
  with assms(2) show ?thesis by (auto simp: w' set_peer2D_def cluster_ok2D_def)
qed

lemma step_ok2D:
  assumes "cluster_ok2D n w" and "step2D e w = Some w'"
  shows "cluster_ok2D n w'"
proof (cases e)
  case (Deliver k)
  let ?w = "w\<lparr>net2D := take k (net2D w) @ drop (Suc k) (net2D w)\<rparr>"
  have "msg_ok2D n (net2D w ! k)" using assms Deliver by (auto simp: cluster_ok2D_def split: if_splits)
  moreover have "cluster_ok2D n ?w"
    using assms(1) by (auto simp: cluster_ok2D_def dest: in_set_takeD in_set_dropD)
  ultimately show ?thesis
    using at_peer_ok [OF handle_keeps] assms(2) Deliver by (auto split: if_splits)
qed (use assms in \<open>auto intro: at_peer_ok [OF _ assms(1)] all_keep\<close>)

interpretation lab2D: step_machine step2D "cluster_ok2D n" for n
  by unfold_locales (rule step_ok2D)

lemma cluster_init_ok2D: "cluster_ok2D n (cluster_init2D n)"
  by (auto simp: cluster_ok2D_def cluster_init2D_def started2D_def peer_ok2D_def raft_ok2D_def Make2D_def
      readPersist2D_def MakePersister2D_def log_ok_def)

lemmas lab2D_run_ok = lab2D.run_inv [OF cluster_init_ok2D]

section \<open>A handler that holds the lock\<close>

lemma held_step:
  assumes "step2D e w = Some w'" and "p_holds (peers2D w i) = Some x" and "e \<noteq> TakeInstalled i" and "e \<noteq> Restart i"
  shows "p_holds (peers2D w' i) = Some x"
proof -
  have at: "p_holds (peers2D w' i) = Some x"
    if "at_peer j f v = Some w'" "peers2D v = peers2D w"
      "\<And>p ms. j = i \<Longrightarrow> f (peers2D w i) = Some (p, ms) \<Longrightarrow> p_holds p = Some x" for j f v
    using that assms(2) by (auto simp: at_peer_def set_peer2D_def bind_eq_Some_conv)
  have tick: "p_holds p = Some x" if "tick_peer t (peers2D w i) = Some (p, ms)" for t p ms
  proof -
    from that obtain tk rf st where "ticker_step t (p_ticker (peers2D w i)) (p_raft (peers2D w i)) = Some (tk, rf, st)"
      by (auto simp: tick_peer_def bind_eq_Some_conv split: if_splits)
    with that assms(2) show ?thesis
      by (cases st) (auto simp: tick_peer_def Let_def split: if_splits)
  qed
  have handle: "handle m (peers2D w i) = Some (p, ms) \<Longrightarrow> p_holds p = Some x" for m p ms
    using assms(2) by (cases m) (auto simp: bind_eq_Some_conv section2D_def split: option.splits)
  have cmd: "p_holds p = Some x" if "command_peer (peers2D w i) = Some (p, ms)" for p ms
    using that assms(2) by (auto simp: command_peer_def split: list.splits)
  have rest: "votes_peer (peers2D w i) = None" "commit_peer (peers2D w i) = None" "apply_peer (peers2D w i) = None"
    "propose_peer c (peers2D w i) = None" "snapshot_peer k s (peers2D w i) = None" for c k s
    using assms(2)
    by (auto simp: votes_peer_def commit_peer_def apply_peer_def propose_peer_def snapshot_peer_def section2D_def
        bind_eq_None_conv split: option.splits)
  show ?thesis
    using assms by (cases e) (auto simp: rest intro: at tick handle cmd split: if_splits elim!: at)
qed

lemma held_run:
  assumes "run_steps step2D es w = Some w'" and "p_holds (peers2D w i) = Some x"
    and "TakeInstalled i \<notin> set es" and "Restart i \<notin> set es"
  shows "p_holds (peers2D w' i) = Some x"
  using assms
proof (induction es arbitrary: w)
  case (Cons e es)
  then obtain v where v: "step2D e w = Some v" "run_steps step2D es v = Some w'" by (auto simp: bind_eq_Some_conv)
  from held_step [OF v(1) Cons.prems(2)] Cons.prems(3,4) have "p_holds (peers2D v i) = Some x" by auto
  with Cons.IH [OF v(2)] Cons.prems(3,4) show ?case by simp
qed simp

lemma held_no_snapshot: "p_holds (peers2D w i) = Some x \<Longrightarrow> step2D (TakeSnapshot i k s) w = None"
  by (auto simp: at_peer_def snapshot_peer_def section2D_def bind_eq_None_conv split: option.splits)

end
