(* ===== verification/Raft2DTheorems.thy ===== *)
theory Raft2DTheorems
  imports Raft2DLog KVReplicas
begin

text \<open>
  The properties of \<open>src/raft-Lab2D\<close>: what its handlers do right, and three executions - given
  event by event - in which it, or \<open>src/kvraft\<close> on top of it, goes wrong.
\<close>

section \<open>The service \<open>kvraft\<close> on a peer\<close>

fun to_kv_msg :: "(KvOp, kv_snapshot) ApplyMsg2D \<Rightarrow> KvMsg" where
  "to_kv_msg (CommandMsg c i t) = kv_command_msg i (case c of Some op \<Rightarrow> op | None \<Rightarrow> zero_KvOp)"
| "to_kv_msg (SnapshotMsg d t i) = (kv_snapshot_msg i (\<lambda>_. None, \<lambda>_. None))\<lparr>km_Snapshot := d\<rparr>"

text \<open>The apply loop over the messages a peer sends it, with no size limit.\<close>

fun kv_loop :: "KvMsg list \<Rightarrow> KVServer \<Rightarrow> kv_turn" where
  "kv_loop [] kv = Continues kv None"
| "kv_loop (msg # msgs) kv =
     (case applyMsgHandlerLoop 0 False (CondInstallSnapshot2D 0 (km_SnapshotIndex msg) (km_Snapshot msg)) msg kv of
        Continues kv s \<Rightarrow> kv_loop msgs kv
      | r \<Rightarrow> r)"

section \<open>Executions\<close>

text \<open>
  Peer 2 becomes a candidate and waits in the \<open>select\<close> of a candidate. Peers 0 and 1 become
  candidates of term 2. Peer 2 votes for 0, which becomes leader and sends a heartbeat; peer 2's
  ticker takes that message in its candidate's \<open>select\<close>, converts it to a follower of the same
  term without a vote, and it votes for 1, which becomes leader too.
\<close>

definition two_leaders_run :: "(nat, unit) event2D list" where
  "two_leaders_run =
    [Tick 2 Proceed, Tick 2 OnTimeout, Tick 2 Proceed, Tick 2 Proceed,
     Tick 0 Proceed, Tick 0 OnTimeout, Tick 0 Proceed, Tick 0 Proceed, Tick 0 OnTimeout, Tick 0 Proceed, RunVotes 0,
     Tick 1 Proceed, Tick 1 OnTimeout, Tick 1 Proceed, Tick 1 Proceed, Tick 1 OnTimeout, Tick 1 Proceed, RunVotes 1,
     Deliver 1, Deliver 3, Tick 0 Proceed, Tick 0 Proceed, Deliver 4,
     Tick 2 OnAppendEntries, Tick 2 Proceed, Deliver 2, Deliver 4]"

text \<open>Each leader then replicates a command of its own to peer 2, commits and applies it.\<close>

definition divergent_run :: "(nat, unit) event2D list" where
  "divergent_run =
    [Propose 0 100, Tick 0 OnTimeout, Tick 0 Proceed, Tick 0 Proceed, Deliver 5, Deliver 5, RunCommit 0,
     ApplyTurn 0, TakeCommand 0,
     Propose 1 200, Tick 1 Proceed, Tick 1 Proceed, Deliver 6, Deliver 6, RunCommit 1, ApplyTurn 1, TakeCommand 1]"

text \<open>
  Peer 2's applier has copied the first command when the snapshot of the first two, which
  peer 0 took and sends, is installed; the service gets the snapshot first.
\<close>

definition ex_put :: "int \<Rightarrow> string \<Rightarrow> KvOp" where
  "ex_put i v = \<lparr>ko_SeqId = i, ko_Key = ''k'', ko_Value = v, ko_ClientId = 7, ko_Index = 0, ko_OpType = PutOp\<rparr>"

definition ex_snapshot :: kv_snapshot where
  "ex_snapshot = PersistSnapShot (fold kv_apply [ex_put 1 ''a'', ex_put 2 ''b''] kv_fresh)"

definition overtaking_run :: "(KvOp, kv_snapshot) event2D list" where
  "overtaking_run =
    [Tick 0 Proceed, Tick 0 OnTimeout, Tick 0 Proceed, Tick 0 Proceed, RunVotes 0, Deliver 1, Deliver 1,
     Tick 0 OnLeaderMsg, Propose 0 (ex_put 1 ''a''), Tick 0 Proceed, Tick 0 Proceed, Deliver 2, Deliver 2, RunCommit 0,
     ApplyTurn 0, TakeCommand 0,
     Tick 0 OnTimeout, Tick 0 Proceed, Tick 0 Proceed, Deliver 3, Deliver 3, ApplyTurn 2,
     Propose 0 (ex_put 2 ''b''), Tick 0 OnTimeout, Tick 0 Proceed, Tick 0 Proceed, Deliver 3, Deliver 4, RunCommit 0,
     ApplyTurn 0, TakeCommand 0, TakeSnapshot 0 2 ex_snapshot,
     Tick 0 OnTimeout, Tick 0 Proceed, Tick 0 Proceed, Deliver 5, TakeInstalled 2, TakeCommand 2]"

section \<open>Properties\<close>

text \<open>C19: In an execution of three peers in which nothing crashes and no message is lost or repeated,
  two peers become leaders of the same term, and the services of two peers are given different
  commands for the same index: the election of \<open>src/raft-Lab2D\<close> is not safe, because its ticker
  forgets the vote of the current term when it takes a heartbeat in a candidate's \<open>select\<close>.\<close>

theorem services_diverge:
  "\<exists>w w'. run_steps step2D two_leaders_run (cluster_init2D 3) = Some w \<and>
     role (p_raft (peers2D w 0)) = Leader \<and> role (p_raft (peers2D w 1)) = Leader \<and>
     currentTerm (p_raft (peers2D w 0)) = currentTerm (p_raft (peers2D w 1)) \<and>
     run_steps step2D divergent_run w = Some w' \<and>
     p_service (peers2D w' 0) = [CommandMsg (Some 100) 1 2] \<and>
     p_service (peers2D w' 1) = [CommandMsg (Some 200) 1 2]"
proof -
  have "(case run_steps step2D two_leaders_run (cluster_init2D 3) of None \<Rightarrow> False
      | Some w \<Rightarrow> role (p_raft (peers2D w 0)) = Leader \<and> role (p_raft (peers2D w 1)) = Leader \<and>
          currentTerm (p_raft (peers2D w 0)) = currentTerm (p_raft (peers2D w 1)) \<and>
          (case run_steps step2D divergent_run w of None \<Rightarrow> False
           | Some w' \<Rightarrow> p_service (peers2D w' 0) = [CommandMsg (Some 100) 1 2] \<and>
               p_service (peers2D w' 1) = [CommandMsg (Some 200) 1 2]))"
    by code_simp
  then show ?thesis by (fastforce split: option.splits)
qed

text \<open>In an execution of three peers without crashes and losses, the peer 2 sends its service the
  snapshot of index 2 and then a command of index 1 that it covers, and the apply loop of
  \<open>src/kvraft\<close> over these messages ends at that command.\<close>

theorem snapshot_overtakes_command:
  "\<exists>w kv. run_steps step2D overtaking_run (cluster_init2D 3) = Some w \<and>
     kv_loop (map to_kv_msg (p_service (peers2D w 2))) (StartKVServer 2 (-1) None) = Returns kv \<and>
     lastIncludeIndex kv = 2 \<and> lastApplied (p_raft (peers2D w 2)) = 2"
proof -
  have "(case run_steps step2D overtaking_run (cluster_init2D 3) of None \<Rightarrow> False
      | Some w \<Rightarrow> lastApplied (p_raft (peers2D w 2)) = 2 \<and>
          (case kv_loop (map to_kv_msg (p_service (peers2D w 2))) (StartKVServer 2 (-1) None) of
             Returns kv \<Rightarrow> lastIncludeIndex kv = 2 | _ \<Rightarrow> False))"
    by code_simp
  then show ?thesis by (fastforce split: option.splits kv_turn.splits)
qed

text \<open>
  The same execution up to the installed snapshot, where the service takes the applier's command
  before the snapshot.
\<close>

abbreviation "deadlock_run \<equiv> butlast (butlast overtaking_run) @ [TakeCommand 2]"

text \<open>C35: An execution of three peers leads to a deadlock of peer 2 and its service: the handler of
  \<open>InstallSnapshot\<close> holds the lock of the peer until the service takes its snapshot, while the
  service, having taken a command of the applier, has a snapshot of its own to hand over
  (\<open>maxraftstate\<close> is exceeded) and waits for the lock: if the call hangs, its loop blocks. As long as it does not take the
  handler's message - it cannot - and the peer is not restarted, its call is never served.\<close>

theorem snapshot_deadlock:
  "\<exists>w kv s. run_steps step2D deadlock_run (cluster_init2D 3) = Some w \<and>
     p_service (peers2D w 2) = [CommandMsg (Some (ex_put 1 ''a'')) 1 1] \<and>
     applyMsgHandlerLoop 1 False True (kv_command_msg 1 (ex_put 1 ''a'')) (StartKVServer 2 0 None) = Continues kv (Some (1, s)) \<and>
     (\<exists>kv'. applyMsgHandlerLoop 1 True True (kv_command_msg 1 (ex_put 1 ''a'')) (StartKVServer 2 0 None) = Blocks kv' None) \<and>
     (\<forall>es w'. run_steps step2D es w = Some w' \<and> TakeInstalled 2 \<notin> set es \<and> Restart 2 \<notin> set es \<longrightarrow>
        (\<forall>index data. step2D (TakeSnapshot 2 index data) w' = None))"
proof -
  have "(case run_steps step2D deadlock_run (cluster_init2D 3) of None \<Rightarrow> False
      | Some w \<Rightarrow> p_holds (peers2D w 2) \<noteq> None \<and>
          map (\<lambda>m. case m of CommandMsg c i t \<Rightarrow> Some (c, i, t) | _ \<Rightarrow> None) (p_service (peers2D w 2)) =
            [Some (Some (ex_put 1 ''a''), 1, 1)])" by code_simp
  then obtain w x where w: "run_steps step2D deadlock_run (cluster_init2D 3) = Some w"
      "p_holds (peers2D w 2) = Some x" "p_service (peers2D w 2) = [CommandMsg (Some (ex_put 1 ''a'')) 1 1]"
    by (auto split: option.splits ApplyMsg2D.splits)
  have "(case applyMsgHandlerLoop 1 False True (kv_command_msg 1 (ex_put 1 ''a'')) (StartKVServer 2 0 None) of
      Continues kv (Some (i, s)) \<Rightarrow> i = 1 | _ \<Rightarrow> False)" by code_simp
  then obtain kv s where kv: "applyMsgHandlerLoop 1 False True (kv_command_msg 1 (ex_put 1 ''a'')) (StartKVServer 2 0 None) =
      Continues kv (Some (1, s))"
    by (auto split: kv_turn.splits option.splits)
  have "(case applyMsgHandlerLoop 1 True True (kv_command_msg 1 (ex_put 1 ''a'')) (StartKVServer 2 0 None) of
      Blocks kv s \<Rightarrow> (case s of None \<Rightarrow> True | _ \<Rightarrow> False) | _ \<Rightarrow> False)" by code_simp
  then have "\<exists>kv'. applyMsgHandlerLoop 1 True True (kv_command_msg 1 (ex_put 1 ''a'')) (StartKVServer 2 0 None) = Blocks kv' None"
    by (auto split: kv_turn.splits option.splits)
  moreover have "step2D (TakeSnapshot 2 index data) w' = None"
    if "run_steps step2D es w = Some w'" "TakeInstalled 2 \<notin> set es" "Restart 2 \<notin> set es" for es w' index data
    by (rule held_no_snapshot [OF held_run [OF that(1) w(2) that(2,3)]])
  ultimately show ?thesis using w(1,3) kv by blast
qed

lemma snapshot_deadlock_witness:
  "\<exists>w. run_steps step2D deadlock_run (cluster_init2D 3) = Some w \<and> step2D (TakeSnapshot 2 1 ex_snapshot) w = None"
proof -
  obtain w where w: "run_steps step2D deadlock_run (cluster_init2D 3) = Some w"
    and all: "\<forall>es w'. run_steps step2D es w = Some w' \<and> TakeInstalled 2 \<notin> set es \<and> Restart 2 \<notin> set es \<longrightarrow>
        (\<forall>index data. step2D (TakeSnapshot 2 index data) w' = None)"
    using snapshot_deadlock by blast
  from all [rule_format, of "[]" w 1 ex_snapshot] w show ?thesis by simp
qed

text \<open>C20: In every reachable state of a cluster, with crashes and with snapshots, every log in memory
  has consecutive indices from its first entry on, so has every log on disk, and no vote
  request, append request or answer that is on its way makes its receiver index out of range.\<close>

theorem logs_consecutive:
  assumes "run_steps step2D es (cluster_init2D n) = Some w"
  shows "log_ok (logs (p_raft (peers2D w i))) \<and>
    (\<forall>t v l. raftstate (persister (p_raft (peers2D w i))) = Some (t, v, l) \<longrightarrow> log_ok l) \<and>
    (\<forall>m \<in> set (net2D w). case m of
        VoteReq j a \<Rightarrow> RequestVoteHandler a (p_raft (peers2D w j)) \<noteq> None
      | VoteAns j a r \<Rightarrow> sendRequestVote_reply a r (p_raft (peers2D w j)) \<noteq> None
      | AppendReq j a \<Rightarrow> AppendEntriesHandler a (p_raft (peers2D w j)) \<noteq> None
      | AppendAns j k a r \<Rightarrow> SendAppendEntries_reply k a r (p_raft (peers2D w j)) \<noteq> None
      | SnapReq j a \<Rightarrow> True
      | SnapAns j k a r \<Rightarrow> SendInstallSnapshotRpc_reply k a r (p_raft (peers2D w j)) \<noteq> None)"
proof -
  have ok: "cluster_ok2D n w" by (rule lab2D_run_ok [OF assms])
  then have raft: "raft_ok2D n (p_raft (peers2D w j))" for j by (simp add: cluster_ok2D_def peer_ok2D_def)
  then have log: "log_ok (logs (p_raft (peers2D w j)))" for j by (simp add: raft_ok2D_def)
  have "case m of
        VoteReq j a \<Rightarrow> RequestVoteHandler a (p_raft (peers2D w j)) \<noteq> None
      | VoteAns j a r \<Rightarrow> sendRequestVote_reply a r (p_raft (peers2D w j)) \<noteq> None
      | AppendReq j a \<Rightarrow> AppendEntriesHandler a (p_raft (peers2D w j)) \<noteq> None
      | AppendAns j k a r \<Rightarrow> SendAppendEntries_reply k a r (p_raft (peers2D w j)) \<noteq> None
      | SnapReq j a \<Rightarrow> True
      | SnapAns j k a r \<Rightarrow> SendInstallSnapshotRpc_reply k a r (p_raft (peers2D w j)) \<noteq> None"
    if "m \<in> set (net2D w)" for m
  proof -
    have m: "msg_ok2D n m" using ok that by (simp add: cluster_ok2D_def)
    show ?thesis
    proof (cases m)
      case (VoteReq j a)
      then show ?thesis using vote_total [OF log, of a j] by auto
    next
      case (VoteAns j a r)
      then show ?thesis using vote_answer_total [OF raft, of a r j] by auto
    next
      case (AppendReq j a)
      then show ?thesis using append_total [OF log, of a j] m by auto
    next
      case (AppendAns j k a r)
      then show ?thesis using append_answer_total [OF raft, of k a r j] m by auto
    next
      case (SnapAns j k a r)
      then show ?thesis using snapshot_answer_ok [OF raft, of k a r j] m by auto
    qed simp
  qed
  with raft [of i] log [of i] show ?thesis by (simp add: raft_ok2D_def)
qed

lemma logs_consecutive_witness:
  "\<exists>w. run_steps step2D overtaking_run (cluster_init2D 3) = Some w \<and> log_ok (logs (p_raft (peers2D w 2)))"
proof -
  obtain w kv where "run_steps step2D overtaking_run (cluster_init2D 3) = Some w"
  proof -
    have "(case run_steps step2D overtaking_run (cluster_init2D 3) of None \<Rightarrow> False | Some w \<Rightarrow> True)" by code_simp
    then show ?thesis using that by (auto split: option.splits)
  qed
  with logs_consecutive [OF this, of 2] show ?thesis by blast
qed

text \<open>An \<open>AppendEntries\<close> message of a current term whose predecessor entry the follower has is
  accepted: the entries before the first one whose term differs are kept, from there on the
  sent entries replace the rest, a log that already has all of them is left alone, and the
  commit index moves up to the leader's, at most to one past the end of the log.\<close>

theorem append_accepts:
  assumes ok: "log_ok (logs rf)" and es: "from_index (aa_PrevLogIdx args + 1) (aa_Entries args)"
    and t: "currentTerm rf \<le> aa_Term args"
    and pos: "l_Index (hd (logs rf)) \<le> aa_PrevLogIdx args" "aa_PrevLogIdx args < l_Index (hd (logs rf)) + int (length (logs rf))"
    and term': "l_Term (logs rf ! nat (aa_PrevLogIdx args - l_Index (hd (logs rf)))) = aa_PrevLogTerm args"
  defines "p \<equiv> nat (aa_PrevLogIdx args - l_Index (hd (logs rf))) + 1"
  shows "\<exists>reply rf' k. AppendEntriesHandler args rf = Some (reply, rf') \<and> ar_Success reply \<and>
    k \<le> length (aa_Entries args) \<and> log_ok (logs rf') \<and> hd (logs rf') = hd (logs rf) \<and>
    (\<forall>j < k. p + j < length (logs rf) \<and> l_Term (logs rf ! (p + j)) = l_Term (aa_Entries args ! j)) \<and>
    (if k = length (aa_Entries args) then logs rf' = logs rf
     else logs rf' = take (p + k) (logs rf) @ drop k (aa_Entries args) \<and>
       (p + k < length (logs rf) \<longrightarrow> l_Term (logs rf ! (p + k)) \<noteq> l_Term (aa_Entries args ! k))) \<and>
    commitIndex rf' = (if aa_LeaderCommit args > commitIndex rf
      then min (l_Index (hd (logs rf')) + int (length (logs rf'))) (aa_LeaderCommit args) else commitIndex rf)"
proof -
  let ?rf = "AppendEntries_follow2D (aa_Term args) rf"
  define i where "i = aa_PrevLogIdx args - l_Index (hd (logs rf))"
  have i: "0 \<le> i" "i < int (length (logs rf))" using pos by (simp_all add: i_def)
  have p: "0 < p" "p \<le> length (logs rf)" "int p = i + 1" using i by (simp_all add: p_def i_def)
  have "from_index (l_Index (hd (logs rf)) + int p) (aa_Entries args)" using es by (simp add: p(3) i_def add.commute)
  from repairLog_spec [OF ok p(1,2) this] obtain k ys where
    k: "k \<le> length (aa_Entries args)" "repairLog (int p) (logs rf) (aa_Entries args) = Some ys" "log_ok ys" "hd ys = hd (logs rf)"
      "\<forall>j < k. p + j < length (logs rf) \<and> l_Term (logs rf ! (p + j)) = l_Term (aa_Entries args ! j)"
      "if k = length (aa_Entries args) then ys = logs rf
       else ys = take (p + k) (logs rf) @ drop k (aa_Entries args) \<and>
         (p + k < length (logs rf) \<longrightarrow> l_Term (logs rf ! (p + k)) \<noteq> l_Term (aa_Entries args ! k))" by blast
  have at: "idx (logs rf) i = Some (logs rf ! nat i)" using i by (simp add: idx_def)
  have len: "getLogLen (?rf\<lparr>logs := ys\<rparr>) = Some (l_Index (hd ys) + int (length ys))"
    using k(3) by simp
  obtain rf' where rf': "AppendEntriesHandler args rf = Some (zero_AppendReply2D\<lparr>ar_Term := currentTerm rf, ar_Success := True\<rparr>, rf')"
      "logs rf' = ys"
      "commitIndex rf' = (if aa_LeaderCommit args > commitIndex rf
        then min (l_Index (hd ys) + int (length ys)) (aa_LeaderCommit args) else commitIndex rf)"
    using ok t pos term' k(2) at i
    by (simp add: AppendEntriesHandler_def Let_def len p(3) flip: i_def)
  show ?thesis
    by (intro exI [of _ "zero_AppendReply2D\<lparr>ar_Term := currentTerm rf, ar_Success := True\<rparr>"] exI [of _ rf'] exI [of _ k])
      (use rf' k in simp)
qed

lemma append_accepts_witness:
  "\<exists>reply rf'. AppendEntriesHandler
     \<lparr>aa_Term = 2, aa_LeaderId = 1, aa_PrevLogIdx = 0, aa_PrevLogTerm = 0, aa_LeaderCommit = 0,
      aa_Entries = [\<lparr>l_Command = Some 7, l_Term = 2, l_Index = 1\<rparr>]\<rparr>
     (the (Make2D 3 0 MakePersister2D) :: (nat, unit) Raft2D) = Some (reply, rf') \<and> ar_Success reply \<and> log_ok (logs rf')"
proof -
  let ?rf = "the (Make2D 3 0 MakePersister2D) :: (nat, unit) Raft2D"
  let ?a = "\<lparr>aa_Term = 2, aa_LeaderId = 1, aa_PrevLogIdx = 0, aa_PrevLogTerm = 0, aa_LeaderCommit = 0,
      aa_Entries = [\<lparr>l_Command = Some (7::nat), l_Term = 2, l_Index = 1\<rparr>]\<rparr>"
  have rf: "logs ?rf = [\<lparr>l_Command = None, l_Term = 0, l_Index = 0\<rparr>]" "currentTerm ?rf = 0"
    by (simp_all add: Make2D_def MakePersister2D_def readPersist2D_def)
  have "log_ok (logs ?rf)" by (simp add: rf log_ok_def)
  from append_accepts [OF this, of ?a] show ?thesis by (simp add: rf) blast
qed

text \<open>A peer that restarts with a snapshot does not know that everything up to it is committed:
  a late \<open>InstallSnapshot\<close> message with an older snapshot, which it should ignore, makes it
  index out of range.\<close>

theorem late_snapshot_panics:
  assumes "Make2D n i ps = Some rf" and "raftstate ps = Some (t, v, l)" and "log_ok l"
    and "0 < sa_LastIncludedIndex args" and "sa_LastIncludedIndex args < l_Index (hd l)" and "t \<le> sa_Term args"
  shows "InstallSnapshotHandler args rf = None"
proof -
  have rf: "logs rf = l" "commitIndex rf = 0" "currentTerm rf = t" "\<not> activeSnapshotting rf"
    using assms(1,2) by (auto simp: Make2D_def readPersist2D_def Let_def bind_eq_Some_conv)
  have "l_Index (last l) > sa_LastIncludedIndex args" and "last_elem l = Some (last l)"
    using log_ok_last [OF assms(3)] assms(5) by (cases l; simp)+
  then have "InstallSnapshot_logs args l = None"
    using log_ok_hd [OF assms(3)] assms(5) by (simp add: InstallSnapshot_logs_def Let_def slice_from_def)
  with rf assms(4,6) show ?thesis by (simp add: InstallSnapshotHandler_def Let_def)
qed

lemma late_snapshot_panics_witness:
  "InstallSnapshotHandler \<lparr>sa_Term = 4, sa_LeaderId = 1, sa_LastIncludedIndex = 3, sa_LastIncludedTerm = 2, sa_Data = None\<rparr>
     (the (Make2D 3 0 \<lparr>raftstate = Some (4, -1, [\<lparr>l_Command = None :: nat option, l_Term = 3, l_Index = 5\<rparr>]),
        snapshot = Some ()\<rparr>)) = None"
proof -
  let ?l = "[\<lparr>l_Command = None :: nat option, l_Term = 3, l_Index = 5\<rparr>]"
  let ?ps = "\<lparr>raftstate = Some (4, -1, ?l), snapshot = Some ()\<rparr>"
  have "Make2D 3 0 ?ps = Some (the (Make2D 3 0 ?ps))"
    by (simp add: Make2D_def readPersist2D_def getFirstLog_def idx_def)
  from late_snapshot_panics [OF this, of 4 "-1" ?l] show ?thesis by (simp add: log_ok_def)
qed

end
