(* ===== verification/Bitset.thy ===== *)
theory Bitset
  imports Prelude "HOL-Library.Word"
begin

text \<open>
  The bit set of the linearizability checker (\<open>src/porcupine/bitset.go\<close>): a slice of 64-bit
  words. Bit \<open>pos\<close> is bit \<open>pos % 64\<close> of word \<open>pos / 64\<close>; a position past the last word is a
  bounds error. The code changes a set in place and clones it before it keeps a copy, so a
  value here is the content of one slice. The lemmas relate it to the set of its positions
  (\<open>members\<close>): a set is the same as another of its length if it has the same members, and then
  its hash is the same, which is what a table keyed by the hash needs (\<open>hashed\<close>).
\<close>

unbundle bit_operations_syntax

section \<open>The operations\<close>

type_synonym bitset = "64 word list"

definition newBitset :: "nat \<Rightarrow> bitset" where
  "newBitset bits = replicate (bits div 64 + (if bits mod 64 \<noteq> 0 then 1 else 0)) 0"

definition clone :: "bitset \<Rightarrow> bitset" where
  "clone b = b"

definition bitsetIndex :: "nat \<Rightarrow> nat \<times> nat" where
  "bitsetIndex pos = (pos div 64, pos mod 64)"

definition bs_set :: "bitset \<Rightarrow> nat \<Rightarrow> bitset option" where
  "bs_set b pos = (let (major, minor) = bitsetIndex pos in do {
     w \<leftarrow> idx b (int major);
     update_at b (int major) (w OR push_bit minor 1) })"

definition bs_clear :: "bitset \<Rightarrow> nat \<Rightarrow> bitset option" where
  "bs_clear b pos = (let (major, minor) = bitsetIndex pos in do {
     w \<leftarrow> idx b (int major);
     update_at b (int major) (w AND NOT (push_bit minor 1)) })"

definition bs_get :: "bitset \<Rightarrow> nat \<Rightarrow> bool option" where
  "bs_get b pos = (let (major, minor) = bitsetIndex pos in do {
     w \<leftarrow> idx b (int major);
     Some (w AND push_bit minor 1 \<noteq> 0) })"

text \<open>\<open>bits.OnesCount64\<close> counts the ones of a word.\<close>

definition OnesCount64 :: "64 word \<Rightarrow> nat" where
  "OnesCount64 w = length (filter (bit w) [0..<64])"

definition popcnt :: "bitset \<Rightarrow> nat" where
  "popcnt b = fold (\<lambda>v total. total + OnesCount64 v) b 0"

definition bs_hash :: "bitset \<Rightarrow> 64 word" where
  "bs_hash b = fold (\<lambda>v hash. hash XOR v) b (of_nat (popcnt b))"

definition bs_equals :: "bitset \<Rightarrow> bitset \<Rightarrow> bool" where
  "bs_equals b b2 = (if length b \<noteq> length b2 then False else (\<forall>i < length b. b ! i = b2 ! i))"

section \<open>The set of positions\<close>

definition members :: "bitset \<Rightarrow> nat set" where
  "members b = {pos. pos < 64 * length b \<and> bit (b ! (pos div 64)) (pos mod 64)}"

lemma div64_less [simp]: "pos div 64 < n \<longleftrightarrow> pos < 64 * (n :: nat)"
  by (simp add: div_less_iff_less_mult mult.commute)

lemma newBitset_length: "bits \<le> 64 * length (newBitset bits)"
  by (simp add: newBitset_def) presburger

lemma members_new [simp]: "members (newBitset bits) = {}"
  by (auto simp: members_def newBitset_def)

lemma bit_OR_one: "m < 64 \<Longrightarrow> bit (w OR push_bit m 1) k \<longleftrightarrow> bit w k \<or> k = m" for w :: "64 word"
  by (auto simp: bit_simps)

lemma bit_AND_NOT_one: "m < 64 \<Longrightarrow> bit (w AND NOT (push_bit m 1)) k \<longleftrightarrow> bit w k \<and> k \<noteq> m" for w :: "64 word"
  by (auto simp: bit_simps dest: bit_imp_le_length)

lemma AND_one_eq: "m < 64 \<Longrightarrow> w AND push_bit m 1 \<noteq> 0 \<longleftrightarrow> bit w m" for w :: "64 word"
  by (simp add: and_exp_eq_0_iff_not_bit)

lemma same_position: "pos div 64 = q div 64 \<Longrightarrow> pos mod 64 = q mod 64 \<Longrightarrow> pos = (q :: nat)"
  by (metis div_mult_mod_eq)

lemma bs_set_spec:
  "pos < 64 * length b \<Longrightarrow> \<exists>b'. bs_set b pos = Some b' \<and> length b' = length b \<and> members b' = insert pos (members b)"
  by (auto simp: bs_set_def bitsetIndex_def slice_simps members_def nth_list_update bit_OR_one
      simp del: push_bit_of_1 dest: same_position)

lemma bs_clear_spec:
  "pos < 64 * length b \<Longrightarrow> \<exists>b'. bs_clear b pos = Some b' \<and> length b' = length b \<and> members b' = members b - {pos}"
  by (auto simp: bs_clear_def bitsetIndex_def slice_simps members_def nth_list_update bit_AND_NOT_one
      simp del: push_bit_of_1 dest: same_position)

lemma bs_get_spec: "pos < 64 * length b \<Longrightarrow> bs_get b pos = Some (pos \<in> members b)"
  by (simp add: bs_get_def bitsetIndex_def slice_simps members_def AND_one_eq del: push_bit_of_1)

lemma out_of_range:
  "64 * length b \<le> pos \<Longrightarrow> bs_set b pos = None \<and> bs_clear b pos = None \<and> bs_get b pos = None"
  by (simp add: bs_set_def bs_clear_def bs_get_def bitsetIndex_def idx_def Let_def not_less flip: not_less)

lemma bs_equals_iff [simp]: "bs_equals b b2 \<longleftrightarrow> b = b2"
  by (auto simp: bs_equals_def intro: nth_equalityI)

lemma members_inject:
  assumes "length b = length c" and "members b = members c"
  shows "b = c"
proof (rule nth_equalityI [OF assms(1)])
  fix i assume i: "i < length b"
  show "b ! i = c ! i"
  proof (rule bit_word_eqI)
    fix k assume "k < LENGTH(64)"
    then have "64 * i + k \<in> members b \<longleftrightarrow> bit (b ! i) k" and "64 * i + k \<in> members c \<longleftrightarrow> bit (c ! i) k"
      using i assms(1) by (simp_all add: members_def)
    then show "bit (b ! i) k = bit (c ! i) k" using assms(2) by simp
  qed
qed

section \<open>Tables keyed by a hash\<close>

text \<open>
  What a table of buckets needs of the keys it hashes: keys that count as equal have the same
  hash. Then looking in one bucket is looking in the whole table.
\<close>

locale hashed =
  fixes hash :: "'k \<Rightarrow> 'h" and equals :: "'k \<Rightarrow> 'k \<Rightarrow> bool"
  assumes equals_hash: "equals k l \<Longrightarrow> hash k = hash l"
begin

definition in_table :: "('h \<Rightarrow> ('k \<times> 's) list) \<Rightarrow> ('k \<times> 's) set" where
  "in_table t = {e. e \<in> set (t (hash (fst e)))}"

definition bucketed :: "('h \<Rightarrow> ('k \<times> 's) list) \<Rightarrow> bool" where
  "bucketed t \<longleftrightarrow> (\<forall>h. \<forall>e \<in> set (t h). hash (fst e) = h)"

lemma lookup: "bucketed t \<Longrightarrow>
    (\<exists>e \<in> set (t (hash k)). equals k (fst e) \<and> P e) \<longleftrightarrow> (\<exists>e \<in> in_table t. equals k (fst e) \<and> P e)"
  unfolding in_table_def bucketed_def by (metis (mono_tags, lifting) equals_hash mem_Collect_eq)

lemma in_table_add [simp]: "in_table (t(hash k := t (hash k) @ [(k, s)])) = insert (k, s) (in_table t)"
  by (auto simp: in_table_def)

lemma bucketed_add [simp]: "bucketed t \<Longrightarrow> bucketed (t(hash k := t (hash k) @ [(k, s)]))"
  by (auto simp: bucketed_def)

lemma empty_table [simp]: "in_table (\<lambda>_. []) = {}" "bucketed (\<lambda>_. [])"
  by (simp_all add: in_table_def bucketed_def)

end

interpretation bs: hashed bs_hash bs_equals
  by unfold_locales simp

end
