(* ===== verification/Porcupine.thy ===== *)
theory Porcupine
  imports Bitset
begin

text \<open>
  The linearizability checker the tests use (\<open>src/porcupine/model.go\<close>, \<open>checker.go\<close>,
  \<open>porcupine.go\<close>): histories of operations or events, the list of call and return entries with
  the lifting and unlifting of an operation, the search of \<open>checkSingle\<close> with its cache, and
  the parallel check of the parts of a history.

  Values of type \<open>interface{}\<close> are of type \<open>'v\<close>, states of type \<open>'s\<close>. Nodes live in a heap, a list
  of nodes indexed by address in the order they are allocated; \<open>nil\<close> is \<open>None\<close>, and using it is a
  panic, as everywhere. Whether another goroutine has set the flag \<open>kill\<close> is an argument: what
  the search reads in each round. \<open>sort.Sort\<close> is an argument too: it is not stable, so what it
  does with entries of the same time is up to the runtime. The functions that describe
  operations and states are only used to draw a picture of a history and left out.
\<close>

section \<open>Histories and models (\<open>model.go\<close>)\<close>

record 'v Operation =
  o_ClientId :: int
  o_Input :: 'v
  o_Call :: int
  o_Output :: 'v
  o_Return :: int

datatype EventKind = CallEvent | ReturnEvent

record 'v Event =
  ev_ClientId :: int
  ev_Kind :: EventKind
  ev_Value :: 'v
  ev_Id :: int

text \<open>A field of function type may be \<open>nil\<close>; a partition and a step may panic on a value of another type.\<close>

record ('v, 's) Model =
  m_Partition :: "('v Operation list \<Rightarrow> 'v Operation list list option) option"
  m_PartitionEvent :: "('v Event list \<Rightarrow> 'v Event list list option) option"
  m_Init :: 's
  m_Step :: "'s \<Rightarrow> 'v \<Rightarrow> 'v \<Rightarrow> (bool \<times> 's) option"
  m_Equal :: "('s \<Rightarrow> 's \<Rightarrow> bool) option"

definition NoPartition :: "'v Operation list \<Rightarrow> 'v Operation list list" where
  "NoPartition history = [history]"

definition NoPartitionEvent :: "'v Event list \<Rightarrow> 'v Event list list" where
  "NoPartitionEvent history = [history]"

text \<open>\<open>==\<close> on states of a comparable Go type, such as the strings of \<open>KvModel\<close>; on maps and slices the code
  panics, so a model with such states has to bring its own equality.\<close>

definition ShallowEqual :: "'s \<Rightarrow> 's \<Rightarrow> bool" where
  "ShallowEqual state1 state2 = (state1 = state2)"

datatype CheckResult = Unknown | Ok | Illegal

definition fillDefault :: "('v, 's) Model \<Rightarrow> ('v, 's) Model" where
  "fillDefault model = model\<lparr>
     m_Partition := (case m_Partition model of None \<Rightarrow> Some (Some \<circ> NoPartition) | Some p \<Rightarrow> Some p),
     m_PartitionEvent := (case m_PartitionEvent model of None \<Rightarrow> Some (Some \<circ> NoPartitionEvent) | Some p \<Rightarrow> Some p),
     m_Equal := (case m_Equal model of None \<Rightarrow> Some ShallowEqual | Some p \<Rightarrow> Some p)\<rparr>"

section \<open>Entries\<close>

datatype entryKind = callEntry | returnEntry

record 'v entry =
  e_kind :: entryKind
  e_value :: 'v
  e_id :: int
  e_time :: int
  e_clientId :: int

fun operationEntries :: "int \<Rightarrow> 'v Operation list \<Rightarrow> 'v entry list" where
  "operationEntries n [] = []"
| "operationEntries n (elem # history) =
     \<lparr>e_kind = callEntry, e_value = o_Input elem, e_id = n, e_time = o_Call elem, e_clientId = o_ClientId elem\<rparr> #
     \<lparr>e_kind = returnEntry, e_value = o_Output elem, e_id = n, e_time = o_Return elem, e_clientId = o_ClientId elem\<rparr> #
     operationEntries (n + 1) history"

definition makeEntries :: "('v entry list \<Rightarrow> 'v entry list) \<Rightarrow> 'v Operation list \<Rightarrow> 'v entry list" where
  "makeEntries sortEntries history = sortEntries (operationEntries 0 history)"

fun renumber_loop :: "(int \<Rightarrow> int option) \<Rightarrow> int \<Rightarrow> 'v Event list \<Rightarrow> 'v Event list" where
  "renumber_loop m n [] = []"
| "renumber_loop m n (v # events) =
     (case m (ev_Id v) of
        Some r \<Rightarrow> v\<lparr>ev_Id := r\<rparr> # renumber_loop m n events
      | None \<Rightarrow> v\<lparr>ev_Id := n\<rparr> # renumber_loop (m(ev_Id v \<mapsto> n)) (n + 1) events)"

definition renumber :: "'v Event list \<Rightarrow> 'v Event list" where
  "renumber events = renumber_loop (\<lambda>_. None) 0 events"

fun convertEntries_loop :: "int \<Rightarrow> 'v Event list \<Rightarrow> 'v entry list" where
  "convertEntries_loop i [] = []"
| "convertEntries_loop i (elem # events) =
     \<lparr>e_kind = (if ev_Kind elem = ReturnEvent then returnEntry else callEntry), e_value = ev_Value elem,
      e_id = ev_Id elem, e_time = i, e_clientId = ev_ClientId elem\<rparr> # convertEntries_loop (i + 1) events"

definition convertEntries :: "'v Event list \<Rightarrow> 'v entry list" where
  "convertEntries events = convertEntries_loop 0 events"

section \<open>The doubly linked list of entries\<close>

text \<open>Only the node before the first entry has no value.\<close>

record 'v node =
  n_value :: "'v option"
  n_match :: "nat option"
  n_id :: int
  n_next :: "nat option"
  n_prev :: "nat option"

type_synonym 'v heap = "'v node list"

definition deref :: "'v heap \<Rightarrow> nat option \<Rightarrow> 'v node option" where
  "deref h p = (case p of None \<Rightarrow> None | Some a \<Rightarrow> idx h (int a))"

definition set_next :: "nat option \<Rightarrow> nat option \<Rightarrow> 'v heap \<Rightarrow> 'v heap option" where
  "set_next p q h = (case p of None \<Rightarrow> None | Some a \<Rightarrow> do { n \<leftarrow> idx h (int a); update_at h (int a) (n\<lparr>n_next := q\<rparr>) })"

definition set_prev :: "nat option \<Rightarrow> nat option \<Rightarrow> 'v heap \<Rightarrow> 'v heap option" where
  "set_prev p q h = (case p of None \<Rightarrow> None | Some a \<Rightarrow> do { n \<leftarrow> idx h (int a); update_at h (int a) (n\<lparr>n_prev := q\<rparr>) })"

definition insertBefore :: "nat \<Rightarrow> nat option \<Rightarrow> 'v heap \<Rightarrow> 'v heap option" where
  "insertBefore n mark h =
     (if mark \<noteq> None then do {
        marked \<leftarrow> deref h mark;
        let beforeMark = n_prev marked;
        h \<leftarrow> set_prev mark (Some n) h;
        h \<leftarrow> set_next (Some n) mark h;
        if beforeMark \<noteq> None then do {
          h \<leftarrow> set_prev (Some n) beforeMark h;
          set_next beforeMark (Some n) h }
        else Some h }
      else Some h)"

partial_function (option) length_loop :: "'v heap \<Rightarrow> nat option \<Rightarrow> nat \<Rightarrow> nat option" where
  "length_loop h n l = (if n \<noteq> None then do { x \<leftarrow> deref h n; length_loop h (n_next x) (l + 1) } else Some l)"

declare length_loop.simps [code]

definition node_length :: "'v heap \<Rightarrow> nat option \<Rightarrow> nat option" where
  "node_length h n = length_loop h n 0"

text \<open>The loop of \<open>makeLinkedEntries\<close> goes from the last entry to the first.\<close>

fun linkEntries :: "'v entry list \<Rightarrow> nat option \<Rightarrow> (int \<Rightarrow> nat option) \<Rightarrow> 'v heap \<Rightarrow> (nat option \<times> 'v heap) option" where
  "linkEntries [] root match h = Some (root, h)"
| "linkEntries (elem # rest) root match h =
     (if e_kind elem = returnEntry then do {
        let entry = length h;
        let h = h @ [\<lparr>n_value = Some (e_value elem), n_match = None, n_id = e_id elem, n_next = None, n_prev = None\<rparr>];
        h \<leftarrow> insertBefore entry root h;
        linkEntries rest (Some entry) (match(e_id elem \<mapsto> entry)) h }
      else do {
        let entry = length h;
        let h = h @ [\<lparr>n_value = Some (e_value elem), n_match = match (e_id elem), n_id = e_id elem, n_next = None, n_prev = None\<rparr>];
        h \<leftarrow> insertBefore entry root h;
        linkEntries rest (Some entry) match h })"

definition makeLinkedEntries :: "'v entry list \<Rightarrow> (nat option \<times> 'v heap) option" where
  "makeLinkedEntries entries = linkEntries (rev entries) None (\<lambda>_. None) []"

definition lift :: "nat \<Rightarrow> 'v heap \<Rightarrow> 'v heap option" where
  "lift entry h = do {
     e \<leftarrow> deref h (Some entry);
     h \<leftarrow> set_next (n_prev e) (n_next e) h;
     e \<leftarrow> deref h (Some entry);
     h \<leftarrow> set_prev (n_next e) (n_prev e) h;
     e \<leftarrow> deref h (Some entry);
     let match = n_match e;
     m \<leftarrow> deref h match;
     h \<leftarrow> set_next (n_prev m) (n_next m) h;
     m \<leftarrow> deref h match;
     if n_next m \<noteq> None then set_prev (n_next m) (n_prev m) h else Some h }"

definition unlift :: "nat \<Rightarrow> 'v heap \<Rightarrow> 'v heap option" where
  "unlift entry h = do {
     e \<leftarrow> deref h (Some entry);
     let match = n_match e;
     m \<leftarrow> deref h match;
     h \<leftarrow> set_next (n_prev m) match h;
     m \<leftarrow> deref h match;
     h \<leftarrow> (if n_next m \<noteq> None then set_prev (n_next m) match h else Some h);
     e \<leftarrow> deref h (Some entry);
     h \<leftarrow> set_next (n_prev e) (Some entry) h;
     e \<leftarrow> deref h (Some entry);
     set_prev (n_next e) (Some entry) h }"

section \<open>The search (\<open>checkSingle\<close>)\<close>

type_synonym 's cacheEntry = "bitset \<times> 's"

type_synonym 's callsEntry = "nat \<times> 's"

definition cacheContains :: "('v, 's) Model \<Rightarrow> (64 word \<Rightarrow> 's cacheEntry list) \<Rightarrow> 's cacheEntry \<Rightarrow> bool option" where
  "cacheContains model cache entry = do {
     equal \<leftarrow> m_Equal model;
     Some (\<exists>elem \<in> set (cache (bs_hash (fst entry))). bs_equals (fst entry) (fst elem) \<and> equal (snd entry) (snd elem)) }"

text \<open>
  The variables of \<open>checkSingle\<close>. \<open>longest\<close> holds pointers to sequences of ids; the sequences are
  kept in \<open>seqs\<close> in the order of their allocation, and a pointer is a position there. \<open>rounds\<close> counts
  the rounds of the loop, to tell which reading of \<open>kill\<close> comes next.
\<close>

record ('v, 's) search =
  s_heap :: "'v heap"
  s_entry :: "nat option"
  s_state :: 's
  linearized :: bitset
  s_cache :: "64 word \<Rightarrow> 's cacheEntry list"
  s_calls :: "'s callsEntry list"
  longest :: "nat option list"
  seqs :: "int list list"
  rounds :: nat

text \<open>The conversion of an \<open>int\<close> to a \<open>uint\<close>, of 64 bits.\<close>

definition toUint :: "int \<Rightarrow> nat" where
  "toUint i = (if i < 0 then nat (i + 2 ^ 64) else nat i)"

fun callIds :: "'v heap \<Rightarrow> 's callsEntry list \<Rightarrow> int list option" where
  "callIds h [] = Some []"
| "callIds h (v # calls) = do { n \<leftarrow> deref h (Some (fst v)); ids \<leftarrow> callIds h calls; Some (n_id n # ids) }"

text \<open>
  \<open>noteLongest\<close> is the loop that makes the slots of all calls point to the new sequence, at
  position \<open>p\<close>, where it is longer. The code allocates the sequence when it first needs it.
\<close>

fun noteLongest :: "int list list \<Rightarrow> nat \<Rightarrow> nat \<Rightarrow> int list \<Rightarrow> nat option list \<Rightarrow> nat option list option" where
  "noteLongest ss callsLen p [] longst = Some longst"
| "noteLongest ss callsLen p (i # ids) longst = do {
     old \<leftarrow> idx longst i;
     longst \<leftarrow> (if (case old of None \<Rightarrow> True | Some q \<Rightarrow> callsLen > length (ss ! q))
       then update_at longst i (Some p) else Some longst);
     noteLongest ss callsLen p ids longst }"

definition updateLongest :: "('v, 's) search \<Rightarrow> ('v, 's) search option" where
  "updateLongest st = do {
     seq \<leftarrow> callIds (s_heap st) (s_calls st);
     let seqs' = seqs st @ [seq];
     longest' \<leftarrow> noteLongest seqs' (length (s_calls st)) (length (seqs st)) seq (longest st);
     Some (st\<lparr>longest := longest', seqs := seqs'\<rparr>) }"

datatype ('v, 's) search_turn = Returned bool "('v, 's) search" | Continued "('v, 's) search"

text \<open>The body of the loop for an entry that is a call, and for one that is a return.\<close>

definition tryCall :: "('v, 's) Model \<Rightarrow> nat \<Rightarrow> nat \<Rightarrow> 'v node \<Rightarrow> ('v, 's) search \<Rightarrow> ('v, 's) search option" where
  "tryCall model headEntry entry e st = do {
     matching \<leftarrow> deref (s_heap st) (n_match e);
     input \<leftarrow> n_value e;
     output \<leftarrow> n_value matching;
     (ok, newState) \<leftarrow> m_Step model (s_state st) input output;
     if ok then do {
       newLinearized \<leftarrow> bs_set (clone (linearized st)) (toUint (n_id e));
       found \<leftarrow> cacheContains model (s_cache st) (newLinearized, newState);
       if \<not> found then do {
         let hash = bs_hash newLinearized;
         let cache = (s_cache st)(hash := s_cache st hash @ [(newLinearized, newState)]);
         linearized' \<leftarrow> bs_set (linearized st) (toUint (n_id e));
         h \<leftarrow> lift entry (s_heap st);
         head \<leftarrow> deref h (Some headEntry);
         Some (st\<lparr>s_cache := cache, s_calls := s_calls st @ [(entry, s_state st)], s_state := newState,
           linearized := linearized', s_heap := h, s_entry := n_next head\<rparr>) }
       else Some (st\<lparr>s_entry := n_next e\<rparr>) }
     else Some (st\<lparr>s_entry := n_next e\<rparr>) }"

definition backtrack :: "bool \<Rightarrow> ('v, 's) search \<Rightarrow> ('v, 's) search option" where
  "backtrack computePartial st = do {
     st \<leftarrow> (if computePartial then updateLongest st else Some st);
     callsTop \<leftarrow> last_elem (s_calls st);
     e \<leftarrow> deref (s_heap st) (Some (fst callsTop));
     linearized' \<leftarrow> bs_clear (linearized st) (toUint (n_id e));
     h \<leftarrow> unlift (fst callsTop) (s_heap st);
     e \<leftarrow> deref h (Some (fst callsTop));
     Some (st\<lparr>s_state := snd callsTop, linearized := linearized', s_calls := butlast (s_calls st),
       s_heap := h, s_entry := n_next e\<rparr>) }"

definition checkSingle_turn ::
  "('v, 's) Model \<Rightarrow> bool \<Rightarrow> bool \<Rightarrow> nat \<Rightarrow> ('v, 's) search \<Rightarrow> ('v, 's) search_turn option" where
  "checkSingle_turn model computePartial killed headEntry st =
     (if killed then Some (Returned False st)
      else case s_entry st of None \<Rightarrow> None | Some entry \<Rightarrow> do {
        e \<leftarrow> deref (s_heap st) (Some entry);
        if n_match e \<noteq> None then map_option Continued (tryCall model headEntry entry e st)
        else if s_calls st = [] then Some (Returned False st)
        else map_option Continued (backtrack computePartial st) })"

text \<open>After the loop, every slot points to the complete linearization.\<close>

definition checkSingle_done :: "nat \<Rightarrow> ('v, 's) search \<Rightarrow> ('v, 's) search option" where
  "checkSingle_done n st = do {
     seq \<leftarrow> callIds (s_heap st) (s_calls st);
     Some (st\<lparr>longest := replicate n (Some (length (seqs st))), seqs := seqs st @ [seq]\<rparr>) }"

partial_function (option) checkSingle_loop ::
  "('v, 's) Model \<Rightarrow> bool \<Rightarrow> (nat \<Rightarrow> bool) \<Rightarrow> nat \<Rightarrow> nat \<Rightarrow> ('v, 's) search \<Rightarrow> (bool \<times> ('v, 's) search) option" where
  "checkSingle_loop model computePartial kill headEntry n st = do {
     head \<leftarrow> deref (s_heap st) (Some headEntry);
     if n_next head \<noteq> None then do {
       t \<leftarrow> checkSingle_turn model computePartial (kill (rounds st)) headEntry st;
       case t of
         Returned b st' \<Rightarrow> Some (b, st')
       | Continued st' \<Rightarrow> checkSingle_loop model computePartial kill headEntry n (st'\<lparr>rounds := rounds st + 1\<rparr>) }
     else map_option (Pair True) (checkSingle_done n st) }"

declare checkSingle_loop.simps [code]

text \<open>The state the loop starts in, with the node before the first entry and the number of operations.\<close>

definition checkSingle_start :: "('v, 's) Model \<Rightarrow> 'v entry list \<Rightarrow> (nat \<times> nat \<times> ('v, 's) search) option" where
  "checkSingle_start model history = do {
     (entry, h) \<leftarrow> makeLinkedEntries history;
     len \<leftarrow> node_length h entry;
     let n = len div 2;
     let headEntry = length h;
     let h = h @ [\<lparr>n_value = None, n_match = None, n_id = -1, n_next = None, n_prev = None\<rparr>];
     h \<leftarrow> insertBefore headEntry entry h;
     Some (headEntry, n, \<lparr>s_heap = h, s_entry = entry, s_state = m_Init model, linearized = newBitset n,
       s_cache = (\<lambda>_. []), s_calls = [], longest = replicate n None, seqs = [], rounds = 0\<rparr>) }"

definition checkSingle ::
  "('v, 's) Model \<Rightarrow> 'v entry list \<Rightarrow> bool \<Rightarrow> (nat \<Rightarrow> bool) \<Rightarrow> (bool \<times> ('v, 's) search) option" where
  "checkSingle model history computePartial kill = do {
     (headEntry, n, st) \<leftarrow> checkSingle_start model history;
     checkSingle_loop model computePartial kill headEntry n st }"

end
