(* ===== verification/PorcupineList.thy ===== *)
theory PorcupineList
  imports Porcupine
begin

text \<open>
  The doubly linked list of the checker. \<open>links h p xs q\<close> says that the nodes \<open>xs\<close> are linked
  in this order, after \<open>p\<close> and before \<open>q\<close>. \<open>lift\<close> takes a call and its return out of the list,
  \<open>unlift\<close> restores the very heap there was before, since a node that is taken out keeps its
  own pointers; \<open>makeLinkedEntries\<close> links the entries of a history in their order.
\<close>

section \<open>Linked nodes\<close>

definition first_of :: "nat list \<Rightarrow> nat option \<Rightarrow> nat option" where
  "first_of xs q = (case xs of [] \<Rightarrow> q | x # _ \<Rightarrow> Some x)"

fun links :: "'v heap \<Rightarrow> nat option \<Rightarrow> nat list \<Rightarrow> nat option \<Rightarrow> bool" where
  "links h p [] q = True"
| "links h p (x # xs) q = (x < length h \<and> n_prev (h ! x) = p \<and> n_next (h ! x) = first_of xs q \<and> links h (Some x) xs q)"

lemma first_of_simps [simp]: "first_of [] q = q" "first_of (x # xs) q = Some x"
  by (simp_all add: first_of_def)

lemma first_of_append [simp]: "first_of (xs @ ys) q = first_of xs (first_of ys q)"
  by (cases xs) simp_all

lemma links_append:
  "links h p (xs @ ys) q \<longleftrightarrow> links h p xs (first_of ys q) \<and> links h (if xs = [] then p else Some (last xs)) ys q"
  by (induction xs arbitrary: p) auto

lemma links_bound: "links h p xs q \<Longrightarrow> x \<in> set xs \<Longrightarrow> x < length h"
  by (induction xs arbitrary: p) auto

lemma links_cong:
  assumes "links h p xs q" and "length h \<le> length h'"
    and "\<And>x. x \<in> set xs \<Longrightarrow> n_next (h' ! x) = n_next (h ! x) \<and> n_prev (h' ! x) = n_prev (h ! x)"
  shows "links h' p xs q"
  using assms by (induction xs arbitrary: p) auto

lemma nth_upd: "h[x := v] ! a = (if a = x \<and> x < length h then v else h ! a)"
  by (cases "x < length h") (auto simp: nth_list_update not_less list_update_beyond)

lemma links_new_next:
  assumes "links h p (xs @ [x]) q" and "distinct (xs @ [x])"
  shows "links (h[x := (h ! x)\<lparr>n_next := r\<rparr>]) p (xs @ [x]) r"
proof -
  have x: "x < length h" and xs: "links h p xs (Some x)" and prev: "n_prev (h ! x) = (if xs = [] then p else Some (last xs))"
    using assms(1) by (simp_all add: links_append)
  have "links (h[x := (h ! x)\<lparr>n_next := r\<rparr>]) p xs (Some x)"
    by (rule links_cong [OF xs]) (use assms(2) in \<open>auto simp: nth_upd\<close>)
  with x prev show ?thesis by (simp add: links_append)
qed

lemma links_new_prev:
  assumes "links h p (x # xs) q" and "distinct (x # xs)"
  shows "links (h[x := (h ! x)\<lparr>n_prev := r\<rparr>]) r (x # xs) q"
proof -
  have "links (h[x := (h ! x)\<lparr>n_prev := r\<rparr>]) (Some x) xs q"
    by (rule links_cong [of h]) (use assms in \<open>auto simp: nth_upd\<close>)
  with assms(1) show ?thesis by simp
qed

section \<open>Taking a node out and putting it back\<close>

definition unlink :: "nat \<Rightarrow> 'v heap \<Rightarrow> 'v heap" where
  "unlink e h = (let u = the (n_prev (h ! e)); h' = h[u := (h ! u)\<lparr>n_next := n_next (h ! e)\<rparr>]
     in case n_next (h ! e) of None \<Rightarrow> h' | Some w \<Rightarrow> h'[w := (h' ! w)\<lparr>n_prev := n_prev (h ! e)\<rparr>])"

definition relink :: "nat \<Rightarrow> 'v heap \<Rightarrow> 'v heap" where
  "relink e h = (let u = the (n_prev (h ! e)); h' = h[u := (h ! u)\<lparr>n_next := Some e\<rparr>]
     in case n_next (h ! e) of None \<Rightarrow> h' | Some w \<Rightarrow> h'[w := (h' ! w)\<lparr>n_prev := Some e\<rparr>])"

lemma unlink_length [simp]: "length (unlink e h) = length h"
  by (simp add: unlink_def Let_def split: option.split)

text \<open>What a node says about itself does not change, and the links of a node taken out stay.\<close>

lemma unlink_fields [simp]:
  "n_value (unlink e h ! a) = n_value (h ! a)" "n_match (unlink e h ! a) = n_match (h ! a)" "n_id (unlink e h ! a) = n_id (h ! a)"
  by (auto simp: unlink_def Let_def nth_upd split: option.split)

lemma around:
  assumes "links h p (us @ e # vs) None" and "us \<noteq> []" and "distinct (us @ e # vs)"
  shows "e < length h" "n_prev (h ! e) = Some (last us)" "n_next (h ! e) = first_of vs None"
    "last us < length h" "n_next (h ! last us) = Some e" "last us \<noteq> e" "e \<notin> set vs" "last us \<notin> set vs"
    "vs \<noteq> [] \<Longrightarrow> hd vs < length h \<and> n_prev (h ! hd vs) = Some e \<and> hd vs \<noteq> last us \<and> hd vs \<noteq> e"
proof -
  from assms(2) obtain us' u where us: "us = us' @ [u]" by (cases us rule: rev_cases) auto
  from assms(1,3) show "e < length h" "n_prev (h ! e) = Some (last us)" "n_next (h ! e) = first_of vs None"
    "last us < length h" "n_next (h ! last us) = Some e" "last us \<noteq> e" "e \<notin> set vs" "last us \<notin> set vs"
    by (auto simp: us links_append)
  assume "vs \<noteq> []"
  then obtain w vs' where "vs = w # vs'" by (cases vs) auto
  with assms(1,3) show "hd vs < length h \<and> n_prev (h ! hd vs) = Some e \<and> hd vs \<noteq> last us \<and> hd vs \<noteq> e"
    by (auto simp: us links_append)
qed

lemma unlink_links:
  assumes "links h p (us @ e # vs) None" and "us \<noteq> []" and "distinct (us @ e # vs)"
  shows "links (unlink e h) p (us @ vs) None"
proof -
  note e = around [OF assms]
  let ?h = "h[last us := (h ! last us)\<lparr>n_next := first_of vs None\<rparr>]"
  have "links h p (butlast us @ [last us]) (Some e)" and vs: "links h (Some e) vs None"
    using assms(1,2) by (simp_all add: links_append)
  from links_new_next [OF this(1)] have us: "links ?h p us (first_of vs None)"
    using assms(2,3) by simp
  have vs: "links ?h (Some e) vs None"
    by (rule links_cong [OF vs]) (use e(8) in \<open>auto simp: nth_upd\<close>)
  show ?thesis
  proof (cases vs)
    case Nil
    with us e(2,3) show ?thesis by (simp add: unlink_def links_append Let_def)
  next
    case (Cons w vs')
    let ?h' = "?h[w := (?h ! w)\<lparr>n_prev := Some (last us)\<rparr>]"
    have eq: "unlink e h = ?h'" using e(2,3) Cons by (simp add: unlink_def Let_def)
    have 1: "links ?h' p us (Some w)"
      by (rule links_cong) (use us assms(3) Cons in \<open>auto simp: nth_upd\<close>)
    have 2: "links ?h' (Some (last us)) vs None"
      using links_new_prev [of ?h "Some e" w vs'] vs assms(3) by (simp add: Cons)
    have "first_of vs None = Some w" "us \<noteq> []" using assms(2) Cons by simp_all
    with 1 2 show ?thesis unfolding eq links_append by (simp only: simp_thms if_False)
  qed
qed

text \<open>The links of a node outside the neighbourhood stay.\<close>

lemma unlink_own:
  assumes "links h p (us @ e # vs) None" and "us \<noteq> []" and "distinct (us @ e # vs)"
  shows "unlink e h ! e = h ! e"
  using around [OF assms] by (cases vs) (simp_all add: unlink_def Let_def)

lemma relink_unlink:
  assumes "links h p (us @ e # vs) None" and "us \<noteq> []" and "distinct (us @ e # vs)"
  shows "relink e (unlink e h) = h"
proof -
  note e = around [OF assms]
  have own: "unlink e h ! e = h ! e" by (rule unlink_own [OF assms])
  let ?u = "last us"
  show ?thesis
  proof (cases vs)
    case Nil
    then show ?thesis using e by (simp add: relink_def own Let_def) (simp add: unlink_def Let_def list_update_same_conv)
  next
    case (Cons w vs')
    with e have w: "w < length h" "n_prev (h ! w) = Some e" "w \<noteq> ?u" "w \<noteq> e" by auto
    have h: "unlink e h = h[?u := (h ! ?u)\<lparr>n_next := Some w\<rparr>, w := (h ! w)\<lparr>n_prev := Some ?u\<rparr>]"
      using e w Cons by (simp add: unlink_def Let_def)
    have same: "h[?u := (h ! ?u)\<lparr>n_next := Some e\<rparr>] = h" "h[w := (h ! w)\<lparr>n_prev := Some e\<rparr>] = h"
      using e(5) w(2) by (metis (mono_tags, lifting) list_update_id node.surjective node.update_convs(4,5))+
    show ?thesis using e w Cons
      by (simp add: relink_def own Let_def) (simp add: h list_update_swap [of ?u w] same)
  qed
qed

section \<open>Lifting an operation\<close>

lemma deref_Some [simp]: "a < length h \<Longrightarrow> deref h (Some a) = Some (h ! a)"
  by (simp add: deref_def)

lemma set_next_Some [simp]: "a < length h \<Longrightarrow> set_next (Some a) q h = Some (h[a := (h ! a)\<lparr>n_next := q\<rparr>])"
  by (simp add: set_next_def update_at_def)

lemma set_prev_Some [simp]: "a < length h \<Longrightarrow> set_prev (Some a) q h = Some (h[a := (h ! a)\<lparr>n_prev := q\<rparr>])"
  by (simp add: set_prev_def update_at_def)

text \<open>A call \<open>e\<close> in the list with its return \<open>m\<close> after it.\<close>

definition operation_at :: "'v heap \<Rightarrow> nat list \<Rightarrow> nat \<Rightarrow> nat list \<Rightarrow> nat \<Rightarrow> nat list \<Rightarrow> bool" where
  "operation_at h us e vs m ws \<longleftrightarrow> links h None (us @ e # vs @ m # ws) None \<and> us \<noteq> [] \<and>
     distinct (us @ e # vs @ m # ws) \<and> n_match (h ! e) = Some m"

lemma operation_atD:
  assumes "operation_at h us e vs m ws"
  shows "links h None (us @ e # vs @ m # ws) None" "us \<noteq> []" "distinct (us @ e # vs @ m # ws)" "n_match (h ! e) = Some m"
    "us @ vs \<noteq> []" "links (unlink e h) None ((us @ vs) @ m # ws) None" "distinct ((us @ vs) @ m # ws)"
  using assms unlink_links [of h None us e "vs @ m # ws"] by (auto simp: operation_at_def)

lemma lifted_links: "operation_at h us e vs m ws \<Longrightarrow> links (unlink m (unlink e h)) None (us @ vs @ ws) None"
  using unlink_links [OF operation_atD(6,5,7)] by simp

lemma lift_unlinks:
  assumes op: "operation_at h us e vs m ws"
  shows "lift e h = Some (unlink m (unlink e h))"
proof -
  note linked = operation_atD(1) [OF op] and before = operation_atD(2) [OF op] and distinct = operation_atD(3) [OF op]
    and match = operation_atD(4) [OF op] and us1 = operation_atD(5) [OF op] and linked1 = operation_atD(6) [OF op]
    and distinct1 = operation_atD(7) [OF op]
  let ?h1 = "unlink e h"
  note e = around [OF linked before distinct]
  note m = around [OF linked1 us1 distinct1]
  let ?w = "hd (vs @ [m])" and ?h = "h[last us := (h ! last us)\<lparr>n_next := Some (hd (vs @ [m]))\<rparr>]"
  have next': "n_next (h ! e) = Some ?w" and w: "?w < length h" "?w \<noteq> last us" "?w \<noteq> e"
    using e(3,9) by (cases vs; simp)+
  have h1: "?h[?w := (h ! ?w)\<lparr>n_prev := Some (last us)\<rparr>] = ?h1"
    using w(2) by (simp add: unlink_def Let_def next' e(2))
  have own: "?h ! e = h ! e" using e(6) by simp
  have "lift e h = do {
     e' \<leftarrow> deref ?h1 (Some e);
     m' \<leftarrow> deref ?h1 (n_match e');
     h \<leftarrow> set_next (n_prev m') (n_next m') ?h1;
     m' \<leftarrow> deref h (n_match e');
     if n_next m' \<noteq> None then set_prev (n_next m') (n_prev m') h else Some h }"
    using e(1,2,4) w own by (simp add: lift_def next' h1 Let_def)
  also have "\<dots> = do {
     h \<leftarrow> set_next (n_prev (?h1 ! m)) (n_next (?h1 ! m)) ?h1;
     m' \<leftarrow> deref h (Some m);
     if n_next m' \<noteq> None then set_prev (n_next m') (n_prev m') h else Some h }"
    using e(1) m(1) match by simp
  also have "\<dots> = Some (unlink m ?h1)"
    using m by (cases ws) (simp_all add: unlink_def Let_def nth_list_update)
  finally show ?thesis .
qed

lemma unlift_restores:
  assumes op: "operation_at h us e vs m ws"
  shows "unlift e (unlink m (unlink e h)) = Some h"
proof -
  note linked = operation_atD(1) [OF op] and before = operation_atD(2) [OF op] and distinct = operation_atD(3) [OF op]
    and match = operation_atD(4) [OF op] and us1 = operation_atD(5) [OF op] and linked1 = operation_atD(6) [OF op]
    and distinct1 = operation_atD(7) [OF op]
  let ?h1 = "unlink e h"
  note e = around [OF linked before distinct]
  note m = around [OF linked1 us1 distinct1]
  let ?h2 = "unlink m ?h1"
  have "?h2 ! m = ?h1 ! m" by (rule unlink_own [OF linked1 us1 distinct1])
  then have "unlift e ?h2 = do {
     h \<leftarrow> Some (relink m ?h2);
     e' \<leftarrow> deref h (Some e);
     h \<leftarrow> set_next (n_prev e') (Some e) h;
     e' \<leftarrow> deref h (Some e);
     set_prev (n_next e') (Some e) h }"
    using e(1) m match
    by (cases ws) (simp_all add: unlift_def Let_def relink_def nth_list_update)
  also have "relink m ?h2 = ?h1" by (rule relink_unlink [OF linked1 us1 distinct1])
  also have "do {
     h \<leftarrow> Some ?h1;
     e' \<leftarrow> deref h (Some e);
     h \<leftarrow> set_next (n_prev e') (Some e) h;
     e' \<leftarrow> deref h (Some e);
     set_prev (n_next e') (Some e) h } = Some (relink e ?h1)"
  proof -
    have own: "?h1 ! e = h ! e" by (rule unlink_own [OF linked before distinct])
    show ?thesis using e unfolding relink_def own Let_def
      by (cases vs) (simp_all add: own nth_list_update)
  qed
  also have "relink e ?h1 = h" by (rule relink_unlink [OF linked before distinct])
  finally show ?thesis .
qed

section \<open>Building the list\<close>

lemma insertBefore_links:
  assumes "links h None xs None" and "\<And>x. x \<in> set xs \<Longrightarrow> x < length h" and "distinct xs"
    and "n_next node = None" and "n_prev node = None"
  shows "\<exists>h'. insertBefore (length h) (first_of xs None) (h @ [node]) = Some h' \<and> length h' = Suc (length h) \<and>
    links h' None (length h # xs) None \<and>
    (\<forall>a. n_value (h' ! a) = n_value ((h @ [node]) ! a) \<and> n_match (h' ! a) = n_match ((h @ [node]) ! a) \<and>
      n_id (h' ! a) = n_id ((h @ [node]) ! a))"
proof (cases xs)
  case Nil
  with assms(4,5) show ?thesis by (simp add: insertBefore_def)
next
  case (Cons x xs')
  let ?h = "h @ [node]"
  let ?h1 = "?h[x := (?h ! x)\<lparr>n_prev := Some (length h)\<rparr>]"
  let ?h2 = "?h1[length h := node\<lparr>n_next := Some x\<rparr>]"
  have x: "x < length h" using assms(2) Cons by simp
  have "links ?h None (x # xs') None"
    by (rule links_cong [of h]) (use assms(1,2) Cons in \<open>auto simp: nth_append\<close>)
  from this have "n_prev (?h ! x) = None" and "links ?h1 (Some (length h)) (x # xs') None"
    using links_new_prev [of ?h None x xs' None "Some (length h)"] assms(3) Cons by simp_all
  moreover from this(2) have "links ?h2 (Some (length h)) (x # xs') None"
    by (rule links_cong) (use assms(2) Cons in \<open>auto simp: nth_upd\<close>)
  ultimately show ?thesis using x assms(4,5) Cons
    by (intro exI [of _ ?h2]) (simp add: insertBefore_def Let_def nth_upd)
qed

text \<open>The map \<open>match\<close> of \<open>makeLinkedEntries\<close>: where the last return of an id is, in the reversed history.\<close>

definition matches :: "'v entry list \<Rightarrow> int \<Rightarrow> nat option" where
  "matches xs i = (let bs = filter (\<lambda>b. e_kind (xs ! b) = returnEntry \<and> e_id (xs ! b) = i) [0..<length xs]
     in if bs = [] then None else Some (last bs))"

lemma matches_Nil [simp]: "matches [] = (\<lambda>_. None)"
  by (simp add: matches_def fun_eq_iff)

lemma matches_snoc:
  "matches (xs @ [x]) = (if e_kind x = returnEntry then (matches xs)(e_id x \<mapsto> length xs) else matches xs)"
proof
  fix i
  have "filter (\<lambda>b. e_kind ((xs @ [x]) ! b) = returnEntry \<and> e_id ((xs @ [x]) ! b) = i) [0..<length xs] =
      filter (\<lambda>b. e_kind (xs ! b) = returnEntry \<and> e_id (xs ! b) = i) [0..<length xs]"
    by (rule filter_cong) (simp_all add: nth_append)
  then show "matches (xs @ [x]) i =
      (if e_kind x = returnEntry then (matches xs)(e_id x \<mapsto> length xs) else matches xs) i"
    by (auto simp: matches_def Let_def)
qed

text \<open>The heap that stands for a reversed history: address \<open>a\<close> holds its entry \<open>a\<close>.\<close>

definition stands_for :: "'v heap \<Rightarrow> 'v entry list \<Rightarrow> bool" where
  "stands_for h xs \<longleftrightarrow> length xs \<le> length h \<and> (\<forall>a < length xs.
     n_value (h ! a) = Some (e_value (xs ! a)) \<and> n_id (h ! a) = e_id (xs ! a) \<and>
     n_match (h ! a) = (if e_kind (xs ! a) = returnEntry then None else matches (take a xs) (e_id (xs ! a))))"

abbreviation "downto n \<equiv> rev [0..<n]"

lemma linkEntries_spec:
  assumes "length h = length xs" and "links h None (downto (length xs)) None" and "stands_for h xs"
  shows "\<exists>h'. linkEntries ys (first_of (downto (length xs)) None) (matches xs) h =
      Some (first_of (downto (length (xs @ ys))) None, h') \<and> length h' = length (xs @ ys) \<and>
      links h' None (downto (length (xs @ ys))) None \<and> stands_for h' (xs @ ys)"
  using assms
proof (induction ys arbitrary: xs h)
  case (Cons y ys)
  let ?n = "length h"
  let ?node = "\<lparr>n_value = Some (e_value y), n_match = (if e_kind y = returnEntry then None else matches xs (e_id y)),
    n_id = e_id y, n_next = None, n_prev = None\<rparr>"
  have n: "?n = length xs" by (rule Cons.prems(1))
  obtain h' where h': "insertBefore ?n (first_of (downto ?n) None) (h @ [?node]) = Some h'" "length h' = Suc ?n"
      "links h' None (?n # downto ?n) None"
    and fields: "\<And>a. n_value (h' ! a) = n_value ((h @ [?node]) ! a) \<and> n_match (h' ! a) = n_match ((h @ [?node]) ! a) \<and>
      n_id (h' ! a) = n_id ((h @ [?node]) ! a)"
    using insertBefore_links [of h "downto ?n" ?node] Cons.prems(2) by (auto simp: n)
  have "stands_for h' (xs @ [y])"
    using Cons.prems(3) h'(2) by (auto simp: stands_for_def fields n nth_append less_Suc_eq)
  from Cons.IH [OF _ _ this] h' have IH: "\<exists>h''. linkEntries ys (Some ?n) (matches (xs @ [y])) h' =
      Some (first_of (downto (length (xs @ y # ys))) None, h'') \<and> length h'' = length (xs @ y # ys) \<and>
      links h'' None (downto (length (xs @ y # ys))) None \<and> stands_for h'' (xs @ y # ys)"
    by (simp add: n)
  have "linkEntries (y # ys) (first_of (downto (length xs)) None) (matches xs) h =
      linkEntries ys (Some ?n) (matches (xs @ [y])) h'"
    using h'(1) by (cases "e_kind y") (simp_all add: Let_def matches_snoc n)
  with IH show ?case by simp
qed simp

lemma makeLinkedEntries_spec:
  "\<exists>h. makeLinkedEntries es = Some (first_of (downto (length es)) None, h) \<and> length h = length es \<and>
     links h None (downto (length es)) None \<and> stands_for h (rev es)"
  using linkEntries_spec [of "[]" "[]" "rev es"] by (simp add: makeLinkedEntries_def stands_for_def)

lemma node_length_links:
  assumes "links h p xs None"
  shows "node_length h (first_of xs None) = Some (length xs)"
proof -
  have "length_loop h (first_of xs None) l = Some (l + length xs)" for l
    using assms
  proof (induction xs arbitrary: p l)
    case Nil
    then show ?case by (simp add: length_loop.simps)
  next
    case (Cons a xs)
    then show ?case using Cons.IH [of "Some a" "l + 1"] by (simp add: length_loop.simps [of h "Some a"])
  qed
  then show ?thesis by (simp add: node_length_def)
qed

end
