(* ===== verification/Linearizable.thy ===== *)
theory Linearizable
  imports PorcupineList
begin

text \<open>
  What the checker decides. A history is a list of call and return entries in the order of
  time; operation \<open>i\<close> precedes \<open>j\<close> if the return of \<open>i\<close> comes before the call of \<open>j\<close>. The history is
  linearizable if its operations can be put in an order that keeps this relation and that
  the model can execute, one after the other, with the recorded outputs. \<open>completes S s\<close> says
  that what is left after the operations \<open>S\<close> can be executed so from the state \<open>s\<close>; it has
  the recursion over candidates that the search explores (\<open>completes_rec\<close>).
\<close>

section \<open>Complete histories\<close>

text \<open>Every operation is called once and returns once, later; and the \<open>n\<close> operations are numbered from 0.\<close>

definition complete_history :: "'v entry list \<Rightarrow> bool" where
  "complete_history es \<longleftrightarrow> distinct (map (\<lambda>e. (e_kind e, e_id e)) es) \<and>
     (\<forall>k < length es. e_kind (es ! k) = callEntry \<longrightarrow>
        (\<exists>l < length es. k < l \<and> e_kind (es ! l) = returnEntry \<and> e_id (es ! l) = e_id (es ! k))) \<and>
     (\<forall>l < length es. e_kind (es ! l) = returnEntry \<longrightarrow>
        (\<exists>k < l. e_kind (es ! k) = callEntry \<and> e_id (es ! k) = e_id (es ! l)))"

definition well_formed :: "'v entry list \<Rightarrow> bool" where
  "well_formed es \<longleftrightarrow> complete_history es \<and> e_id ` set es = {0..<int (length es div 2)}"

definition entry_value :: "entryKind \<Rightarrow> 'v entry list \<Rightarrow> int \<Rightarrow> 'v" where
  "entry_value k es i = e_value (the (find (\<lambda>e. e_kind e = k \<and> e_id e = i) es))"

definition precedes :: "'v entry list \<Rightarrow> int \<Rightarrow> int \<Rightarrow> bool" where
  "precedes es i j \<longleftrightarrow> (\<exists>l < length es. \<exists>k < l. e_kind (es ! k) = returnEntry \<and> e_id (es ! k) = i \<and>
     e_kind (es ! l) = callEntry \<and> e_id (es ! l) = j)"

definition op_step :: "('v, 's) Model \<Rightarrow> 'v entry list \<Rightarrow> 's \<Rightarrow> int \<Rightarrow> (bool \<times> 's) option" where
  "op_step M es s i = m_Step M s (entry_value callEntry es i) (entry_value returnEntry es i)"

fun execute :: "('s \<Rightarrow> 'i \<Rightarrow> (bool \<times> 's) option) \<Rightarrow> 's \<Rightarrow> 'i list \<Rightarrow> 's option" where
  "execute step s [] = Some s"
| "execute step s (i # p) = (case step s i of Some (True, s') \<Rightarrow> execute step s' p | _ \<Rightarrow> None)"

definition legal :: "('s \<Rightarrow> 'i \<Rightarrow> (bool \<times> 's) option) \<Rightarrow> 's \<Rightarrow> 'i list \<Rightarrow> bool" where
  "legal step s p \<longleftrightarrow> execute step s p \<noteq> None"

definition linearization :: "('v, 's) Model \<Rightarrow> 'v entry list \<Rightarrow> int list \<Rightarrow> bool" where
  "linearization M es p \<longleftrightarrow> distinct p \<and> set p = e_id ` set es \<and>
     sorted_wrt (\<lambda>i j. \<not> precedes es j i) p \<and> legal (op_step M es) (m_Init M) p"

definition linearizable :: "('v, 's) Model \<Rightarrow> 'v entry list \<Rightarrow> bool" where
  "linearizable M es \<longleftrightarrow> (\<exists>p. linearization M es p)"

text \<open>A beginning of a linearization: with an operation it has all that precede it.\<close>

definition partial_linearization :: "('v, 's) Model \<Rightarrow> 'v entry list \<Rightarrow> int list \<Rightarrow> bool" where
  "partial_linearization M es p \<longleftrightarrow> distinct p \<and> set p \<subseteq> e_id ` set es \<and>
     sorted_wrt (\<lambda>i j. \<not> precedes es j i) p \<and> (\<forall>j \<in> set p. \<forall>i. precedes es i j \<longrightarrow> i \<in> set p) \<and>
     legal (op_step M es) (m_Init M) p"

definition completes :: "('v, 's) Model \<Rightarrow> 'v entry list \<Rightarrow> int set \<Rightarrow> 's \<Rightarrow> bool" where
  "completes M es S s \<longleftrightarrow> (\<exists>p. distinct p \<and> set p = e_id ` set es - S \<and>
     sorted_wrt (\<lambda>i j. \<not> precedes es j i) p \<and> legal (op_step M es) s p)"

lemma linearizable_completes: "linearizable M es \<longleftrightarrow> completes M es {} (m_Init M)"
  by (simp add: linearizable_def linearization_def completes_def)

lemma execute_Cons: "execute step s (i # p) = Some t \<longleftrightarrow> (\<exists>s'. step s i = Some (True, s') \<and> execute step s' p = Some t)"
  by (auto split: option.split prod.split bool.split)

lemma execute_append: "execute step s (p @ q) = Option.bind (execute step s p) (\<lambda>t. execute step t q)"
  by (induction p arbitrary: s) (auto split: option.split prod.split bool.split)

lemma legal_Nil [simp]: "legal step s []"
  by (simp add: legal_def)

lemma legal_Cons: "legal step s (i # p) \<longleftrightarrow> (\<exists>s'. step s i = Some (True, s') \<and> legal step s' p)"
  unfolding legal_def using execute_Cons [of step s i p] by blast

section \<open>States the model takes for equal\<close>

text \<open>
  The cache identifies states that \<open>Equal\<close> does. The model promises that equal states take the
  same steps; then they have the same executions.
\<close>

locale checker_model =
  fixes step :: "'s \<Rightarrow> 'i \<Rightarrow> (bool \<times> 's) option" and equal :: "'s \<Rightarrow> 's \<Rightarrow> bool"
  assumes equal_step: "equal s t \<Longrightarrow> step s i = Some (True, s') \<Longrightarrow> \<exists>t'. step t i = Some (True, t') \<and> equal s' t'"
begin

lemma legal_equal: "equal s t \<Longrightarrow> legal step s p \<Longrightarrow> legal step t p"
proof (induction p arbitrary: s t)
  case (Cons i p)
  from Cons.prems(2) obtain s' where s': "step s i = Some (True, s')" "legal step s' p" by (auto simp: legal_Cons)
  from equal_step [OF Cons.prems(1) s'(1)] obtain t' where "step t i = Some (True, t')" "equal s' t'" by blast
  with Cons.IH s'(2) show ?case by (auto simp: legal_Cons)
qed simp

end

text \<open>Every model whose \<open>Equal\<close> is the default one.\<close>

interpretation shallow: checker_model "op_step M es" ShallowEqual for M es
  by unfold_locales (simp add: ShallowEqual_def)

definition equal_ok :: "('v, 's) Model \<Rightarrow> bool" where
  "equal_ok M \<longleftrightarrow> (\<exists>eq. m_Equal M = Some eq \<and> (\<forall>s t i v s'. eq s t \<longrightarrow> m_Step M s i v = Some (True, s') \<longrightarrow>
     (\<exists>t'. m_Step M t i v = Some (True, t') \<and> eq s' t')))"

lemma completes_equal:
  assumes "equal_ok M" and "m_Equal M = Some eq" and "eq s t" and "completes M es S s"
  shows "completes M es S t"
proof -
  have contract: "checker_model (op_step M es) eq"
    using assms(1,2) by unfold_locales (auto simp: equal_ok_def op_step_def)
  from checker_model.legal_equal [OF contract assms(3)] assms(4) show ?thesis
    unfolding completes_def by blast
qed

section \<open>Histories by address\<close>

text \<open>Address \<open>a\<close> of the heap holds entry \<open>a\<close> of the reversed history, so a later entry has a smaller address.\<close>

definition is_call :: "'v entry list \<Rightarrow> nat \<Rightarrow> bool" where
  "is_call es a \<longleftrightarrow> e_kind (rev es ! a) = callEntry"

definition ident :: "'v entry list \<Rightarrow> nat \<Rightarrow> int" where
  "ident es a = e_id (rev es ! a)"

definition rest :: "'v entry list \<Rightarrow> int set \<Rightarrow> nat list" where
  "rest es S = filter (\<lambda>a. ident es a \<notin> S) (downto (length es))"

lemma kind_cases [simp]: "k \<noteq> returnEntry \<longleftrightarrow> k = callEntry" "k \<noteq> callEntry \<longleftrightarrow> k = returnEntry"
  by (cases k; simp)+

lemma index_address:
  assumes "k < length es"
  shows "is_call es (length es - Suc k) \<longleftrightarrow> e_kind (es ! k) = callEntry" "ident es (length es - Suc k) = e_id (es ! k)"
  using assms by (simp_all add: is_call_def ident_def rev_nth)

lemma address_index:
  assumes "a < length es"
  shows "is_call es a \<longleftrightarrow> e_kind (es ! (length es - Suc a)) = callEntry" "ident es a = e_id (es ! (length es - Suc a))"
  using assms by (simp_all add: is_call_def ident_def rev_nth)

lemma precedes_address:
  "precedes es i j \<longleftrightarrow> (\<exists>b < length es. \<exists>a < b. \<not> is_call es b \<and> ident es b = i \<and> is_call es a \<and> ident es a = j)"
proof
  assume "precedes es i j"
  then obtain l k where l: "l < length es" "k < l" "e_kind (es ! k) = returnEntry" "e_id (es ! k) = i"
      "e_kind (es ! l) = callEntry" "e_id (es ! l) = j" by (auto simp: precedes_def)
  then show "\<exists>b < length es. \<exists>a < b. \<not> is_call es b \<and> ident es b = i \<and> is_call es a \<and> ident es a = j"
    by (intro exI [of _ "length es - Suc k"] conjI exI [of _ "length es - Suc l"]) (simp_all add: index_address)
next
  assume "\<exists>b < length es. \<exists>a < b. \<not> is_call es b \<and> ident es b = i \<and> is_call es a \<and> ident es a = j"
  then obtain b a where b: "b < length es" "a < b" "\<not> is_call es b" "ident es b = i" "is_call es a" "ident es a = j" by blast
  then show "precedes es i j" unfolding precedes_def
    by (intro exI [of _ "length es - Suc a"] conjI exI [of _ "length es - Suc b"]) (simp_all add: address_index)
qed

lemma call_returns:
  assumes "well_formed es" and "a < length es" and "is_call es a"
  shows "\<exists>r < a. \<not> is_call es r \<and> ident es r = ident es a"
proof -
  let ?k = "length es - Suc a"
  have "?k < length es" "e_kind (es ! ?k) = callEntry" using assms(2,3) by (simp_all add: address_index)
  then obtain l where l: "?k < l" "l < length es" "e_kind (es ! l) = returnEntry" "e_id (es ! l) = e_id (es ! ?k)"
    using assms(1) unfolding well_formed_def complete_history_def by blast
  with assms(2) show ?thesis
    by (intro exI [of _ "length es - Suc l"]) (simp add: index_address address_index)
qed

lemma return_called:
  assumes "well_formed es" and "r < length es" and "\<not> is_call es r"
  shows "\<exists>a > r. a < length es \<and> is_call es a \<and> ident es a = ident es r"
proof -
  let ?l = "length es - Suc r"
  have "?l < length es" "e_kind (es ! ?l) = returnEntry" using assms(2,3) by (simp_all add: address_index)
  then obtain k where k: "k < ?l" "e_kind (es ! k) = callEntry" "e_id (es ! k) = e_id (es ! ?l)"
    using assms(1) unfolding well_formed_def complete_history_def by blast
  then have "r < length es - Suc k" "length es - Suc k < length es" "k < length es" by linarith+
  with k assms(2) show ?thesis
    by (intro exI [of _ "length es - Suc k"]) (simp add: index_address address_index)
qed

lemma address_unique:
  assumes "well_formed es" and "a < length es" and "b < length es" and "is_call es a = is_call es b" and "ident es a = ident es b"
  shows "a = b"
proof -
  let ?f = "map (\<lambda>e. (e_kind e, e_id e)) es"
  have "distinct ?f" using assms(1) by (simp add: well_formed_def complete_history_def)
  moreover have "e_kind (es ! (length es - Suc a)) = e_kind (es ! (length es - Suc b))"
    using assms(4) unfolding address_index(1) [OF assms(2)] address_index(1) [OF assms(3)]
    by (cases "e_kind (es ! (length es - Suc a))"; cases "e_kind (es ! (length es - Suc b))") simp_all
  then have "?f ! (length es - Suc a) = ?f ! (length es - Suc b)"
    using assms(2,3,5) by (simp add: address_index)
  ultimately have "length es - Suc a = length es - Suc b"
    using assms(2,3) by (subst (asm) nth_eq_iff_index_eq) auto
  with assms(2,3) show ?thesis by linarith
qed

lemma idents: "ident es ` {..<length es} = e_id ` set es"
proof -
  have "e_id ` set es = e_id ` set (rev es)" by simp
  also have "\<dots> = (\<lambda>a. e_id (rev es ! a)) ` {..<length es}"
    by (simp only: set_conv_nth) (auto simp: image_iff)
  finally show ?thesis by (simp add: ident_def [abs_def])
qed

lemma idents_wf: "well_formed es \<Longrightarrow> e_id ` set es = {0..<int (length es div 2)}"
  by (simp add: well_formed_def)

text \<open>The address of the return of a call.\<close>

definition return_of :: "'v entry list \<Rightarrow> nat \<Rightarrow> nat" where
  "return_of es a = the (matches (take a (rev es)) (ident es a))"

lemma return_of:
  assumes "well_formed es" and "a < length es" and "is_call es a"
  shows "matches (take a (rev es)) (ident es a) = Some (return_of es a)" "return_of es a < a"
    "\<not> is_call es (return_of es a)" "ident es (return_of es a) = ident es a"
proof -
  let ?P = "\<lambda>b. e_kind (take a (rev es) ! b) = returnEntry \<and> e_id (take a (rev es) ! b) = ident es a"
  let ?bs = "filter ?P [0..<length (take a (rev es))]"
  obtain r where "r < a" "\<not> is_call es r" "ident es r = ident es a" using call_returns [OF assms] by blast
  then have "r \<in> set ?bs" using assms(2) by (auto simp: is_call_def ident_def)
  then have ne: "?bs \<noteq> []" by (metis empty_iff empty_set)
  then have m: "matches (take a (rev es)) (ident es a) = Some (last ?bs)" by (simp only: matches_def Let_def if_False)
  then show "matches (take a (rev es)) (ident es a) = Some (return_of es a)" by (simp add: return_of_def)
  have member: "x < a \<and> \<not> is_call es x \<and> ident es x = ident es a" if "x \<in> set ?bs" for x
    using that assms(2) by (auto simp: is_call_def ident_def)
  have eq: "return_of es a = last ?bs" by (simp only: return_of_def m option.sel)
  from member [OF last_in_set [OF ne]]
  show "return_of es a < a" "\<not> is_call es (return_of es a)" "ident es (return_of es a) = ident es a"
    unfolding eq by blast+
qed

lemma same_operation:
  assumes "well_formed es" and "a < length es" and "is_call es a" and "b < length es"
  shows "ident es b = ident es a \<longleftrightarrow> b = a \<or> b = return_of es a"
  using return_of [OF assms(1-3)] address_unique [OF assms(1,4,2)] assms(2,3)
    address_unique [OF assms(1,4), of "return_of es a"]
  by (cases "is_call es b") auto

lemma find_unique:
  assumes "distinct (map f es)" and "e \<in> set es"
  shows "find (\<lambda>x. f x = f e) es = Some e"
  using assms by (induction es) (auto simp: image_iff)

lemma entry_value_address:
  assumes "well_formed es" and "a < length es"
  shows "entry_value (if is_call es a then callEntry else returnEntry) es (ident es a) = e_value (rev es ! a)"
proof -
  let ?f = "\<lambda>e. (e_kind e, e_id e)" and ?e = "rev es ! a"
  have "?e \<in> set es" using assms(2) by (metis length_rev nth_mem set_rev)
  then have "find (\<lambda>x. ?f x = ?f ?e) es = Some ?e"
    using assms(1) by (intro find_unique) (simp_all add: well_formed_def complete_history_def)
  then show ?thesis by (cases "e_kind ?e") (simp_all add: entry_value_def is_call_def ident_def)
qed

section \<open>What is left of a history\<close>

lemma set_rest: "a \<in> set (rest es S) \<longleftrightarrow> a < length es \<and> ident es a \<notin> S"
  by (auto simp: rest_def)

lemma distinct_rest [simp]: "distinct (rest es S)"
  by (simp add: rest_def)

lemma rest_insert: "rest es (insert i S) = filter (\<lambda>a. ident es a \<noteq> i) (rest es S)"
  by (simp add: rest_def conj_commute)

lemma rest_order: "rest es S = us @ a # vs \<Longrightarrow> u \<in> set us \<Longrightarrow> a < u"
proof -
  assume r: "rest es S = us @ a # vs" "u \<in> set us"
  have "sorted_wrt (\<lambda>x y. y < x) (rest es S)"
    unfolding rest_def by (rule sorted_wrt_filter) (simp add: sorted_wrt_rev)
  with r show "a < u" by (simp add: sorted_wrt_append)
qed

lemma rest_order_after:
  assumes "rest es S = us @ a # vs" and "v \<in> set vs"
  shows "v < a"
proof -
  obtain xs ys where "vs = xs @ v # ys" using assms(2) by (auto dest: split_list)
  with assms(1) show ?thesis using rest_order [of es S "us @ a # xs" v ys a] by simp
qed

lemma rest_order': "rest es S = us @ a # vs \<Longrightarrow> b \<in> set (rest es S) \<Longrightarrow> b < a \<Longrightarrow> b \<in> set vs"
  using rest_order [of es S us a vs b] by auto

lemma rest_empty: "rest es S = [] \<longleftrightarrow> e_id ` set es \<subseteq> S"
proof -
  have "rest es S = [] \<longleftrightarrow> (\<forall>a < length es. ident es a \<in> S)"
    by (auto simp: rest_def filter_empty_conv)
  also have "\<dots> \<longleftrightarrow> e_id ` set es \<subseteq> S" by (auto simp flip: idents)
  finally show ?thesis .
qed

text \<open>A call that is left, with its return; without the operation, the nodes around remain.\<close>

lemma rest_operation:
  assumes "well_formed es" and "rest es S = us @ a # vs" and "is_call es a"
  shows "\<exists>vs' ws. vs = vs' @ return_of es a # ws \<and> rest es (insert (ident es a) S) = us @ vs' @ ws"
proof -
  have a: "a < length es" "ident es a \<notin> S" using assms(2) set_rest [of a es S] by auto
  note r = return_of [OF assms(1) a(1) assms(3)]
  have "return_of es a \<in> set (rest es S)" using r a by (simp add: set_rest)
  then have "return_of es a \<in> set vs" using rest_order' [OF assms(2)] r(2) by blast
  then obtain vs' ws where vs: "vs = vs' @ return_of es a # ws" by (auto dest: split_list)
  have d: "distinct (us @ a # vs' @ return_of es a # ws)" using assms(2) vs distinct_rest [of es S] by simp
  have "rest es (insert (ident es a) S) = filter (\<lambda>b. b \<noteq> a \<and> b \<noteq> return_of es a) (rest es S)"
    unfolding rest_insert
    by (rule filter_cong [OF refl]) (simp add: set_rest same_operation [OF assms(1) a(1) assms(3)])
  also have "filter (\<lambda>b. b \<noteq> a \<and> b \<noteq> return_of es a) xs = xs" if "a \<notin> set xs" "return_of es a \<notin> set xs" for xs
    using that by (auto simp: filter_id_conv)
  then have "filter (\<lambda>b. b \<noteq> a \<and> b \<noteq> return_of es a) (rest es S) = us @ vs' @ ws"
    using d unfolding assms(2) vs by auto
  finally show ?thesis using vs by blast
qed

section \<open>The recursion the search follows\<close>

lemma completes_rec:
  assumes "well_formed es"
  shows "completes M es S s \<longleftrightarrow> rest es S = [] \<or> (\<exists>us a vs s'. rest es S = us @ a # vs \<and> (\<forall>u \<in> set us. is_call es u) \<and>
    is_call es a \<and> op_step M es s (ident es a) = Some (True, s') \<and> completes M es (insert (ident es a) S) s')"
    (is "_ \<longleftrightarrow> _ \<or> ?step")
proof
  assume "completes M es S s"
  then obtain p where p: "distinct p" "set p = e_id ` set es - S" "sorted_wrt (\<lambda>i j. \<not> precedes es j i) p"
      "legal (op_step M es) s p" by (auto simp: completes_def)
  show "rest es S = [] \<or> ?step"
  proof (cases p)
    case Nil
    with p(2) show ?thesis by (auto simp: rest_empty)
  next
    case (Cons i q)
    then have "i \<in> ident es ` {..<length es}" "i \<notin> S" using p(2) unfolding idents by auto
    then obtain b where b: "b < length es" "ident es b = i" by auto
    obtain a where a: "a < length es" "is_call es a" "ident es a = i"
      using b return_called [OF assms b(1)] by (cases "is_call es b") auto
    then have "a \<in> set (rest es S)" using \<open>i \<notin> S\<close> by (simp add: set_rest)
    then obtain us vs where r: "rest es S = us @ a # vs" by (auto dest: split_list)
    have calls: "is_call es u" if u: "u \<in> set us" for u
    proof (rule ccontr)
      assume ret: "\<not> is_call es u"
      have "a < u" using rest_order [OF r u] .
      have mem: "u < length es" "ident es u \<notin> S" using u r set_rest [of u es S] by auto
      have "ident es u \<noteq> i"
        using same_operation [OF assms a(1,2) mem(1)] return_of(2) [OF assms a(1,2)] \<open>a < u\<close> a(3) by auto
      moreover have "ident es u \<in> set p" using mem p(2) idents by blast
      ultimately have "ident es u \<in> set q" using Cons by simp
      with p(3) Cons have "\<not> precedes es (ident es u) i" by simp
      then show False using precedes_address mem(1) \<open>a < u\<close> ret a by blast
    qed
    from p(4) Cons obtain s' where s': "op_step M es s i = Some (True, s')" "legal (op_step M es) s' q"
      by (auto simp: legal_Cons)
    have "set q = e_id ` set es - insert i S" using p(1,2) Cons by auto
    with p(1,3) s'(2) Cons have "completes M es (insert i S) s'" by (auto simp: completes_def)
    with r calls a s'(1) show ?thesis by blast
  qed
next
  assume "rest es S = [] \<or> ?step"
  then show "completes M es S s"
  proof
    assume "rest es S = []"
    then show ?thesis by (auto simp: completes_def rest_empty intro!: exI [of _ "[]"])
  next
    assume ?step
    then obtain us a vs s' q where r: "rest es S = us @ a # vs" and calls: "\<forall>u \<in> set us. is_call es u"
      and a: "is_call es a" "op_step M es s (ident es a) = Some (True, s')"
      and q: "distinct q" "set q = e_id ` set es - insert (ident es a) S" "sorted_wrt (\<lambda>i j. \<not> precedes es j i) q"
        "legal (op_step M es) s' q"
      by (auto simp: completes_def)
    have mem: "a < length es" "ident es a \<notin> S" using r set_rest [of a es S] by auto
    have first: "\<not> precedes es j (ident es a)" if "j \<in> set q" for j
    proof
      assume "precedes es j (ident es a)"
      then obtain b a' where b: "b < length es" "a' < b" "\<not> is_call es b" "ident es b = j" "is_call es a'" "ident es a' = ident es a"
        using precedes_address by blast
      then have "a' = a" using address_unique [OF assms _ mem(1)] a(1) by simp
      have "b \<in> set (rest es S)" using b q(2) that by (simp add: set_rest)
      moreover have "b \<noteq> a" using b(3) a(1) by blast
      moreover have "b \<notin> set vs" using b(2) \<open>a' = a\<close> rest_order_after [OF r, of b] by auto
      ultimately have "b \<in> set us" using r by simp
      then show False using calls b(3) by blast
    qed
    have "set (ident es a # q) = e_id ` set es - S"
      using q(2) mem idents [of es] by auto
    with q a(2) first show ?thesis unfolding completes_def
      by (intro exI [of _ "ident es a # q"]) (auto simp: legal_Cons)
  qed
qed

end
