(* ===== verification/PorcupineSearch.thy ===== *)
theory PorcupineSearch
  imports Linearizable
begin

text \<open>
  Why \<open>checkSingle\<close> ends and answers right. \<open>path\<close> describes the stack of calls: each one was
  taken from what was left of the history after the ones below, and the calls before it there
  have been tried in vain. \<open>search_inv\<close> adds the list, the bit set, the cache - which holds
  states of the stack and states from which the history cannot be completed - and the longest
  linearizations found so far. Each turn of the loop keeps it and moves on in a lexicographic
  order (\<open>progress\<close>).
\<close>

section \<open>The stack of calls\<close>

definition taken :: "'v entry list \<Rightarrow> 's callsEntry list \<Rightarrow> int set" where
  "taken es cs = (\<lambda>c. ident es (fst c)) ` set cs"

definition hopeless :: "('v, 's) Model \<Rightarrow> 'v entry list \<Rightarrow> int set \<Rightarrow> 's \<Rightarrow> nat \<Rightarrow> bool" where
  "hopeless M es S s a \<longleftrightarrow> is_call es a \<and>
     (\<forall>s'. op_step M es s (ident es a) = Some (True, s') \<longrightarrow> \<not> completes M es (insert (ident es a) S) s')"

inductive path :: "('v, 's) Model \<Rightarrow> 'v entry list \<Rightarrow> 's callsEntry list \<Rightarrow> 's \<Rightarrow> bool" for M es where
  path_start: "path M es [] (m_Init M)"
| path_call: "path M es cs t \<Longrightarrow> rest es (taken es cs) = us @ a # vs \<Longrightarrow> is_call es a \<Longrightarrow>
    (\<forall>u \<in> set us. hopeless M es (taken es cs) t u) \<Longrightarrow> op_step M es t (ident es a) = Some (True, s) \<Longrightarrow>
    path M es (cs @ [(a, t)]) s"

inductive_cases path_NilE: "path M es [] s"
inductive_cases path_snocE: "path M es (cs @ [(a, t)]) s"

lemma taken_simps [simp]: "taken es [] = {}" "taken es (cs @ [(a, t)]) = insert (ident es a) (taken es cs)"
  by (auto simp: taken_def)

lemma path_prefix: "path M es (cs @ ds) s \<Longrightarrow> \<exists>t. path M es cs t"
proof (induction ds arbitrary: s rule: rev_induct)
  case (snoc d ds)
  obtain a t where "d = (a, t)" by (cases d)
  with snoc.prems have "path M es ((cs @ ds) @ [(a, t)]) s" by simp
  then have "path M es (cs @ ds) t" by (rule path_snocE) simp
  then show ?case by (rule snoc.IH)
qed auto

lemma path_state: "path M es cs s \<Longrightarrow> path M es cs s' \<Longrightarrow> s = s'"
proof (induction arbitrary: s' rule: path.induct)
  case path_start
  then show ?case by (auto elim: path_NilE)
next
  case (path_call cs t us a vs s)
  from path_call.prems show ?case by (rule path_snocE) (use path_call.hyps(5) in simp)
qed

lemma path_taken:
  assumes "path M es cs s"
  shows "finite (taken es cs)" "card (taken es cs) = length cs" "taken es cs \<subseteq> e_id ` set es"
    "distinct (map (\<lambda>c. ident es (fst c)) cs)"
proof -
  have "finite (taken es cs) \<and> card (taken es cs) = length cs \<and> taken es cs \<subseteq> e_id ` set es \<and>
      distinct (map (\<lambda>c. ident es (fst c)) cs)"
    using assms
  proof induction
    case (path_call cs t us a vs s)
    then have "a < length es" "ident es a \<notin> taken es cs" using set_rest [of a es "taken es cs"] by auto
    moreover from this have "ident es a \<in> e_id ` set es" using idents [of es] by blast
    ultimately show ?case using path_call.IH by (auto simp: taken_def)
  qed simp
  then show "finite (taken es cs)" "card (taken es cs) = length cs" "taken es cs \<subseteq> e_id ` set es"
    "distinct (map (\<lambda>c. ident es (fst c)) cs)" by blast+
qed

lemma candidate_first:
  assumes "well_formed es" and "rest es S = us @ a # vs" and "is_call es a" and "\<forall>u \<in> set us. is_call es u"
    and "precedes es j (ident es a)"
  shows "j \<in> S"
proof (rule ccontr)
  assume j: "j \<notin> S"
  obtain b a' where b: "b < length es" "a' < b" "\<not> is_call es b" "ident es b = j" "is_call es a'" "ident es a' = ident es a"
    using assms(5) precedes_address by blast
  have "a < length es" using assms(2) set_rest [of a es S] by auto
  then have "a' = a" using address_unique [OF assms(1)] b assms(3) by simp
  have "b \<in> set us" using b(1-4) j assms(2,3) \<open>a' = a\<close> rest_order_after [OF assms(2), of b] set_rest [of b es S] by auto
  with assms(4) b(3) show False by blast
qed

text \<open>The stack is a beginning of a linearization.\<close>

lemma path_partial:
  assumes "path M es cs s" and "well_formed es"
  shows "partial_linearization M es (map (\<lambda>c. ident es (fst c)) cs)"
    "execute (op_step M es) (m_Init M) (map (\<lambda>c. ident es (fst c)) cs) = Some s"
proof -
  let ?ids = "map (\<lambda>c. ident es (fst c)) :: 'b callsEntry list \<Rightarrow> int list"
  have "sorted_wrt (\<lambda>i j. \<not> precedes es j i) (?ids cs) \<and> (\<forall>j \<in> taken es cs. \<forall>i. precedes es i j \<longrightarrow> i \<in> taken es cs) \<and>
      execute (op_step M es) (m_Init M) (?ids cs) = Some s"
    using assms(1)
  proof induction
    case (path_call cs t us a vs s)
    have calls: "\<forall>u \<in> set us. is_call es u" using path_call.hyps by (simp add: hopeless_def)
    have first: "precedes es i (ident es a) \<Longrightarrow> i \<in> taken es cs" for i
      by (rule candidate_first [OF assms(2) path_call.hyps(2,3) calls])
    have "ident es a \<notin> taken es cs" using path_call.hyps(2) set_rest [of a es "taken es cs"] by auto
    with path_call.IH first have "\<forall>j \<in> taken es cs. \<not> precedes es (ident es a) j" by blast
    with path_call.IH path_call.hyps(5) first show ?case
      by (auto simp: sorted_wrt_append execute_append taken_def)
  qed simp
  then show "partial_linearization M es (?ids cs)" "execute (op_step M es) (m_Init M) (?ids cs) = Some s"
    using path_taken [OF assms(1)] by (auto simp: partial_linearization_def legal_def taken_def)
qed

lemma path_complete:
  assumes "path M es cs s" and "well_formed es" and "rest es (taken es cs) = []"
  shows "linearization M es (map (\<lambda>c. ident es (fst c)) cs)"
  using path_partial [OF assms(1,2)] assms(3) path_taken(3) [OF assms(1)]
  by (auto simp: partial_linearization_def linearization_def rest_empty taken_def)

section \<open>The list under the stack\<close>

definition lifted :: "'v heap \<Rightarrow> 's callsEntry list \<Rightarrow> 'v heap" where
  "lifted h cs = fold (\<lambda>c h. the (lift (fst c) h)) cs h"

text \<open>A heap that holds the list of a history after a first node.\<close>

definition holds_history :: "'v heap \<Rightarrow> 'v entry list \<Rightarrow> int set \<Rightarrow> bool" where
  "holds_history h es S \<longleftrightarrow> links h None (length es # rest es S) None \<and> stands_for h (rev es) \<and> length h = Suc (length es)"

lemma holds_node:
  assumes "holds_history h es S" and "well_formed es" and "a < length es"
  shows "n_value (h ! a) = Some (e_value (rev es ! a))" "n_id (h ! a) = ident es a"
    "n_match (h ! a) = (if is_call es a then Some (return_of es a) else None)" "a < length h"
proof -
  have "is_call es a \<Longrightarrow> matches (take a (rev es)) (e_id (rev es ! a)) = Some (return_of es a)"
    using return_of(1) [OF assms(2,3)] by (simp add: ident_def)
  with assms(1,3) show "n_value (h ! a) = Some (e_value (rev es ! a))" "n_id (h ! a) = ident es a"
    "n_match (h ! a) = (if is_call es a then Some (return_of es a) else None)" "a < length h"
    by (auto simp: holds_history_def stands_for_def ident_def is_call_def)
qed

lemma holds_next:
  assumes "holds_history h es S" and "rest es S = us @ a # vs"
  shows "n_next (h ! a) = first_of vs None"
  using assms by (auto simp: holds_history_def links_append)

lemma holds_head: "holds_history h es S \<Longrightarrow> length es < length h \<and> n_next (h ! length es) = first_of (rest es S) None"
  by (simp add: holds_history_def)

lemma lift_history:
  assumes "holds_history h es S" and "well_formed es" and "rest es S = us @ a # vs" and "is_call es a"
  shows "\<exists>h'. lift a h = Some h' \<and> unlift a h' = Some h \<and> holds_history h' es (insert (ident es a) S)"
proof -
  obtain vs' ws where vs: "vs = vs' @ return_of es a # ws" and rest': "rest es (insert (ident es a) S) = us @ vs' @ ws"
    using rest_operation [OF assms(2-4)] by blast
  have a: "a < length es" using assms(3) set_rest [of a es S] by auto
  have "distinct (length es # rest es S)" by (simp add: set_rest)
  then have op: "operation_at h (length es # us) a vs' (return_of es a) ws"
    using assms(1,3,4) holds_node(3) [OF assms(1,2) a] by (simp add: operation_at_def holds_history_def vs)
  let ?h = "unlink (return_of es a) (unlink a h)"
  have "stands_for ?h (rev es)" using assms(1) by (simp add: holds_history_def stands_for_def)
  then have "holds_history ?h es (insert (ident es a) S)"
    using assms(1) lifted_links [OF op] by (simp add: holds_history_def rest')
  with lift_unlinks [OF op] unlift_restores [OF op] show ?thesis by blast
qed

lemma lifted_history:
  assumes "path M es cs s" and "well_formed es" and "holds_history h es {}"
  shows "holds_history (lifted h cs) es (taken es cs)"
  using assms(1)
proof induction
  case path_start
  then show ?case using assms(3) by (simp add: lifted_def)
next
  case (path_call cs t us a vs s)
  from lift_history [OF path_call.IH assms(2) path_call.hyps(2,3)] show ?case by (auto simp: lifted_def)
qed

lemma lift_stack:
  assumes "path M es cs t" and "well_formed es" and "holds_history h es {}"
    and "rest es (taken es cs) = us @ a # vs" and "is_call es a"
  shows "lift a (lifted h cs) = Some (lifted h (cs @ [(a, t)]))" "unlift a (lifted h (cs @ [(a, t)])) = Some (lifted h cs)"
  using lift_history [OF lifted_history [OF assms(1-3)] assms(2,4,5)] by (auto simp: lifted_def)

section \<open>The cache\<close>

definition remembers :: "('v, 's) Model \<Rightarrow> 'v entry list \<Rightarrow> 's callsEntry list \<Rightarrow> 's cacheEntry \<Rightarrow> bool" where
  "remembers M es cs e \<longleftrightarrow> (\<exists>T. T \<subseteq> e_id ` set es \<and> members (fst e) = nat ` T \<and>
     ((\<exists>cs1 cs2. cs = cs1 @ cs2 \<and> path M es cs1 (snd e) \<and> T = taken es cs1) \<or> \<not> completes M es T (snd e)))"

definition cache_ok :: "('v, 's) Model \<Rightarrow> 'v entry list \<Rightarrow> 's callsEntry list \<Rightarrow> (64 word \<Rightarrow> 's cacheEntry list) \<Rightarrow> bool" where
  "cache_ok M es cs cache \<longleftrightarrow> bs.bucketed cache \<and> (\<forall>e \<in> bs.in_table cache. remembers M es cs e)"

lemma nat_ids:
  assumes "well_formed es" and "S \<subseteq> e_id ` set es" and "T \<subseteq> e_id ` set es" and "nat ` S = nat ` T"
  shows "S = T"
proof -
  have "inj_on nat {0..<int (length es div 2)}" by (auto simp: inj_on_def)
  with assms show ?thesis unfolding idents_wf [OF assms(1)] by (metis inj_on_image_eq_iff)
qed

text \<open>A new state that the cache has does not lead to a linearization.\<close>

lemma cache_hit:
  assumes "cache_ok M es cs cache" and "path M es cs s" and "well_formed es" and "equal_ok M"
    and "a < length es" and "ident es a \<notin> taken es cs" and "members B = nat ` insert (ident es a) (taken es cs)"
    and "cacheContains M cache (B, s') = Some True"
  shows "\<not> completes M es (insert (ident es a) (taken es cs)) s'"
proof -
  obtain eq where eq: "m_Equal M = Some eq" using assms(4) by (auto simp: equal_ok_def)
  obtain t where t: "(B, t) \<in> bs.in_table cache" "eq s' t"
  proof -
    have "\<exists>e \<in> set (cache (bs_hash B)). bs_equals B (fst e) \<and> eq s' (snd e)" using assms(8) by (simp add: cacheContains_def eq)
    then have "\<exists>e \<in> bs.in_table cache. bs_equals B (fst e) \<and> eq s' (snd e)"
      using assms(1) bs.lookup [of cache B "\<lambda>e. eq s' (snd e)"] by (simp add: cache_ok_def)
    with that show thesis by auto
  qed
  let ?T = "insert (ident es a) (taken es cs)"
  have sub: "?T \<subseteq> e_id ` set es" using path_taken(3) [OF assms(2)] assms(5) idents [of es] by auto
  obtain T where T: "T \<subseteq> e_id ` set es" "members B = nat ` T"
      "(\<exists>cs1 cs2. cs = cs1 @ cs2 \<and> path M es cs1 t \<and> T = taken es cs1) \<or> \<not> completes M es T t"
  proof -
    have "remembers M es cs (B, t)" using assms(1) t(1) by (simp add: cache_ok_def)
    with that show thesis by (auto simp: remembers_def)
  qed
  have "T = ?T" using nat_ids [OF assms(3) T(1) sub] T(2) assms(7) by simp
  moreover have "card ?T = Suc (length cs)" using path_taken(1,2) [OF assms(2)] assms(6) by simp
  ultimately have "\<not> (cs = cs1 @ cs2 \<and> path M es cs1 t \<and> T = taken es cs1)" for cs1 cs2
    using path_taken(2) [of M es cs1 t] by auto
  with T(3) \<open>T = ?T\<close> have "\<not> completes M es ?T t" by blast
  with completes_equal [OF assms(4) eq t(2)] show ?thesis by blast
qed

lemma cache_push:
  assumes "cache_ok M es cs cache" and "path M es (cs @ [(a, s)]) s'" and "members B = nat ` insert (ident es a) (taken es cs)"
  shows "cache_ok M es (cs @ [(a, s)]) (cache(bs_hash B := cache (bs_hash B) @ [(B, s')]))"
proof -
  have "remembers M es (cs @ [(a, s)]) (B, s')" unfolding remembers_def
    using assms(2,3) path_taken(3) [OF assms(2)]
    by (intro exI [of _ "taken es (cs @ [(a, s)])"] conjI disjI1 exI [of _ "cs @ [(a, s)]"] exI [of _ "[]"]) simp_all
  moreover have "remembers M es cs e \<Longrightarrow> remembers M es (cs @ [(a, s)]) e" for e
    unfolding remembers_def by (metis append.assoc)
  ultimately show ?thesis using assms(1) by (auto simp: cache_ok_def)
qed

lemma cache_pop:
  assumes "cache_ok M es (cs @ [(a, s)]) cache" and "path M es (cs @ [(a, s)]) s'"
    and "\<not> completes M es (taken es (cs @ [(a, s)])) s'"
  shows "cache_ok M es cs cache"
proof -
  have "(\<exists>cs1 cs2. cs = cs1 @ cs2 \<and> path M es cs1 t \<and> T = taken es cs1) \<or> \<not> completes M es T t"
    if c: "cs @ [(a, s)] = cs1 @ cs2" "path M es cs1 t" "T = taken es cs1" for T t cs1 cs2
  proof (cases cs2 rule: rev_cases)
    case Nil
    with c path_state [OF assms(2), of t] have "t = s'" by simp
    with assms(3) c Nil show ?thesis by simp
  next
    case (snoc cs2' c2)
    with c(1) have "cs = cs1 @ cs2'" by simp
    with c(2,3) show ?thesis by blast
  qed
  then have "remembers M es (cs @ [(a, s)]) e \<Longrightarrow> remembers M es cs e" for e
    unfolding remembers_def by metis
  with assms(1) show ?thesis unfolding cache_ok_def by blast
qed

section \<open>The longest linearizations\<close>

definition longest_ok :: "('v, 's) Model \<Rightarrow> 'v entry list \<Rightarrow> int list list \<Rightarrow> nat option list \<Rightarrow> bool" where
  "longest_ok M es ss lg \<longleftrightarrow> length lg = length es div 2 \<and>
     (\<forall>i < length lg. \<forall>p. lg ! i = Some p \<longrightarrow> p < length ss \<and> partial_linearization M es (ss ! p) \<and> int i \<in> set (ss ! p))"

lemma callIds_path:
  assumes "holds_history h es S" and "well_formed es" and "\<forall>c \<in> set cs. fst c < length es"
  shows "callIds h cs = Some (map (\<lambda>c. ident es (fst c)) cs)"
  using assms(3) by (induction cs) (simp_all add: holds_node [OF assms(1,2)])

lemma path_addresses: "path M es cs s \<Longrightarrow> c \<in> set cs \<Longrightarrow> fst c < length es"
proof (induction rule: path.induct)
  case (path_call cs t us a vs s)
  then show ?case using set_rest [of a es "taken es cs"] by auto
qed simp

lemma noteLongest_ok:
  assumes "longest_ok M es ss lg" and "p < length ss" and "partial_linearization M es (ss ! p)"
    and "set ids \<subseteq> set (ss ! p)" and "set ids \<subseteq> {0..<int (length es div 2)}"
  shows "\<exists>lg'. noteLongest ss k p ids lg = Some lg' \<and> longest_ok M es ss lg'"
  using assms(1,4,5)
proof (induction ids arbitrary: lg)
  case (Cons i ids)
  from Cons.prems have i: "0 \<le> i" "i < int (length lg)" by (auto simp: longest_ok_def)
  have upd: "longest_ok M es ss (lg[nat i := Some p])"
    using Cons.prems i assms(2,3) by (auto simp: longest_ok_def nth_list_update)
  let ?lg = "if (case lg ! nat i of None \<Rightarrow> True | Some q \<Rightarrow> k > length (ss ! q)) then lg[nat i := Some p] else lg"
  have "longest_ok M es ss ?lg" using upd Cons.prems(1) by simp
  from Cons.IH [OF this] Cons.prems(2,3) show ?case using i
    by (auto simp: slice_simps split: if_splits)
qed simp

lemma longest_more: "longest_ok M es ss lg \<Longrightarrow> longest_ok M es (ss @ ts) lg"
  by (auto simp: longest_ok_def nth_append)

end
