(* ===== verification/PorcupineSingle.thy ===== *)
theory PorcupineSingle
  imports PorcupineSearch
begin

text \<open>
  The loop of \<open>checkSingle\<close>: the invariant \<open>search_inv\<close>, the measure \<open>progress\<close>, and what a turn
  does to them; from these, that the loop ends on every complete history, with \<open>true\<close>
  only if the history is linearizable and with \<open>false\<close> only if it is not or \<open>kill\<close> was set.
\<close>

section \<open>Invariant and measure\<close>

text \<open>What the search relies on: a complete history, the contract of \<open>Equal\<close>, and steps that do not panic.\<close>

definition search_setting :: "('v, 's) Model \<Rightarrow> 'v entry list \<Rightarrow> bool" where
  "search_setting M es \<longleftrightarrow> well_formed es \<and> equal_ok M \<and> (\<forall>s. \<forall>i \<in> e_id ` set es. op_step M es s i \<noteq> None)"

abbreviation "left_of es st \<equiv> rest es (taken es (s_calls st))"

definition entry_ok :: "('v, 's) Model \<Rightarrow> 'v entry list \<Rightarrow> ('v, 's) search \<Rightarrow> bool" where
  "entry_ok M es st \<longleftrightarrow> (\<exists>us vs. left_of es st = us @ vs \<and> s_entry st = first_of vs None \<and>
     (\<forall>u \<in> set us. hopeless M es (taken es (s_calls st)) (s_state st) u) \<and> (vs = [] \<longrightarrow> us = []))"

definition search_inv :: "('v, 's) Model \<Rightarrow> 'v entry list \<Rightarrow> 'v heap \<Rightarrow> ('v, 's) search \<Rightarrow> bool" where
  "search_inv M es h st \<longleftrightarrow> path M es (s_calls st) (s_state st) \<and> s_heap st = lifted h (s_calls st) \<and>
     length es div 2 \<le> 64 * length (linearized st) \<and> members (linearized st) = nat ` taken es (s_calls st) \<and>
     cache_ok M es (s_calls st) (s_cache st) \<and> longest_ok M es (seqs st) (longest st) \<and> entry_ok M es st"

definition posn :: "nat \<Rightarrow> nat list \<Rightarrow> nat" where
  "posn a xs = length (takeWhile (\<lambda>b. b \<noteq> a) xs)"

fun posns :: "'v entry list \<Rightarrow> int set \<Rightarrow> 's callsEntry list \<Rightarrow> nat list" where
  "posns es S [] = []"
| "posns es S ((a, t) # cs) = (Suc (length es) - posn a (rest es S)) # posns es (insert (ident es a) S) cs"

text \<open>
  How far the search still has to go at each depth; a depth it has not reached counts as more
  than one where it is at the first entry.
\<close>

definition progress :: "'v entry list \<Rightarrow> ('v, 's) search \<Rightarrow> nat list" where
  "progress es st = posns es {} (s_calls st) @
     (Suc (length es) - (case s_entry st of None \<Rightarrow> 0 | Some a \<Rightarrow> posn a (left_of es st))) #
     replicate (length es div 2 - length (s_calls st)) (Suc (Suc (length es)))"

lemma posn_at [simp]: "a \<notin> set us \<Longrightarrow> posn a (us @ a # vs) = length us"
  by (simp add: posn_def takeWhile_append)

lemma posns_snoc: "posns es S (cs @ [(a, t)]) = posns es S cs @ [Suc (length es) - posn a (rest es (S \<union> taken es cs))]"
  by (induction es S cs rule: posns.induct) (simp_all add: taken_def Un_commute)

lemma lex_at: "length zs = length zs' \<Longrightarrow> y < y' \<Longrightarrow> (xs @ y # zs, xs @ y' # zs') \<in> lex less_than" for y :: nat
  by (intro lex_append_leftI) (simp add: Cons_in_lex)

lemma rest_length: "length (rest es S) \<le> length es"
  unfolding rest_def by (rule order_trans [OF length_filter_le]) simp

lemma progress_advance:
  assumes "left_of es st = us @ a # b # vs" and "s_entry st = Some a"
  shows "(progress es (st\<lparr>s_entry := Some b\<rparr>), progress es st) \<in> lex less_than"
proof -
  have "distinct (us @ a # b # vs)" "length (us @ a # b # vs) \<le> length es"
    using distinct_rest [of es "taken es (s_calls st)"] rest_length [of es "taken es (s_calls st)"] assms(1) by simp_all
  then have "posn a (us @ a # b # vs) = length us" "posn b (us @ a # b # vs) = Suc (length us)" "Suc (length us) < length es"
    using posn_at [of b "us @ [a]" vs] by simp_all
  then show ?thesis unfolding progress_def assms
    by (simp add: assms(1)) (rule lex_at; simp)
qed

lemma progress_push:
  assumes "s_entry st = Some a" and "length (s_calls st) < length es div 2"
    and "s_calls st' = s_calls st @ [(a, t)]"
  shows "(progress es st', progress es st) \<in> lex less_than"
proof -
  obtain k where k: "length es div 2 - length (s_calls st) = Suc k" using assms(2) by (metis Suc_diff_Suc)
  then have "length es div 2 - length (s_calls st') = k" by (simp add: assms(3))
  with k assms(1) show ?thesis unfolding progress_def
    by (simp add: assms(3) posns_snoc) (rule lex_append_leftI, simp add: less_Suc_eq_le)
qed

lemma progress_pop:
  assumes "s_calls st = s_calls st' @ [(a, t)]" and "left_of es st' = us @ a # b # vs" and "s_entry st' = Some b"
    and "length (s_calls st) \<le> length es div 2"
  shows "(progress es st', progress es st) \<in> lex less_than"
proof -
  have "distinct (us @ a # b # vs)" "length (us @ a # b # vs) \<le> length es"
    using distinct_rest [of es "taken es (s_calls st')"] rest_length [of es "taken es (s_calls st')"] assms(2) by simp_all
  then have "posn a (us @ a # b # vs) = length us" "posn b (us @ a # b # vs) = Suc (length us)" "Suc (length us) < length es"
    using posn_at [of b "us @ [a]" vs] by simp_all
  then show ?thesis unfolding progress_def assms(1,3)
    using assms(4) by (simp add: assms(1,2) posns_snoc) (rule lex_at; simp add: assms(1))
qed

section \<open>A turn at a call\<close>

lemma ident_in: "rest es S = us @ a # vs \<Longrightarrow> a < length es \<and> ident es a \<notin> S \<and> ident es a \<in> e_id ` set es"
  using set_rest [of a es S] idents [of es] by auto

lemma ident_uint:
  assumes "well_formed es" and "i \<in> e_id ` set es"
  shows "toUint i = nat i" "nat i < length es div 2" "0 \<le> i"
  using assms(2) unfolding idents_wf [OF assms(1)] by (auto simp: toUint_def)

lemma nat_remove:
  assumes "well_formed es" and "i \<in> e_id ` set es" and "S \<subseteq> e_id ` set es" and "i \<notin> S"
  shows "nat i \<notin> nat ` S"
proof
  assume "nat i \<in> nat ` S"
  then obtain x where x: "x \<in> S" "nat i = nat x" by auto
  then have "0 \<le> x" "0 \<le> i" using assms(2,3) idents_wf [OF assms(1)] by auto
  with x(2) have "i = x" by (simp add: eq_nat_nat_iff)
  with x(1) assms(4) show False by simp
qed

lemma advance_ok:
  assumes "search_inv M es h st" and "left_of es st = us @ a # b # vs" and "s_entry st = Some a"
    and "\<forall>u \<in> set us. hopeless M es (taken es (s_calls st)) (s_state st) u"
    and "hopeless M es (taken es (s_calls st)) (s_state st) a"
  shows "search_inv M es h (st\<lparr>s_entry := Some b\<rparr>) \<and> (progress es (st\<lparr>s_entry := Some b\<rparr>), progress es st) \<in> lex less_than"
proof -
  have "entry_ok M es (st\<lparr>s_entry := Some b\<rparr>)"
    unfolding entry_ok_def using assms(2,4,5) by (intro exI [of _ "us @ [a]"] exI [of _ "b # vs"]) auto
  with assms(1) progress_advance [OF assms(2,3)] show ?thesis by (simp add: search_inv_def)
qed

lemma push_ok:
  assumes "search_inv M es h st" and "path M es (s_calls st @ [(a, s_state st)]) s'" and "well_formed es"
    and "s_entry st = Some a" and "length es div 2 \<le> 64 * length B"
    and "members B = nat ` insert (ident es a) (taken es (s_calls st))"
  defines "st' \<equiv> st\<lparr>s_cache := (s_cache st)(bs_hash B := s_cache st (bs_hash B) @ [(B, s')]),
      s_calls := s_calls st @ [(a, s_state st)], s_state := s', linearized := B,
      s_heap := lifted h (s_calls st @ [(a, s_state st)]),
      s_entry := first_of (rest es (insert (ident es a) (taken es (s_calls st)))) None\<rparr>"
  shows "search_inv M es h st' \<and> (progress es st', progress es st) \<in> lex less_than"
proof -
  have "entry_ok M es st'" unfolding entry_ok_def st'_def by (intro exI [of _ "[]"] exI [of _ "left_of es st'"]) (simp add: st'_def)
  moreover have "cache_ok M es (s_calls st') (s_cache st')"
    unfolding st'_def using assms(1,2,6) cache_push [of M es "s_calls st" "s_cache st" a "s_state st" s' B]
    by (simp add: search_inv_def)
  ultimately have "search_inv M es h st'" using assms(1,2,5,6) by (simp add: search_inv_def st'_def)
  moreover have "Suc (length (s_calls st)) \<le> length es div 2"
  proof -
    have "card (taken es (s_calls st @ [(a, s_state st)])) \<le> card (e_id ` set es)"
      by (intro card_mono path_taken(3) [OF assms(2)]) simp
    then show ?thesis using path_taken(2) [OF assms(2)] idents_wf [OF assms(3)] by simp
  qed
  ultimately show ?thesis using progress_push [of st a es st' "s_state st"] assms(4) by (simp add: st'_def)
qed

lemma tryCall_ok:
  assumes set: "search_setting M es" and h: "holds_history h es {}" and inv: "search_inv M es h st"
    and r: "left_of es st = us @ a # vs" and a: "s_entry st = Some a" "is_call es a"
    and us: "\<forall>u \<in> set us. hopeless M es (taken es (s_calls st)) (s_state st) u"
  shows "\<exists>st'. tryCall M (length es) a (s_heap st ! a) st = Some st' \<and> search_inv M es h st' \<and>
    (progress es st', progress es st) \<in> lex less_than"
proof -
  have wf: "well_formed es" and eq: "equal_ok M" and steps: "\<forall>s. \<forall>i \<in> e_id ` set es. op_step M es s i \<noteq> None"
    using set by (simp_all add: search_setting_def)
  have path: "path M es (s_calls st) (s_state st)" and heap: "s_heap st = lifted h (s_calls st)"
    and bits: "length es div 2 \<le> 64 * length (linearized st)" "members (linearized st) = nat ` taken es (s_calls st)"
    and cache: "cache_ok M es (s_calls st) (s_cache st)"
    using inv by (simp_all add: search_inv_def)
  have hist: "holds_history (s_heap st) es (taken es (s_calls st))"
    unfolding heap by (rule lifted_history [OF path wf h])
  note mem = ident_in [OF r]
  note ret = return_of [OF wf conjunct1 [OF mem] a(2)]
  have rl: "return_of es a < length es" using ret(2) mem by simp
  obtain vs' ws where vs: "vs = vs' @ return_of es a # ws" using rest_operation [OF wf r a(2)] by blast
  then obtain b vs'' where b: "vs = b # vs''" by (cases vs') auto
  have n_next: "n_next (s_heap st ! a) = Some b" using holds_next [OF hist r] b by simp
  note node = holds_node [OF hist wf conjunct1 [OF mem]] and match = holds_node [OF hist wf rl]
  obtain ok s' where step: "op_step M es (s_state st) (ident es a) = Some (ok, s')" using steps mem by fast
  have vals: "entry_value callEntry es (ident es a) = e_value (rev es ! a)"
      "entry_value returnEntry es (ident es a) = e_value (rev es ! return_of es a)"
    using entry_value_address [OF wf conjunct1 [OF mem]] entry_value_address [OF wf rl] a(2) ret(3,4) by simp_all
  have mstep: "m_Step M (s_state st) (e_value (rev es ! a)) (e_value (rev es ! return_of es a)) = Some (ok, s')"
    using step by (simp add: op_step_def vals)
  note uint = ident_uint [OF wf conjunct2 [OF conjunct2 [OF mem]]]
  obtain B where B: "bs_set (linearized st) (nat (ident es a)) = Some B" "length B = length (linearized st)"
      "members B = nat ` insert (ident es a) (taken es (s_calls st))"
    using bs_set_spec [of "nat (ident es a)" "linearized st"] bits uint(2) by auto
  have "\<exists>f. cacheContains M (s_cache st) (B, s') = Some f" using eq by (auto simp: cacheContains_def equal_ok_def)
  then obtain f where f: "cacheContains M (s_cache st) (B, s') = Some f" by blast
  note code = tryCall_def node match a(2) mstep uint(1) B(1) f n_next clone_def
  show ?thesis
  proof (cases "ok \<and> \<not> f")
    case True
    then have path': "path M es (s_calls st @ [(a, s_state st)]) s'"
      using path_call [OF path r a(2) us, of s'] step by simp
    let ?h = "lifted h (s_calls st @ [(a, s_state st)])"
    have "lift a (s_heap st) = Some ?h" unfolding heap by (rule lift_stack(1) [OF path wf h r a(2)])
    moreover note holds_head [OF lifted_history [OF path' wf h]]
    ultimately have "tryCall M (length es) a (s_heap st ! a) st = Some (st\<lparr>
        s_cache := (s_cache st)(bs_hash B := s_cache st (bs_hash B) @ [(B, s')]),
        s_calls := s_calls st @ [(a, s_state st)], s_state := s', linearized := B, s_heap := ?h,
        s_entry := first_of (rest es (insert (ident es a) (taken es (s_calls st)))) None\<rparr>)"
      using True by (simp add: code Let_def)
    with push_ok [OF inv path' wf a(1) _ B(3)] bits(1) B(2) show ?thesis by simp
  next
    case False
    have "hopeless M es (taken es (s_calls st)) (s_state st) a"
    proof (cases f)
      case True
      then have "cacheContains M (s_cache st) (B, s') = Some True" using f by simp
      from cache_hit [OF cache path wf eq _ _ B(3) this] mem a(2) step show ?thesis
        by (auto simp: hopeless_def)
    next
      case f: False
      with False step a(2) show ?thesis by (auto simp: hopeless_def)
    qed
    moreover have "tryCall M (length es) a (s_heap st ! a) st = Some (st\<lparr>s_entry := Some b\<rparr>)"
      using False by (auto simp: code)
    ultimately show ?thesis using advance_ok [OF inv r [unfolded b] a(1) us] by blast
  qed
qed

section \<open>A turn at a return\<close>

lemma updateLongest_ok:
  assumes "search_inv M es h st" and "holds_history h es {}" and "well_formed es"
  shows "\<exists>lg ss. updateLongest st = Some (st\<lparr>longest := lg, seqs := ss\<rparr>) \<and> longest_ok M es ss lg"
proof -
  have path: "path M es (s_calls st) (s_state st)" and heap: "s_heap st = lifted h (s_calls st)"
    and lg: "longest_ok M es (seqs st) (longest st)"
    using assms(1) by (simp_all add: search_inv_def)
  let ?seq = "map (\<lambda>c. ident es (fst c)) (s_calls st)"
  have "callIds (s_heap st) (s_calls st) = Some ?seq"
    unfolding heap by (rule callIds_path [OF lifted_history [OF path assms(3,2)] assms(3)])
      (use path_addresses [OF path] in blast)
  moreover obtain lg' where "noteLongest (seqs st @ [?seq]) (length (s_calls st)) (length (seqs st)) ?seq (longest st) = Some lg'"
      "longest_ok M es (seqs st @ [?seq]) lg'"
  proof -
    have "\<exists>lg'. noteLongest (seqs st @ [?seq]) (length (s_calls st)) (length (seqs st)) ?seq (longest st) = Some lg' \<and>
      longest_ok M es (seqs st @ [?seq]) lg'"
    proof (rule noteLongest_ok [OF longest_more [OF lg]])
      show "set ?seq \<subseteq> {0..<int (length es div 2)}"
        using path_taken(3) [OF path] idents_wf [OF assms(3)] by (auto simp: taken_def)
    qed (simp_all add: path_partial(1) [OF path assms(3)])
    with that show thesis by blast
  qed
  ultimately have "updateLongest st = Some (st\<lparr>longest := lg', seqs := seqs st @ [?seq]\<rparr>)"
    by (simp add: updateLongest_def Let_def)
  with \<open>longest_ok M es (seqs st @ [?seq]) lg'\<close> show ?thesis by blast
qed

lemma nothing_left:
  assumes "well_formed es" and "rest es S = us @ a # vs" and "\<not> is_call es a" and "\<forall>u \<in> set us. hopeless M es S s u"
  shows "\<not> completes M es S s"
proof
  assume "completes M es S s"
  then obtain us' c vs' s' where c: "rest es S = us' @ c # vs'" "\<forall>u \<in> set us'. is_call es u" "is_call es c"
      "op_step M es s (ident es c) = Some (True, s')" "completes M es (insert (ident es c) S) s'"
    using assms(2) by (auto simp: completes_rec [OF assms(1), of M S s])
  have "c \<in> set us"
  proof (rule ccontr)
    assume "c \<notin> set us"
    with c(1,3) assms(2,3) have "a \<in> set us'"
      by (auto simp: append_eq_append_conv2 append_eq_Cons_conv Cons_eq_append_conv)
    with c(2) assms(3) show False by blast
  qed
  with assms(4) c(4,5) show False by (auto simp: hopeless_def)
qed

lemma backtrack_ok:
  assumes set: "search_setting M es" and h: "holds_history h es {}" and inv: "search_inv M es h st"
    and r: "left_of es st = us @ x # vs" and x: "\<not> is_call es x"
    and us: "\<forall>u \<in> set us. hopeless M es (taken es (s_calls st)) (s_state st) u"
    and ne: "s_calls st \<noteq> []"
  shows "\<exists>st'. backtrack computePartial st = Some st' \<and> search_inv M es h st' \<and> (progress es st', progress es st) \<in> lex less_than"
proof -
  have wf: "well_formed es" using set by (simp add: search_setting_def)
  have path: "path M es (s_calls st) (s_state st)" and heap: "s_heap st = lifted h (s_calls st)"
    and bits: "length es div 2 \<le> 64 * length (linearized st)" "members (linearized st) = nat ` taken es (s_calls st)"
    and cache: "cache_ok M es (s_calls st) (s_cache st)" and lg: "longest_ok M es (seqs st) (longest st)"
    using inv by (simp_all add: search_inv_def)
  obtain cs a t where cs: "s_calls st = cs @ [(a, t)]" using ne by (metis prod.exhaust rev_exhaust)
  obtain us' vs' where top: "path M es cs t" "rest es (taken es cs) = us' @ a # vs'" "is_call es a"
      "\<forall>u \<in> set us'. hopeless M es (taken es cs) t u" "op_step M es t (ident es a) = Some (True, s_state st)"
    using path unfolding cs by (rule path_snocE) blast
  note mem = ident_in [OF top(2)]
  note uint = ident_uint [OF wf conjunct2 [OF conjunct2 [OF mem]]]
  have dead: "\<not> completes M es (taken es (cs @ [(a, t)])) (s_state st)"
    using nothing_left [OF wf r x us] by (simp add: cs)
  have "hopeless M es (taken es cs) t a" using dead top(3,5) by (simp add: hopeless_def)
  obtain b vs'' where b: "vs' = b # vs''"
    using rest_operation [OF wf top(2,3)] by (metis append_is_Nil_conv list.distinct(1) neq_Nil_conv)
  obtain lg' ss' where part: "(if computePartial then updateLongest st else Some st) = Some (st\<lparr>longest := lg', seqs := ss'\<rparr>)"
      "longest_ok M es ss' lg'"
  proof (cases computePartial)
    case True
    with updateLongest_ok [OF inv h wf] that show ?thesis by (metis (no_types))
  next
    case False
    with that [of "seqs st" "longest st"] lg show ?thesis by simp
  qed
  have hist: "holds_history (s_heap st) es (taken es (s_calls st))"
    unfolding heap by (rule lifted_history [OF path wf h])
  have hist': "holds_history (lifted h cs) es (taken es cs)" by (rule lifted_history [OF top(1) wf h])
  have un: "unlift a (s_heap st) = Some (lifted h cs)" unfolding heap cs by (rule lift_stack(2) [OF top(1) wf h top(2,3)])
  obtain B where B: "bs_clear (linearized st) (nat (ident es a)) = Some B" "length B = length (linearized st)"
      "members B = nat ` taken es (s_calls st) - {nat (ident es a)}"
    using bs_clear_spec [of "nat (ident es a)" "linearized st"] bits uint(2) by auto
  have B': "members B = nat ` taken es cs"
    using B(3) nat_remove [OF wf conjunct2 [OF conjunct2 [OF mem]] path_taken(3) [OF top(1)] conjunct1 [OF conjunct2 [OF mem]]]
    by (simp add: cs)
  let ?st' = "st\<lparr>longest := lg', seqs := ss', s_state := t, linearized := B, s_calls := cs, s_heap := lifted h cs, s_entry := Some b\<rparr>"
  have code: "backtrack computePartial st = Some ?st'"
    using part(1) B(1) un holds_next [OF hist' top(2)] b holds_node [OF hist wf conjunct1 [OF mem]]
      holds_node(4) [OF hist' wf conjunct1 [OF mem]]
    by (simp add: backtrack_def cs uint(1))
  have "entry_ok M es ?st'" unfolding entry_ok_def
    using top(2,4) b \<open>hopeless M es (taken es cs) t a\<close> by (intro exI [of _ "us' @ [a]"] exI [of _ "b # vs''"]) auto
  then have "search_inv M es h ?st'"
    using top(1) bits(1) B(2) B' part(2) cache_pop [OF cache [unfolded cs] path [unfolded cs] dead]
    by (simp add: search_inv_def)
  moreover have "length (s_calls st) \<le> length es div 2"
  proof -
    have "card (taken es (s_calls st)) \<le> card (e_id ` set es)" by (intro card_mono path_taken(3) [OF path]) simp
    then show ?thesis using path_taken(2) [OF path] idents_wf [OF wf] by simp
  qed
  ultimately show ?thesis using code progress_pop [of st ?st' a t es us' b vs''] cs top(2) b by simp
qed

section \<open>The loop\<close>

definition answer_ok :: "('v, 's) Model \<Rightarrow> 'v entry list \<Rightarrow> (nat \<Rightarrow> bool) \<Rightarrow> bool \<Rightarrow> ('v, 's) search \<Rightarrow> bool" where
  "answer_ok M es kill b st \<longleftrightarrow> longest_ok M es (seqs st) (longest st) \<and>
     (if b then \<exists>p. linearization M es (seqs st ! p) \<and> (\<forall>i < length es div 2. longest st ! i = Some p)
      else \<not> linearizable M es \<or> (\<exists>r. kill r))"

lemma done_ok:
  assumes "search_inv M es h st" and "holds_history h es {}" and "well_formed es" and "left_of es st = []"
  shows "\<exists>st'. checkSingle_done (length es div 2) st = Some st' \<and> answer_ok M es kill True st'"
proof -
  have path: "path M es (s_calls st) (s_state st)" and heap: "s_heap st = lifted h (s_calls st)"
    using assms(1) by (simp_all add: search_inv_def)
  let ?seq = "map (\<lambda>c. ident es (fst c)) (s_calls st)"
  have lin: "linearization M es ?seq" by (rule path_complete [OF path assms(3,4)])
  have "callIds (s_heap st) (s_calls st) = Some ?seq"
    unfolding heap by (rule callIds_path [OF lifted_history [OF path assms(3,2)] assms(3)])
      (use path_addresses [OF path] in blast)
  then have "checkSingle_done (length es div 2) st =
      Some (st\<lparr>longest := replicate (length es div 2) (Some (length (seqs st))), seqs := seqs st @ [?seq]\<rparr>)"
    by (simp add: checkSingle_done_def)
  moreover have "set ?seq = {0..<int (length es div 2)}"
    using lin unfolding linearization_def idents_wf [OF assms(3)] by simp
  then have "longest_ok M es (seqs st @ [?seq]) (replicate (length es div 2) (Some (length (seqs st))))"
    using path_partial(1) [OF path assms(3)] by (simp add: longest_ok_def)
  ultimately show ?thesis using lin by (auto simp: answer_ok_def intro!: exI [of _ "length (seqs st)"])
qed

text \<open>A turn ends the search or goes on nearer to the end.\<close>

lemma turn_ok:
  assumes set: "search_setting M es" and h: "holds_history h es {}" and inv: "search_inv M es h st"
    and ne: "left_of es st \<noteq> []"
  shows "(\<exists>st'. checkSingle_turn M computePartial killed (length es) st = Some (Continued st') \<and>
      search_inv M es h st' \<and> (progress es st', progress es st) \<in> lex less_than) \<or>
    checkSingle_turn M computePartial killed (length es) st = Some (Returned False st) \<and> (killed \<or> \<not> linearizable M es)"
proof (cases killed)
  case True
  then show ?thesis by (simp add: checkSingle_turn_def)
next
  case False
  have wf: "well_formed es" using set by (simp add: search_setting_def)
  have path: "path M es (s_calls st) (s_state st)" and heap: "s_heap st = lifted h (s_calls st)" and entry: "entry_ok M es st"
    using inv by (simp_all add: search_inv_def)
  obtain us x vs where r: "left_of es st = us @ x # vs" and x: "s_entry st = Some x"
    and us: "\<forall>u \<in> set us. hopeless M es (taken es (s_calls st)) (s_state st) u"
  proof -
    obtain us vs where "left_of es st = us @ vs" "s_entry st = first_of vs None"
      "\<forall>u \<in> set us. hopeless M es (taken es (s_calls st)) (s_state st) u" "vs = [] \<longrightarrow> us = []"
      using entry by (auto simp: entry_ok_def)
    with ne that show thesis by (cases vs) auto
  qed
  have hist: "holds_history (s_heap st) es (taken es (s_calls st))"
    unfolding heap by (rule lifted_history [OF path wf h])
  note node = holds_node [OF hist wf conjunct1 [OF ident_in [OF r]]]
  show ?thesis
  proof (cases "is_call es x")
    case True
    obtain st' where "tryCall M (length es) x (s_heap st ! x) st = Some st'" "search_inv M es h st'"
        "(progress es st', progress es st) \<in> lex less_than"
      using tryCall_ok [OF set h inv r x True us] by blast
    with False True x node show ?thesis by (simp add: checkSingle_turn_def)
  next
    case ret: False
    show ?thesis
    proof (cases "s_calls st = []")
      case True
      with path have "s_state st = m_Init M" by (auto elim: path_NilE)
      with nothing_left [OF wf r ret us] True have "\<not> linearizable M es" by (simp add: linearizable_completes)
      with False True ret x node show ?thesis by (simp add: checkSingle_turn_def)
    next
      case ne: False
      obtain st' where "backtrack computePartial st = Some st'" "search_inv M es h st'"
          "(progress es st', progress es st) \<in> lex less_than"
        using backtrack_ok [OF set h inv r ret us ne] by blast
      with False ne ret x node show ?thesis by (simp add: checkSingle_turn_def)
    qed
  qed
qed

lemma search_inv_rounds [simp]:
  "search_inv M es h (st\<lparr>rounds := k\<rparr>) = search_inv M es h st" "progress es (st\<lparr>rounds := k\<rparr>) = progress es st"
  by (auto simp: search_inv_def entry_ok_def progress_def split: option.split)

lemma loop_ok:
  assumes set: "search_setting M es" and h: "holds_history h es {}"
  shows "search_inv M es h st \<Longrightarrow> \<exists>b st'. checkSingle_loop M computePartial kill (length es) (length es div 2) st = Some (b, st') \<and>
    answer_ok M es kill b st'"
proof (induction st rule: wf_induct_rule [OF wf_inv_image [OF wf_lex [OF wf_less_than], of "progress es"]])
  case (1 st)
  have wf: "well_formed es" using set by (simp add: search_setting_def)
  have path: "path M es (s_calls st) (s_state st)" and heap: "s_heap st = lifted h (s_calls st)"
    using 1(2) by (simp_all add: search_inv_def)
  have hist: "holds_history (s_heap st) es (taken es (s_calls st))"
    unfolding heap by (rule lifted_history [OF path wf h])
  note head = holds_head [OF hist]
  show ?case
  proof (cases "left_of es st")
    case Nil
    obtain st' where "checkSingle_done (length es div 2) st = Some st'" "answer_ok M es kill True st'"
      using done_ok [OF 1(2) h wf Nil] by blast
    with head Nil show ?thesis
      by (intro exI [of _ True] exI [of _ st']) (simp add: checkSingle_loop.simps [of _ _ _ _ _ st])
  next
    case (Cons x xs)
    then have ne: "left_of es st \<noteq> []" by simp
    let ?turn = "checkSingle_turn M computePartial (kill (rounds st)) (length es) st"
    have unfold: "checkSingle_loop M computePartial kill (length es) (length es div 2) st = Option.bind ?turn (\<lambda>t. case t of
         Returned b st' \<Rightarrow> Some (b, st')
       | Continued st' \<Rightarrow> checkSingle_loop M computePartial kill (length es) (length es div 2) (st'\<lparr>rounds := rounds st + 1\<rparr>))"
      using head Cons by (subst checkSingle_loop.simps) simp
    from turn_ok [OF set h 1(2) ne, of computePartial "kill (rounds st)"] show ?thesis
    proof (elim disjE exE conjE)
      fix st' assume st': "?turn = Some (Continued st')" "search_inv M es h st'" "(progress es st', progress es st) \<in> lex less_than"
      from 1(1) [of "st'\<lparr>rounds := rounds st + 1\<rparr>"] st' show ?thesis by (simp add: unfold)
    next
      assume "?turn = Some (Returned False st)" "kill (rounds st)"
      with 1(2) show ?thesis by (auto simp: unfold answer_ok_def search_inv_def)
    next
      assume "?turn = Some (Returned False st)" "\<not> linearizable M es"
      with 1(2) show ?thesis by (auto simp: unfold answer_ok_def search_inv_def)
    qed
  qed
qed

lemma start_ok:
  assumes wf: "well_formed es"
  shows "\<exists>st. checkSingle_start M es = Some (length es, length es div 2, st) \<and> holds_history (s_heap st) es {} \<and>
    search_inv M es (s_heap st) st"
proof -
  obtain h where h: "makeLinkedEntries es = Some (first_of (downto (length es)) None, h)" "length h = length es"
      "links h None (downto (length es)) None" "stands_for h (rev es)"
    using makeLinkedEntries_spec by blast
  let ?node = "\<lparr>n_value = None, n_match = None, n_id = -1, n_next = None, n_prev = None\<rparr> :: 'a node"
  obtain h' where h': "insertBefore (length h) (first_of (downto (length es)) None) (h @ [?node]) = Some h'" "length h' = Suc (length h)"
      "links h' None (length h # downto (length es)) None"
    and fields: "\<And>a. n_value (h' ! a) = n_value ((h @ [?node]) ! a) \<and> n_match (h' ! a) = n_match ((h @ [?node]) ! a) \<and>
      n_id (h' ! a) = n_id ((h @ [?node]) ! a)"
    using insertBefore_links [OF h(3), of ?node] h(2) by auto
  have all: "rest es {} = downto (length es)" by (simp add: rest_def)
  have "stands_for h' (rev es)" using h(2,4) h'(2) by (simp add: stands_for_def fields nth_append)
  then have hist: "holds_history h' es {}" using h(2) h'(2,3) by (simp add: holds_history_def all)
  let ?st = "\<lparr>s_heap = h', s_entry = first_of (downto (length es)) None, s_state = m_Init M, linearized = newBitset (length es div 2),
       s_cache = (\<lambda>_. []), s_calls = [], longest = replicate (length es div 2) None, seqs = [], rounds = 0\<rparr>"
  have "checkSingle_start M es = Some (length es, length es div 2, ?st)"
    using h h' node_length_links [OF h(3)] by (simp add: checkSingle_start_def Let_def)
  moreover have "entry_ok M es ?st" unfolding entry_ok_def
    by (intro exI [of _ "[]"] exI [of _ "downto (length es)"]) (simp add: all)
  then have "search_inv M es h' ?st"
    using newBitset_length [of "length es div 2"]
    by (simp add: search_inv_def path_start lifted_def cache_ok_def longest_ok_def)
  ultimately show ?thesis using hist by (intro exI [of _ ?st]) simp
qed

theorem checkSingle_ok:
  assumes "search_setting M es"
  shows "\<exists>b st. checkSingle M es computePartial kill = Some (b, st) \<and> answer_ok M es kill b st"
proof -
  obtain st where st: "checkSingle_start M es = Some (length es, length es div 2, st)" "holds_history (s_heap st) es {}"
      "search_inv M es (s_heap st) st"
    using start_ok [of es M] assms unfolding search_setting_def by blast
  from loop_ok [OF assms st(2,3)] show ?thesis by (simp add: checkSingle_def st(1))
qed

end
