(* ===== verification/PorcupineCheck.thy ===== *)
theory PorcupineCheck
  imports Porcupine "HOL-Library.Char_ord" "HOL-Library.List_Lexorder"
begin

text \<open>
  The checker above the search: \<open>checkParallel\<close>, which runs \<open>checkSingle\<close> on every part of a history
  in a goroutine of its own, the functions a test calls (\<open>src/porcupine/checker.go\<close>, \<open>porcupine.go\<close>),
  and the model of the key/value store that the tests give it (\<open>src/models/kv.go\<close>).

  What the runtime decides is an argument of type \<open>runtime\<close>: how \<open>sort.Sort\<close> orders entries of the
  same time, in which order the results arrive and when the timer fires, what the goroutines read from the
  flag \<open>kill\<close> once it is set, and the order in which maps are iterated. A result that was received
  before the flag was set comes from a search that never saw it set.
\<close>

section \<open>Checking the parts of a history\<close>

datatype par_event = FromCheck nat | FromTimer

record 'v runtime =
  rt_sort :: "'v entry list \<Rightarrow> 'v entry list"
  rt_events :: "par_event list"
  rt_kill :: "nat \<Rightarrow> nat \<Rightarrow> bool"
  rt_order :: "nat \<Rightarrow> nat list \<Rightarrow> nat list"

record 'v linearizationInfo =
  li_history :: "'v entry list list"
  partialLinearizations :: "int list list list"

text \<open>
  The loop around \<open>select\<close>; it gives \<open>ok\<close>, \<open>timedOut\<close> and the goroutines whose results have arrived
  (\<open>count\<close> is their number). With no event left it waits for ever, and so it does without a timer.
\<close>

fun collect :: "(nat \<Rightarrow> bool option) \<Rightarrow> bool \<Rightarrow> int \<Rightarrow> nat \<Rightarrow> par_event list \<Rightarrow> bool \<Rightarrow> nat list \<Rightarrow> (bool \<times> bool \<times> nat list) option" where
  "collect results computeInfo timeout n [] ok arrived = None"
| "collect results computeInfo timeout n (FromCheck i # es) ok arrived = do {
     result \<leftarrow> results i;
     let ok = (ok \<and> result);
     let arrived = arrived @ [i];
     if \<not> ok \<and> \<not> computeInfo then Some (ok, False, arrived)
     else if length arrived \<ge> n then Some (ok, False, arrived)
     else collect results computeInfo timeout n es ok arrived }"
| "collect results computeInfo timeout n (FromTimer # es) ok arrived =
     (if timeout > 0 then Some (ok, True, arrived) else None)"

text \<open>The linearizations that \<open>longest\<close> points to, each once, in the order of the map.\<close>

definition partialsOf :: "(nat list \<Rightarrow> nat list) \<Rightarrow> ('v, 's) search \<Rightarrow> int list list" where
  "partialsOf order st = map (\<lambda>p. seqs st ! p) (order (remdups (map the (filter (\<lambda>v. v \<noteq> None) (longest st)))))"

fun infoOf :: "(nat \<Rightarrow> (bool \<times> ('v, 's) search) option) \<Rightarrow> (nat \<Rightarrow> nat list \<Rightarrow> nat list) \<Rightarrow> nat list \<Rightarrow> int list list list option" where
  "infoOf checks orders [] = Some []"
| "infoOf checks orders (i # is) = do {
     (ok, st) \<leftarrow> checks i;
     partials \<leftarrow> infoOf checks orders is;
     Some (partialsOf (orders i) st # partials) }"

definition checkParallel :: "'v runtime \<Rightarrow> ('v, 's) Model \<Rightarrow> 'v entry list list \<Rightarrow> bool \<Rightarrow> int \<Rightarrow> (CheckResult \<times> 'v linearizationInfo) option" where
  "checkParallel rt model history computeInfo timeout = do {
     let check = (\<lambda>kill i. if i < length history then checkSingle model (history ! i) computeInfo kill else None);
     (ok, timedOut, arrived) \<leftarrow> collect (\<lambda>i. map_option fst (check (\<lambda>_. False) i)) computeInfo timeout (length history)
       (rt_events rt) True [];
     partials \<leftarrow> (if computeInfo
       then infoOf (\<lambda>i. check (if i \<in> set arrived then \<lambda>_. False else rt_kill rt i) i) (rt_order rt) [0..<length history]
       else Some []);
     Some (if \<not> ok then Illegal else if timedOut then Unknown else Ok,
       \<lparr>li_history = (if computeInfo then history else []), partialLinearizations = partials\<rparr>) }"

definition checkEvents :: "'v runtime \<Rightarrow> ('v, 's) Model \<Rightarrow> 'v Event list \<Rightarrow> bool \<Rightarrow> int \<Rightarrow> (CheckResult \<times> 'v linearizationInfo) option" where
  "checkEvents rt model history verbose timeout = do {
     let model = fillDefault model;
     partition \<leftarrow> m_PartitionEvent model;
     partitions \<leftarrow> partition history;
     checkParallel rt model (map (\<lambda>subhistory. convertEntries (renumber subhistory)) partitions) verbose timeout }"

definition checkOperations :: "'v runtime \<Rightarrow> ('v, 's) Model \<Rightarrow> 'v Operation list \<Rightarrow> bool \<Rightarrow> int \<Rightarrow> (CheckResult \<times> 'v linearizationInfo) option" where
  "checkOperations rt model history verbose timeout = do {
     let model = fillDefault model;
     partition \<leftarrow> m_Partition model;
     partitions \<leftarrow> partition history;
     checkParallel rt model (map (makeEntries (rt_sort rt)) partitions) verbose timeout }"

section \<open>The interface (\<open>porcupine.go\<close>)\<close>

definition CheckOperations :: "'v runtime \<Rightarrow> ('v, 's) Model \<Rightarrow> 'v Operation list \<Rightarrow> bool option" where
  "CheckOperations rt model history = map_option (\<lambda>(res, _). res = Ok) (checkOperations rt model history False 0)"

definition CheckOperationsTimeout :: "'v runtime \<Rightarrow> ('v, 's) Model \<Rightarrow> 'v Operation list \<Rightarrow> int \<Rightarrow> CheckResult option" where
  "CheckOperationsTimeout rt model history timeout = map_option fst (checkOperations rt model history False timeout)"

definition CheckOperationsVerbose :: "'v runtime \<Rightarrow> ('v, 's) Model \<Rightarrow> 'v Operation list \<Rightarrow> int \<Rightarrow> (CheckResult \<times> 'v linearizationInfo) option" where
  "CheckOperationsVerbose rt model history timeout = checkOperations rt model history True timeout"

definition CheckEvents :: "'v runtime \<Rightarrow> ('v, 's) Model \<Rightarrow> 'v Event list \<Rightarrow> bool option" where
  "CheckEvents rt model history = map_option (\<lambda>(res, _). res = Ok) (checkEvents rt model history False 0)"

definition CheckEventsTimeout :: "'v runtime \<Rightarrow> ('v, 's) Model \<Rightarrow> 'v Event list \<Rightarrow> int \<Rightarrow> CheckResult option" where
  "CheckEventsTimeout rt model history timeout = map_option fst (checkEvents rt model history False timeout)"

definition CheckEventsVerbose :: "'v runtime \<Rightarrow> ('v, 's) Model \<Rightarrow> 'v Event list \<Rightarrow> int \<Rightarrow> (CheckResult \<times> 'v linearizationInfo) option" where
  "CheckEventsVerbose rt model history timeout = checkEvents rt model history True timeout"

section \<open>The model of the key/value store (\<open>models/kv.go\<close>)\<close>

record KvInput =
  in_Op :: "8 word"
  in_Key :: string
  in_Value :: string

record KvOutput =
  out_Value :: string

text \<open>What an \<open>interface{}\<close> of a history holds; a type assertion on the other type panics.\<close>

datatype kv_value = KvIn KvInput | KvOut KvOutput

definition asInput :: "kv_value \<Rightarrow> KvInput option" where
  "asInput v = (case v of KvIn i \<Rightarrow> Some i | KvOut _ \<Rightarrow> None)"

definition asOutput :: "kv_value \<Rightarrow> KvOutput option" where
  "asOutput v = (case v of KvOut out \<Rightarrow> Some out | KvIn _ \<Rightarrow> None)"

fun byKey :: "kv_value Operation list \<Rightarrow> (string \<Rightarrow> kv_value Operation list option) \<Rightarrow>
    (string \<Rightarrow> kv_value Operation list option) option" where
  "byKey [] m = Some m"
| "byKey (v # history) m = do {
     inp \<leftarrow> asInput (o_Input v);
     byKey history (m(in_Key inp \<mapsto> (case m (in_Key inp) of None \<Rightarrow> [] | Some ops \<Rightarrow> ops) @ [v])) }"

text \<open>
  The keys of the map are collected in any order and then sorted, so the result does not depend on it; here
  they are collected in the order in which they occur.
\<close>

definition KvModel_Partition :: "kv_value Operation list \<Rightarrow> kv_value Operation list list option" where
  "KvModel_Partition history = do {
     m \<leftarrow> byKey history (\<lambda>_. None);
     let keys = sort (filter (\<lambda>k. m k \<noteq> None) (remdups (map (\<lambda>v. case asInput (o_Input v) of Some inp \<Rightarrow> in_Key inp | None \<Rightarrow> []) history)));
     Some (map (\<lambda>k. case m k of Some ops \<Rightarrow> ops | None \<Rightarrow> []) keys) }"

definition KvModel_Step :: "string \<Rightarrow> kv_value \<Rightarrow> kv_value \<Rightarrow> (bool \<times> string) option" where
  "KvModel_Step state input output = do {
     inp \<leftarrow> asInput input;
     out \<leftarrow> asOutput output;
     if in_Op inp = 0 then Some (out_Value out = state, state)
     else if in_Op inp = 1 then Some (True, in_Value inp)
     else Some (True, state @ in_Value inp) }"

definition KvModel :: "(kv_value, string) Model" where
  "KvModel = \<lparr>m_Partition = Some KvModel_Partition, m_PartitionEvent = None, m_Init = '''', m_Step = KvModel_Step, m_Equal = None\<rparr>"

end
