(* ===== verification/OperationHistory.thy ===== *)
theory OperationHistory
  imports PorcupineSingle PorcupineCheck
begin

text \<open>
  From histories of operations and of events to the entries the search works on. A history of
  operations is linearizable if its operations can be put in an order that the model can execute
  and in which none comes after one that was called when it had already returned; \<open>makeEntries\<close>
  gives entries that are linearizable if and only if the history is, as long as no operation is called at the
  very time another one returns. \<open>renumber\<close> does not change what is linearizable either.
\<close>

section \<open>Histories of operations\<close>

definition op_exec :: "('v, 's) Model \<Rightarrow> 's \<Rightarrow> 'v Operation \<Rightarrow> (bool \<times> 's) option" where
  "op_exec M s a = m_Step M s (o_Input a) (o_Output a)"

definition ops_linearization :: "('v, 's) Model \<Rightarrow> 'v Operation list \<Rightarrow> 'v Operation list \<Rightarrow> bool" where
  "ops_linearization M ops q \<longleftrightarrow> mset q = mset ops \<and> sorted_wrt (\<lambda>a b. \<not> o_Return b < o_Call a) q \<and>
     legal (op_exec M) (m_Init M) q"

definition ops_linearizable :: "('v, 's) Model \<Rightarrow> 'v Operation list \<Rightarrow> bool" where
  "ops_linearizable M ops \<longleftrightarrow> (\<exists>q. ops_linearization M ops q)"

text \<open>Operations return after they are called, and none returns at the time one is called.\<close>

definition proper_times :: "'v Operation list \<Rightarrow> bool" where
  "proper_times ops \<longleftrightarrow> (\<forall>a \<in> set ops. o_Call a < o_Return a \<and> (\<forall>b \<in> set ops. o_Return a \<noteq> o_Call b))"

text \<open>What \<open>sort.Sort\<close> promises.\<close>

definition sorts :: "('v entry list \<Rightarrow> 'v entry list) \<Rightarrow> bool" where
  "sorts srt \<longleftrightarrow> (\<forall>xs. mset (srt xs) = mset xs \<and> sorted_wrt (\<lambda>a b. e_time a \<le> e_time b) (srt xs))"

definition entry_of :: "entryKind \<Rightarrow> int \<Rightarrow> 'v Operation \<Rightarrow> 'v entry" where
  "entry_of k i a = \<lparr>e_kind = k, e_value = (if k = callEntry then o_Input a else o_Output a), e_id = i,
     e_time = (if k = callEntry then o_Call a else o_Return a), e_clientId = o_ClientId a\<rparr>"

lemma entry_of_fields [simp]:
  "e_kind (entry_of k i a) = k" "e_id (entry_of k i a) = i"
  "e_value (entry_of callEntry i a) = o_Input a" "e_value (entry_of returnEntry i a) = o_Output a"
  "e_time (entry_of callEntry i a) = o_Call a" "e_time (entry_of returnEntry i a) = o_Return a"
  by (simp_all add: entry_of_def)

lemma operationEntries_set:
  "set (operationEntries n ops) = {entry_of k (n + int i) (ops ! i) | k i. i < length ops}"
proof (induction ops arbitrary: n)
  case (Cons a ops)
  have "{entry_of k (n + int i) ((a # ops) ! i) | k i. i < length (a # ops)} =
      {entry_of callEntry n a, entry_of returnEntry n a} \<union> {entry_of k (n + 1 + int i) (ops ! i) | k i. i < length ops}"
    (is "?l = ?r")
  proof (intro equalityI subsetI)
    fix e assume "e \<in> ?l"
    then obtain k i where e: "e = entry_of k (n + int i) ((a # ops) ! i)" "i < length (a # ops)" by blast
    then show "e \<in> ?r" by (cases i; cases k) (auto simp: algebra_simps)
  next
    fix e assume "e \<in> ?r"
    then consider k where "e = entry_of k n a" | k i where "e = entry_of k (n + 1 + int i) (ops ! i)" "i < length ops" by auto
    then show "e \<in> ?l"
    proof cases
      case 1
      then show ?thesis by (auto intro!: exI [of _ k] exI [of _ 0])
    next
      case 2
      then show ?thesis by (auto intro!: exI [of _ k] exI [of _ "Suc i"] simp: algebra_simps)
    qed
  qed
  with Cons.IH [of "n + 1"] show ?case by (simp add: entry_of_def)
qed simp

lemma operationEntries_length [simp]: "length (operationEntries n ops) = 2 * length ops"
  by (induction ops arbitrary: n) simp_all

lemma operationEntries_distinct: "distinct (map (\<lambda>e. (e_kind e, e_id e)) (operationEntries n ops))"
proof (induction ops arbitrary: n)
  case (Cons a ops)
  have "e_id e \<noteq> n" if "e \<in> set (operationEntries (n + 1) ops)" for e
    using that by (auto simp: operationEntries_set)
  with Cons.IH [of "n + 1"] show ?case by (auto simp: image_iff)
qed simp

lemma makeEntries_set: "sorts srt \<Longrightarrow> set (makeEntries srt ops) = {entry_of k (int i) (ops ! i) | k i. i < length ops}"
  using operationEntries_set [of 0 ops] by (simp add: sorts_def makeEntries_def) (metis set_mset_mset)

lemma makeEntries_length: "sorts srt \<Longrightarrow> length (makeEntries srt ops) = 2 * length ops"
  unfolding sorts_def makeEntries_def by (metis operationEntries_length size_mset)

lemma makeEntries_distinct: "sorts srt \<Longrightarrow> distinct (map (\<lambda>e. (e_kind e, e_id e)) (makeEntries srt ops))"
  unfolding sorts_def makeEntries_def
  by (metis mset_eq_imp_distinct_iff mset_map operationEntries_distinct)

text \<open>Where an entry is, and how positions and times go together.\<close>

lemma makeEntries_at:
  assumes "sorts srt" and "i < length ops"
  shows "\<exists>k < length (makeEntries srt ops). makeEntries srt ops ! k = entry_of d (int i) (ops ! i)"
proof -
  have "entry_of d (int i) (ops ! i) \<in> set (makeEntries srt ops)" using assms by (auto simp: makeEntries_set)
  then show ?thesis by (simp add: in_set_conv_nth)
qed

lemma makeEntries_nth:
  assumes "sorts srt" and "k < length (makeEntries srt ops)"
  shows "\<exists>i < length ops. makeEntries srt ops ! k =
    entry_of (e_kind (makeEntries srt ops ! k)) (e_id (makeEntries srt ops ! k)) (ops ! i) \<and> e_id (makeEntries srt ops ! k) = int i"
proof -
  have "makeEntries srt ops ! k \<in> {entry_of k (int i) (ops ! i) | k i. i < length ops}"
    using nth_mem [OF assms(2)] unfolding makeEntries_set [OF assms(1)] .
  then show ?thesis by auto
qed

lemma makeEntries_before:
  assumes "sorts srt" and "k < length (makeEntries srt ops)" and "l < length (makeEntries srt ops)"
    and "e_time (makeEntries srt ops ! k) < e_time (makeEntries srt ops ! l)"
  shows "k < l"
proof (rule ccontr)
  assume "\<not> k < l"
  moreover have "sorted_wrt (\<lambda>a b. e_time a \<le> e_time b) (makeEntries srt ops)"
    using assms(1) by (simp add: sorts_def makeEntries_def)
  ultimately have "e_time (makeEntries srt ops ! l) \<le> e_time (makeEntries srt ops ! k)"
    using sorted_wrt_nth_less [of _ _ l k] assms(2) by (cases "l = k") auto
  with assms(4) show False by simp
qed

lemma makeEntries_well_formed:
  assumes "sorts srt" and "proper_times ops"
  shows "well_formed (makeEntries srt ops)"
proof -
  let ?es = "makeEntries srt ops"
  have "\<exists>l < length ?es. k < l \<and> e_kind (?es ! l) = returnEntry \<and> e_id (?es ! l) = e_id (?es ! k)"
    if k: "k < length ?es" "e_kind (?es ! k) = callEntry" for k
  proof -
    obtain i where i: "i < length ops" "?es ! k = entry_of callEntry (int i) (ops ! i)"
      using makeEntries_nth [OF assms(1) k(1)] k(2) by auto
    obtain l where l: "l < length ?es" "?es ! l = entry_of returnEntry (int i) (ops ! i)"
      using makeEntries_at [OF assms(1) i(1)] by blast
    have "k < l" using makeEntries_before [OF assms(1) k(1) l(1)] i l assms(2) by (simp add: proper_times_def)
    with i l show ?thesis by auto
  qed
  moreover have "\<exists>k < l. e_kind (?es ! k) = callEntry \<and> e_id (?es ! k) = e_id (?es ! l)"
    if l: "l < length ?es" "e_kind (?es ! l) = returnEntry" for l
  proof -
    obtain i where i: "i < length ops" "?es ! l = entry_of returnEntry (int i) (ops ! i)"
      using makeEntries_nth [OF assms(1) l(1)] l(2) by auto
    obtain k where k: "k < length ?es" "?es ! k = entry_of callEntry (int i) (ops ! i)"
      using makeEntries_at [OF assms(1) i(1)] by blast
    have "k < l" using makeEntries_before [OF assms(1) k(1) l(1)] i k assms(2) by (simp add: proper_times_def)
    with i k show ?thesis by auto
  qed
  moreover have "e_id ` set ?es = {0..<int (length ?es div 2)}"
    unfolding makeEntries_set [OF assms(1)] makeEntries_length [OF assms(1)]
    by (auto simp: image_iff intro!: exI [of _ "nat _"]) (metis entry_of_fields(2) int_nat_eq nat_less_iff)
  ultimately show ?thesis using makeEntries_distinct [OF assms(1)]
    by (simp add: well_formed_def complete_history_def)
qed

lemma makeEntries_precedes:
  assumes "sorts srt" and "proper_times ops" and "i < length ops" and "j < length ops"
  shows "precedes (makeEntries srt ops) (int i) (int j) \<longleftrightarrow> o_Return (ops ! i) < o_Call (ops ! j)"
proof
  let ?es = "makeEntries srt ops"
  assume "precedes ?es (int i) (int j)"
  then obtain l k where l: "l < length ?es" "k < l" "e_kind (?es ! k) = returnEntry" "e_id (?es ! k) = int i"
      "e_kind (?es ! l) = callEntry" "e_id (?es ! l) = int j" by (auto simp: precedes_def)
  then have "?es ! k = entry_of returnEntry (int i) (ops ! i)" "?es ! l = entry_of callEntry (int j) (ops ! j)"
    using makeEntries_nth [OF assms(1), of k ops] makeEntries_nth [OF assms(1), of l ops] by auto
  moreover have "sorted_wrt (\<lambda>a b. e_time a \<le> e_time b) ?es" using assms(1) by (simp add: sorts_def makeEntries_def)
  ultimately have "o_Return (ops ! i) \<le> o_Call (ops ! j)"
    using sorted_wrt_nth_less [of "\<lambda>a b. e_time a \<le> e_time b" ?es k l] l by simp
  moreover have "o_Return (ops ! i) \<noteq> o_Call (ops ! j)" using assms(2-4) by (auto simp: proper_times_def)
  ultimately show "o_Return (ops ! i) < o_Call (ops ! j)" by simp
next
  let ?es = "makeEntries srt ops"
  assume time: "o_Return (ops ! i) < o_Call (ops ! j)"
  obtain k where k: "k < length ?es" "?es ! k = entry_of returnEntry (int i) (ops ! i)"
    using makeEntries_at [OF assms(1,3)] by blast
  obtain l where l: "l < length ?es" "?es ! l = entry_of callEntry (int j) (ops ! j)"
    using makeEntries_at [OF assms(1,4)] by blast
  have "k < l" using makeEntries_before [OF assms(1) k(1) l(1)] k l time by simp
  with k l show "precedes ?es (int i) (int j)" unfolding precedes_def
    by (intro exI [of _ l] conjI exI [of _ k]) simp_all
qed

lemma makeEntries_value:
  assumes "sorts srt" and "i < length ops"
  shows "entry_value callEntry (makeEntries srt ops) (int i) = o_Input (ops ! i)"
    "entry_value returnEntry (makeEntries srt ops) (int i) = o_Output (ops ! i)"
proof -
  have "entry_of d (int i) (ops ! i) \<in> set (makeEntries srt ops)" for d using assms by (auto simp: makeEntries_set)
  from find_unique [OF makeEntries_distinct [OF assms(1)] this]
  show "entry_value callEntry (makeEntries srt ops) (int i) = o_Input (ops ! i)"
    "entry_value returnEntry (makeEntries srt ops) (int i) = o_Output (ops ! i)"
    by (simp_all add: entry_value_def)
qed

lemma op_step_makeEntries: "sorts srt \<Longrightarrow> i < length ops \<Longrightarrow> op_step M (makeEntries srt ops) s (int i) = op_exec M s (ops ! i)"
  by (simp add: op_step_def op_exec_def makeEntries_value)

section \<open>Linearizable histories\<close>

lemma execute_map:
  assumes "\<And>s i. i \<in> set p \<Longrightarrow> step s i = step' s (f i)"
  shows "execute step s p = execute step' s (map f p)"
  using assms by (induction p arbitrary: s) (auto split: option.split prod.split bool.split)

lemma sorted_wrt_iff: "(\<And>i j. i \<in> set p \<Longrightarrow> j \<in> set p \<Longrightarrow> P i j = Q i j) \<Longrightarrow> sorted_wrt P p = sorted_wrt Q p"
  by (induction p) auto

lemma mset_map_permuted: "mset q = mset (map f xs) \<Longrightarrow> \<exists>ys. mset ys = mset xs \<and> q = map f ys"
proof (induction q arbitrary: xs)
  case (Cons a q)
  then have "a \<in> set (map f xs)" by (metis list.set_intros(1) mset_eq_setD)
  then obtain x where x: "x \<in> set xs" "f x = a" by auto
  then have "mset xs = add_mset x (mset (remove1 x xs))" by simp
  then have "mset (map f xs) = add_mset a (mset (map f (remove1 x xs)))"
    unfolding mset_map using x(2) by (simp only: image_mset_add_mset)
  with Cons.prems have "mset q = mset (map f (remove1 x xs))" by simp
  from Cons.IH [OF this] obtain ys where "mset ys = mset (remove1 x xs)" "q = map f ys" by blast
  with x show ?case by (intro exI [of _ "x # ys"]) simp
qed simp

lemma mset_index: "mset (map (\<lambda>i. ops ! nat i) (map int [0..<length ops])) = mset ops"
  by (simp add: comp_def map_nth flip: mset_map)

theorem linearizable_makeEntries:
  assumes "sorts srt" and "proper_times ops"
  shows "linearizable M (makeEntries srt ops) \<longleftrightarrow> ops_linearizable M ops"
proof -
  let ?es = "makeEntries srt ops" and ?f = "\<lambda>i. ops ! nat i" and ?is = "map int [0..<length ops]"
  have ids: "e_id ` set ?es = set ?is"
    using idents_wf [OF makeEntries_well_formed [OF assms]]
    by (simp add: makeEntries_length [OF assms(1)] image_int_atLeastLessThan)
  have perm: "distinct p \<and> set p = e_id ` set ?es \<longleftrightarrow> mset p = mset ?is" for p
    unfolding ids using set_eq_iff_mset_eq_distinct [of p ?is]
    by (metis distinct_map distinct_upt inj_on_of_nat mset_eq_imp_distinct_iff mset_eq_setD)
  have order: "sorted_wrt (\<lambda>i j. \<not> precedes ?es j i) p \<longleftrightarrow> sorted_wrt (\<lambda>a b. \<not> o_Return b < o_Call a) (map ?f p)"
    and exec: "execute (op_step M ?es) s p = execute (op_exec M) s (map ?f p)"
    if "mset p = mset ?is" for p s
  proof -
    have range: "i \<in> set p \<Longrightarrow> nat i < length ops \<and> int (nat i) = i" for i
      using mset_eq_setD [OF that] by auto
    then have "precedes ?es j i \<longleftrightarrow> o_Return (?f j) < o_Call (?f i)" if "i \<in> set p" "j \<in> set p" for i j
      using makeEntries_precedes [OF assms, of "nat j" "nat i"] that by simp
    then show "sorted_wrt (\<lambda>i j. \<not> precedes ?es j i) p \<longleftrightarrow> sorted_wrt (\<lambda>a b. \<not> o_Return b < o_Call a) (map ?f p)"
      unfolding sorted_wrt_map by (intro sorted_wrt_iff) simp
    show "execute (op_step M ?es) s p = execute (op_exec M) s (map ?f p)"
      by (rule execute_map) (use range op_step_makeEntries [OF assms(1)] in metis)
  qed
  show ?thesis
  proof
    assume "linearizable M ?es"
    then obtain p where p: "linearization M ?es p" by (auto simp: linearizable_def)
    then have m: "mset p = mset ?is" using perm [of p] unfolding linearization_def by blast
    then have "mset (map ?f p) = mset (map ?f ?is)" by (simp only: mset_map)
    also have "\<dots> = mset ops" by (rule mset_index)
    finally show "ops_linearizable M ops"
      using p order [OF m] exec [OF m] unfolding ops_linearizable_def ops_linearization_def linearization_def legal_def
      by (intro exI [of _ "map ?f p"]) simp
  next
    assume "ops_linearizable M ops"
    then obtain q where q: "ops_linearization M ops q" by (auto simp: ops_linearizable_def)
    then have "mset q = mset (map ?f ?is)" using mset_index [of ops] by (simp only: ops_linearization_def)
    then obtain p where p: "mset p = mset ?is" "q = map ?f p" using mset_map_permuted by blast
    then show "linearizable M ?es"
      using q order [OF p(1)] exec [OF p(1)] perm [of p]
      unfolding linearizable_def ops_linearization_def linearization_def legal_def by auto
  qed
qed

text \<open>The models of the checker: the contract of \<open>Equal\<close>, and steps that do not panic on the history.\<close>

definition ops_setting :: "('v, 's) Model \<Rightarrow> 'v Operation list \<Rightarrow> bool" where
  "ops_setting M ops \<longleftrightarrow> proper_times ops \<and> equal_ok M \<and> (\<forall>s. \<forall>a \<in> set ops. op_exec M s a \<noteq> None)"

lemma ops_search_setting:
  assumes "sorts srt" and "ops_setting M ops"
  shows "search_setting M (makeEntries srt ops)"
proof -
  have wf: "well_formed (makeEntries srt ops)" and ops: "\<forall>s. \<forall>a \<in> set ops. op_exec M s a \<noteq> None"
    using assms makeEntries_well_formed by (auto simp: ops_setting_def)
  have "op_step M (makeEntries srt ops) s i \<noteq> None" if "i \<in> e_id ` set (makeEntries srt ops)" for s i
  proof -
    have "nat i < length ops" "int (nat i) = i"
      using that idents_wf [OF wf] makeEntries_length [OF assms(1), of ops] by auto
    with op_step_makeEntries [OF assms(1), of "nat i" ops M s] ops show ?thesis by simp
  qed
  with wf assms(2) show ?thesis by (simp add: search_setting_def ops_setting_def)
qed

section \<open>Events and renumbering\<close>

definition with_ids :: "(int \<Rightarrow> int) \<Rightarrow> 'v entry list \<Rightarrow> 'v entry list" where
  "with_ids f es = map (\<lambda>e. e\<lparr>e_id := f (e_id e)\<rparr>) es"

lemma with_ids_simps [simp]:
  "length (with_ids f es) = length es" "k < length es \<Longrightarrow> with_ids f es ! k = (es ! k)\<lparr>e_id := f (e_id (es ! k))\<rparr>"
  "e_id ` set (with_ids f es) = f ` e_id ` set es"
  by (simp_all add: with_ids_def image_image)

text \<open>\<open>f\<close> gives the ids, those in the map \<open>m\<close> and those of the events to come, the numbers below \<open>n\<close>.\<close>

definition numbering :: "(int \<Rightarrow> int option) \<Rightarrow> 'v Event list \<Rightarrow> (int \<Rightarrow> int) \<Rightarrow> int \<Rightarrow> bool" where
  "numbering m evs f n \<longleftrightarrow> (\<forall>i r. m i = Some r \<longrightarrow> f i = r) \<and> inj_on f (dom m \<union> ev_Id ` set evs) \<and>
     f ` (dom m \<union> ev_Id ` set evs) = {0..<n}"

lemma numbering_known: "m (ev_Id v) = Some r \<Longrightarrow> numbering m (v # evs) f n \<longleftrightarrow> numbering m evs f n"
proof -
  assume "m (ev_Id v) = Some r"
  then have "dom m \<union> ev_Id ` set (v # evs) = dom m \<union> ev_Id ` set evs" by auto
  then show ?thesis by (simp only: numbering_def)
qed

lemma numbering_new:
  assumes "m (ev_Id v) = None" and "numbering (m(ev_Id v \<mapsto> k)) evs f n"
  shows "numbering m (v # evs) f n \<and> f (ev_Id v) = k"
proof -
  have "dom m \<union> ev_Id ` set (v # evs) = dom (m(ev_Id v \<mapsto> k)) \<union> ev_Id ` set evs" by auto
  moreover have known: "(m(ev_Id v \<mapsto> k)) i = Some r \<Longrightarrow> f i = r" for i r
    using assms(2) unfolding numbering_def by blast
  then have "\<forall>i r. m i = Some r \<longrightarrow> f i = r"
    using assms(1) by (metis fun_upd_other option.distinct(1))
  moreover have "f (ev_Id v) = k" using known [of "ev_Id v" k] by simp
  ultimately show ?thesis using assms(2) by (simp only: numbering_def simp_thms)
qed

lemma renumber_loop_spec:
  assumes "inj_on m (dom m)" and "ran m = {0..<n}" and "0 \<le> n"
  shows "\<exists>f n'. numbering m evs f n' \<and> renumber_loop m n evs = map (\<lambda>v. v\<lparr>ev_Id := f (ev_Id v)\<rparr>) evs"
  using assms
proof (induction evs arbitrary: m n)
  case Nil
  have "inj_on (\<lambda>i. the (m i)) (dom m)"
  proof (rule inj_onI)
    fix x y assume "x \<in> dom m" "y \<in> dom m" "the (m x) = the (m y)"
    then have "m x = m y" by (auto simp: dom_def)
    with \<open>x \<in> dom m\<close> \<open>y \<in> dom m\<close> Nil.prems(1) show "x = y" by (simp add: inj_on_def)
  qed
  moreover have "(\<lambda>i. the (m i)) ` dom m = ran m"
    by (auto simp: ran_def dom_def intro!: rev_image_eqI)
  ultimately show ?case using Nil.prems(2)
    by (intro exI [of _ "\<lambda>i. the (m i)"] exI [of _ n]) (simp add: numbering_def)
next
  case (Cons v evs)
  show ?case
  proof (cases "m (ev_Id v)")
    case (Some r)
    obtain f n' where f: "numbering m evs f n'" "renumber_loop m n evs = map (\<lambda>v. v\<lparr>ev_Id := f (ev_Id v)\<rparr>) evs"
      using Cons.IH [OF Cons.prems] by blast
    then have "f (ev_Id v) = r" using Some by (simp add: numbering_def)
    with f Some show ?thesis
      by (intro exI [of _ f] exI [of _ n']) (simp only: numbering_known renumber_loop.simps list.map option.case simp_thms)
  next
    case None
    let ?m = "m(ev_Id v \<mapsto> n)"
    have new: "m i \<noteq> Some n" for i using Cons.prems(2) ranI [of m i n] by auto
    have inj: "inj_on ?m (dom ?m)"
    proof (rule inj_onI)
      fix x y assume "x \<in> dom ?m" "y \<in> dom ?m" "?m x = ?m y"
      then show "x = y" using Cons.prems(1) new [of x] new [of y]
        by (cases "x = ev_Id v"; cases "y = ev_Id v") (simp_all add: inj_on_def domIff)
    qed
    have ran: "ran ?m = {0..<n + 1}" using Cons.prems(2,3) None by (auto simp: ran_map_upd)
    have "0 \<le> n + 1" using Cons.prems(3) by simp
    from Cons.IH [OF inj ran this] obtain f n' where f: "numbering ?m evs f n'" "renumber_loop ?m (n + 1) evs = map (\<lambda>v. v\<lparr>ev_Id := f (ev_Id v)\<rparr>) evs"
      by (elim exE conjE) (rule that)
    from numbering_new [OF None f(1)] f(2) None show ?thesis
      by (intro exI [of _ f] exI [of _ n']) simp
  qed
qed

lemma convertEntries_ids: "convertEntries_loop k (map (\<lambda>v. v\<lparr>ev_Id := f (ev_Id v)\<rparr>) evs) = with_ids f (convertEntries_loop k evs)"
  by (induction evs arbitrary: k) (simp_all add: with_ids_def)

lemma convertEntries_id_set: "e_id ` set (convertEntries_loop k evs) = ev_Id ` set evs"
  by (induction evs arbitrary: k) simp_all

lemma convert_renumber:
  "\<exists>f n. inj_on f (e_id ` set (convertEntries evs)) \<and> f ` e_id ` set (convertEntries evs) = {0..<n} \<and>
     convertEntries (renumber evs) = with_ids f (convertEntries evs)"
proof -
  obtain f n where "inj_on f (ev_Id ` set evs)" "f ` ev_Id ` set evs = {0..<n}"
      "renumber_loop (\<lambda>_. None) 0 evs = map (\<lambda>v. v\<lparr>ev_Id := f (ev_Id v)\<rparr>) evs"
    using renumber_loop_spec [of "\<lambda>_. None" 0 evs] by (auto simp: numbering_def)
  then show ?thesis
    by (intro exI [of _ f] exI [of _ n])
      (simp add: renumber_def convertEntries_def convertEntries_ids convertEntries_id_set)
qed

text \<open>A complete history has two entries of every operation.\<close>

lemma complete_length:
  assumes "complete_history es"
  shows "length es = 2 * card (e_id ` set es)"
proof -
  let ?f = "\<lambda>e. (e_kind e, e_id e)"
  have both: "(k, e_id e) \<in> ?f ` set es" if e: "e \<in> set es" for k e
  proof -
    obtain j where j: "j < length es" "es ! j = e" using e by (auto simp: in_set_conv_nth)
    have "\<exists>e' \<in> set es. e_kind e' \<noteq> e_kind e \<and> e_id e' = e_id e"
    proof (cases "e_kind e")
      case callEntry
      then obtain l where "l < length es" "e_kind (es ! l) = returnEntry" "e_id (es ! l) = e_id e"
        using assms j unfolding complete_history_def by blast
      with callEntry show ?thesis by (intro bexI [of _ "es ! l"]) simp_all
    next
      case returnEntry
      then obtain l where "l < j" "e_kind (es ! l) = callEntry" "e_id (es ! l) = e_id e"
        using assms j unfolding complete_history_def by blast
      with returnEntry j show ?thesis by (intro bexI [of _ "es ! l"]) simp_all
    qed
    then obtain e' where "e' \<in> set es" "e_kind e' \<noteq> e_kind e" "e_id e' = e_id e" by blast
    then have "k = e_kind e \<or> k = e_kind e'" by (cases k; cases "e_kind e"; cases "e_kind e'") simp_all
    with e \<open>e' \<in> set es\<close> \<open>e_id e' = e_id e\<close> show ?thesis by (metis (mono_tags, lifting) imageI)
  qed
  have "?f ` set es = {callEntry, returnEntry} \<times> e_id ` set es"
  proof (intro equalityI subsetI)
    fix x assume "x \<in> {callEntry, returnEntry} \<times> e_id ` set es"
    then show "x \<in> ?f ` set es" using both by auto
  qed (auto intro: entryKind.exhaust)
  moreover have "length es = card (?f ` set es)"
    using assms distinct_card [of "map ?f es"] by (simp add: complete_history_def)
  ultimately show ?thesis by (simp add: card_cartesian_product)
qed

lemma complete_with_ids:
  assumes "complete_history es" and "inj_on f (e_id ` set es)"
  shows "complete_history (with_ids f es)"
proof -
  let ?g = "\<lambda>(k, i). (k, f i)"
  have "map (\<lambda>e. (e_kind e, e_id e)) (with_ids f es) = map ?g (map (\<lambda>e. (e_kind e, e_id e)) es)"
    by (simp add: with_ids_def)
  moreover have "inj_on ?g (set (map (\<lambda>e. (e_kind e, e_id e)) es))"
    using assms(2) by (auto simp: inj_on_def)
  ultimately have "distinct (map (\<lambda>e. (e_kind e, e_id e)) (with_ids f es))"
    using assms(1) by (simp only: distinct_map complete_history_def)
  moreover have "\<exists>l < length es. k < l \<and> e_kind (with_ids f es ! l) = returnEntry \<and> e_id (with_ids f es ! l) = e_id (with_ids f es ! k)"
    if "k < length es" "e_kind (es ! k) = callEntry" for k
  proof -
    obtain l where "k < l" "l < length es" "e_kind (es ! l) = returnEntry" "e_id (es ! l) = e_id (es ! k)"
      using assms(1) \<open>k < length es\<close> \<open>e_kind (es ! k) = callEntry\<close> unfolding complete_history_def by blast
    then show ?thesis using that by (intro exI [of _ l]) simp
  qed
  moreover have "\<exists>k < l. e_kind (with_ids f es ! k) = callEntry \<and> e_id (with_ids f es ! k) = e_id (with_ids f es ! l)"
    if l: "l < length es" "e_kind (es ! l) = returnEntry" for l
  proof -
    obtain k where "k < l" "e_kind (es ! k) = callEntry" "e_id (es ! k) = e_id (es ! l)"
      using assms(1) l unfolding complete_history_def by blast
    then show ?thesis using l by (intro exI [of _ k]) simp
  qed
  ultimately show ?thesis by (simp add: complete_history_def)
qed

lemma precedes_with_ids:
  assumes "inj_on f (e_id ` set es)" and "i \<in> e_id ` set es" and "j \<in> e_id ` set es"
  shows "precedes (with_ids f es) (f i) (f j) \<longleftrightarrow> precedes es i j"
proof -
  have "f (e_id (es ! k)) = f i \<longleftrightarrow> e_id (es ! k) = i" if "k < length es" "i \<in> e_id ` set es" for k i
    using inj_on_eq_iff [OF assms(1), of "e_id (es ! k)" i] that by simp
  then show ?thesis using assms(2,3) unfolding precedes_def with_ids_simps(1)
    by (intro ex_cong1 conj_cong [OF refl]) simp
qed

lemma entry_value_with_ids:
  assumes "inj_on f (e_id ` set es)" and "i \<in> e_id ` set es"
  shows "entry_value k (with_ids f es) (f i) = entry_value k es i"
proof -
  have "find (\<lambda>e. e_kind e = k \<and> e_id e = f i) (with_ids f xs) =
      map_option (\<lambda>e. e\<lparr>e_id := f (e_id e)\<rparr>) (find (\<lambda>e. e_kind e = k \<and> e_id e = i) xs)" if "set xs \<subseteq> set es" for xs
    using that
  proof (induction xs)
    case (Cons x xs)
    then have "f (e_id x) = f i \<longleftrightarrow> e_id x = i" using inj_on_eq_iff [OF assms(1), of "e_id x" i] assms(2) by simp
    with Cons show ?case by (simp add: with_ids_def)
  qed (simp add: with_ids_def)
  from this [of es] show ?thesis
    by (cases "find (\<lambda>e. e_kind e = k \<and> e_id e = i) es") (simp_all add: entry_value_def)
qed

lemma linearization_with_ids:
  assumes "inj_on f (e_id ` set es)" and "set p \<subseteq> e_id ` set es"
  shows "linearization M (with_ids f es) (map f p) \<longleftrightarrow> linearization M es p"
proof -
  have "inj_on f (set p)" using assms by (rule inj_on_subset)
  then have 1: "distinct (map f p) \<longleftrightarrow> distinct p" by (simp add: distinct_map)
  have 2: "set (map f p) = e_id ` set (with_ids f es) \<longleftrightarrow> set p = e_id ` set es"
    using inj_on_image_eq_iff [OF assms(1) assms(2) order_refl] by simp
  have "(\<not> precedes (with_ids f es) (f j) (f i)) = (\<not> precedes es j i)" if "i \<in> set p" "j \<in> set p" for i j
    by (subst precedes_with_ids [OF assms(1)]) (use assms(2) that in auto)
  then have 3: "sorted_wrt (\<lambda>i j. \<not> precedes (with_ids f es) j i) (map f p) \<longleftrightarrow> sorted_wrt (\<lambda>i j. \<not> precedes es j i) p"
    unfolding sorted_wrt_map by (rule sorted_wrt_iff)
  have 4: "execute (op_step M es) s p = execute (op_step M (with_ids f es)) s (map f p)" for s
    by (rule execute_map) (use assms(2) in \<open>simp add: op_step_def entry_value_with_ids [OF assms(1)] subset_iff\<close>)
  show ?thesis using 1 2 3 4 by (simp add: linearization_def legal_def)
qed

lemma linearizable_with_ids:
  assumes "inj_on f (e_id ` set es)"
  shows "linearizable M (with_ids f es) \<longleftrightarrow> linearizable M es"
proof
  assume "linearizable M (with_ids f es)"
  then obtain q where q: "linearization M (with_ids f es) q" by (auto simp: linearizable_def)
  let ?g = "inv_into (e_id ` set es) f"
  have "set q = f ` e_id ` set es" using q by (simp add: linearization_def)
  then have g: "f (?g x) = x" "?g x \<in> e_id ` set es" if "x \<in> set q" for x
    using that by (simp_all only: f_inv_into_f inv_into_into)
  have "map f (map ?g q) = q" using g(1) by (simp add: map_idI)
  moreover have "set (map ?g q) \<subseteq> e_id ` set es" using g(2) by auto
  ultimately have "linearization M es (map ?g q)"
    using q linearization_with_ids [OF assms, of "map ?g q" M] by simp
  then show "linearizable M es" unfolding linearizable_def by (rule exI)
next
  assume "linearizable M es"
  then obtain p where p: "linearization M es p" by (auto simp: linearizable_def)
  then have "set p \<subseteq> e_id ` set es" by (simp add: linearization_def)
  with p linearization_with_ids [OF assms, of p M] have "linearization M (with_ids f es) (map f p)" by simp
  then show "linearizable M (with_ids f es)" unfolding linearizable_def by (rule exI)
qed

lemma well_formed_with_ids:
  assumes "complete_history es" and "inj_on f (e_id ` set es)" and "f ` e_id ` set es = {0..<n}"
  shows "well_formed (with_ids f es)"
proof -
  have "card (e_id ` set es) = nat n" using card_image [OF assms(2)] assms(3) by simp
  then have "{0..<n} = {0..<int (length es div 2)}" using complete_length [OF assms(1)] by auto
  with complete_with_ids [OF assms(1,2)] assms(3) show ?thesis by (simp add: well_formed_def)
qed

theorem renumber_ok:
  assumes "complete_history (convertEntries evs)"
  shows "well_formed (convertEntries (renumber evs))"
    "linearizable M (convertEntries (renumber evs)) \<longleftrightarrow> linearizable M (convertEntries evs)"
proof -
  obtain f n where f: "inj_on f (e_id ` set (convertEntries evs))" "f ` e_id ` set (convertEntries evs) = {0..<n}"
      "convertEntries (renumber evs) = with_ids f (convertEntries evs)"
    using convert_renumber [of evs] by (elim exE conjE) (rule that)
  show "well_formed (convertEntries (renumber evs))" unfolding f(3) by (rule well_formed_with_ids [OF assms f(1,2)])
  show "linearizable M (convertEntries (renumber evs)) \<longleftrightarrow> linearizable M (convertEntries evs)"
    unfolding f(3) by (rule linearizable_with_ids [OF f(1)])
qed

lemma renumber_setting:
  assumes "complete_history (convertEntries evs)" and "equal_ok M"
    and "\<And>s i. i \<in> e_id ` set (convertEntries evs) \<Longrightarrow> op_step M (convertEntries evs) s i \<noteq> None"
  shows "search_setting M (convertEntries (renumber evs))"
proof -
  obtain f n where f: "inj_on f (e_id ` set (convertEntries evs))" "f ` e_id ` set (convertEntries evs) = {0..<n}"
      "convertEntries (renumber evs) = with_ids f (convertEntries evs)"
    using convert_renumber [of evs] by (elim exE conjE) (rule that)
  have "op_step M (with_ids f (convertEntries evs)) s j \<noteq> None" if j: "j \<in> e_id ` set (with_ids f (convertEntries evs))" for s j
  proof -
    have "j \<in> f ` e_id ` set (convertEntries evs)" using j by (simp only: with_ids_simps)
    then obtain i where i: "j = f i" "i \<in> e_id ` set (convertEntries evs)" by (rule imageE)
    have "op_step M (with_ids f (convertEntries evs)) s j = op_step M (convertEntries evs) s i"
      by (simp only: op_step_def i(1) entry_value_with_ids [OF f(1) i(2)])
    with assms(3) [OF i(2)] show ?thesis by simp
  qed
  then show ?thesis using renumber_ok(1) [OF assms(1)] assms(2) unfolding search_setting_def f(3) by blast
qed

end
