(* ===== verification/DatabaseHistory.thy ===== *)
theory DatabaseHistory
  imports OperationHistory
begin

text \<open>
  Why the tests may check the operations on every key for themselves. The model of \<open>src/models/kv.go\<close>
  is that of one key, and its \<open>Partition\<close> splits a history by key; the store is a database of
  many keys. A history of the database is linearizable if and only if its part for every key
  is (\<open>by_key\<close>): linearizations of the parts are merged by giving each operation a point in time
  between its call and its return - the latest call up to it in its part.
\<close>

section \<open>The database\<close>

definition typed :: "kv_value Operation \<Rightarrow> bool" where
  "typed a \<longleftrightarrow> asInput (o_Input a) \<noteq> None \<and> asOutput (o_Output a) \<noteq> None"

definition op_key :: "kv_value Operation \<Rightarrow> string" where
  "op_key a = in_Key (the (asInput (o_Input a)))"

definition Database_Step :: "(string \<Rightarrow> string) \<Rightarrow> kv_value \<Rightarrow> kv_value \<Rightarrow> (bool \<times> (string \<Rightarrow> string)) option" where
  "Database_Step db input output = do {
     inp \<leftarrow> asInput input;
     (ok, v) \<leftarrow> KvModel_Step (db (in_Key inp)) input output;
     Some (ok, db(in_Key inp := v)) }"

definition DatabaseModel :: "(kv_value, string \<Rightarrow> string) Model" where
  "DatabaseModel = \<lparr>m_Partition = None, m_PartitionEvent = None, m_Init = (\<lambda>_. ''''), m_Step = Database_Step, m_Equal = None\<rparr>"

lemma typed_exec: "typed a \<Longrightarrow> \<exists>ok v. op_exec KvModel s a = Some (ok, v)"
  by (auto simp: typed_def op_exec_def KvModel_def KvModel_Step_def)

lemma database_exec:
  "typed a \<Longrightarrow> op_exec DatabaseModel db a = map_option (\<lambda>(ok, v). (ok, db(op_key a := v))) (op_exec KvModel (db (op_key a)) a)"
  by (auto simp: typed_def op_exec_def DatabaseModel_def Database_Step_def KvModel_def op_key_def split: Option.bind_splits)

lemma legal_database:
  assumes "\<forall>a \<in> set q. typed a"
  shows "legal (op_exec DatabaseModel) db q \<longleftrightarrow> (\<forall>k. legal (op_exec KvModel) (db k) (filter (\<lambda>a. op_key a = k) q))"
  using assms
proof (induction q arbitrary: db)
  case (Cons a q)
  then have IH: "legal (op_exec DatabaseModel) db q \<longleftrightarrow> (\<forall>k. legal (op_exec KvModel) (db k) (filter (\<lambda>a. op_key a = k) q))" for db
    by simp
  obtain ok v where ov: "op_exec KvModel (db (op_key a)) a = Some (ok, v)" using typed_exec Cons.prems by fastforce
  let ?db = "db(op_key a := v)"
  have "legal (op_exec DatabaseModel) db (a # q) \<longleftrightarrow> ok \<and> legal (op_exec DatabaseModel) ?db q"
    using Cons.prems ov by (simp add: legal_Cons database_exec)
  also have "\<dots> \<longleftrightarrow> ok \<and> (\<forall>k. legal (op_exec KvModel) (?db k) (filter (\<lambda>a. op_key a = k) q))" by (simp only: IH)
  also have "\<dots> \<longleftrightarrow> (\<forall>k. legal (op_exec KvModel) (db k) (filter (\<lambda>a. op_key a = k) (a # q)))"
  proof -
    have "legal (op_exec KvModel) (db k) (filter (\<lambda>a. op_key a = k) (a # q)) \<longleftrightarrow>
        (k = op_key a \<longrightarrow> ok) \<and> legal (op_exec KvModel) (?db k) (filter (\<lambda>a. op_key a = k) q)" for k
      using ov by (cases "k = op_key a") (auto simp: legal_Cons)
    then show ?thesis by blast
  qed
  finally show ?case .
qed simp

section \<open>Points in time\<close>

fun points :: "int \<Rightarrow> 'v Operation list \<Rightarrow> (int \<times> 'v Operation) list" where
  "points t [] = []"
| "points t (a # q) = (max t (o_Call a), a) # points (max t (o_Call a)) q"

lemma points_snd [simp]: "map snd (points t q) = q"
  by (induction q arbitrary: t) simp_all

lemma points_from: "x \<in> set (points t q) \<Longrightarrow> t \<le> fst x"
  by (induction q arbitrary: t) fastforce+

lemma points_sorted: "sorted (map fst (points t q))"
  by (induction q arbitrary: t) (auto dest: points_from)

lemma points_call: "x \<in> set (points t q) \<Longrightarrow> o_Call (snd x) \<le> fst x"
  by (induction q arbitrary: t) auto

lemma points_return:
  assumes "sorted_wrt (\<lambda>a b. \<not> o_Return b < o_Call a) q" and "\<forall>a \<in> set q. o_Call a \<le> o_Return a \<and> t \<le> o_Return a"
    and "x \<in> set (points t q)"
  shows "fst x \<le> o_Return (snd x)"
  using assms
proof (induction q arbitrary: t)
  case (Cons a q)
  show ?case
  proof (cases "x = (max t (o_Call a), a)")
    case True
    with Cons.prems(2) show ?thesis by simp
  next
    case False
    with Cons.prems(3) have "x \<in> set (points (max t (o_Call a)) q)" by simp
    moreover have "\<forall>b \<in> set q. o_Call b \<le> o_Return b \<and> max t (o_Call a) \<le> o_Return b"
      using Cons.prems(1,2) by (auto simp: not_less)
    ultimately show ?thesis using Cons.IH [of "max t (o_Call a)"] Cons.prems(1) by simp
  qed
qed simp

text \<open>Operations in the order of their points keep the order of real time.\<close>

lemma points_order:
  assumes "sorted (map fst xs)" and "\<forall>x \<in> set xs. o_Call (snd x) \<le> fst x \<and> fst x \<le> o_Return (snd x)"
  shows "sorted_wrt (\<lambda>a b. \<not> o_Return b < o_Call a) (map snd xs)"
  using assms
proof (induction xs)
  case (Cons x xs)
  have "\<not> o_Return (snd y) < o_Call (snd x)" if "y \<in> set xs" for y
  proof -
    have "fst x \<le> fst y" using Cons.prems(1) that by simp
    moreover have "o_Call (snd x) \<le> fst x" "fst y \<le> o_Return (snd y)" using Cons.prems(2) that by auto
    ultimately show ?thesis by linarith
  qed
  with Cons show ?case by simp
qed simp

section \<open>Merging the parts\<close>

lemma filter_concat_parts:
  assumes "\<And>k x. x \<in> set (f k) \<Longrightarrow> g x = k" and "distinct ks" and "k \<notin> set ks \<Longrightarrow> f k = []"
  shows "filter (\<lambda>x. g x = k) (concat (map f ks)) = f k"
  using assms(2,3)
proof (induction ks)
  case (Cons k' ks)
  have "filter (\<lambda>x. g x = k) (f k') = (if k = k' then f k else [])"
    using assms(1) by (auto simp: filter_empty_conv intro!: filter_True)
  moreover have "filter (\<lambda>x. g x = k) (concat (map f ks)) = (if k = k' then [] else f k)"
  proof (cases "k = k'")
    case True
    then show ?thesis using Cons.prems(1) assms(1) by (auto simp: filter_empty_conv)
  next
    case False
    with Cons show ?thesis by simp
  qed
  ultimately show ?case by auto
qed simp

lemma mset_eq_by_key: "(\<And>k. mset (filter (\<lambda>x. g x = k) xs) = mset (filter (\<lambda>x. g x = k) ys)) \<Longrightarrow> mset xs = mset ys"
proof (rule multiset_eqI)
  fix x assume "\<And>k. mset (filter (\<lambda>x. g x = k) xs) = mset (filter (\<lambda>x. g x = k) ys)"
  then have "count (mset (filter (\<lambda>y. g y = g x) xs)) x = count (mset (filter (\<lambda>y. g y = g x) ys)) x" by simp
  then show "count (mset xs) x = count (mset ys) x" by simp
qed

theorem by_key:
  assumes typed: "\<forall>a \<in> set ops. typed a" and times: "\<forall>a \<in> set ops. o_Call a \<le> o_Return a"
  shows "ops_linearizable DatabaseModel ops \<longleftrightarrow> (\<forall>k. ops_linearizable KvModel (filter (\<lambda>a. op_key a = k) ops))"
proof
  assume "ops_linearizable DatabaseModel ops"
  then obtain q where q: "ops_linearization DatabaseModel ops q" by (auto simp: ops_linearizable_def)
  then have "\<forall>a \<in> set q. typed a" using typed by (auto simp: ops_linearization_def dest: mset_eq_setD)
  from legal_database [OF this] q have "ops_linearization KvModel (filter (\<lambda>a. op_key a = k) ops) (filter (\<lambda>a. op_key a = k) q)" for k
    by (auto simp: ops_linearization_def DatabaseModel_def KvModel_def intro: sorted_wrt_filter)
  then show "\<forall>k. ops_linearizable KvModel (filter (\<lambda>a. op_key a = k) ops)" by (auto simp: ops_linearizable_def)
next
  assume "\<forall>k. ops_linearizable KvModel (filter (\<lambda>a. op_key a = k) ops)"
  then obtain Q where Q: "\<And>k. ops_linearization KvModel (filter (\<lambda>a. op_key a = k) ops) (Q k)"
    unfolding ops_linearizable_def by metis
  define t where "t = Min (insert 0 (o_Return ` set ops))"
  have t: "t \<le> o_Return a" if "a \<in> set ops" for a using that by (simp add: t_def)
  have part: "set (Q k) = {a \<in> set ops. op_key a = k}" for k
  proof -
    have "mset (Q k) = mset (filter (\<lambda>a. op_key a = k) ops)" using Q [of k] by (simp only: ops_linearization_def)
    from mset_eq_setD [OF this] show ?thesis by simp
  qed
  define xs where "xs = sort_key fst (concat (map (\<lambda>k. points t (Q k)) (remdups (map op_key ops))))"
  have key: "x \<in> set (points t (Q k)) \<Longrightarrow> op_key (snd x) = k" for x k
  proof -
    assume "x \<in> set (points t (Q k))"
    then have "snd x \<in> set (map snd (points t (Q k)))" by (metis imageI set_map)
    then show "op_key (snd x) = k" by (simp add: part)
  qed
  have none: "points t (Q k) = []" if "k \<notin> set (remdups (map op_key ops))" for k
    using part [of k] that by (cases "Q k") auto
  have parts: "filter (\<lambda>x. op_key (snd x) = k) (concat (map (\<lambda>k. points t (Q k)) (remdups (map op_key ops)))) = points t (Q k)" for k
    by (rule filter_concat_parts [where f = "\<lambda>k. points t (Q k)"]) (auto intro: key none)
  have xs: "filter (\<lambda>x. op_key (snd x) = k) xs = points t (Q k)" for k
    unfolding xs_def filter_sort parts by (rule sort_key_id_if_sorted [OF points_sorted])
  then have q: "filter (\<lambda>a. op_key a = k) (map snd xs) = Q k" for k
    by (simp add: filter_map comp_def)
  have "mset (map snd xs) = mset ops"
  proof (rule mset_eq_by_key)
    show "mset (filter (\<lambda>a. op_key a = k) (map snd xs)) = mset (filter (\<lambda>a. op_key a = k) ops)" for k
      using Q [of k] unfolding q by (simp add: ops_linearization_def)
  qed
  moreover have "sorted_wrt (\<lambda>a b. \<not> o_Return b < o_Call a) (map snd xs)"
  proof (rule points_order)
    show "sorted (map fst xs)" by (simp add: xs_def)
    show "\<forall>x \<in> set xs. o_Call (snd x) \<le> fst x \<and> fst x \<le> o_Return (snd x)"
    proof
      fix x assume "x \<in> set xs"
      then have x: "x \<in> set (points t (Q (op_key (snd x))))" by (simp flip: xs)
      have "\<forall>a \<in> set (Q (op_key (snd x))). o_Call a \<le> o_Return a \<and> t \<le> o_Return a" using t times by (simp add: part)
      with points_return [OF _ this x] points_call [OF x] Q [of "op_key (snd x)"]
      show "o_Call (snd x) \<le> fst x \<and> fst x \<le> o_Return (snd x)" by (simp add: ops_linearization_def)
    qed
  qed
  moreover have "legal (op_exec DatabaseModel) (m_Init DatabaseModel) (map snd xs)"
  proof -
    have "set (map snd xs) = set ops" using calculation(1) by (rule mset_eq_setD)
    then have "\<forall>a \<in> set (map snd xs). typed a" using typed by simp
    from legal_database [OF this] q Q show ?thesis by (simp add: DatabaseModel_def KvModel_def ops_linearization_def)
  qed
  ultimately have "ops_linearization DatabaseModel ops (map snd xs)" by (simp only: ops_linearization_def simp_thms)
  then show "ops_linearizable DatabaseModel ops" unfolding ops_linearizable_def by (rule exI)
qed

section \<open>\<open>KvModel.Partition\<close>\<close>

lemma byKey_spec:
  assumes "\<forall>a \<in> set ops. typed a"
  shows "\<exists>m'. byKey ops m = Some m' \<and> (\<forall>k. m' k = (if filter (\<lambda>a. op_key a = k) ops = [] then m k
    else Some ((case m k of None \<Rightarrow> [] | Some xs \<Rightarrow> xs) @ filter (\<lambda>a. op_key a = k) ops)))"
  using assms
proof (induction ops arbitrary: m)
  case (Cons a ops)
  obtain inp where inp: "asInput (o_Input a) = Some inp" "in_Key inp = op_key a"
    using Cons.prems by (auto simp: typed_def op_key_def)
  let ?m = "m(op_key a \<mapsto> (case m (op_key a) of None \<Rightarrow> [] | Some xs \<Rightarrow> xs) @ [a])"
  have "\<forall>a \<in> set ops. typed a" using Cons.prems by simp
  from Cons.IH [OF this, of ?m] obtain m' where m': "byKey ops ?m = Some m'" "\<forall>k. m' k = (if filter (\<lambda>a. op_key a = k) ops = [] then ?m k
      else Some ((case ?m k of None \<Rightarrow> [] | Some xs \<Rightarrow> xs) @ filter (\<lambda>a. op_key a = k) ops))"
    by (elim exE conjE) (rule that)
  have "byKey (a # ops) m = Some m'" using inp m'(1) by simp
  moreover have "m' k = (if filter (\<lambda>a. op_key a = k) (a # ops) = [] then m k
      else Some ((case m k of None \<Rightarrow> [] | Some xs \<Rightarrow> xs) @ filter (\<lambda>a. op_key a = k) (a # ops)))" for k
    using m'(2) [rule_format, of k] by (cases "k = op_key a") auto
  ultimately show ?case by blast
qed simp

theorem partition_spec:
  assumes "\<forall>a \<in> set ops. typed a"
  shows "KvModel_Partition ops = Some (map (\<lambda>k. filter (\<lambda>a. op_key a = k) ops) (sort (remdups (map op_key ops))))"
proof -
  obtain m where m: "byKey ops (\<lambda>_. None) = Some m" "\<And>k. m k = (if filter (\<lambda>a. op_key a = k) ops = [] then None
      else Some (filter (\<lambda>a. op_key a = k) ops))"
    using byKey_spec [OF assms, of "\<lambda>_. None"] by auto
  have keys: "map (\<lambda>v. case asInput (o_Input v) of Some inp \<Rightarrow> in_Key inp | None \<Rightarrow> []) ops = map op_key ops"
    using assms by (auto simp: typed_def op_key_def)
  have "filter (\<lambda>k. m k \<noteq> None) (remdups (map op_key ops)) = remdups (map op_key ops)"
    by (auto simp: m(2) filter_id_conv filter_empty_conv)
  then show ?thesis unfolding KvModel_Partition_def m(1) by (simp add: keys Let_def m(2) filter_empty_conv)
qed

end
