(* ===== verification/PorcupineParallel.thy ===== *)
theory PorcupineParallel
  imports DatabaseHistory
begin

text \<open>
  \<open>checkParallel\<close> above the searches: whatever the order in which results arrive, whatever the
  timer does and whatever the searches that are cut short answer, a verdict is right, and it is
  there once all results are. \<open>arrivals\<close> are the events of one run: each goroutine sends once.
\<close>

definition arrivals :: "nat \<Rightarrow> par_event list \<Rightarrow> bool" where
  "arrivals n es \<longleftrightarrow> distinct es \<and> (\<forall>i. FromCheck i \<in> set es \<longrightarrow> i < n)"

definition all_arrive :: "nat \<Rightarrow> par_event list \<Rightarrow> bool" where
  "all_arrive n es \<longleftrightarrow> distinct es \<and> set es = FromCheck ` {..<n}"

lemma all_arrive_arrivals: "all_arrive n es \<Longrightarrow> arrivals n es"
  by (auto simp: all_arrive_def arrivals_def)

section \<open>Collecting results\<close>

lemma collect_sound:
  assumes "collect results ci timeout n es ok arr = Some (ok', timedOut, arr')"
    and "ok \<longleftrightarrow> (\<forall>i \<in> set arr. results i = Some True)" and "\<forall>i \<in> set arr. results i \<noteq> None"
    and "distinct arr" and "distinct es" and "\<forall>i \<in> set arr. FromCheck i \<notin> set es"
  shows "(ok' \<longleftrightarrow> (\<forall>i \<in> set arr'. results i = Some True)) \<and> (\<forall>i \<in> set arr'. results i \<noteq> None) \<and> distinct arr' \<and>
    (timedOut \<longrightarrow> timeout > 0) \<and> (\<not> timedOut \<longrightarrow> \<not> ok' \<or> n \<le> length arr')"
  using assms
proof (induction es arbitrary: ok arr)
  case (Cons e es)
  show ?case
  proof (cases e)
    case (FromCheck i)
    then obtain r where r: "results i = Some r" using Cons.prems(1) by (cases "results i") auto
    have arr: "(ok \<and> r) \<longleftrightarrow> (\<forall>j \<in> set (arr @ [i]). results j = Some True)" "\<forall>j \<in> set (arr @ [i]). results j \<noteq> None"
        "distinct (arr @ [i])" "distinct es" "\<forall>j \<in> set (arr @ [i]). FromCheck j \<notin> set es"
      using Cons.prems(2-6) r FromCheck by auto
    show ?thesis
    proof (cases "(\<not> (ok \<and> r) \<and> \<not> ci) \<or> n \<le> length (arr @ [i])")
      case True
      then have "ok' = (ok \<and> r)" "\<not> timedOut" "arr' = arr @ [i]"
        using Cons.prems(1) r FromCheck by (auto simp: Let_def split: if_splits)
      with True arr(1-3) show ?thesis by auto
    next
      case False
      then have "collect results ci timeout n es (ok \<and> r) (arr @ [i]) = Some (ok', timedOut, arr')"
        using Cons.prems(1) r FromCheck by (simp add: Let_def split: if_splits)
      from Cons.IH [OF this arr] show ?thesis .
    qed
  next
    case FromTimer
    with Cons.prems show ?thesis by (auto split: if_splits)
  qed
qed simp

lemma collect_complete:
  assumes "set es \<subseteq> FromCheck ` {i. results i \<noteq> None}" and "length arr < n" and "n \<le> length arr + length es"
  shows "\<exists>r. collect results ci timeout n es ok arr = Some r"
  using assms
proof (induction es arbitrary: ok arr)
  case (Cons e es)
  then obtain i r where e: "e = FromCheck i" "results i = Some r" by auto
  from Cons.IH [of "arr @ [i]" "ok \<and> r"] Cons.prems e show ?case
    by (cases "length (arr @ [i]) < n") (auto simp: Let_def)
qed simp

lemma arrived_all:
  assumes "distinct arr" and "\<forall>i \<in> set arr. i < n" and "n \<le> length arr"
  shows "set arr = {..<n}"
proof (rule card_subset_eq)
  show "set arr \<subseteq> {..<n}" using assms(2) by auto
  then have "card (set arr) \<le> n" using card_mono [of "{..<n}" "set arr"] by simp
  then show "card (set arr) = card {..<n}" using assms(1,3) distinct_card [of arr] by simp
qed simp

section \<open>Verdicts\<close>

abbreviation "check_part M parts ci \<equiv> \<lambda>kill i. if i < length parts then checkSingle M (parts ! i) ci kill else None"

lemma check_part_answer:
  assumes "\<forall>p \<in> set parts. search_setting M p" and "i < length parts"
  shows "\<exists>b st. check_part M parts ci kill i = Some (b, st) \<and> answer_ok M (parts ! i) kill b st"
  using checkSingle_ok [of M "parts ! i" ci kill] assms by simp

lemma check_part_result:
  assumes "\<forall>p \<in> set parts. search_setting M p" and "i < length parts"
  shows "map_option fst (check_part M parts ci (\<lambda>_. False) i) = Some (linearizable M (parts ! i))"
proof -
  obtain b st where b: "check_part M parts ci (\<lambda>_. False) i = Some (b, st)" "answer_ok M (parts ! i) (\<lambda>_. False) b st"
    using check_part_answer [OF assms, of ci "\<lambda>_. False"] by blast
  then have "b = linearizable M (parts ! i)" by (cases b) (auto simp: answer_ok_def linearizable_def)
  with b(1) show ?thesis by simp
qed

lemma partialsOf_ok:
  assumes "answer_ok M es kill b st" and "\<And>ks. set (order ks) = set ks"
  shows "\<forall>p \<in> set (partialsOf order st). partial_linearization M es p"
proof
  fix p assume "p \<in> set (partialsOf order st)"
  then obtain q where q: "Some q \<in> set (longest st)" "p = seqs st ! q" by (auto simp: partialsOf_def assms(2))
  then obtain i where "i < length (longest st)" "longest st ! i = Some q" by (auto simp: in_set_conv_nth)
  with assms(1) q(2) show "partial_linearization M es p" by (auto simp: answer_ok_def longest_ok_def)
qed

lemma infoOf_ok:
  assumes "\<forall>i \<in> set is. \<exists>b st kill. checks i = Some (b, st) \<and> answer_ok M (parts ! i) kill b st"
    and "\<And>i ks. set (orders i ks) = set ks"
  shows "\<exists>ps. infoOf checks orders is = Some ps \<and> length ps = length is \<and>
    (\<forall>j < length is. \<forall>p \<in> set (ps ! j). partial_linearization M (parts ! (is ! j)) p)"
  using assms(1)
proof (induction "is")
  case (Cons i "is")
  obtain b st kill where i: "checks i = Some (b, st)" "answer_ok M (parts ! i) kill b st" using Cons.prems by auto
  obtain ps where ps: "infoOf checks orders is = Some ps" "length ps = length is"
      "\<forall>j < length is. \<forall>p \<in> set (ps ! j). partial_linearization M (parts ! (is ! j)) p"
    using Cons by auto
  have "\<forall>p \<in> set ((partialsOf (orders i) st # ps) ! j). partial_linearization M (parts ! ((i # is) ! j)) p"
    if "j < length (i # is)" for j
    using ps(3) partialsOf_ok [OF i(2) assms(2), of "\<lambda>_. i"] that by (cases j) simp_all
  then show ?case using i(1) ps(1,2) by simp
qed simp

text \<open>What \<open>checkParallel\<close> gives, if it returns at all.\<close>

lemma checkParallel_sound:
  assumes set: "\<forall>p \<in> set parts. search_setting M p" and arr: "arrivals (length parts) (rt_events rt)"
    and order: "\<And>i ks. set (rt_order rt i ks) = set ks"
    and res: "checkParallel rt M parts ci timeout = Some (res, info)"
  shows "(res = Ok \<longrightarrow> (\<forall>p \<in> set parts. linearizable M p)) \<and> (res = Illegal \<longrightarrow> (\<exists>p \<in> set parts. \<not> linearizable M p)) \<and>
    (res = Unknown \<longrightarrow> timeout > 0) \<and>
    (ci \<longrightarrow> length (partialLinearizations info) = length parts \<and>
      (\<forall>i < length parts. \<forall>p \<in> set (partialLinearizations info ! i). partial_linearization M (parts ! i) p))"
proof -
  let ?n = "length parts"
  define results where "results = (\<lambda>i. map_option fst (check_part M parts ci (\<lambda>_. False) i))"
  have val: "results i = Some (linearizable M (parts ! i))" if "i < ?n" for i
    unfolding results_def by (rule check_part_result [OF set that])
  obtain ok timedOut arrived where c: "collect results ci timeout ?n (rt_events rt) True [] = Some (ok, timedOut, arrived)"
    using res unfolding checkParallel_def Let_def results_def [symmetric] by (auto simp: bind_eq_Some_conv)
  from collect_sound [OF c] arr have s: "ok \<longleftrightarrow> (\<forall>i \<in> set arrived. results i = Some True)" "\<forall>i \<in> set arrived. results i \<noteq> None"
      "distinct arrived" "timedOut \<longrightarrow> timeout > 0" "\<not> timedOut \<longrightarrow> \<not> ok \<or> ?n \<le> length arrived"
    by (auto simp: arrivals_def)
  have range: "i < ?n" if "i \<in> set arrived" for i using s(2) that by (force simp: results_def split: if_splits)
  have ok: "ok \<longleftrightarrow> (\<forall>i \<in> set arrived. linearizable M (parts ! i))"
    unfolding s(1) using val range by simp
  define checks where "checks = (\<lambda>i. check_part M parts ci (if i \<in> set arrived then \<lambda>_. False else rt_kill rt i) i)"
  note parallel = checkParallel_def Let_def results_def [symmetric] c Option.bind.bind_lunit prod.case checks_def [symmetric]
  have "\<forall>i \<in> set [0..<?n]. \<exists>b st kill. checks i = Some (b, st) \<and> answer_ok M (parts ! i) kill b st"
    using check_part_answer [OF set] unfolding checks_def by fastforce
  from infoOf_ok [where orders = "rt_order rt", OF this order] obtain ps where ps: "infoOf checks (rt_order rt) [0..<?n] = Some ps" "length ps = ?n"
      "\<forall>i < ?n. \<forall>p \<in> set (ps ! i). partial_linearization M (parts ! i) p"
    by auto
  have out: "res = (if \<not> ok then Illegal else if timedOut then Unknown else Ok)" "ci \<longrightarrow> partialLinearizations info = ps"
    using res ps(1) unfolding parallel by (cases ci; auto)+
  have "\<forall>p \<in> set parts. linearizable M p" if "res = Ok"
  proof -
    have "ok" "\<not> timedOut" using out(1) that by (auto split: if_splits)
    with s(5) have "set arrived = {..<?n}" using arrived_all [OF s(3)] range by blast
    with ok \<open>ok\<close> show ?thesis by (auto simp: in_set_conv_nth)
  qed
  moreover have "\<exists>p \<in> set parts. \<not> linearizable M p" if "res = Illegal"
    using ok out(1) that range by (auto split: if_splits)
  moreover have "timeout > 0" if "res = Unknown" using out(1) that s(4) by (auto split: if_splits)
  ultimately show ?thesis using out(2) ps(2,3) by blast
qed

text \<open>Once every search has answered and without a timer, there is a verdict - unless there was nothing to search.\<close>

lemma checkParallel_complete:
  assumes set: "\<forall>p \<in> set parts. search_setting M p" and arr: "all_arrive (length parts) (rt_events rt)"
    and order: "\<And>i ks. set (rt_order rt i ks) = set ks" and ne: "parts \<noteq> []"
  shows "\<exists>info. checkParallel rt M parts ci timeout =
    Some (if \<forall>p \<in> set parts. linearizable M p then Ok else Illegal, info)"
proof -
  let ?n = "length parts"
  define results where "results = (\<lambda>i. map_option fst (check_part M parts ci (\<lambda>_. False) i))"
  have val: "results i = Some (linearizable M (parts ! i))" if "i < ?n" for i
    unfolding results_def by (rule check_part_result [OF set that])
  have events: "set (rt_events rt) = FromCheck ` {..<?n}" "distinct (rt_events rt)" using arr by (simp_all add: all_arrive_def)
  have "0 < ?n" using ne by simp
  moreover have "?n = length (rt_events rt)"
    using distinct_card [OF events(2)] events(1) by (simp add: card_image inj_on_def)
  moreover have "set (rt_events rt) \<subseteq> FromCheck ` {i. results i \<noteq> None}"
    unfolding events(1) by (intro image_mono) (auto simp: val)
  ultimately have "\<exists>r. collect results ci timeout ?n (rt_events rt) True [] = Some r"
    by (intro collect_complete) simp_all
  then obtain ok timedOut arrived where c: "collect results ci timeout ?n (rt_events rt) True [] = Some (ok, timedOut, arrived)"
    by auto
  have "\<not> timedOut"
  proof -
    have "collect rs ci timeout n es ok arr = Some (ok', to, arr') \<Longrightarrow> FromTimer \<notin> set es \<Longrightarrow> \<not> to" for rs n es ok arr ok' to arr'
      by (induction rs ci timeout n es ok arr rule: collect.induct) (auto simp: Let_def bind_eq_Some_conv split: if_splits)
    from this [OF c] events(1) show ?thesis by auto
  qed
  define checks where "checks = (\<lambda>i. check_part M parts ci (if i \<in> set arrived then \<lambda>_. False else rt_kill rt i) i)"
  note parallel = checkParallel_def Let_def results_def [symmetric] c Option.bind.bind_lunit prod.case checks_def [symmetric]
  have "\<forall>i \<in> set [0..<?n]. \<exists>b st kill. checks i = Some (b, st) \<and> answer_ok M (parts ! i) kill b st"
    using check_part_answer [OF set] unfolding checks_def by fastforce
  from infoOf_ok [where orders = "rt_order rt", OF this order] obtain ps where "infoOf checks (rt_order rt) [0..<?n] = Some ps" by auto
  then obtain info where info: "checkParallel rt M parts ci timeout = Some (if \<not> ok then Illegal else Ok, info)"
    using \<open>\<not> timedOut\<close> unfolding parallel by (cases ci) simp_all
  from checkParallel_sound [OF set all_arrive_arrivals [OF arr] order this]
  have "ok \<longleftrightarrow> (\<forall>p \<in> set parts. linearizable M p)" by (cases ok) auto
  with info show ?thesis by (cases ok) auto
qed

end
