(* ===== verification/PorcupineTheorems.thy ===== *)
theory PorcupineTheorems
  imports PorcupineParallel
begin

text \<open>
  The properties of the linearizability checker: the search decides, the linked list is restored
  when an operation is unlifted, verdicts are right whatever the runtime does, and with the model
  of the key/value store the checker decides whether the history of the whole database is
  linearizable.
\<close>

section \<open>Setting up a check\<close>

definition ordinary_runtime :: "'v runtime \<Rightarrow> bool" where
  "ordinary_runtime rt \<longleftrightarrow> sorts (rt_sort rt) \<and> (\<forall>i ks. set (rt_order rt i ks) = set ks)"

text \<open>A history of the store as the tests record it.\<close>

definition store_history :: "kv_value Operation list \<Rightarrow> bool" where
  "store_history ops \<longleftrightarrow> proper_times ops \<and> (\<forall>a \<in> set ops. typed a)"

lemma fillDefault_fields [simp]:
  "m_Init (fillDefault M) = m_Init M" "op_step (fillDefault M) = op_step M" "op_exec (fillDefault M) = op_exec M"
  by (simp_all add: fillDefault_def op_step_def op_exec_def fun_eq_iff)

lemma fillDefault_linearizable [simp]:
  "linearizable (fillDefault M) = linearizable M" "ops_linearizable (fillDefault M) = ops_linearizable M"
  "partial_linearization (fillDefault M) = partial_linearization M"
  by (simp_all add: linearizable_def linearization_def ops_linearizable_def ops_linearization_def
      partial_linearization_def fun_eq_iff)

lemma fillDefault_equal: "m_Equal M = None \<Longrightarrow> equal_ok (fillDefault M)"
  by (simp add: equal_ok_def fillDefault_def ShallowEqual_def)

definition part_of :: "kv_value Operation list \<Rightarrow> string \<Rightarrow> kv_value Operation list" where
  "part_of ops k = filter (\<lambda>a. op_key a = k) ops"

definition parts_of :: "kv_value Operation list \<Rightarrow> kv_value Operation list list" where
  "parts_of ops = map (part_of ops) (sort (remdups (map op_key ops)))"

lemma part_setting:
  assumes "store_history ops" and "sorts srt"
  shows "search_setting (fillDefault KvModel) (makeEntries srt (part_of ops k))"
proof (rule ops_search_setting [OF assms(2)])
  have "op_exec (fillDefault KvModel) s a \<noteq> None" if "a \<in> set ops" for s a
    using typed_exec [of a s] assms(1) that by (auto simp: store_history_def)
  moreover have "equal_ok (fillDefault KvModel)" by (rule fillDefault_equal) (simp add: KvModel_def)
  ultimately show "ops_setting (fillDefault KvModel) (part_of ops k)"
    using assms(1) by (simp add: ops_setting_def part_of_def store_history_def proper_times_def)
qed

lemma part_linearizable:
  assumes "store_history ops" and "sorts srt"
  shows "linearizable (fillDefault KvModel) (makeEntries srt (part_of ops k)) \<longleftrightarrow> ops_linearizable KvModel (part_of ops k)"
proof -
  have "proper_times (part_of ops k)" using assms(1) by (simp add: part_of_def store_history_def proper_times_def)
  from linearizable_makeEntries [OF assms(2) this] show ?thesis by simp
qed

lemma database_parts:
  assumes "store_history ops"
  shows "ops_linearizable DatabaseModel ops \<longleftrightarrow> (\<forall>p \<in> set (parts_of ops). ops_linearizable KvModel p)"
proof -
  have "ops_linearizable KvModel (part_of ops k)" if "k \<notin> op_key ` set ops" for k
  proof -
    have "part_of ops k = []" using that by (auto simp: part_of_def filter_empty_conv)
    then show ?thesis by (auto simp: ops_linearizable_def ops_linearization_def)
  qed
  moreover have "\<forall>a \<in> set ops. typed a" "\<forall>a \<in> set ops. o_Call a \<le> o_Return a"
    using assms by (auto simp: store_history_def proper_times_def)
  ultimately have "ops_linearizable DatabaseModel ops \<longleftrightarrow> (\<forall>k \<in> op_key ` set ops. ops_linearizable KvModel (part_of ops k))"
    using by_key [of ops] unfolding part_of_def [symmetric] by blast
  then show ?thesis by (simp add: parts_of_def)
qed

lemma checkOperations_parts:
  assumes "store_history ops"
  shows "checkOperations rt KvModel ops verbose timeout =
    checkParallel rt (fillDefault KvModel) (map (makeEntries (rt_sort rt)) (parts_of ops)) verbose timeout"
proof -
  have "KvModel_Partition ops = Some (parts_of ops)"
    using partition_spec [of ops] assms by (simp add: store_history_def parts_of_def part_of_def [abs_def])
  then show ?thesis by (simp add: checkOperations_def Let_def fillDefault_def KvModel_def)
qed

lemma parts_setting:
  assumes "store_history ops" and "sorts srt"
  shows "\<forall>p \<in> set (map (makeEntries srt) (parts_of ops)). search_setting (fillDefault KvModel) p"
    "(\<forall>p \<in> set (map (makeEntries srt) (parts_of ops)). linearizable (fillDefault KvModel) p) \<longleftrightarrow> ops_linearizable DatabaseModel ops"
  using part_setting [OF assms] part_linearizable [OF assms] database_parts [OF assms(1)] by (auto simp: parts_of_def)

section \<open>An example\<close>

text \<open>
  A put of \<open>a\<close> on key \<open>k\<close> with a get of \<open>a\<close> that overlaps it, and a get on key \<open>j\<close>.
\<close>

definition kv_op :: "8 word \<Rightarrow> string \<Rightarrow> string \<Rightarrow> string \<Rightarrow> int \<Rightarrow> int \<Rightarrow> kv_value Operation" where
  "kv_op c key v out t1 t2 = \<lparr>o_ClientId = 0, o_Input = KvIn \<lparr>in_Op = c, in_Key = key, in_Value = v\<rparr>, o_Call = t1,
     o_Output = KvOut \<lparr>out_Value = out\<rparr>, o_Return = t2\<rparr>"

definition ex_history :: "kv_value Operation list" where
  "ex_history = [kv_op 1 ''k'' ''a'' '''' 0 10, kv_op 0 ''k'' '''' ''a'' 5 15, kv_op 0 ''j'' '''' '''' 6 7]"

definition ex_runtime :: "par_event list \<Rightarrow> 'v runtime" where
  "ex_runtime es = \<lparr>rt_sort = sort_key e_time, rt_events = es, rt_kill = (\<lambda>_ _. False), rt_order = (\<lambda>_ ks. ks)\<rparr>"

lemma sort_key_by_time: "(\<And>a b :: 'v entry. f a \<le> f b \<Longrightarrow> e_time a \<le> e_time b) \<Longrightarrow> sorts (sort_key f)"
  for f :: "'v entry \<Rightarrow> int"
proof -
  assume f: "\<And>a b :: 'v entry. f a \<le> f b \<Longrightarrow> e_time a \<le> e_time b"
  have "sorted_wrt (\<lambda>a b. f a \<le> f b) (sort_key f xs)" for xs
    using sorted_sort_key [of f xs] by (simp add: sorted_map)
  then have "sorted_wrt (\<lambda>a b. e_time a \<le> e_time b) (sort_key f xs)" for xs
    by (rule sorted_wrt_mono_rel [rotated]) (simp add: f)
  then show ?thesis by (simp add: sorts_def)
qed

lemma ex_runtime_ordinary: "ordinary_runtime (ex_runtime es)"
  by (simp add: ordinary_runtime_def ex_runtime_def sort_key_by_time)

lemma ex_history_store: "store_history ex_history"
  by (simp add: store_history_def ex_history_def proper_times_def kv_op_def typed_def asInput_def asOutput_def)

lemma ex_parts: "parts_of ex_history = [[kv_op 0 ''j'' '''' '''' 6 7], [kv_op 1 ''k'' ''a'' '''' 0 10, kv_op 0 ''k'' '''' ''a'' 5 15]]"
proof -
  have "sort [''k'', ''j''] = [''j'', ''k'']" by code_simp
  then show ?thesis
    by (simp add: parts_of_def part_of_def ex_history_def op_key_def kv_op_def asInput_def)
qed

section \<open>The check of the store\<close>

lemma store_check:
  assumes "store_history ops" and "ops \<noteq> []" and "ordinary_runtime rt"
    and "all_arrive (card (op_key ` set ops)) (rt_events rt)"
  shows "CheckOperations rt KvModel ops = Some (ops_linearizable DatabaseModel ops)"
proof -
  let ?parts = "map (makeEntries (rt_sort rt)) (parts_of ops)"
  have sorts: "sorts (rt_sort rt)" and order: "\<And>i ks. set (rt_order rt i ks) = set ks"
    using assms(3) by (simp_all add: ordinary_runtime_def)
  note set = parts_setting [OF assms(1) sorts]
  have "length ?parts = card (op_key ` set ops)" by (simp add: parts_of_def length_remdups_card_conv)
  moreover from this have "?parts \<noteq> []" using assms(2) by (metis List.finite_set card_0_eq finite_imageI image_is_empty length_0_conv set_empty)
  ultimately obtain info where "checkParallel rt (fillDefault KvModel) ?parts False 0 =
      Some (if ops_linearizable DatabaseModel ops then Ok else Illegal, info)"
    using checkParallel_complete [OF set(1) _ order, of False 0] assms(4) unfolding set(2) by auto
  then show ?thesis by (simp add: CheckOperations_def checkOperations_parts [OF assms(1)])
qed

section \<open>Properties\<close>

text \<open>C8: \<open>CheckOperations\<close> with the model of the store decides whether a history of the whole database is
  linearizable, if the history is not empty, every operation returns after it is called and none
  returns at the very time at which one is called (\<open>empty_history_blocks\<close> and \<open>timestamp_ties\<close> show
  the other cases): for any order in which the results of the parts arrive, it returns, and it
  returns \<open>true\<close> if and only if the operations on all keys together can be put in one order
  that keeps the order of real time and that the database can execute with the recorded outputs.\<close>

theorem check_operations_database:
  assumes "store_history ops" and "ops \<noteq> []" and "ordinary_runtime rt"
    and "all_arrive (card (op_key ` set ops)) (rt_events rt)"
  shows "CheckOperations rt KvModel ops = Some (ops_linearizable DatabaseModel ops)"
  by (rule store_check [OF assms])

lemma check_operations_database_witness:
  "CheckOperations (ex_runtime [FromCheck 1, FromCheck 0]) KvModel ex_history = Some True \<and> ops_linearizable DatabaseModel ex_history"
proof -
  let ?rt = "ex_runtime [FromCheck 1, FromCheck 0]"
  have "op_key ` set ex_history = {''k'', ''j''}" by (simp add: ex_history_def op_key_def kv_op_def asInput_def)
  then have "all_arrive (card (op_key ` set ex_history)) (rt_events ?rt)"
    by (auto simp: all_arrive_def ex_runtime_def lessThan_Suc numeral_2_eq_2)
  then have "CheckOperations ?rt KvModel ex_history = Some (ops_linearizable DatabaseModel ex_history)"
    by (intro check_operations_database ex_history_store ex_runtime_ordinary) (simp_all add: ex_history_def)
  moreover have "CheckOperations ?rt KvModel ex_history = Some True" by code_simp
  ultimately show ?thesis by simp
qed

text \<open>C9: The search of \<open>checkSingle\<close> always ends, on every complete history and whatever it reads from \<open>kill\<close>, without a
  \<open>nil\<close> dereference or an index out of range: with \<open>true\<close> only if the history is linearizable,
  with \<open>false\<close> only if it is not or \<open>kill\<close> was set.\<close>

theorem checkSingle_decides:
  assumes "well_formed es" and "equal_ok M" and "\<forall>s. \<forall>i \<in> e_id ` set es. op_step M es s i \<noteq> None"
  shows "\<exists>b st. checkSingle M es computePartial kill = Some (b, st) \<and> (b \<longrightarrow> linearizable M es) \<and>
    (\<not> b \<longrightarrow> \<not> linearizable M es \<or> (\<exists>r. kill r))"
proof -
  have "search_setting M es" using assms by (simp add: search_setting_def)
  from checkSingle_ok [OF this, of computePartial kill] show ?thesis
    by (auto simp: answer_ok_def linearizable_def split: if_splits)
qed

lemma checkSingle_decides_witness:
  "let M = fillDefault KvModel; es = makeEntries (sort_key e_time) [kv_op 1 ''k'' ''a'' '''' 0 10, kv_op 0 ''k'' '''' ''a'' 5 15]
   in (\<exists>b st. checkSingle M es True (\<lambda>_. False) = Some (b, st) \<and> b = linearizable M es)"
proof -
  let ?es = "makeEntries (sort_key e_time) (part_of ex_history ''k'')"
  have "part_of ex_history ''k'' = [kv_op 1 ''k'' ''a'' '''' 0 10, kv_op 0 ''k'' '''' ''a'' 5 15]"
    by (simp add: part_of_def ex_history_def op_key_def kv_op_def asInput_def)
  moreover have "search_setting (fillDefault KvModel) ?es"
    by (intro part_setting ex_history_store sort_key_by_time)
  then obtain b st where "checkSingle (fillDefault KvModel) ?es True (\<lambda>_. False) = Some (b, st)"
      "b \<longrightarrow> linearizable (fillDefault KvModel) ?es" "\<not> b \<longrightarrow> \<not> linearizable (fillDefault KvModel) ?es"
    using checkSingle_decides [of ?es "fillDefault KvModel" True "\<lambda>_. False"] by (auto simp: search_setting_def)
  ultimately show ?thesis by auto
qed

text \<open>C28: No verdict is ever wrong, with or without a timer, with or without the other results, although
  comments in \<open>porcupine.go\<close> and \<open>checker.go\<close> say that a false positive is possible after a timeout: if
  the check of a history of the store, in which every operation returns after it is called and
  none returns at the very time at which one is called (see \<open>timestamp_ties\<close>), returns, \<open>Ok\<close> means that the history of the database is
  linearizable, \<open>Illegal\<close> that it is not, \<open>Unknown\<close> needs a timer; and every partial
  linearization that a verbose check reports is the beginning of an order of its part that the model can
  execute and that keeps the order of real time.\<close>

theorem verdicts_never_wrong:
  assumes "store_history ops" and "ordinary_runtime rt" and "arrivals (card (op_key ` set ops)) (rt_events rt)"
    and "checkOperations rt KvModel ops verbose timeout = Some (res, info)"
  shows "(res = Ok \<longrightarrow> ops_linearizable DatabaseModel ops) \<and> (res = Illegal \<longrightarrow> \<not> ops_linearizable DatabaseModel ops) \<and>
    (res = Unknown \<longrightarrow> timeout > 0) \<and>
    (verbose \<longrightarrow> (\<forall>i < length (parts_of ops). \<forall>p \<in> set (partialLinearizations info ! i).
       partial_linearization KvModel (makeEntries (rt_sort rt) (parts_of ops ! i)) p))"
proof -
  let ?parts = "map (makeEntries (rt_sort rt)) (parts_of ops)"
  have sorts: "sorts (rt_sort rt)" and order: "\<And>i ks. set (rt_order rt i ks) = set ks"
    using assms(2) by (simp_all add: ordinary_runtime_def)
  note set = parts_setting [OF assms(1) sorts]
  have arr: "arrivals (length ?parts) (rt_events rt)"
    using assms(3) by (simp add: parts_of_def length_remdups_card_conv)
  have "checkParallel rt (fillDefault KvModel) ?parts verbose timeout = Some (res, info)"
    using assms(4) by (simp only: checkOperations_parts [OF assms(1)])
  from checkParallel_sound [OF set(1) arr order this] set(2) show ?thesis
    by (auto simp: nth_map)
qed

lemma verdicts_never_wrong_witness:
  "\<exists>info. checkOperations (ex_runtime [FromCheck 1, FromTimer]) KvModel ex_history True 3 = Some (Unknown, info) \<and>
    (\<forall>p \<in> set (partialLinearizations info ! 1).
      partial_linearization KvModel (makeEntries (sort_key e_time) (parts_of ex_history ! 1)) p)"
proof -
  let ?rt = "ex_runtime [FromCheck 1, FromTimer]"
  have "(case checkOperations ?rt KvModel ex_history True 3 of None \<Rightarrow> False | Some (res, info) \<Rightarrow> res = Unknown)" by code_simp
  then obtain info where info: "checkOperations ?rt KvModel ex_history True 3 = Some (Unknown, info)"
    by (auto split: option.splits)
  have "op_key ` set ex_history = {''k'', ''j''}" by (simp add: ex_history_def op_key_def kv_op_def asInput_def)
  then have "arrivals (card (op_key ` set ex_history)) (rt_events ?rt)" by (simp add: arrivals_def ex_runtime_def)
  from verdicts_never_wrong [OF ex_history_store ex_runtime_ordinary this info]
  have "\<forall>i < 2. \<forall>p \<in> set (partialLinearizations info ! i).
      partial_linearization KvModel (makeEntries (sort_key e_time) (parts_of ex_history ! i)) p"
    by (simp add: ex_parts ex_runtime_def numeral_2_eq_2)
  with info show ?thesis by fastforce
qed

text \<open>C29: The tests may check every key for itself: \<open>Partition\<close> splits a history of the store by key, and the
  history of the database is linearizable if and only if every part is.\<close>

theorem partition_by_key:
  assumes "store_history ops"
  shows "\<exists>parts. KvModel_Partition ops = Some parts \<and>
    (ops_linearizable DatabaseModel ops \<longleftrightarrow> (\<forall>p \<in> set parts. ops_linearizable KvModel p))"
  using database_parts [OF assms] partition_spec [of ops] assms
  by (simp add: store_history_def parts_of_def part_of_def [abs_def])

lemma partition_by_key_witness:
  "\<exists>parts. KvModel_Partition ex_history = Some parts \<and>
    (ops_linearizable DatabaseModel ex_history \<longleftrightarrow> (\<forall>p \<in> set parts. ops_linearizable KvModel p))"
  by (rule partition_by_key [OF ex_history_store])

text \<open>\<open>CheckEvents\<close> with a model that has no \<open>PartitionEvent\<close>, no \<open>Equal\<close> and states of a comparable type
  decides whether a complete history of events is linearizable, whatever ids its operations have.\<close>

theorem check_events_decides:
  assumes "complete_history (convertEntries evs)" and "m_PartitionEvent M = None" and "m_Equal M = None"
    and "\<forall>s. \<forall>i \<in> e_id ` set (convertEntries evs). op_step M (convertEntries evs) s i \<noteq> None"
    and "ordinary_runtime rt" and "rt_events rt = [FromCheck 0]"
  shows "CheckEvents rt M evs = Some (linearizable M (convertEntries evs))"
proof -
  let ?es = "convertEntries (renumber evs)"
  have "search_setting (fillDefault M) ?es"
    by (rule renumber_setting [OF assms(1) fillDefault_equal [OF assms(3)]])
      (simp only: fillDefault_fields assms(4) [rule_format] simp_thms)
  then have set: "\<forall>p \<in> set [?es]. search_setting (fillDefault M) p" by simp
  have arr: "all_arrive (length [?es]) (rt_events rt)" by (auto simp: all_arrive_def assms(6))
  have order: "\<And>i ks. set (rt_order rt i ks) = set ks" using assms(5) by (simp add: ordinary_runtime_def)
  obtain info where "checkParallel rt (fillDefault M) [?es] False 0 =
      Some (if linearizable M (convertEntries evs) then Ok else Illegal, info)"
    using checkParallel_complete [OF set arr order, of False 0] renumber_ok(2) [OF assms(1), of M] by auto
  moreover have "checkEvents rt M evs False 0 = checkParallel rt (fillDefault M) [?es] False 0"
    using assms(2) by (simp add: checkEvents_def Let_def NoPartitionEvent_def fillDefault_def)
  ultimately show ?thesis by (simp add: CheckEvents_def)
qed

text \<open>The put and the get of key \<open>k\<close>, as events with arbitrary ids.\<close>

definition ex_event :: "EventKind \<Rightarrow> kv_value \<Rightarrow> int \<Rightarrow> kv_value Event" where
  "ex_event k v i = \<lparr>ev_ClientId = 0, ev_Kind = k, ev_Value = v, ev_Id = i\<rparr>"

definition ex_events :: "kv_value Event list" where
  "ex_events = [ex_event CallEvent (KvIn \<lparr>in_Op = 1, in_Key = ''k'', in_Value = ''a''\<rparr>) 40,
     ex_event CallEvent (KvIn \<lparr>in_Op = 0, in_Key = ''k'', in_Value = ''''\<rparr>) (-7),
     ex_event ReturnEvent (KvOut \<lparr>out_Value = ''''\<rparr>) 40,
     ex_event ReturnEvent (KvOut \<lparr>out_Value = ''a''\<rparr>) (-7)]"

lemma check_events_decides_witness:
  "CheckEvents (ex_runtime [FromCheck 0]) KvModel ex_events = Some True \<and> linearizable KvModel (convertEntries ex_events)"
proof -
  have "complete_history (convertEntries ex_events)" by code_simp
  then have "CheckEvents (ex_runtime [FromCheck 0]) KvModel ex_events = Some (linearizable KvModel (convertEntries ex_events))"
    by (rule check_events_decides)
      (auto simp: KvModel_def ex_runtime_ordinary [unfolded ex_runtime_def] ex_runtime_def ex_events_def ex_event_def convertEntries_def op_step_def entry_value_def
        KvModel_Step_def asInput_def asOutput_def)
  moreover have "CheckEvents (ex_runtime [FromCheck 0]) KvModel ex_events = Some True" by code_simp
  ultimately show ?thesis by simp
qed

text \<open>C36: \<open>lift\<close> takes a call and its return out of the linked list and leaves the rest in order, and \<open>unlift\<close> afterwards restores
  every pointer there was, also when the call and the return are neighbours or the return is last.\<close>

theorem unlift_lift:
  assumes "operation_at h us e vs m ws"
  shows "\<exists>h'. lift e h = Some h' \<and> links h' None (us @ vs @ ws) None \<and> unlift e h' = Some h"
  using lift_unlinks [OF assms] lifted_links [OF assms] unlift_restores [OF assms] by blast

lemma unlift_lift_witness:
  "\<exists>h h'. makeLinkedEntries (makeEntries (sort_key e_time) (part_of ex_history ''k'')) = Some (Some 3, h) \<and>
    lift 2 h = Some h' \<and> links h' None [3, 1] None \<and> unlift 2 h' = Some h"
proof -
  let ?es = "makeEntries (sort_key e_time) (part_of ex_history ''k'')"
  have kv: "part_of ex_history ''k'' = [kv_op 1 ''k'' ''a'' '''' 0 10, kv_op 0 ''k'' '''' ''a'' 5 15]"
    by (simp add: part_of_def ex_history_def op_key_def kv_op_def asInput_def)
  have es: "?es = [entry_of callEntry 0 (kv_op 1 ''k'' ''a'' '''' 0 10), entry_of callEntry 1 (kv_op 0 ''k'' '''' ''a'' 5 15),
      entry_of returnEntry 0 (kv_op 1 ''k'' ''a'' '''' 0 10), entry_of returnEntry 1 (kv_op 0 ''k'' '''' ''a'' 5 15)]"
    by (simp add: kv makeEntries_def entry_of_def kv_op_def)
  have four: "downto (length ?es) = [3, 2, 1, 0]" by (simp add: es)
  obtain h where "makeLinkedEntries ?es = Some (first_of (downto (length ?es)) None, h)"
      and h: "links h None (downto (length ?es)) None" "stands_for h (rev ?es)"
    using makeLinkedEntries_spec [of ?es] by (elim exE conjE) (rule that)
  then have made: "makeLinkedEntries ?es = Some (Some 3, h)" by (simp only: four first_of_simps)
  have "matches (take 2 (rev ?es)) 1 = Some 0"
    by (simp add: es matches_def entry_of_def upt_rec)
  then have "operation_at h [3] 2 [1] 0 []"
    using h [unfolded four] by (simp add: operation_at_def stands_for_def es entry_of_def)
  from unlift_lift [OF this] made show ?thesis by auto
qed

text \<open>Two sorting functions that \<open>byTime\<close> allows: among entries of the same time the one puts calls first, the other one returns.\<close>

definition calls_first :: "'v entry list \<Rightarrow> 'v entry list" where
  "calls_first = sort_key (\<lambda>e. 2 * e_time e + (if e_kind e = callEntry then 0 else 1))"

definition returns_first :: "'v entry list \<Rightarrow> 'v entry list" where
  "returns_first = sort_key (\<lambda>e. 2 * e_time e + (if e_kind e = callEntry then 1 else 0))"

definition tied_history :: "kv_value Operation list" where
  "tied_history = [kv_op 1 ''k'' ''a'' '''' 0 5, kv_op 0 ''k'' '''' '''' 5 9]"

text \<open>Entries of the same time may come in any order, since \<open>sort.Sort\<close> only looks at the time. If an operation is called
  at the time another one returns, the verdict depends on that order: the same history is called linearizable and
  not linearizable. And an operation whose call and return have the same time may be taken for
  one that returns before it is called; then a history of this one operation is rejected.\<close>

theorem timestamp_ties:
  "ordinary_runtime ((ex_runtime [FromCheck 0])\<lparr>rt_sort := calls_first\<rparr>) \<and>
    ordinary_runtime ((ex_runtime [FromCheck 0])\<lparr>rt_sort := returns_first\<rparr>) \<and>
    CheckOperations ((ex_runtime [FromCheck 0])\<lparr>rt_sort := calls_first\<rparr>) KvModel tied_history = Some True \<and>
    CheckOperations ((ex_runtime [FromCheck 0])\<lparr>rt_sort := returns_first\<rparr>) KvModel tied_history = Some False \<and>
    CheckOperations ((ex_runtime [FromCheck 0])\<lparr>rt_sort := returns_first\<rparr>) KvModel [kv_op 0 ''k'' '''' '''' 5 5] = Some False"
proof -
  have "sorts calls_first" "sorts returns_first"
    unfolding calls_first_def returns_first_def by (rule sort_key_by_time; simp split: if_splits)+
  then have "ordinary_runtime ((ex_runtime [FromCheck 0])\<lparr>rt_sort := calls_first\<rparr>)"
      "ordinary_runtime ((ex_runtime [FromCheck 0])\<lparr>rt_sort := returns_first\<rparr>)"
    by (simp_all add: ordinary_runtime_def ex_runtime_def)
  moreover have "CheckOperations ((ex_runtime [FromCheck 0])\<lparr>rt_sort := calls_first\<rparr>) KvModel tied_history = Some True"
    by code_simp
  moreover have "CheckOperations ((ex_runtime [FromCheck 0])\<lparr>rt_sort := returns_first\<rparr>) KvModel tied_history = Some False"
    by code_simp
  moreover have "CheckOperations ((ex_runtime [FromCheck 0])\<lparr>rt_sort := returns_first\<rparr>) KvModel [kv_op 0 ''k'' '''' '''' 5 5] = Some False"
    by code_simp
  ultimately show ?thesis by blast
qed

text \<open>C37: Entries are well formed: of a history in which every operation returns after it is called and
  none returns at the very time at which one is called, \<open>makeEntries\<close> gives a call and a later return of
  every operation, numbered from 0 in the order of the history; and \<open>renumber\<close> numbers the operations of a
  history of events in which every call has its return after it from 0 too; so every id is a position of the bit set and of the list of longest linearizations.\<close>

theorem entries_well_formed:
  assumes "sorts srt" and "proper_times ops" and "complete_history (convertEntries evs)"
  shows "well_formed (makeEntries srt ops) \<and> well_formed (convertEntries (renumber evs)) \<and>
    (\<forall>es \<in> {makeEntries srt ops, convertEntries (renumber evs)}. \<forall>e \<in> set es.
       0 \<le> e_id e \<and> nat (e_id e) < 64 * length (newBitset (length es div 2)))"
proof -
  have "0 \<le> e_id e \<and> nat (e_id e) < 64 * length (newBitset (length es div 2))" if "well_formed es" "e \<in> set es" for es :: "'b entry list" and e
  proof -
    have "e_id e \<in> {0..<int (length es div 2)}" using idents_wf [OF that(1)] that(2) by blast
    then show ?thesis using newBitset_length [of "length es div 2"] by auto
  qed
  with makeEntries_well_formed [OF assms(1,2)] renumber_ok(1) [OF assms(3)] show ?thesis by blast
qed

lemma entries_well_formed_witness:
  "well_formed (makeEntries (sort_key e_time) ex_history) \<and> well_formed (convertEntries (renumber ex_events))"
proof -
  have "complete_history (convertEntries ex_events)" by code_simp
  moreover have "sorts (sort_key e_time :: kv_value entry list \<Rightarrow> _)" by (rule sort_key_by_time)
  moreover have "proper_times ex_history" using ex_history_store by (simp add: store_history_def)
  ultimately show ?thesis using entries_well_formed [of "sort_key e_time" ex_history ex_events] by blast
qed

text \<open>A bit set is a set of positions: within its words setting and clearing a position changes this position only, clearing
  undoes setting, and there is no position outside; a new set has room for the number of positions asked for
  and holds none; sets of the same length are equal if they have the same positions, and then have the same hash.\<close>

theorem bitset_positions:
  assumes "i < 64 * length b" and "length c = length b"
  shows "(\<exists>b'. bs_set b i = Some b' \<and> length b' = length b \<and>
      (\<forall>j < 64 * length b. bs_get b' j = (if j = i then Some True else bs_get b j)) \<and>
      (bs_get b i = Some False \<longrightarrow> bs_clear b' i = Some b)) \<and>
    (\<exists>b'. bs_clear b i = Some b' \<and> length b' = length b \<and>
      (\<forall>j < 64 * length b. bs_get b' j = (if j = i then Some False else bs_get b j))) \<and>
    (\<forall>j \<ge> 64 * length b. bs_set b j = None \<and> bs_clear b j = None \<and> bs_get b j = None) \<and>
    (\<forall>n. n \<le> 64 * length (newBitset n) \<and> (\<forall>j < n. bs_get (newBitset n) j = Some False)) \<and>
    (bs_equals b c \<longleftrightarrow> (\<forall>j < 64 * length b. bs_get b j = bs_get c j)) \<and>
    (bs_equals b c \<longrightarrow> bs_hash b = bs_hash c)"
proof (intro conjI)
  obtain b' where b': "bs_set b i = Some b'" "length b' = length b" "members b' = insert i (members b)"
    using bs_set_spec [OF assms(1)] by blast
  moreover have "bs_clear b' i = Some b" if "bs_get b i = Some False"
  proof -
    have "i \<notin> members b" using that bs_get_spec [OF assms(1)] by simp
    obtain b'' where b'': "bs_clear b' i = Some b''" "length b'' = length b'" "members b'' = members b' - {i}"
      using bs_clear_spec [of i b'] assms(1) b'(2) by auto
    with b' \<open>i \<notin> members b\<close> have "b'' = b" by (intro members_inject) auto
    with b''(1) show ?thesis by simp
  qed
  ultimately show "\<exists>b'. bs_set b i = Some b' \<and> length b' = length b \<and>
      (\<forall>j < 64 * length b. bs_get b' j = (if j = i then Some True else bs_get b j)) \<and>
      (bs_get b i = Some False \<longrightarrow> bs_clear b' i = Some b)"
    by (auto simp: bs_get_spec)
  show "\<exists>b'. bs_clear b i = Some b' \<and> length b' = length b \<and>
      (\<forall>j < 64 * length b. bs_get b' j = (if j = i then Some False else bs_get b j))"
    using bs_clear_spec [OF assms(1)] by (auto simp: bs_get_spec)
  show "\<forall>j \<ge> 64 * length b. bs_set b j = None \<and> bs_clear b j = None \<and> bs_get b j = None"
    using out_of_range by blast
  show "\<forall>n. n \<le> 64 * length (newBitset n) \<and> (\<forall>j < n. bs_get (newBitset n) j = Some False)"
    using newBitset_length by (simp add: bs_get_spec less_le_trans [OF _ newBitset_length])
  have "b = c \<longleftrightarrow> members b = members c" using members_inject assms(2) by auto
  also have "\<dots> \<longleftrightarrow> (\<forall>j < 64 * length b. (j \<in> members b) = (j \<in> members c))"
    using assms(2) by (auto simp: members_def)
  finally show "bs_equals b c \<longleftrightarrow> (\<forall>j < 64 * length b. bs_get b j = bs_get c j)"
    using assms(2) by (simp add: bs_get_spec)
qed simp

lemma bitset_positions_witness:
  "bs_set (newBitset 70) 66 = Some [0, 4] \<and> bs_clear [0, 4] 66 = Some (newBitset 70) \<and> bs_get [0, 4] 65 = Some False"
proof -
  have "newBitset 70 = [0, 0]" by (simp add: newBitset_def numeral_2_eq_2)
  moreover have "bs_get [0, 0] 66 = Some False" by code_simp
  moreover have "bs_set [0, 0] 66 = Some [0, 4]" by code_simp
  ultimately show ?thesis
    using bitset_positions [of 66 "[0, 0]" "[0, 0]"] by (auto simp: bs_get_spec members_def)
qed

text \<open>
  A check of a history without operations never returns: it has no part whose result could be
  received, and no timer. (\<open>None\<close> could also stand for a panic, but nothing is executed here.)
\<close>

lemma empty_history_blocks: "CheckOperations rt KvModel [] = None"
proof -
  have "collect (\<lambda>i. None) False 0 0 es ok arrived = None" for es ok arrived
    by (cases es rule: list.exhaust; cases "hd es") auto
  then show ?thesis
    by (simp add: CheckOperations_def checkOperations_def Let_def fillDefault_def KvModel_def KvModel_Partition_def checkParallel_def)
qed

end
