(* ===== verification/KVClients.thy ===== *)
theory KVClients
  imports KVReplicas
begin

text \<open>
  The key/value service with its clients: clerks call \<open>Get\<close>, \<open>Put\<close> and \<open>Append\<close>, their requests reach handlers
  once, several times or never, the replicas apply the log of the operations handed to Raft, and
  handlers answer. That the Raft below gives all replicas one log is a hypothesis here, its log an
  argument of the model (\<open>src/raft-Lab2D\<close> does not always, see \<open>services_diverge\<close>). A call ends when an answer that the clerk accepts comes back. The
  calls are recorded with their times, as the tests of \<open>src/kvraft\<close> record them.
\<close>

section \<open>The system\<close>

datatype kv_call = CallGet string | CallPut string string | CallAppend string string

datatype kv_args = GetRequest KvGetArgs | PutAppendRequest KvPutAppendArgs

fun call_args :: "kv_call \<Rightarrow> KvClerk \<Rightarrow> kv_args" where
  "call_args (CallGet k) ck = GetRequest (fst (KvClerk_Get k [] ck))"
| "call_args (CallPut k v) ck = PutAppendRequest (fst (KvClerk_Put k v [] ck))"
| "call_args (CallAppend k v) ck = PutAppendRequest (fst (KvClerk_Append k v [] ck))"

fun call_result :: "kv_call \<Rightarrow> KvReply option list \<Rightarrow> KvClerk \<Rightarrow> (KvClerk \<times> string) option" where
  "call_result (CallGet k) rs ck = snd (KvClerk_Get k rs ck)"
| "call_result (CallPut k v) rs ck = map_option (\<lambda>ck. (ck, [])) (snd (KvClerk_Put k v rs ck))"
| "call_result (CallAppend k v) rs ck = map_option (\<lambda>ck. (ck, [])) (snd (KvClerk_Append k v rs ck))"

fun args_op :: "kv_args \<Rightarrow> KvOp" where
  "args_op (GetRequest args) = KvGet_op args"
| "args_op (PutAppendRequest args) = KvPutAppend_op args"

fun args_reply :: "kv_args \<Rightarrow> KvOp option \<Rightarrow> KVServer \<Rightarrow> KvReply" where
  "args_reply (GetRequest args) res kv = KvGet_reply args res kv"
| "args_reply (PutAppendRequest args) res kv = \<lparr>kr_Err = KvPutAppend_reply args res, kr_Value = []\<rparr>"

text \<open>
  Calls that are under way, answers on their way back, and calls that are over. \<open>cu_begin\<close> and \<open>dn_begin\<close>
  are the length of the log when the call began, \<open>an_point\<close> and \<open>dn_point\<close> the index up to which the
  replica that answered had applied the log; no step depends on them.
\<close>

record kv_current =
  cu_call :: kv_call
  cu_time :: int
  cu_begin :: nat

record kv_answer =
  an_args :: kv_args
  an_reply :: KvReply
  an_point :: nat

record kv_done =
  dn_clerk :: nat
  dn_args :: kv_args
  dn_call :: int
  dn_begin :: nat
  dn_return :: int
  dn_point :: nat
  dn_value :: string

record KvSystem =
  sy_world :: KvWorld
  sy_log :: "KvOp list"
  sy_clerks :: "nat \<Rightarrow> KvClerk"
  sy_current :: "nat \<Rightarrow> kv_current option"
  sy_sent :: "kv_args list"
  sy_answers :: "kv_answer list"
  sy_done :: "kv_done list"
  sy_clock :: int

text \<open>
  \<open>L\<close> is the log that all peers agree on, \<open>sy_log\<close> the part of it that is committed. \<open>SysCommit\<close>: its next
  operation is committed; it was handed to Raft for a request that some clerk sent. \<open>SysAnswer\<close>: a handler
  of any request that has received an operation answers. \<open>SysFinish\<close>: calls of a clerk failed or were refused, and then
  one brought an answer to its request.
\<close>

datatype sys_event =
    SysBegin nat kv_call
  | SysCommit nat
  | SysReplica nat kv_event
  | SysAnswer nat nat nat
  | SysFinish nat "KvReply option list" nat

definition refused :: "KvReply option \<Rightarrow> bool" where
  "refused r \<longleftrightarrow> (case r of None \<Rightarrow> True | Some reply \<Rightarrow> kr_Err reply = ErrWrongLeader)"

fun sys_step :: "KvOp list \<Rightarrow> sys_event \<Rightarrow> KvSystem \<Rightarrow> KvSystem option" where
  "sys_step L (SysBegin c call) s =
     (if sy_current s c = None
      then Some (s\<lparr>sy_current := (sy_current s)(c \<mapsto> \<lparr>cu_call = call, cu_time = sy_clock s, cu_begin = length (sy_log s)\<rparr>),
                   sy_sent := sy_sent s @ [call_args call (sy_clerks s c)], sy_clock := sy_clock s + 1\<rparr>)
      else None)"
| "sys_step L (SysCommit k) s =
     (if k < length (sy_sent s) \<and> length (sy_log s) < length L \<and> L ! length (sy_log s) = args_op (sy_sent s ! k)
      then Some (s\<lparr>sy_log := sy_log s @ [args_op (sy_sent s ! k)]\<rparr>) else None)"
| "sys_step L (SysReplica i e) s = map_option (\<lambda>w. s\<lparr>sy_world := w\<rparr>) (kv_step (sy_log s) (i, e) (sy_world s))"
| "sys_step L (SysAnswer i j k) s =
     (let rp = kw_replicas (sy_world s) i
      in if j < length (rp_received rp) \<and> k < length (sy_sent s)
         then Some (s\<lparr>sy_answers := sy_answers s @
                [\<lparr>an_args = sy_sent s ! k, an_reply = args_reply (sy_sent s ! k) (Some (rp_received rp ! j)) (rp_server rp),
                  an_point = rp_last rp\<rparr>]\<rparr>)
         else None)"
| "sys_step L (SysFinish c failed k) s = do {
     cu \<leftarrow> sy_current s c;
     if k < length (sy_answers s) \<and> list_all refused failed \<and>
        an_args (sy_answers s ! k) = call_args (cu_call cu) (sy_clerks s c)
     then do {
       (ck, v) \<leftarrow> call_result (cu_call cu) (failed @ [Some (an_reply (sy_answers s ! k))]) (sy_clerks s c);
       Some (s\<lparr>sy_clerks := (sy_clerks s)(c := ck), sy_current := (sy_current s)(c := None),
         sy_done := sy_done s @ [\<lparr>dn_clerk = c, dn_args = an_args (sy_answers s ! k), dn_call = cu_time cu,
           dn_begin = cu_begin cu, dn_return = sy_clock s, dn_point = an_point (sy_answers s ! k), dn_value = v\<rparr>],
         sy_clock := sy_clock s + 1\<rparr>) }
     else None }"

definition sys_init :: "int \<Rightarrow> (nat \<Rightarrow> KvClerk) \<Rightarrow> KvSystem" where
  "sys_init m clerks = \<lparr>sy_world = kv_init m, sy_log = [], sy_clerks = clerks, sy_current = (\<lambda>_. None), sy_sent = [],
     sy_answers = [], sy_done = [], sy_clock = 0\<rparr>"

section \<open>The clerk\<close>

lemma ask_refused:
  assumes "list_all refused failed" and "kv_ask accept n server (failed @ [Some r]) = Some (server', r')"
    and "\<And>r. accept r \<Longrightarrow> kr_Err r \<noteq> ErrWrongLeader"
  shows "r' = r \<and> accept r"
  using assms(1,2)
proof (induction failed arbitrary: server)
  case (Cons a failed)
  then show ?case using assms(3) by (auto simp: refused_def split: option.splits if_splits)
qed (simp split: if_splits)

lemma call_args_client [simp]:
  "ko_ClientId (args_op (call_args call ck)) = kc_clientId ck"
  "ko_SeqId (args_op (call_args call ck)) = kc_seqId ck + 1"
  by (cases call; simp add: KvClerk_Get_def KvClerk_Put_def KvClerk_Append_def KvClerk_PutAppend_def
      KvGet_op_def KvPutAppend_op_def Let_def)+

lemma call_result_clerk:
  assumes "call_result call rs ck = Some (ck', v)"
  shows "kc_clientId ck' = kc_clientId ck" "kc_seqId ck' = kc_seqId ck + 1"
  using assms by (cases call; auto simp: KvClerk_Get_def KvClerk_Put_def KvClerk_Append_def KvClerk_PutAppend_def Let_def)+

text \<open>The clerk's result is that of the one answer it accepts.\<close>

lemma call_result_answer:
  assumes "call_result call (failed @ [Some r]) ck = Some (ck', v)" and "list_all refused failed" and "kr_Err r \<noteq> ErrNoKey"
  shows "kr_Err r = OK \<and> v = (case call of CallGet k \<Rightarrow> kr_Value r | _ \<Rightarrow> [])"
proof -
  have ask: "r' = r \<and> accept r" if "kv_ask accept n server (failed @ [Some r]) = Some (server', r')"
    "\<forall>r. accept r \<longrightarrow> kr_Err r \<noteq> ErrWrongLeader" for accept n server server' r'
    using ask_refused [OF assms(2) that(1)] that(2) by blast
  show ?thesis using assms(1,3)
    by (cases call) (auto simp: KvClerk_Get_def KvClerk_Put_def KvClerk_Append_def KvClerk_PutAppend_def Let_def dest!: ask)
qed

section \<open>Longer logs\<close>

lemma prefix_data_append: "n \<le> length L \<Longrightarrow> prefix_data n (L @ ops) = prefix_data n L"
  by (simp add: prefix_data_def)

lemma kv_world_ok_append:
  assumes "kv_world_ok L w"
  shows "kv_world_ok (L @ ops) w"
proof -
  have "snapshots_ok (L @ ops) (kw_snapshots w)"
    using assms by (auto simp: kv_world_ok_def snapshots_ok_def prefix_data_append)
  moreover have "replica_ok (L @ ops) rp" if "replica_ok L rp" for rp
    using that by (simp add: replica_ok_def prefix_data_append)
  ultimately show ?thesis using assms by (simp add: kv_world_ok_def)
qed

text \<open>What a key holds after the first \<open>n\<close> operations of the log.\<close>

definition stored :: "nat \<Rightarrow> KvOp list \<Rightarrow> string \<Rightarrow> string" where
  "stored n L k = (case fst (prefix_data n L) k of None \<Rightarrow> [] | Some v \<Rightarrow> v)"

lemma stored_append: "n \<le> length L \<Longrightarrow> stored n (L @ ops) k = stored n L k"
  by (simp add: stored_def prefix_data_append)

section \<open>The invariant\<close>

text \<open>A request with the time and the length of the log at which its call began.\<close>

definition requests :: "KvSystem \<Rightarrow> (kv_args \<times> int \<times> nat) set" where
  "requests s = {(dn_args d, dn_call d, dn_begin d) | d. d \<in> set (sy_done s)} \<union>
     {(call_args (cu_call cu) (sy_clerks s c), cu_time cu, cu_begin cu) | c cu. sy_current s c = Some cu}"

abbreviation "client a \<equiv> ko_ClientId (args_op a)"
abbreviation "seq a \<equiv> ko_SeqId (args_op a)"

definition in_log :: "kv_args \<Rightarrow> nat \<Rightarrow> KvOp list \<Rightarrow> bool" where
  "in_log a n L \<longleftrightarrow> n \<le> length L \<and> args_op a \<in> set (take n L)"

text \<open>The value that a request finds after \<open>n\<close> operations of the log.\<close>

fun answered :: "kv_args \<Rightarrow> nat \<Rightarrow> KvOp list \<Rightarrow> string" where
  "answered (GetRequest args) n L = stored n L (kga_Key args)"
| "answered (PutAppendRequest args) n L = []"

definition answers_ok :: "KvSystem \<Rightarrow> bool" where
  "answers_ok s \<longleftrightarrow> (\<forall>an \<in> set (sy_answers s). kr_Err (an_reply an) \<noteq> ErrNoKey \<and>
     (kr_Err (an_reply an) = OK \<longrightarrow> in_log (an_args an) (an_point an) (sy_log s) \<and>
        kr_Value (an_reply an) = answered (an_args an) (an_point an) (sy_log s)))"

definition done_ok :: "KvSystem \<Rightarrow> bool" where
  "done_ok s \<longleftrightarrow> distinct (map dn_args (sy_done s)) \<and> (\<forall>d \<in> set (sy_done s).
     in_log (dn_args d) (dn_point d) (sy_log s) \<and> dn_value d = answered (dn_args d) (dn_point d) (sy_log s) \<and>
     dn_call d < dn_return d \<and> dn_return d < sy_clock s \<and>
     client (dn_args d) = kc_clientId (sy_clerks s (dn_clerk d)) \<and> seq (dn_args d) \<le> kc_seqId (sy_clerks s (dn_clerk d)))"

definition clerk_made :: "kv_args \<Rightarrow> bool" where
  "clerk_made a \<longleftrightarrow> (\<exists>call ck. a = call_args call ck)"

definition requests_ok :: "KvSystem \<Rightarrow> bool" where
  "requests_ok s \<longleftrightarrow> (\<forall>(a, t, b) \<in> requests s. t < sy_clock s \<and> b \<le> length (sy_log s) \<and> args_op a \<notin> set (take b (sy_log s)) \<and>
     clerk_made a)"

definition unique_requests :: "(kv_args \<times> int \<times> nat) set \<Rightarrow> bool" where
  "unique_requests R \<longleftrightarrow> (\<forall>x \<in> R. \<forall>y \<in> R. client (fst x) = client (fst y) \<longrightarrow> seq (fst x) = seq (fst y) \<longrightarrow> x = y)"

definition order_ok :: "KvSystem \<Rightarrow> bool" where
  "order_ok s \<longleftrightarrow> (\<forall>d \<in> set (sy_done s). \<forall>(a, t, b) \<in> requests s. dn_return d \<noteq> t \<and>
     (dn_return d < t \<longrightarrow> dn_point d \<le> b) \<and>
     (client (dn_args d) = client a \<longrightarrow> seq (dn_args d) < seq a \<longrightarrow> dn_return d < t))"

definition sys_ok :: "KvSystem \<Rightarrow> bool" where
  "sys_ok s \<longleftrightarrow> kv_world_ok (sy_log s) (sy_world s) \<and> inj (\<lambda>c. kc_clientId (sy_clerks s c)) \<and>
     set (sy_sent s) \<subseteq> fst ` requests s \<and> set (sy_log s) \<subseteq> args_op ` fst ` requests s \<and>
     answers_ok s \<and> done_ok s \<and> requests_ok s \<and> unique_requests (requests s) \<and> order_ok s"

lemma in_log_append: "in_log a n L \<Longrightarrow> in_log a n (L @ ops)"
  by (auto simp: in_log_def)

lemma answered_append: "in_log a n L \<Longrightarrow> answered a n (L @ ops) = answered a n L"
  by (cases a) (simp_all add: in_log_def stored_append)

lemma requests_begin:
  assumes "sy_current s c = None"
  shows "requests (s\<lparr>sy_current := (sy_current s)(c \<mapsto> cu), sy_sent := sent, sy_clock := t\<rparr>) =
    insert (call_args (cu_call cu) (sy_clerks s c), cu_time cu, cu_begin cu) (requests s)"
proof -
  have "((sy_current s)(c \<mapsto> cu)) c' = Some cu' \<longleftrightarrow> c' = c \<and> cu' = cu \<or> sy_current s c' = Some cu'" for c' cu'
    using assms by auto
  then have "{(call_args (cu_call cu') (sy_clerks s c'), cu_time cu', cu_begin cu') | c' cu'. ((sy_current s)(c \<mapsto> cu)) c' = Some cu'} =
      insert (call_args (cu_call cu) (sy_clerks s c), cu_time cu, cu_begin cu)
        {(call_args (cu_call cu') (sy_clerks s c'), cu_time cu', cu_begin cu') | c' cu'. sy_current s c' = Some cu'}"
    by (simp only:) blast
  then show ?thesis by (simp add: requests_def del: fun_upd_apply)
qed

lemma requests_finish:
  assumes "sy_current s c = Some cu" and "dn_args d = call_args (cu_call cu) (sy_clerks s c)"
    and "dn_call d = cu_time cu" and "dn_begin d = cu_begin cu"
  shows "requests (s\<lparr>sy_clerks := (sy_clerks s)(c := ck), sy_current := (sy_current s)(c := None), sy_done := sy_done s @ [d],
      sy_clock := t\<rparr>) = requests s"
proof -
  have "{(call_args (cu_call cu) (sy_clerks s c), cu_time cu, cu_begin cu) | c cu. sy_current s c = Some cu} =
      insert (dn_args d, dn_call d, dn_begin d)
        {(call_args (cu_call cu) (sy_clerks s c'), cu_time cu, cu_begin cu) | c' cu. c' \<noteq> c \<and> sy_current s c' = Some cu}"
    using assms by fastforce
  moreover have "{(call_args (cu_call cu) (((sy_clerks s)(c := ck)) c'), cu_time cu, cu_begin cu) | c' cu.
        ((sy_current s)(c := None)) c' = Some cu} =
      {(call_args (cu_call cu) (sy_clerks s c'), cu_time cu, cu_begin cu) | c' cu. c' \<noteq> c \<and> sy_current s c' = Some cu}"
    by (auto split: if_splits)
  ultimately show ?thesis by (auto simp: requests_def)
qed

lemma request_current: "sy_current s c = Some cu \<Longrightarrow> (call_args (cu_call cu) (sy_clerks s c), cu_time cu, cu_begin cu) \<in> requests s"
  by (auto simp: requests_def)

lemma request_done: "d \<in> set (sy_done s) \<Longrightarrow> (dn_args d, dn_call d, dn_begin d) \<in> requests s"
  by (auto simp: requests_def)

text \<open>Every client's requests are numbered up to the call under way.\<close>

lemma request_number:
  assumes "sys_ok s" and "(a, t, b) \<in> requests s" and "client a = kc_clientId (sy_clerks s c)"
  shows "seq a \<le> kc_seqId (sy_clerks s c) \<or>
    (\<exists>cu. sy_current s c = Some cu \<and> (a, t, b) = (call_args (cu_call cu) (sy_clerks s c), cu_time cu, cu_begin cu))"
proof -
  have inj: "c' = c" if "kc_clientId (sy_clerks s c') = kc_clientId (sy_clerks s c)" for c'
    using assms(1) that by (auto simp: sys_ok_def inj_def)
  from assms(2) consider d where "d \<in> set (sy_done s)" "(a, t, b) = (dn_args d, dn_call d, dn_begin d)"
    | c' cu where "sy_current s c' = Some cu" "(a, t, b) = (call_args (cu_call cu) (sy_clerks s c'), cu_time cu, cu_begin cu)"
    unfolding requests_def by blast
  then show ?thesis
  proof cases
    case 1
    with assms(1,3) inj [of "dn_clerk d"] show ?thesis by (auto simp: sys_ok_def done_ok_def)
  next
    case 2
    with assms(3) inj [of c'] show ?thesis by auto
  qed
qed

lemma sys_okD:
  assumes "sys_ok s"
  shows "kv_world_ok (sy_log s) (sy_world s)" "inj (\<lambda>c. kc_clientId (sy_clerks s c))" "answers_ok s" "done_ok s"
    "requests_ok s" "unique_requests (requests s)" "order_ok s"
    "set (sy_sent s) \<subseteq> fst ` requests s" "set (sy_log s) \<subseteq> args_op ` fst ` requests s"
  using assms by (simp_all add: sys_ok_def)

lemma unique_insert:
  assumes "unique_requests R" and "\<And>y. y \<in> R \<Longrightarrow> client a = client (fst y) \<Longrightarrow> seq a \<noteq> seq (fst y)"
  shows "unique_requests (insert (a, t, b) R)"
  unfolding unique_requests_def
proof (intro ballI impI)
  fix x y assume xy: "x \<in> insert (a, t, b) R" "y \<in> insert (a, t, b) R"
    "client (fst x) = client (fst y)" "seq (fst x) = seq (fst y)"
  from assms(2) [of x] assms(2) [of y] xy consider "x = (a, t, b) \<and> y = (a, t, b)" | "x \<in> R \<and> y \<in> R" by fastforce
  then show "x = y" using assms(1) xy(3,4) unfolding unique_requests_def by cases blast+
qed

lemma begin_ok:
  assumes ok: "sys_ok s" and idle: "sy_current s c = None" and a: "a = call_args call (sy_clerks s c)"
    and s': "s' = s\<lparr>sy_current := (sy_current s)(c \<mapsto> \<lparr>cu_call = call, cu_time = sy_clock s, cu_begin = length (sy_log s)\<rparr>),
      sy_sent := sy_sent s @ [a], sy_clock := sy_clock s + 1\<rparr>"
  shows "sys_ok s'"
proof -
  have req: "requests s' = insert (a, sy_clock s, length (sy_log s)) (requests s)"
    using requests_begin [OF idle] by (simp add: s' a)
  have fields: "sy_log s' = sy_log s" "sy_world s' = sy_world s" "sy_clerks s' = sy_clerks s" "sy_answers s' = sy_answers s"
    "sy_done s' = sy_done s" "sy_clock s' = sy_clock s + 1" "sy_sent s' = sy_sent s @ [a]" by (simp_all add: s')
  note parts = sys_okD [OF ok]
  have own: "client a = kc_clientId (sy_clerks s c)" "seq a = kc_seqId (sy_clerks s c) + 1" by (simp_all add: a)
  have new: "\<not> (client a = client a' \<and> seq a \<le> seq a')" if "(a', t', b') \<in> requests s" for a' t' b'
    using request_number [OF ok that, of c] idle own by auto
  have "args_op a \<notin> set (sy_log s)"
  proof
    assume "args_op a \<in> set (sy_log s)"
    then obtain a' t' b' where "(a', t', b') \<in> requests s" "args_op a' = args_op a"
      using ok by (force simp: sys_ok_def)
    with new [OF this(1)] show False by simp
  qed
  moreover have "clerk_made a" using a by (auto simp: clerk_made_def)
  ultimately have "requests_ok s'" using parts(5) by (fastforce simp: requests_ok_def req fields)
  moreover have "unique_requests (requests s')"
    unfolding req by (rule unique_insert [OF parts(6)]) (use new in fastforce)
  moreover have "order_ok s'"
  proof -
    have "dn_return d < sy_clock s \<and> dn_point d \<le> length (sy_log s)" if "d \<in> set (sy_done s)" for d
      using parts(4) that by (auto simp: done_ok_def in_log_def)
    then show ?thesis using parts(7) by (fastforce simp: order_ok_def req fields)
  qed
  moreover have "answers_ok s'" "done_ok s'"
    using parts(3,4) by (fastforce simp: answers_ok_def done_ok_def fields)+
  ultimately show ?thesis using ok by (auto simp: sys_ok_def req fields)
qed

lemma commit_ok:
  assumes ok: "sys_ok s" and k: "k < length (sy_sent s)"
    and s': "s' = s\<lparr>sy_log := sy_log s @ [args_op (sy_sent s ! k)]\<rparr>"
  shows "sys_ok s'"
proof -
  note parts = sys_okD [OF ok]
  have fields: "sy_log s' = sy_log s @ [args_op (sy_sent s ! k)]" "sy_world s' = sy_world s" "sy_clerks s' = sy_clerks s"
    "sy_answers s' = sy_answers s" "sy_done s' = sy_done s" "sy_clock s' = sy_clock s" "sy_sent s' = sy_sent s"
    by (simp_all add: s')
  have req: "requests s' = requests s" by (simp add: s' requests_def)
  have "sy_sent s ! k \<in> fst ` requests s" using parts(8) nth_mem [OF k] by blast
  then have "set (sy_log s') \<subseteq> args_op ` fst ` requests s'" using parts(9) by (auto simp: fields req)
  moreover have "answers_ok s'"
    using parts(3) by (simp add: answers_ok_def fields in_log_append answered_append)
  moreover have "done_ok s'" using parts(4) by (simp add: done_ok_def fields in_log_append answered_append)
  moreover have "requests_ok s'" using parts(5) by (fastforce simp: requests_ok_def fields req)
  moreover have "order_ok s'" using parts(7) by (simp add: order_ok_def fields req)
  ultimately show ?thesis
    using parts kv_world_ok_append [OF parts(1)] by (simp add: sys_ok_def req fields)
qed

lemma args_inject:
  assumes "unique_requests R" and "a \<in> fst ` R" and "a' \<in> fst ` R" and "client a = client a'" and "seq a = seq a'"
  shows "a = a'"
  using assms unfolding unique_requests_def by force

lemma matches_op: "kv_matches op (Some r) \<longleftrightarrow> ko_ClientId op = ko_ClientId r \<and> ko_SeqId op = ko_SeqId r"
  by (simp add: kv_matches_def)

text \<open>A handler that received an operation answers OK only for the request it stands for.\<close>

lemma args_reply_ok:
  assumes "kr_Err (args_reply a (Some r) kv) = OK"
  shows "client a = ko_ClientId r" "seq a = ko_SeqId r"
  using assms by (cases a; auto simp: KvGet_reply_def KvPutAppend_reply_def matches_op split: if_splits)+

lemma args_reply_not_missing [simp]: "kr_Err (args_reply a r kv) \<noteq> ErrNoKey"
  by (cases a) (auto simp: KvGet_reply_def KvPutAppend_reply_def)

lemma args_reply_value:
  assumes "kr_Err (args_reply a r kv) = OK" and "PersistSnapShot kv = prefix_data n L"
  shows "kr_Value (args_reply a r kv) = answered a n L"
  using assms by (cases a) (auto simp: KvGet_reply_def stored_def PersistSnapShot_def dest: sym split: if_splits)

lemma answer_ok:
  assumes ok: "sys_ok s" and j: "j < length (rp_received rp)" and k: "k < length (sy_sent s)"
    and rp: "rp = kw_replicas (sy_world s) i" and an: "an = \<lparr>an_args = sy_sent s ! k,
      an_reply = args_reply (sy_sent s ! k) (Some (rp_received rp ! j)) (rp_server rp), an_point = rp_last rp\<rparr>"
  shows "sys_ok (s\<lparr>sy_answers := sy_answers s @ [an]\<rparr>)"
proof -
  note parts = sys_okD [OF ok]
  have replica: "replica_ok (sy_log s) rp" using parts(1) by (simp add: kv_world_ok_def rp)
  let ?a = "sy_sent s ! k" and ?r = "rp_received rp ! j"
  have a: "?a \<in> fst ` requests s" using parts(8) nth_mem [OF k] by blast
  have r: "?r \<in> set (take (rp_last rp) (sy_log s))" using replica nth_mem [OF j] by (auto simp: replica_ok_def)
  then have "?r \<in> args_op ` fst ` requests s" using parts(9) by (auto dest: in_set_takeD)
  then obtain a' where a': "a' \<in> fst ` requests s" "?r = args_op a'" by blast
  have "in_log ?a (rp_last rp) (sy_log s) \<and> kr_Value (an_reply an) = answered ?a (rp_last rp) (sy_log s)"
    if "kr_Err (an_reply an) = OK"
  proof -
    have "?a = a'" using args_reply_ok [of ?a ?r] that a'(2) by (intro args_inject [OF parts(6) a a'(1)]) (simp_all add: an)
    then have "in_log ?a (rp_last rp) (sy_log s)" using r a'(2) replica by (simp add: in_log_def replica_ok_def)
    moreover have "kr_Value (an_reply an) = answered ?a (rp_last rp) (sy_log s)"
      using args_reply_value [of ?a "Some ?r" "rp_server rp"] that replica by (simp add: an replica_ok_def)
    ultimately show ?thesis by simp
  qed
  then have "answers_ok (s\<lparr>sy_answers := sy_answers s @ [an]\<rparr>)"
    using parts(3) by (auto simp: answers_ok_def) (simp_all add: an)
  then show ?thesis using parts
    by (simp add: sys_ok_def requests_def done_ok_def requests_ok_def order_ok_def)
qed

lemma finish_ok:
  assumes ok: "sys_ok s" and cu: "sy_current s c = Some cu" and k: "an \<in> set (sy_answers s)"
    and args: "an_args an = call_args (cu_call cu) (sy_clerks s c)"
    and result: "call_result (cu_call cu) (failed @ [Some (an_reply an)]) (sy_clerks s c) = Some (ck, v)"
    and refused: "list_all refused failed"
    and d: "d = \<lparr>dn_clerk = c, dn_args = an_args an, dn_call = cu_time cu, dn_begin = cu_begin cu, dn_return = sy_clock s,
      dn_point = an_point an, dn_value = v\<rparr>"
    and s': "s' = s\<lparr>sy_clerks := (sy_clerks s)(c := ck), sy_current := (sy_current s)(c := None), sy_done := sy_done s @ [d],
      sy_clock := sy_clock s + 1\<rparr>"
  shows "sys_ok s'"
proof -
  note parts = sys_okD [OF ok]
  note ck = call_result_clerk [OF result]
  have req: "requests s' = requests s" unfolding s' by (rule requests_finish [OF cu]) (simp_all add: d args)
  have fields: "sy_log s' = sy_log s" "sy_world s' = sy_world s" "sy_clerks s' = (sy_clerks s)(c := ck)"
    "sy_answers s' = sy_answers s" "sy_done s' = sy_done s @ [d]" "sy_clock s' = sy_clock s + 1" "sy_sent s' = sy_sent s"
    by (simp_all add: s')
  have clients: "kc_clientId (sy_clerks s' c') = kc_clientId (sy_clerks s c')" for c' by (simp add: fields ck(1))
  have seqs: "kc_seqId (sy_clerks s c') \<le> kc_seqId (sy_clerks s' c')" for c' by (simp add: fields ck(2))
  have own: "client (dn_args d) = kc_clientId (sy_clerks s c)" "seq (dn_args d) = kc_seqId (sy_clerks s c) + 1"
    by (simp_all add: d args)
  have "kr_Err (an_reply an) \<noteq> ErrNoKey" using parts(3) k by (simp add: answers_ok_def)
  from call_result_answer [OF result refused this]
  have "kr_Err (an_reply an) = OK" "v = (case cu_call cu of CallGet k \<Rightarrow> kr_Value (an_reply an) | _ \<Rightarrow> [])" by simp_all
  then have point: "in_log (dn_args d) (dn_point d) (sy_log s)" and value': "dn_value d = answered (dn_args d) (dn_point d) (sy_log s)"
    using parts(3) k args by (auto simp: answers_ok_def d split: kv_call.splits)
  have mine: "(dn_args d, dn_call d, dn_begin d) \<in> requests s" using request_current [OF cu] by (simp add: d args)
  have later: "\<not> (client (dn_args d) = client a \<and> seq (dn_args d) < seq a)" if "(a, t, b) \<in> requests s" for a t b
  proof
    assume a: "client (dn_args d) = client a \<and> seq (dn_args d) < seq a"
    then have "client a = kc_clientId (sy_clerks s c)" using own(1) by simp
    from request_number [OF ok that this] have "seq a \<le> kc_seqId (sy_clerks s c) + 1" by (elim disjE exE conjE) simp_all
    with a own(2) show False by simp
  qed
  have times: "t < sy_clock s" if "(a, t, b) \<in> requests s" for a t b using parts(5) that by (auto simp: requests_ok_def)
  have "done_ok s'"
  proof -
    have "dn_args d \<notin> dn_args ` set (sy_done s)"
    proof
      assume "dn_args d \<in> dn_args ` set (sy_done s)"
      then obtain d' where d': "d' \<in> set (sy_done s)" "dn_args d' = dn_args d" by auto
      then have "client (dn_args d) = kc_clientId (sy_clerks s (dn_clerk d'))" "seq (dn_args d) \<le> kc_seqId (sy_clerks s (dn_clerk d'))"
        using parts(4) by (force simp: done_ok_def)+
      moreover from this(1) own(1) have "dn_clerk d' = c" using parts(2) by (auto simp: inj_def)
      ultimately show False using own(2) by simp
    qed
    moreover have "client (dn_args d) = kc_clientId (sy_clerks s' (dn_clerk d)) \<and> seq (dn_args d) \<le> kc_seqId (sy_clerks s' (dn_clerk d))"
      using own ck by (simp add: fields d)
    moreover have "dn_call d < dn_return d \<and> dn_return d < sy_clock s + 1" using times [OF mine] by (simp add: d)
    moreover have "client (dn_args e) = kc_clientId (sy_clerks s' (dn_clerk e)) \<and> seq (dn_args e) \<le> kc_seqId (sy_clerks s' (dn_clerk e))"
      if "e \<in> set (sy_done s)" for e
      using parts(4) that clients [of "dn_clerk e"] seqs [of "dn_clerk e"] by (force simp: done_ok_def)
    ultimately show ?thesis
      using parts(4) point value' by (force simp: done_ok_def fields(1,5,6))
  qed
  moreover have "order_ok s'"
  proof -
    have "dn_return d = sy_clock s" by (simp add: d)
    then have "dn_return d \<noteq> t \<and> \<not> dn_return d < t" if "(a, t, b) \<in> requests s" for a t b
      using times [OF that] by simp
    then show ?thesis using parts(7) later unfolding order_ok_def req fields by fastforce
  qed
  moreover have "requests_ok s'" using parts(5) by (force simp: requests_ok_def req fields)
  moreover have "inj (\<lambda>c'. kc_clientId (sy_clerks s' c'))" using parts(2) unfolding clients .
  moreover have "answers_ok s'" using parts(3) by (simp add: answers_ok_def fields)
  ultimately show ?thesis using parts by (simp add: sys_ok_def req) (simp add: fields)
qed

lemma sys_step_ok:
  assumes ok: "sys_ok s" and step: "sys_step L e s = Some s'"
  shows "sys_ok s'"
proof (cases e)
  case (SysBegin c call)
  then show ?thesis using step by (intro begin_ok [OF ok _ refl, of c s' call]) (auto split: if_splits)
next
  case (SysCommit k)
  then show ?thesis using step by (intro commit_ok [OF ok, of k s']) (auto split: if_splits)
next
  case (SysReplica i e)
  then obtain w where w: "kv_step (sy_log s) (i, e) (sy_world s) = Some w" "s' = s\<lparr>sy_world := w\<rparr>" using step by auto
  note parts = sys_okD [OF ok]
  show ?thesis using parts kv_step_ok [OF parts(1) w(1)]
    by (simp add: w(2) sys_ok_def requests_def answers_ok_def done_ok_def requests_ok_def order_ok_def)
next
  case (SysAnswer i j k)
  then show ?thesis using step answer_ok [OF ok _ _ refl refl, of j i k] by (auto simp: Let_def split: if_splits)
next
  case (SysFinish c failed k)
  with step obtain cu ck v where fin: "sy_current s c = Some cu" "k < length (sy_answers s)" "list_all refused failed"
      "an_args (sy_answers s ! k) = call_args (cu_call cu) (sy_clerks s c)"
      "call_result (cu_call cu) (failed @ [Some (an_reply (sy_answers s ! k))]) (sy_clerks s c) = Some (ck, v)"
      "s' = s\<lparr>sy_clerks := (sy_clerks s)(c := ck), sy_current := (sy_current s)(c := None),
         sy_done := sy_done s @ [\<lparr>dn_clerk = c, dn_args = an_args (sy_answers s ! k), dn_call = cu_time cu,
           dn_begin = cu_begin cu, dn_return = sy_clock s, dn_point = an_point (sy_answers s ! k), dn_value = v\<rparr>],
         sy_clock := sy_clock s + 1\<rparr>"
    by (auto simp: bind_eq_Some_conv split: if_splits)
  from finish_ok [OF ok fin(1) nth_mem [OF fin(2)] fin(4,5,3) refl fin(6)] show ?thesis .
qed

interpretation kvclients: step_machine "sys_step L" sys_ok for L
  by unfold_locales (rule sys_step_ok)

lemma sys_init_ok: "inj (\<lambda>c. kc_clientId (clerks c)) \<Longrightarrow> sys_ok (sys_init m clerks)"
  by (simp add: sys_ok_def sys_init_def kv_init_ok requests_def answers_ok_def done_ok_def requests_ok_def unique_requests_def order_ok_def)

lemmas sys_run_ok = kvclients.run_inv [OF sys_init_ok]

text \<open>Only finitely many calls are under way.\<close>

interpretation kvcalls: step_machine "sys_step L" "\<lambda>s. finite (dom (sy_current s))" for L
proof
  fix s e s' assume fin: "finite (dom (sy_current s))" and step: "sys_step L e s = Some s'"
  show "finite (dom (sy_current s'))"
    by (cases e) (use fin step in \<open>auto simp: Let_def bind_eq_Some_conv split: if_splits\<close>)
qed

section \<open>Completing the calls under way\<close>

text \<open>
  A call under way may have taken effect or not. It is completed by a return after all others, with
  the result of executing it then if it was not executed before.
\<close>

definition pending :: "KvSystem \<Rightarrow> (nat \<times> kv_args \<times> int) set" where
  "pending s = {(c, call_args (cu_call cu) (sy_clerks s c), cu_time cu) | c cu. sy_current s c = Some cu}"

definition completion :: "KvSystem \<Rightarrow> kv_done list \<Rightarrow> bool" where
  "completion s ext \<longleftrightarrow> distinct (map dn_clerk ext) \<and>
     (\<lambda>d. (dn_clerk d, dn_args d, dn_call d)) ` set ext = pending s \<and> (\<forall>d \<in> set ext. sy_clock s \<le> dn_return d)"

lemma resend_ok:
  assumes ok: "sys_ok s" and "sy_current s c = Some cu"
  shows "sys_ok (s\<lparr>sy_sent := sy_sent s @ [call_args (cu_call cu) (sy_clerks s c)]\<rparr>)"
proof -
  have "call_args (cu_call cu) (sy_clerks s c) \<in> fst ` requests s"
    using request_current [OF assms(2)] by force
  with sys_okD [OF ok] show ?thesis
    by (simp add: sys_ok_def requests_def answers_ok_def done_ok_def requests_ok_def order_ok_def)
qed

lemma reply_ok:
  assumes ok: "sys_ok s" and a: "in_log a n (sy_log s)"
  shows "sys_ok (s\<lparr>sy_answers := sy_answers s @ [\<lparr>an_args = a,
    an_reply = \<lparr>kr_Err = OK, kr_Value = answered a n (sy_log s)\<rparr>, an_point = n\<rparr>]\<rparr>)"
proof -
  note parts = sys_okD [OF ok]
  have "answers_ok (s\<lparr>sy_answers := sy_answers s @ [\<lparr>an_args = a,
      an_reply = \<lparr>kr_Err = OK, kr_Value = answered a n (sy_log s)\<rparr>, an_point = n\<rparr>]\<rparr>)"
    using parts(3) a by (auto simp: answers_ok_def)
  with parts show ?thesis by (simp add: sys_ok_def requests_def done_ok_def requests_ok_def order_ok_def)
qed

lemma call_result_OK: "\<exists>ck' v. call_result call [Some \<lparr>kr_Err = OK, kr_Value = x\<rparr>] ck = Some (ck', v)"
  by (cases call) (simp_all add: KvClerk_Get_def KvClerk_Put_def KvClerk_Append_def KvClerk_PutAppend_def Let_def)

lemma complete_one:
  assumes ok: "sys_ok s" and cu: "sy_current s c = Some cu"
  shows "\<exists>s' d. sys_ok s' \<and> sy_current s' = (sy_current s)(c := None) \<and> sy_done s' = sy_done s @ [d] \<and>
    (\<forall>c'. c' \<noteq> c \<longrightarrow> sy_clerks s' c' = sy_clerks s c') \<and> sy_clock s' = sy_clock s + 1 \<and> dn_return d = sy_clock s \<and>
    dn_clerk d = c \<and> dn_args d = call_args (cu_call cu) (sy_clerks s c) \<and> dn_call d = cu_time cu"
proof -
  let ?a = "call_args (cu_call cu) (sy_clerks s c)"
  define s1 where "s1 = s\<lparr>sy_sent := sy_sent s @ [?a]\<rparr>"
  have ok1: "sys_ok s1" unfolding s1_def by (rule resend_ok [OF ok cu])
  define s2 where "s2 = s1\<lparr>sy_log := sy_log s1 @ [args_op (sy_sent s1 ! length (sy_sent s))]\<rparr>"
  have ok2: "sys_ok s2" by (rule commit_ok [OF ok1 _ s2_def]) (simp add: s1_def)
  let ?n = "length (sy_log s2)"
  define an where "an = \<lparr>an_args = ?a, an_reply = \<lparr>kr_Err = OK, kr_Value = answered ?a ?n (sy_log s2)\<rparr>, an_point = ?n\<rparr>"
  define s3 where "s3 = s2\<lparr>sy_answers := sy_answers s2 @ [an]\<rparr>"
  have "in_log ?a ?n (sy_log s2)" by (simp add: in_log_def s2_def s1_def)
  then have ok3: "sys_ok s3" unfolding s3_def an_def by (rule reply_ok [OF ok2])
  have same: "sy_current s3 = sy_current s" "sy_clerks s3 = sy_clerks s" "sy_done s3 = sy_done s" "sy_clock s3 = sy_clock s"
    by (simp_all add: s3_def s2_def s1_def)
  obtain ck v where result: "call_result (cu_call cu) ([] @ [Some (an_reply an)]) (sy_clerks s3 c) = Some (ck, v)"
    using call_result_OK [of "cu_call cu" "answered ?a ?n (sy_log s2)" "sy_clerks s3 c"] by (auto simp: an_def)
  define d where "d = \<lparr>dn_clerk = c, dn_args = an_args an, dn_call = cu_time cu, dn_begin = cu_begin cu, dn_return = sy_clock s3,
      dn_point = an_point an, dn_value = v\<rparr>"
  define s4 where "s4 = s3\<lparr>sy_clerks := (sy_clerks s3)(c := ck), sy_current := (sy_current s3)(c := None),
      sy_done := sy_done s3 @ [d], sy_clock := sy_clock s3 + 1\<rparr>"
  have "sys_ok s4"
    by (rule finish_ok [OF ok3 _ _ _ result _ d_def s4_def]) (use cu same in \<open>simp_all add: s3_def an_def\<close>)
  then show ?thesis
    by (intro exI [of _ s4] exI [of _ d]) (simp add: s4_def same d_def an_def)
qed

lemma complete_all:
  assumes "finite (dom (sy_current s))" and "sys_ok s"
  shows "\<exists>s' ext. sys_ok s' \<and> (\<forall>c. sy_current s' c = None) \<and> sy_done s' = sy_done s @ ext \<and> completion s ext"
  using assms
proof (induction "dom (sy_current s)" arbitrary: s rule: finite_induct)
  case empty
  then have "sy_current s c = None" for c by (auto simp: dom_def)
  with empty.prems show ?case by (intro exI [of _ s] exI [of _ "[]"]) (simp add: completion_def pending_def)
next
  case (insert c C)
  then obtain cu where cu: "sy_current s c = Some cu" by blast
  obtain s1 d where s1: "sys_ok s1" "sy_current s1 = (sy_current s)(c := None)" "sy_done s1 = sy_done s @ [d]"
    "\<forall>c'. c' \<noteq> c \<longrightarrow> sy_clerks s1 c' = sy_clerks s c'" "sy_clock s1 = sy_clock s + 1"
    and d: "dn_return d = sy_clock s" "dn_clerk d = c" "dn_args d = call_args (cu_call cu) (sy_clerks s c)" "dn_call d = cu_time cu"
    using complete_one [OF insert.prems cu] by blast
  have "C = dom (sy_current s1)" using insert.hyps(2,4) s1(2) by auto
  from insert.hyps(3) [OF this s1(1)] obtain s2 ext where s2: "sys_ok s2" "\<forall>c. sy_current s2 c = None"
    "sy_done s2 = sy_done s1 @ ext" and ext: "completion s1 ext" by blast
  have p1: "x \<in> pending s \<longleftrightarrow> x = (c, dn_args d, dn_call d) \<or> x \<in> pending s1" for x
  proof
    assume "x \<in> pending s"
    then obtain c' cu' where x: "x = (c', call_args (cu_call cu') (sy_clerks s c'), cu_time cu')" "sy_current s c' = Some cu'"
      by (auto simp: pending_def)
    show "x = (c, dn_args d, dn_call d) \<or> x \<in> pending s1"
      using x cu d(3,4) s1(2,4) by (cases "c' = c") (auto simp: pending_def)
  next
    assume "x = (c, dn_args d, dn_call d) \<or> x \<in> pending s1"
    then show "x \<in> pending s"
      using cu d(3,4) s1(2,4) by (auto simp: pending_def split: if_splits)
  qed
  have "c \<notin> fst ` pending s1" using s1(2) by (auto simp: pending_def)
  moreover have "dn_clerk ` set ext = fst ` pending s1" using ext by (auto simp: completion_def image_iff) force+
  ultimately have "completion s (d # ext)"
    using ext d s1(5) p1 by (auto simp: completion_def)
  with s2 s1(3) show ?case by (intro exI [of _ s2] exI [of _ "d # ext"]) simp
qed

end
