(* ===== verification/KVLinearizable.thy ===== *)
theory KVLinearizable
  imports KVClients PorcupineTheorems
begin

text \<open>
  The key/value service is linearizable. Every operation that its clients completed is placed on
  the log: a Put or Append at its first occurrence, where it is executed, a Get right after the
  operations that the answering replica had applied when it read. In this order the operations
  are an execution of one database with the answers that the clients got, and an
  operation that returned before another one was called comes first. So the checker of
  \<open>src/porcupine\<close>, which the tests of \<open>src/kvraft\<close> run on the recorded history, accepts it.
\<close>

section \<open>Recorded operations\<close>




section \<open>Lists in order of a number\<close>






section \<open>First occurrences\<close>





section \<open>What the log stores\<close>





section \<open>The place of an operation\<close>









section \<open>The execution of the database\<close>











section \<open>A history of two clerks\<close>


text \<open>A Put that is retried and so twice in the log, and a Get called before the Put returns.\<close>

abbreviation "ex_calls \<equiv>
  [SysBegin 0 (CallPut ''k'' ''a''), SysBegin 1 (CallGet ''k''), SysCommit 0, SysCommit 0, SysCommit 1,
   SysReplica 0 (KvEnter True 1), SysReplica 0 (KvDeliver 9 False), SysReplica 0 (KvReceive 0), SysAnswer 0 0 0, SysFinish 0 [None] 0,
   SysReplica 0 (KvEnter True 3), SysReplica 0 (KvDeliver 9 False), SysReplica 0 (KvDeliver 9 False), SysReplica 0 (KvReceive 1),
   SysAnswer 0 0 1, SysFinish 1 [] 1]"




section \<open>Properties\<close>



end
