(* ===== verification/Labrpc.thy ===== *)
theory Labrpc
  imports Prelude "HOL-Library.Word"
begin

text \<open>
  The simulated network of \<open>src/labrpc/labrpc.go\<close>, over which all the labs call each other. A network
  maps client ends to servers by name; a call is handed to the network's loop, which starts a
  goroutine for it (\<open>processReq\<close>); that may drop the request, runs the handler in a goroutine of its own,
  waits for it or for the death of the server, and may drop or delay the reply.

  Encoded arguments and replies are byte strings. What a handler does and returns is the
  environment's, as is every random number: an argument of the step that reads it. How long a
  goroutine sleeps is left out, since any other goroutine may take its steps in the meantime. Names,
  \<open>interface{}\<close> in the code, are of any type; \<open>nil\<close> is \<open>None\<close>. A step is \<open>None\<close> if it is not possible, or if the
  program ends in it.
\<close>

section \<open>Services and servers\<close>

record replyMsg =
  lr_ok :: bool
  lr_reply :: string

record 'n reqMsg =
  rq_endname :: 'n
  rq_svcMeth :: string
  rq_args :: string

text \<open>What \<open>MakeService\<close> asks of a method by reflection; the receiver is its first argument.\<close>

datatype Kind = Ptr | NoPtr

record Method =
  me_Name :: string
  me_PkgPath :: string
  me_In :: "Kind list"
  me_NumOut :: nat

record RpcService =
  svc_name :: string
  svc_methods :: "string \<rightharpoonup> Method"

definition suitable :: "Method \<Rightarrow> bool" where
  "suitable mtype \<longleftrightarrow> \<not> (me_PkgPath mtype \<noteq> [] \<or> length (me_In mtype) \<noteq> 3 \<or> me_In mtype ! 2 \<noteq> Ptr \<or> me_NumOut mtype \<noteq> 0)"

fun MakeService_loop :: "Method list \<Rightarrow> (string \<rightharpoonup> Method) \<Rightarrow> (string \<rightharpoonup> Method)" where
  "MakeService_loop [] methods = methods"
| "MakeService_loop (m # ms) methods = MakeService_loop ms (if suitable m then methods(me_Name m \<mapsto> m) else methods)"

definition MakeService :: "string \<Rightarrow> Method list \<Rightarrow> RpcService" where
  "MakeService name ms = \<lparr>svc_name = name, svc_methods = MakeService_loop ms (\<lambda>_. None)\<rparr>"

record Server =
  sv_services :: "string \<rightharpoonup> RpcService"
  sv_count :: int

definition MakeServer :: Server where
  "MakeServer = \<lparr>sv_services = (\<lambda>_. None), sv_count = 0\<rparr>"

definition AddService :: "RpcService \<Rightarrow> Server \<Rightarrow> Server" where
  "AddService svc rs = rs\<lparr>sv_services := (sv_services rs)(svc_name svc \<mapsto> svc)\<rparr>"

definition LastIndex :: "string \<Rightarrow> char \<Rightarrow> int" where
  "LastIndex s c = int (length s) - 1 - int (length (takeWhile (\<lambda>x. x \<noteq> c) (rev s)))"

definition splitMethod :: "string \<Rightarrow> (string \<times> string) option" where
  "splitMethod svcMeth = (let dot = LastIndex svcMeth CHR ''.'' in do {
     serviceName \<leftarrow> slice_to svcMeth dot;
     methodName \<leftarrow> slice_from svcMeth (dot + 1);
     Some (serviceName, methodName) })"

text \<open>An unknown service or method ends the program (\<open>log.Fatalf\<close>). The result is the method to be called.\<close>

definition Service_dispatch :: "string \<Rightarrow> RpcService \<Rightarrow> Method option" where
  "Service_dispatch methname svc = svc_methods svc methname"

definition Server_dispatch :: "'n reqMsg \<Rightarrow> Server \<Rightarrow> (Server \<times> Method) option" where
  "Server_dispatch req rs = do {
     let rs = rs\<lparr>sv_count := sv_count rs + 1\<rparr>;
     (serviceName, methodName) \<leftarrow> splitMethod (rq_svcMeth req);
     service \<leftarrow> sv_services rs serviceName;
     method \<leftarrow> Service_dispatch methodName service;
     Some (rs, method) }"

section \<open>The network\<close>

text \<open>
  Servers are pointers, positions in a list of servers. \<open>nw_looping\<close> says that the goroutine
  started by \<open>MakeNetwork\<close> still runs, \<open>nw_done\<close> that the channel \<open>done\<close> is closed. All client ends of a network
  share its two channels, so an end is its name.
\<close>

record 'n Network =
  nw_reliable :: bool
  nw_longDelays :: bool
  nw_longReordering :: bool
  nw_ends :: "'n \<Rightarrow> bool"
  nw_enabled :: "'n \<rightharpoonup> bool"
  nw_servers :: "'n \<rightharpoonup> nat option"
  nw_connections :: "'n \<rightharpoonup> 'n option"
  nw_done :: bool
  nw_looping :: bool
  nw_count :: "32 word"
  nw_bytes :: "64 word"

definition MakeNetwork :: "'n Network" where
  "MakeNetwork = \<lparr>nw_reliable = True, nw_longDelays = False, nw_longReordering = False, nw_ends = (\<lambda>_. False),
     nw_enabled = (\<lambda>_. None), nw_servers = (\<lambda>_. None), nw_connections = (\<lambda>_. None), nw_done = False, nw_looping = True,
     nw_count = 0, nw_bytes = 0\<rparr>"

text \<open>Closing a closed channel panics.\<close>

definition Cleanup :: "'n Network \<Rightarrow> 'n Network option" where
  "Cleanup rn = (if nw_done rn then None else Some (rn\<lparr>nw_done := True\<rparr>))"

definition Reliable :: "bool \<Rightarrow> 'n Network \<Rightarrow> 'n Network" where
  "Reliable yes rn = rn\<lparr>nw_reliable := yes\<rparr>"

definition LongReordering :: "bool \<Rightarrow> 'n Network \<Rightarrow> 'n Network" where
  "LongReordering yes rn = rn\<lparr>nw_longReordering := yes\<rparr>"

definition LongDelays :: "bool \<Rightarrow> 'n Network \<Rightarrow> 'n Network" where
  "LongDelays yes rn = rn\<lparr>nw_longDelays := yes\<rparr>"

text \<open>A map without the key gives the zero value.\<close>

definition isEnabled :: "'n \<Rightarrow> 'n Network \<Rightarrow> bool" where
  "isEnabled endname rn \<longleftrightarrow> nw_enabled rn endname = Some True"

definition theServer :: "'n \<Rightarrow> 'n Network \<Rightarrow> nat option" where
  "theServer servername rn = (case nw_servers rn servername of None \<Rightarrow> None | Some server \<Rightarrow> server)"

definition theConnection :: "'n \<Rightarrow> 'n Network \<Rightarrow> 'n option" where
  "theConnection endname rn = (case nw_connections rn endname of None \<Rightarrow> None | Some servername \<Rightarrow> servername)"

definition readEndnameInfo :: "'n \<Rightarrow> 'n Network \<Rightarrow> bool \<times> 'n option \<times> nat option \<times> bool \<times> bool" where
  "readEndnameInfo endname rn =
     (let servername = theConnection endname rn;
          server = (case servername of None \<Rightarrow> None | Some name \<Rightarrow> theServer name rn)
      in (isEnabled endname rn, servername, server, nw_reliable rn, nw_longReordering rn))"

definition isServerDead :: "'n \<Rightarrow> 'n \<Rightarrow> nat \<Rightarrow> 'n Network \<Rightarrow> bool" where
  "isServerDead endname servername server rn \<longleftrightarrow> \<not> isEnabled endname rn \<or> theServer servername rn \<noteq> Some server"

definition MakeEnd :: "'n \<Rightarrow> 'n Network \<Rightarrow> 'n Network option" where
  "MakeEnd endname rn =
     (if nw_ends rn endname then None
      else Some (rn\<lparr>nw_ends := (nw_ends rn)(endname := True), nw_enabled := (nw_enabled rn)(endname \<mapsto> False),
                    nw_connections := (nw_connections rn)(endname \<mapsto> None)\<rparr>))"

definition AddServer :: "'n \<Rightarrow> nat \<Rightarrow> 'n Network \<Rightarrow> 'n Network" where
  "AddServer servername rs rn = rn\<lparr>nw_servers := (nw_servers rn)(servername \<mapsto> Some rs)\<rparr>"

definition DeleteServer :: "'n \<Rightarrow> 'n Network \<Rightarrow> 'n Network" where
  "DeleteServer servername rn = rn\<lparr>nw_servers := (nw_servers rn)(servername \<mapsto> None)\<rparr>"

definition Connect :: "'n \<Rightarrow> 'n \<Rightarrow> 'n Network \<Rightarrow> 'n Network" where
  "Connect endname servername rn = rn\<lparr>nw_connections := (nw_connections rn)(endname \<mapsto> Some servername)\<rparr>"

definition Enable :: "'n \<Rightarrow> bool \<Rightarrow> 'n Network \<Rightarrow> 'n Network" where
  "Enable endname enabled rn = rn\<lparr>nw_enabled := (nw_enabled rn)(endname \<mapsto> enabled)\<rparr>"

text \<open>\<open>GetCount\<close> of a name without a server dereferences \<open>nil\<close>.\<close>

definition NetworkGetCount :: "'n \<Rightarrow> 'n Network \<Rightarrow> Server list \<Rightarrow> int option" where
  "NetworkGetCount servername rn heap = do {
     svr \<leftarrow> theServer servername rn;
     rs \<leftarrow> idx heap (int svr);
     Some (sv_count rs) }"

definition GetTotalCount :: "'n Network \<Rightarrow> int" where
  "GetTotalCount rn = sint (nw_count rn)"

definition GetTotalBytes :: "'n Network \<Rightarrow> int" where
  "GetTotalBytes rn = sint (nw_bytes rn)"

section \<open>Calls\<close>

text \<open>
  Where a call is. \<open>Sending\<close>: in the first select of \<open>Call\<close>. \<open>Accepted\<close>: \<open>processReq\<close> begins. \<open>Found\<close>: it has read
  the end's entries, with the name and the pointer of the server, \<open>reliable\<close> and \<open>longreordering\<close>.
  \<open>Waiting\<close>: in the loop that waits for the handler. \<open>Collected\<close>: after the loop, with the
  reply if there is one. \<open>Replying\<close>: about to send on \<open>replyCh\<close>, perhaps after a delay. \<open>Returned\<close>:
  \<open>Call\<close> has returned.
\<close>

datatype 'n phase =
    Sending
  | Accepted
  | Found 'n nat bool bool
  | Waiting 'n nat bool bool
  | Collected 'n nat bool bool "replyMsg option"
  | Replying replyMsg
  | Returned bool string
  | Aborted

text \<open>The goroutine of the handler and the server it runs on; in the end its reply is received.\<close>

datatype handler = NotStarted | Spawned nat | Running nat | Answered nat replyMsg | Received nat replyMsg

record 'n rpc =
  rpc_req :: "'n reqMsg"
  rpc_phase :: "'n phase"
  rpc_handler :: handler

definition failure :: replyMsg where
  "failure = \<lparr>lr_ok = False, lr_reply = []\<rparr>"

definition Call_start :: "'n \<Rightarrow> string \<Rightarrow> string \<Rightarrow> 'n rpc" where
  "Call_start endname svcMeth args = \<lparr>rpc_req = \<lparr>rq_endname = endname, rq_svcMeth = svcMeth, rq_args = args\<rparr>,
     rpc_phase = Sending, rpc_handler = NotStarted\<rparr>"

text \<open>The other branch of the select: the network has been destroyed.\<close>

definition Call_abort :: "'n Network \<Rightarrow> 'n rpc \<Rightarrow> 'n rpc option" where
  "Call_abort rn c = (case rpc_phase c of
     Sending \<Rightarrow> if nw_done rn then Some (c\<lparr>rpc_phase := Aborted\<rparr>) else None
   | _ \<Rightarrow> None)"

text \<open>
  The network's loop receives the request. The receive and the two atomic additions to the counters
  are one step here, as are the addition for a reply and its send below: nothing but the three
  functions that read the counters could see a state in between.
\<close>

definition network_accept :: "'n Network \<Rightarrow> 'n rpc \<Rightarrow> ('n Network \<times> 'n rpc) option" where
  "network_accept rn c = (case rpc_phase c of
     Sending \<Rightarrow> if nw_looping rn
       then Some (rn\<lparr>nw_count := nw_count rn + 1, nw_bytes := nw_bytes rn + word_of_int (int (length (rq_args (rpc_req c))))\<rparr>,
                  c\<lparr>rpc_phase := Accepted\<rparr>) else None
   | _ \<Rightarrow> None)"

definition network_stop :: "'n Network \<Rightarrow> 'n Network option" where
  "network_stop rn = (if nw_done rn \<and> nw_looping rn then Some (rn\<lparr>nw_looping := False\<rparr>) else None)"

definition processReq_read :: "'n Network \<Rightarrow> 'n rpc \<Rightarrow> 'n rpc option" where
  "processReq_read rn c = (case rpc_phase c of
     Accepted \<Rightarrow> Some (c\<lparr>rpc_phase :=
       (case readEndnameInfo (rq_endname (rpc_req c)) rn of
          (True, Some servername, Some server, reliable, longreordering) \<Rightarrow> Found servername server reliable longreordering
        | _ \<Rightarrow> Replying failure)\<rparr>)
   | _ \<Rightarrow> None)"

definition processReq_send :: "bool \<Rightarrow> 'n rpc \<Rightarrow> 'n rpc option" where
  "processReq_send drop_it c = (case rpc_phase c of
     Found servername server reliable longreordering \<Rightarrow>
       if \<not> reliable \<and> drop_it then Some (c\<lparr>rpc_phase := Replying failure\<rparr>)
       else Some (c\<lparr>rpc_phase := Waiting servername server reliable longreordering, rpc_handler := Spawned server\<rparr>)
   | _ \<Rightarrow> None)"

text \<open>The goroutine of the handler: it calls \<open>dispatch\<close>, and some time later has the reply.\<close>

definition handler_dispatch :: "Server list \<Rightarrow> 'n rpc \<Rightarrow> (Server list \<times> 'n rpc) option" where
  "handler_dispatch heap c = (case rpc_handler c of
     Spawned server \<Rightarrow> do {
       rs \<leftarrow> idx heap (int server);
       (rs, method) \<leftarrow> Server_dispatch (rpc_req c) rs;
       heap \<leftarrow> update_at heap (int server) rs;
       Some (heap, c\<lparr>rpc_handler := Running server\<rparr>) }
   | _ \<Rightarrow> None)"

definition handler_return :: "string \<Rightarrow> 'n rpc \<Rightarrow> 'n rpc option" where
  "handler_return bytes c = (case rpc_handler c of
     Running server \<Rightarrow> Some (c\<lparr>rpc_handler := Answered server \<lparr>lr_ok = True, lr_reply = bytes\<rparr>\<rparr>)
   | _ \<Rightarrow> None)"

text \<open>The loop of \<open>processReq\<close>: the reply comes, or 100 ms pass. In a dead server's case another goroutine drains the channel.\<close>

definition processReq_collect :: "'n rpc \<Rightarrow> 'n rpc option" where
  "processReq_collect c = (case (rpc_phase c, rpc_handler c) of
     (Waiting servername server reliable longreordering, Answered rs reply) \<Rightarrow>
       Some (c\<lparr>rpc_phase := Collected servername server reliable longreordering (Some reply), rpc_handler := Received rs reply\<rparr>)
   | _ \<Rightarrow> None)"

definition processReq_timeout :: "'n Network \<Rightarrow> 'n rpc \<Rightarrow> 'n rpc option" where
  "processReq_timeout rn c = (case rpc_phase c of
     Waiting servername server reliable longreordering \<Rightarrow>
       if isServerDead (rq_endname (rpc_req c)) servername server rn
       then Some (c\<lparr>rpc_phase := Collected servername server reliable longreordering None\<rparr>) else Some c
   | _ \<Rightarrow> None)"

definition handler_drain :: "'n rpc \<Rightarrow> 'n rpc option" where
  "handler_drain c = (case rpc_handler c of
     Answered rs reply \<Rightarrow> (case rpc_phase c of Waiting _ _ _ _ \<Rightarrow> None | _ \<Rightarrow> Some (c\<lparr>rpc_handler := Received rs reply\<rparr>))
   | _ \<Rightarrow> None)"

text \<open>What becomes of the reply; \<open>longreordering\<close> only decides how long it takes.\<close>

definition processReq_decide :: "bool \<Rightarrow> 'n Network \<Rightarrow> 'n rpc \<Rightarrow> 'n rpc option" where
  "processReq_decide drop_it rn c = (case rpc_phase c of
     Collected servername server reliable longreordering reply \<Rightarrow>
       Some (c\<lparr>rpc_phase := Replying
         (case reply of
            None \<Rightarrow> failure
          | Some r \<Rightarrow> if isServerDead (rq_endname (rpc_req c)) servername server rn then failure
                      else if \<not> reliable \<and> drop_it then failure else r)\<rparr>)
   | _ \<Rightarrow> None)"

text \<open>The reply is sent and \<open>Call\<close> returns; only a reply of the handler counts as bytes sent.
  A reply that \<open>Call\<close> cannot decode ends the program (\<open>log.Fatalf\<close>) and is left out.\<close>

definition processReq_reply :: "'n Network \<Rightarrow> 'n rpc \<Rightarrow> ('n Network \<times> 'n rpc) option" where
  "processReq_reply rn c = (case rpc_phase c of
     Replying r \<Rightarrow> Some (if lr_ok r then rn\<lparr>nw_bytes := nw_bytes rn + word_of_int (int (length (lr_reply r)))\<rparr> else rn,
                         c\<lparr>rpc_phase := if lr_ok r then Returned True (lr_reply r) else Returned False []\<rparr>)
   | _ \<Rightarrow> None)"

section \<open>The network as a machine\<close>

record 'n lab =
  lab_net :: "'n Network"
  lab_heap :: "Server list"
  lab_calls :: "'n rpc list"

datatype 'n network_op =
    OpCleanup | OpReliable bool | OpLongReordering bool | OpLongDelays bool | OpMakeEnd 'n | OpAddServer 'n nat
  | OpDeleteServer 'n | OpConnect 'n 'n | OpEnable 'n bool

fun net_op :: "'n network_op \<Rightarrow> 'n Network \<Rightarrow> 'n Network option" where
  "net_op OpCleanup rn = Cleanup rn"
| "net_op (OpReliable yes) rn = Some (Reliable yes rn)"
| "net_op (OpLongReordering yes) rn = Some (LongReordering yes rn)"
| "net_op (OpLongDelays yes) rn = Some (LongDelays yes rn)"
| "net_op (OpMakeEnd endname) rn = MakeEnd endname rn"
| "net_op (OpAddServer servername rs) rn = Some (AddServer servername rs rn)"
| "net_op (OpDeleteServer servername) rn = Some (DeleteServer servername rn)"
| "net_op (OpConnect endname servername) rn = Some (Connect endname servername rn)"
| "net_op (OpEnable endname yes) rn = Some (Enable endname yes rn)"

text \<open>The steps of one call; the first five are \<open>processReq\<close>'s own.\<close>

datatype rpc_step =
    StRead | StSend bool | StCollect | StDecide bool | StReply
  | StTimeout | StAccept | StAbort | StDispatch | StHandler string | StDrain

datatype 'n lab_event =
    LabOp "'n network_op"
  | LabServer
  | LabService nat RpcService
  | LabStop
  | LabCall 'n string string
  | LabStep nat rpc_step

fun call_step :: "rpc_step \<Rightarrow> 'n Network \<Rightarrow> Server list \<Rightarrow> 'n rpc \<Rightarrow> ('n Network \<times> Server list \<times> 'n rpc) option" where
  "call_step StRead rn heap c = map_option (\<lambda>c. (rn, heap, c)) (processReq_read rn c)"
| "call_step (StSend drop_it) rn heap c = map_option (\<lambda>c. (rn, heap, c)) (processReq_send drop_it c)"
| "call_step StCollect rn heap c = map_option (\<lambda>c. (rn, heap, c)) (processReq_collect c)"
| "call_step (StDecide drop_it) rn heap c = map_option (\<lambda>c. (rn, heap, c)) (processReq_decide drop_it rn c)"
| "call_step StReply rn heap c = map_option (\<lambda>(rn, c). (rn, heap, c)) (processReq_reply rn c)"
| "call_step StTimeout rn heap c = map_option (\<lambda>c. (rn, heap, c)) (processReq_timeout rn c)"
| "call_step StAccept rn heap c = map_option (\<lambda>(rn, c). (rn, heap, c)) (network_accept rn c)"
| "call_step StAbort rn heap c = map_option (\<lambda>c. (rn, heap, c)) (Call_abort rn c)"
| "call_step StDispatch rn heap c = map_option (\<lambda>(heap, c). (rn, heap, c)) (handler_dispatch heap c)"
| "call_step (StHandler bytes) rn heap c = map_option (\<lambda>c. (rn, heap, c)) (handler_return bytes c)"
| "call_step StDrain rn heap c = map_option (\<lambda>c. (rn, heap, c)) (handler_drain c)"

text \<open>A server is added by its pointer, so it has been made before.\<close>

definition made :: "'n network_op \<Rightarrow> Server list \<Rightarrow> bool" where
  "made op heap \<longleftrightarrow> (case op of OpAddServer _ rs \<Rightarrow> rs < length heap | _ \<Rightarrow> True)"

fun lab_step :: "'n lab_event \<Rightarrow> 'n lab \<Rightarrow> 'n lab option" where
  "lab_step (LabOp op) w =
     (if made op (lab_heap w) then map_option (\<lambda>rn. w\<lparr>lab_net := rn\<rparr>) (net_op op (lab_net w)) else None)"
| "lab_step LabServer w = Some (w\<lparr>lab_heap := lab_heap w @ [MakeServer]\<rparr>)"
| "lab_step (LabService k svc) w =
     (if k < length (lab_heap w) then Some (w\<lparr>lab_heap := (lab_heap w)[k := AddService svc (lab_heap w ! k)]\<rparr>) else None)"
| "lab_step LabStop w = map_option (\<lambda>rn. w\<lparr>lab_net := rn\<rparr>) (network_stop (lab_net w))"
| "lab_step (LabCall endname svcMeth args) w =
     (if nw_ends (lab_net w) endname then Some (w\<lparr>lab_calls := lab_calls w @ [Call_start endname svcMeth args]\<rparr>) else None)"
| "lab_step (LabStep i st) w =
     (if i < length (lab_calls w)
      then map_option (\<lambda>(rn, heap, c). \<lparr>lab_net = rn, lab_heap = heap, lab_calls = (lab_calls w)[i := c]\<rparr>)
             (call_step st (lab_net w) (lab_heap w) (lab_calls w ! i))
      else None)"

definition lab_init :: "'n lab" where
  "lab_init = \<lparr>lab_net = MakeNetwork, lab_heap = [], lab_calls = []\<rparr>"

end
