(* ===== verification/LabrpcTheorems.thy ===== *)
theory LabrpcTheorems
  imports Labrpc
begin

text \<open>
  The properties of the simulated network (\<open>src/labrpc\<close>): a positive answer means that the handler ran, once, and had returned
  while the server was still in place; a call always comes to an end if its handler does; what
  makes a call fail, and that nothing else does; and what the counters count.
\<close>

section \<open>One call\<close>

text \<open>What the goroutine of the handler has done when the call is in a phase.\<close>

fun started :: "handler \<Rightarrow> nat \<Rightarrow> bool" where
  "started NotStarted k = False"
| "started (Spawned s) k = (s = k)"
| "started (Running s) k = (s = k)"
| "started (Answered s r) k = (s = k \<and> lr_ok r)"
| "started (Received s r) k = (s = k \<and> lr_ok r)"

definition call_ok :: "nat \<Rightarrow> 'n rpc \<Rightarrow> bool" where
  "call_ok n c \<longleftrightarrow> (case rpc_phase c of
     Found _ s _ _ \<Rightarrow> rpc_handler c = NotStarted \<and> s < n
   | Waiting _ s _ _ \<Rightarrow> started (rpc_handler c) s \<and> (\<forall>k r. rpc_handler c \<noteq> Received k r) \<and> s < n
   | Collected _ s _ _ (Some r) \<Rightarrow> rpc_handler c = Received s r \<and> lr_ok r
   | Collected _ s _ _ None \<Rightarrow> started (rpc_handler c) s \<and> s < n
   | Replying r \<Rightarrow> (if lr_ok r then \<exists>s. rpc_handler c = Received s r else r = failure)
   | Returned ok b \<Rightarrow> (if ok then \<exists>s. rpc_handler c = Received s \<lparr>lr_ok = True, lr_reply = b\<rparr> else b = [])
   | _ \<Rightarrow> rpc_handler c = NotStarted) \<and>
   (case rpc_handler c of Spawned s \<Rightarrow> s < n | Running s \<Rightarrow> s < n | Answered s r \<Rightarrow> s < n \<and> lr_ok r | Received s r \<Rightarrow> s < n \<and> lr_ok r | _ \<Rightarrow> True)"

lemmas call_step_defs = processReq_read_def processReq_send_def processReq_collect_def processReq_decide_def processReq_reply_def
  processReq_timeout_def network_accept_def Call_abort_def handler_dispatch_def handler_return_def handler_drain_def

definition lab_ok :: "'n lab \<Rightarrow> bool" where
  "lab_ok w \<longleftrightarrow> (\<forall>c \<in> set (lab_calls w). call_ok (length (lab_heap w)) c) \<and>
     (\<forall>name s. theServer name (lab_net w) = Some s \<longrightarrow> s < length (lab_heap w)) \<and>
     (nw_looping (lab_net w) \<or> nw_done (lab_net w))"

lemma call_ok_mono: "call_ok n c \<Longrightarrow> n \<le> n' \<Longrightarrow> call_ok n' c"
  by (auto simp: call_ok_def split: phase.splits handler.splits option.splits)

lemma call_step_heap: "call_step st rn heap c = Some (rn', heap', c') \<Longrightarrow> length heap' = length heap"
  by (cases st) (auto simp: handler_dispatch_def bind_eq_Some_conv update_at_def split: handler.splits if_splits)

lemma call_step_req: "call_step st rn heap c = Some (rn', heap', c') \<Longrightarrow> rpc_req c' = rpc_req c"
  by (cases st) (auto simp: call_step_defs bind_eq_Some_conv split: handler.splits phase.splits if_splits)

lemma failure_fields [simp]: "lr_ok failure = False" "lr_reply failure = []"
  by (simp_all add: failure_def)

text \<open>A step of a call only changes the counters of the network.\<close>

lemma call_step_net:
  assumes "call_step st rn heap c = Some (rn', heap', c')"
  shows "nw_reliable rn' = nw_reliable rn" "nw_enabled rn' = nw_enabled rn" "nw_servers rn' = nw_servers rn"
    "nw_connections rn' = nw_connections rn" "nw_done rn' = nw_done rn" "nw_looping rn' = nw_looping rn"
  using assms by (cases st; auto simp: processReq_reply_def network_accept_def split: phase.splits if_splits)+

text \<open>What a call was doing before one of its steps.\<close>

lemma processReq_sendD:
  assumes "processReq_send drop_it c = Some c'"
  obtains n s rel long where "rpc_phase c = Found n s rel long"
    and "c' = (if \<not> rel \<and> drop_it then c\<lparr>rpc_phase := Replying failure\<rparr> else c\<lparr>rpc_phase := Waiting n s rel long, rpc_handler := Spawned s\<rparr>)"
  using assms by (auto simp: processReq_send_def split: phase.splits if_splits)

lemma processReq_collectD:
  assumes "processReq_collect c = Some c'"
  obtains n s rel long k r where "rpc_phase c = Waiting n s rel long" and "rpc_handler c = Answered k r"
    and "c' = c\<lparr>rpc_phase := Collected n s rel long (Some r), rpc_handler := Received k r\<rparr>"
  using assms by (auto simp: processReq_collect_def split: phase.splits handler.splits)

lemma processReq_timeoutD:
  assumes "processReq_timeout rn c = Some c'"
  obtains n s rel long where "rpc_phase c = Waiting n s rel long"
    and "c' = (if isServerDead (rq_endname (rpc_req c)) n s rn then c\<lparr>rpc_phase := Collected n s rel long None\<rparr> else c)"
  using assms by (auto simp: processReq_timeout_def split: phase.splits if_splits)

lemma processReq_decideD:
  assumes "processReq_decide drop_it rn c = Some c'"
  obtains n s rel long reply where "rpc_phase c = Collected n s rel long reply"
    and "c' = c\<lparr>rpc_phase := Replying (case reply of None \<Rightarrow> failure
      | Some r \<Rightarrow> if isServerDead (rq_endname (rpc_req c)) n s rn \<or> \<not> rel \<and> drop_it then failure else r)\<rparr>"
  using assms by (auto simp: processReq_decide_def split: phase.splits option.splits)

lemma processReq_readD:
  assumes "processReq_read rn c = Some c'"
  obtains (found) n s rel long where "rpc_phase c = Accepted" and "isEnabled (rq_endname (rpc_req c)) rn"
      and "theConnection (rq_endname (rpc_req c)) rn = Some n" and "theServer n rn = Some s"
      and "rel = nw_reliable rn" and "c' = c\<lparr>rpc_phase := Found n s rel long\<rparr>"
    | (none) "rpc_phase c = Accepted" and "c' = c\<lparr>rpc_phase := Replying failure\<rparr>"
  using assms by (auto simp: processReq_read_def readEndnameInfo_def Let_def split: phase.splits option.splits bool.splits)

lemma call_step_ok:
  assumes step: "call_step st rn heap c = Some (rn', heap', c')" and ok: "call_ok (length heap) c"
    and servers: "\<And>name s. theServer name rn = Some s \<Longrightarrow> s < length heap"
  shows "call_ok (length heap) c'"
proof (cases st)
  case StRead
  then have "processReq_read rn c = Some c'" using step by auto
  then show ?thesis by (cases rule: processReq_readD) (use ok servers in \<open>auto simp: call_ok_def\<close>)
next
  case (StSend d)
  then have "processReq_send d c = Some c'" using step by auto
  then show ?thesis by (rule processReq_sendD) (use ok in \<open>auto simp: call_ok_def\<close>)
next
  case StCollect
  then have "processReq_collect c = Some c'" using step by auto
  then show ?thesis by (rule processReq_collectD) (use ok in \<open>auto simp: call_ok_def\<close>)
next
  case (StDecide d)
  then have "processReq_decide d rn c = Some c'" using step by auto
  then show ?thesis by (rule processReq_decideD) (use ok in \<open>auto simp: call_ok_def split: option.splits\<close>)
next
  case StReply
  with step obtain r where "rpc_phase c = Replying r" "c' = c\<lparr>rpc_phase := if lr_ok r then Returned True (lr_reply r) else Returned False []\<rparr>"
    by (auto simp: processReq_reply_def split: phase.splits)
  with ok show ?thesis by (auto simp: call_ok_def split: if_splits)
next
  case StTimeout
  then have "processReq_timeout rn c = Some c'" using step by auto
  then show ?thesis by (rule processReq_timeoutD) (use ok in \<open>auto simp: call_ok_def\<close>)
next
  case StAccept
  with step ok show ?thesis by (auto simp: network_accept_def call_ok_def split: phase.splits if_splits)
next
  case StAbort
  with step ok show ?thesis by (auto simp: Call_abort_def call_ok_def split: phase.splits if_splits)
next
  case StDispatch
  with step obtain s where "rpc_handler c = Spawned s" "c' = c\<lparr>rpc_handler := Running s\<rparr>"
    by (auto simp: handler_dispatch_def bind_eq_Some_conv split: handler.splits)
  with ok show ?thesis by (auto simp: call_ok_def split: phase.splits option.splits if_splits)
next
  case (StHandler b)
  with step obtain s where "rpc_handler c = Running s" "c' = c\<lparr>rpc_handler := Answered s \<lparr>lr_ok = True, lr_reply = b\<rparr>\<rparr>"
    by (auto simp: handler_return_def split: handler.splits)
  with ok show ?thesis by (auto simp: call_ok_def split: phase.splits option.splits if_splits)
next
  case StDrain
  with step obtain s r where "rpc_handler c = Answered s r" "c' = c\<lparr>rpc_handler := Received s r\<rparr>" "\<forall>n s rel long. rpc_phase c \<noteq> Waiting n s rel long"
    by (auto simp: handler_drain_def split: handler.splits phase.splits)
  with ok show ?thesis by (auto simp: call_ok_def split: phase.splits option.splits if_splits)
qed

lemma call_start_ok: "call_ok n (Call_start endname svcMeth args)"
  by (simp add: call_ok_def Call_start_def)

lemma net_op_facts:
  assumes "net_op op rn = Some rn'"
  shows "nw_count rn' = nw_count rn" "nw_bytes rn' = nw_bytes rn" "nw_looping rn' = nw_looping rn" "nw_done rn \<Longrightarrow> nw_done rn'"
  using assms by (cases op; auto simp: Cleanup_def Reliable_def LongReordering_def LongDelays_def MakeEnd_def AddServer_def DeleteServer_def
      Connect_def Enable_def split: if_splits)+

lemma net_op_server:
  assumes "net_op op rn = Some rn'" and "made op heap" and "theServer name rn' = Some s"
  shows "theServer name rn = Some s \<or> s < length heap"
  using assms by (cases op) (auto simp: Cleanup_def Reliable_def LongReordering_def LongDelays_def MakeEnd_def AddServer_def DeleteServer_def
      Connect_def Enable_def theServer_def made_def split: if_splits)

text \<open>What an event does to a call: nothing, unless it is a step of it.\<close>

lemma lab_step_call:
  assumes "lab_step e w = Some w'" and "i < length (lab_calls w)"
  shows "i < length (lab_calls w') \<and> ((\<forall>st. e \<noteq> LabStep i st) \<and> lab_calls w' ! i = lab_calls w ! i \<or>
    (\<exists>st. e = LabStep i st \<and> call_step st (lab_net w) (lab_heap w) (lab_calls w ! i) =
       Some (lab_net w', lab_heap w', lab_calls w' ! i)))"
  using assms by (cases e) (auto simp: nth_append nth_list_update split: if_splits)

lemma lab_step_new:
  assumes "lab_step e w = Some w'" and "i < length (lab_calls w')" and "\<not> i < length (lab_calls w)"
  shows "\<exists>endname svcMeth args. e = LabCall endname svcMeth args \<and> lab_calls w' ! i = Call_start endname svcMeth args"
  using assms by (cases e) (auto simp: nth_append less_Suc_eq split: if_splits)

lemma lab_step_ok:
  assumes ok: "lab_ok w" and step: "lab_step e w = Some w'"
  shows "lab_ok w'"
proof (cases e)
  case (LabOp op)
  then obtain rn where rn: "net_op op (lab_net w) = Some rn" "made op (lab_heap w)" "w' = w\<lparr>lab_net := rn\<rparr>"
    using step by (auto split: if_splits)
  have "s < length (lab_heap w)" if "theServer name rn = Some s" for name s
    using net_op_server [OF rn(1,2) that] ok unfolding lab_ok_def by blast
  moreover have "nw_looping rn \<or> nw_done rn" using ok net_op_facts(3,4) [OF rn(1)] by (auto simp: lab_ok_def)
  ultimately show ?thesis using ok rn(3) by (simp add: lab_ok_def)
next
  case (LabStep i st)
  then obtain rn heap c where s: "i < length (lab_calls w)" "call_step st (lab_net w) (lab_heap w) (lab_calls w ! i) = Some (rn, heap, c)"
      "w' = \<lparr>lab_net = rn, lab_heap = heap, lab_calls = (lab_calls w)[i := c]\<rparr>"
    using step by (auto split: if_splits)
  have servers: "s < length (lab_heap w)" if "theServer name (lab_net w) = Some s" for name s
    using ok that by (simp add: lab_ok_def)
  have "call_ok (length (lab_heap w)) c"
    by (rule call_step_ok [OF s(2) _ servers]) (use ok s(1) in \<open>auto simp: lab_ok_def\<close>)
  moreover note call_step_net [OF s(2)] call_step_heap [OF s(2)]
  ultimately show ?thesis
    using ok s(3) by (auto simp: lab_ok_def theServer_def dest!: set_update_subset_insert [THEN subsetD])
next
  case LabServer
  have "call_ok (length (lab_heap w)) c \<Longrightarrow> call_ok (Suc (length (lab_heap w))) c" for c by (rule call_ok_mono) auto
  moreover have "w' = w\<lparr>lab_heap := lab_heap w @ [MakeServer]\<rparr>" using step LabServer by simp
  ultimately show ?thesis using ok unfolding lab_ok_def by (auto simp: less_SucI)
qed (use ok step call_start_ok in \<open>auto simp: lab_ok_def network_stop_def theServer_def split: if_splits\<close>)

interpretation labrpc: step_machine lab_step lab_ok
  by unfold_locales (rule lab_step_ok)

lemma lab_init_ok: "lab_ok lab_init"
  by (simp add: lab_ok_def lab_init_def MakeNetwork_def theServer_def)

lemmas lab_run_ok = labrpc.run_inv [OF lab_init_ok]

section \<open>What has happened to a call\<close>

definition dispatches :: "nat \<Rightarrow> 'n lab_event list \<Rightarrow> nat" where
  "dispatches i es = length (filter (\<lambda>e. e = LabStep i StDispatch) es)"

definition replies :: "nat \<Rightarrow> 'n lab_event list \<Rightarrow> string list" where
  "replies i es = concat (map (\<lambda>e. case e of LabStep j (StHandler b) \<Rightarrow> if j = i then [b] else [] | _ \<Rightarrow> []) es)"

fun handler_dispatches :: "handler \<Rightarrow> nat" where
  "handler_dispatches NotStarted = 0"
| "handler_dispatches (Spawned s) = 0"
| "handler_dispatches _ = 1"

fun handler_replies :: "handler \<Rightarrow> string list" where
  "handler_replies (Answered s r) = [lr_reply r]"
| "handler_replies (Received s r) = [lr_reply r]"
| "handler_replies _ = []"

lemma run_snoc: "run_steps f (es @ [e]) s = Some w \<longleftrightarrow> (\<exists>v. run_steps f es s = Some v \<and> f e v = Some w)"
  by (simp add: run_steps_append bind_eq_Some_conv)

lemma handler_step:
  assumes step: "call_step st rn heap c = Some (rn', heap', c')" and ok: "call_ok n c"
  shows "handler_dispatches (rpc_handler c') = handler_dispatches (rpc_handler c) + (if st = StDispatch then 1 else 0)"
    "handler_replies (rpc_handler c') = handler_replies (rpc_handler c) @ (case st of StHandler b \<Rightarrow> [b] | _ \<Rightarrow> [])"
proof -
  have "handler_dispatches (rpc_handler c') = handler_dispatches (rpc_handler c) + (if st = StDispatch then 1 else 0) \<and>
    handler_replies (rpc_handler c') = handler_replies (rpc_handler c) @ (case st of StHandler b \<Rightarrow> [b] | _ \<Rightarrow> [])"
  proof (cases st)
    case (StSend d)
    then have "processReq_send d c = Some c'" using step by auto
    then show ?thesis by (rule processReq_sendD) (use ok StSend in \<open>auto simp: call_ok_def\<close>)
  next
    case StCollect
    then have "processReq_collect c = Some c'" using step by auto
    then show ?thesis by (rule processReq_collectD) (use StCollect in auto)
  next
    case (StDecide d)
    then have "processReq_decide d rn c = Some c'" using step by auto
    then show ?thesis by (rule processReq_decideD) (use StDecide in auto)
  next
    case StTimeout
    then have "processReq_timeout rn c = Some c'" using step by auto
    then show ?thesis by (rule processReq_timeoutD) (use StTimeout in auto)
  next
    case StDispatch
    then show ?thesis using step by (auto simp: handler_dispatch_def bind_eq_Some_conv split: handler.splits)
  next
    case (StHandler b)
    then show ?thesis using step by (auto simp: handler_return_def split: handler.splits)
  next
    case StDrain
    then show ?thesis using step by (auto simp: handler_drain_def split: handler.splits phase.splits)
  qed (use step in \<open>auto simp: processReq_read_def processReq_reply_def network_accept_def Call_abort_def split: phase.splits if_splits\<close>)
  then show "handler_dispatches (rpc_handler c') = handler_dispatches (rpc_handler c) + (if st = StDispatch then 1 else 0)"
    "handler_replies (rpc_handler c') = handler_replies (rpc_handler c) @ (case st of StHandler b \<Rightarrow> [b] | _ \<Rightarrow> [])" by blast+
qed

lemma lab_run_calls:
  assumes "run_steps lab_step es lab_init = Some w" and "i < length (lab_calls w)"
  shows "call_ok (length (lab_heap w)) (lab_calls w ! i)"
  using lab_run_ok [OF assms(1)] nth_mem [OF assms(2)] by (simp add: lab_ok_def)

text \<open>The trace of a call: how often its handler was started, and what it returned.\<close>

lemma traced:
  "run_steps lab_step es lab_init = Some w \<Longrightarrow>
    (if i < length (lab_calls w)
     then dispatches i es = handler_dispatches (rpc_handler (lab_calls w ! i)) \<and> replies i es = handler_replies (rpc_handler (lab_calls w ! i))
     else dispatches i es = 0 \<and> replies i es = [])"
proof (induction es arbitrary: w rule: rev_induct)
  case Nil
  then show ?case by (auto simp: lab_init_def dispatches_def replies_def)
next
  case (snoc e es)
  then obtain v where v: "run_steps lab_step es lab_init = Some v" "lab_step e v = Some w" by (auto simp: run_snoc)
  have new: "dispatches i (es @ [e]) = dispatches i es + (if e = LabStep i StDispatch then 1 else 0)"
    "replies i (es @ [e]) = replies i es @ (case e of LabStep j (StHandler b) \<Rightarrow> if j = i then [b] else [] | _ \<Rightarrow> [])"
    by (simp_all add: dispatches_def replies_def)
  show ?case
  proof (cases "i < length (lab_calls v)")
    case True
    note old = snoc.IH [OF v(1)]
    have same: "(case e of LabStep j (StHandler b) \<Rightarrow> if j = i then [b] else [] | _ \<Rightarrow> []) = []" if "\<forall>st. e \<noteq> LabStep i st"
      using that by (auto split: lab_event.splits rpc_step.splits)
    from lab_step_call [OF v(2) True] consider
      "i < length (lab_calls w)" "\<forall>st. e \<noteq> LabStep i st" "lab_calls w ! i = lab_calls v ! i"
      | st where "i < length (lab_calls w)" "e = LabStep i st" "call_step st (lab_net v) (lab_heap v) (lab_calls v ! i) = Some (lab_net w, lab_heap w, lab_calls w ! i)"
      by blast
    then show ?thesis
    proof cases
      case 1
      then show ?thesis using old True same by (simp add: new)
    next
      case 2
      note handler_step [OF 2(3) lab_run_calls [OF v(1) True]]
      with 2(1) old True show ?thesis unfolding new unfolding 2(2) by simp
    qed
  next
    case False
    then have none: "dispatches i es = 0 \<and> replies i es = []" using snoc.IH [OF v(1)] by simp
    have not_own: "\<forall>st. e \<noteq> LabStep i st" using v(2) False by (auto split: if_splits)
    have new0: "dispatches i (es @ [e]) = 0 \<and> replies i (es @ [e]) = []"
      using none not_own by (auto simp: new split: lab_event.splits rpc_step.splits)
    show ?thesis
    proof (cases "i < length (lab_calls w)")
      case True
      from lab_step_new [OF v(2) True False] new0 show ?thesis by (auto simp: Call_start_def)
    qed (use new0 in simp)
  qed
qed

definition positive :: "'n rpc \<Rightarrow> bool" where
  "positive c \<longleftrightarrow> (\<exists>r. rpc_phase c = Replying r \<and> lr_ok r) \<or> (\<exists>b. rpc_phase c = Returned True b)"

lemma positive_step:
  assumes step: "call_step st rn heap c = Some (rn', heap', c')" and "positive c'" and "\<not> positive c"
  shows "\<exists>d n s rel long r. st = StDecide d \<and> rpc_phase c = Collected n s rel long (Some r) \<and>
    \<not> isServerDead (rq_endname (rpc_req c)) n s rn"
proof (cases st)
  case StRead
  then have "processReq_read rn c = Some c'" using step by auto
  then show ?thesis by (cases rule: processReq_readD) (use assms(2) in \<open>auto simp: positive_def\<close>)
next
  case (StSend d)
  then have "processReq_send d c = Some c'" using step by auto
  then show ?thesis by (rule processReq_sendD) (use assms(2) in \<open>auto simp: positive_def split: if_splits\<close>)
next
  case StCollect
  then have "processReq_collect c = Some c'" using step by auto
  then show ?thesis by (rule processReq_collectD) (use assms(2) in \<open>auto simp: positive_def\<close>)
next
  case (StDecide d)
  then have "processReq_decide d rn c = Some c'" using step by auto
  then show ?thesis by (rule processReq_decideD) (use assms(2) StDecide in \<open>auto simp: positive_def split: option.splits if_splits\<close>)
next
  case StTimeout
  then have "processReq_timeout rn c = Some c'" using step by auto
  then show ?thesis by (rule processReq_timeoutD) (use assms(2,3) in \<open>auto simp: positive_def split: if_splits\<close>)
next
  case StReply
  with step assms(2,3) show ?thesis by (auto simp: processReq_reply_def positive_def split: phase.splits if_splits)
next
  case StDispatch
  with step assms(2,3) show ?thesis by (auto simp: handler_dispatch_def positive_def bind_eq_Some_conv split: handler.splits)
next
  case (StHandler b)
  with step assms(2,3) show ?thesis by (auto simp: handler_return_def positive_def split: handler.splits)
next
  case StDrain
  with step assms(2,3) show ?thesis by (auto simp: handler_drain_def positive_def split: handler.splits phase.splits)
qed (use step assms(2) in \<open>auto simp: network_accept_def Call_abort_def positive_def split: phase.splits if_splits\<close>)

text \<open>A positive answer was decided in a state in which the server was alive and its handler had returned.\<close>

lemma decided:
  "run_steps lab_step es lab_init = Some w \<Longrightarrow> i < length (lab_calls w) \<Longrightarrow> positive (lab_calls w ! i) \<Longrightarrow>
    \<exists>es1 d es2 v n s rel long r. es = es1 @ LabStep i (StDecide d) # es2 \<and> run_steps lab_step es1 lab_init = Some v \<and>
      i < length (lab_calls v) \<and> rpc_req (lab_calls v ! i) = rpc_req (lab_calls w ! i) \<and>
      rpc_phase (lab_calls v ! i) = Collected n s rel long (Some r) \<and>
      \<not> isServerDead (rq_endname (rpc_req (lab_calls v ! i))) n s (lab_net v)"
proof (induction es arbitrary: w rule: rev_induct)
  case Nil
  then show ?case by (auto simp: lab_init_def)
next
  case (snoc e es)
  then obtain u where u: "run_steps lab_step es lab_init = Some u" "lab_step e u = Some w" by (auto simp: run_snoc)
  have i: "i < length (lab_calls u)"
  proof (rule ccontr)
    assume "\<not> i < length (lab_calls u)"
    from lab_step_new [OF u(2) snoc.prems(2) this] snoc.prems(3) show False by (auto simp: positive_def Call_start_def)
  qed
  from lab_step_call [OF u(2) i] consider (other) "lab_calls w ! i = lab_calls u ! i"
    | (own) st where "e = LabStep i st" "call_step st (lab_net u) (lab_heap u) (lab_calls u ! i) = Some (lab_net w, lab_heap w, lab_calls w ! i)"
    by blast
  then consider (before) "positive (lab_calls u ! i)" "rpc_req (lab_calls u ! i) = rpc_req (lab_calls w ! i)"
    | (now) d n s rel long r where "e = LabStep i (StDecide d)" "rpc_phase (lab_calls u ! i) = Collected n s rel long (Some r)"
        "\<not> isServerDead (rq_endname (rpc_req (lab_calls u ! i))) n s (lab_net u)" "rpc_req (lab_calls u ! i) = rpc_req (lab_calls w ! i)"
  proof cases
    case other
    with before snoc.prems(3) show ?thesis by simp
  next
    case own
    note req = call_step_req [OF own(2), symmetric]
    show ?thesis
    proof (cases "positive (lab_calls u ! i)")
      case True
      then show ?thesis using before req by simp
    next
      case False
      from positive_step [OF own(2) snoc.prems(3) False] now req own(1) show ?thesis by blast
    qed
  qed
  then show ?case
  proof cases
    case before
    from snoc.IH [OF u(1) i before(1)] before(2) show ?thesis by fastforce
  next
    case now
    show ?thesis using now u(1) i by blast
  qed
qed

section \<open>How long a call takes\<close>

fun phase_work :: "'n phase \<Rightarrow> nat" where
  "phase_work Sending = 9"
| "phase_work Accepted = 8"
| "phase_work (Found n s rel long) = 7"
| "phase_work (Waiting n s rel long) = 3"
| "phase_work (Collected n s rel long r) = 2"
| "phase_work (Replying r) = 1"
| "phase_work (Returned ok b) = 0"
| "phase_work Aborted = 0"

fun handler_work :: "handler \<Rightarrow> nat" where
  "handler_work NotStarted = 0"
| "handler_work (Spawned s) = 3"
| "handler_work (Running s) = 2"
| "handler_work (Answered s r) = 1"
| "handler_work (Received s r) = 0"

definition work :: "'n rpc \<Rightarrow> nat" where
  "work c = phase_work (rpc_phase c) + handler_work (rpc_handler c)"

text \<open>A timeout at which the server is alive changes nothing; every other step of a call is progress.\<close>

lemma step_work:
  assumes step: "call_step st rn heap c = Some (rn', heap', c')" and ok: "call_ok n c"
  shows "work c' < work c \<or> st = StTimeout \<and> rn' = rn \<and> heap' = heap \<and> c' = c"
proof (cases st)
  case StRead
  then have "processReq_read rn c = Some c'" using step by auto
  then show ?thesis by (cases rule: processReq_readD) (use ok in \<open>auto simp: work_def call_ok_def\<close>)
next
  case (StSend d)
  then have "processReq_send d c = Some c'" using step by auto
  then show ?thesis by (rule processReq_sendD) (use ok in \<open>auto simp: work_def call_ok_def\<close>)
next
  case StCollect
  then have "processReq_collect c = Some c'" using step by auto
  then show ?thesis by (rule processReq_collectD) (use ok in \<open>auto simp: work_def\<close>)
next
  case (StDecide d)
  then have "processReq_decide d rn c = Some c'" using step by auto
  then show ?thesis by (rule processReq_decideD) (auto simp: work_def)
next
  case StTimeout
  then have "processReq_timeout rn c = Some c'" and same: "rn' = rn" "heap' = heap" using step by auto
  then show ?thesis using StTimeout by - (rule processReq_timeoutD, assumption, auto simp: work_def)
next
  case StReply
  with step show ?thesis by (auto simp: processReq_reply_def work_def split: phase.splits if_splits)
next
  case StAccept
  with step show ?thesis by (auto simp: network_accept_def work_def split: phase.splits if_splits)
next
  case StAbort
  with step show ?thesis by (auto simp: Call_abort_def work_def split: phase.splits if_splits)
next
  case StDispatch
  with step show ?thesis by (auto simp: handler_dispatch_def work_def bind_eq_Some_conv split: handler.splits)
next
  case (StHandler b)
  with step show ?thesis by (auto simp: handler_return_def work_def split: handler.splits)
next
  case StDrain
  with step show ?thesis by (auto simp: handler_drain_def work_def split: handler.splits phase.splits)
qed

definition over :: "'n rpc \<Rightarrow> bool" where
  "over c \<longleftrightarrow> rpc_phase c = Aborted \<or> (\<exists>ok b. rpc_phase c = Returned ok b)"

text \<open>
  A schedule for a call: its own steps as long as there is one, a step of its handler only if the call waits
  for it and its server is alive. \<open>d\<close> is what the random numbers say, \<open>b\<close> what the handler returns.
\<close>

definition next_step :: "bool \<Rightarrow> string \<Rightarrow> 'n Network \<Rightarrow> 'n rpc \<Rightarrow> rpc_step" where
  "next_step d b rn c = (case rpc_phase c of
     Sending \<Rightarrow> if nw_looping rn then StAccept else StAbort
   | Accepted \<Rightarrow> StRead
   | Found _ _ _ _ \<Rightarrow> StSend d
   | Waiting n s _ _ \<Rightarrow> (case rpc_handler c of
       Answered _ _ \<Rightarrow> StCollect
     | h \<Rightarrow> if isServerDead (rq_endname (rpc_req c)) n s rn then StTimeout else
         (case h of Spawned _ \<Rightarrow> StDispatch | _ \<Rightarrow> StHandler b))
   | Collected _ _ _ _ _ \<Rightarrow> StDecide d
   | _ \<Rightarrow> StReply)"

lemma next_step_possible:
  assumes ok: "call_ok (length heap) c" and "nw_looping rn \<or> nw_done rn" and "\<not> over c"
    and known: "\<And>k. k < length heap \<Longrightarrow> Server_dispatch (rpc_req c) (heap ! k) \<noteq> None"
  shows "\<exists>rn' heap' c'. call_step (next_step d b rn c) rn heap c = Some (rn', heap', c') \<and> work c' < work c"
proof -
  have "\<exists>rn' heap' c'. call_step (next_step d b rn c) rn heap c = Some (rn', heap', c') \<and> rpc_phase c' \<noteq> rpc_phase c \<or>
      (\<exists>rn' heap' c'. call_step (next_step d b rn c) rn heap c = Some (rn', heap', c') \<and> next_step d b rn c \<noteq> StTimeout)"
  proof (cases "rpc_phase c")
    case Sending
    with assms(2) show ?thesis by (auto simp: next_step_def network_accept_def Call_abort_def)
  next
    case (Waiting n s rel long)
    note w = Waiting
    show ?thesis
    proof (cases "rpc_handler c")
      case (Spawned k)
      then have "k < length heap" using ok by (simp add: call_ok_def)
      then obtain r where "Server_dispatch (rpc_req c) (heap ! k) = Some r" using known by blast
      with w Spawned \<open>k < length heap\<close> show ?thesis
        by (cases r) (auto simp: next_step_def handler_dispatch_def processReq_timeout_def update_at_def)
    next
      case (Running k)
      with w show ?thesis by (auto simp: next_step_def handler_return_def processReq_timeout_def)
    next
      case (Answered k r)
      with w show ?thesis by (auto simp: next_step_def processReq_collect_def)
    qed (use ok w in \<open>auto simp: call_ok_def\<close>)
  qed (use assms(3) in \<open>auto simp: next_step_def processReq_read_def processReq_send_def processReq_decide_def processReq_reply_def over_def\<close>)
  then obtain rn' heap' c' where c': "call_step (next_step d b rn c) rn heap c = Some (rn', heap', c')"
      "c' \<noteq> c \<or> next_step d b rn c \<noteq> StTimeout" by blast
  with step_work [OF c'(1) ok] show ?thesis by blast
qed

section \<open>What makes a call fail\<close>

lemma run_call_inv:
  assumes "run_steps lab_step es w = Some w'" and "i < length (lab_calls w)" and "P (lab_calls w ! i)" and "N (lab_net w)"
    and net: "\<And>e v v'. e \<in> set es \<Longrightarrow> N (lab_net v) \<Longrightarrow> lab_step e v = Some v' \<Longrightarrow> N (lab_net v')"
    and call: "\<And>st rn heap c rn' heap' c'. N rn \<Longrightarrow> P c \<Longrightarrow> call_step st rn heap c = Some (rn', heap', c') \<Longrightarrow> P c'"
  shows "i < length (lab_calls w') \<and> P (lab_calls w' ! i)"
  using assms(1-5)
proof (induction es arbitrary: w)
  case (Cons e es)
  then obtain v where v: "lab_step e w = Some v" "run_steps lab_step es v = Some w'" by (auto simp: bind_eq_Some_conv)
  from lab_step_call [OF v(1) Cons.prems(2)] have "i < length (lab_calls v)" "P (lab_calls v ! i)"
    using Cons.prems(3) call [OF Cons.prems(4,3)] by auto
  moreover have "N (lab_net v)" using Cons.prems(5) [OF _ Cons.prems(4) v(1)] by simp
  ultimately show ?case by (rule Cons.IH [OF v(2)]) (rule Cons.prems(5), auto)
qed simp

definition failing :: "'n rpc \<Rightarrow> bool" where
  "failing c \<longleftrightarrow> (rpc_phase c = Replying failure \<or> rpc_phase c = Returned False []) \<and> rpc_handler c = NotStarted"

lemma failing_step: "failing c \<Longrightarrow> call_step st rn heap c = Some (rn', heap', c') \<Longrightarrow> failing c'"
  by (cases st) (auto simp: failing_def call_step_defs)

text \<open>The network is up for an end: reliable, and the end connected and enabled to a server.\<close>

definition up :: "'n \<Rightarrow> 'n \<Rightarrow> nat \<Rightarrow> 'n Network \<Rightarrow> bool" where
  "up endname n s rn \<longleftrightarrow> nw_reliable rn \<and> isEnabled endname rn \<and> theConnection endname rn = Some n \<and> theServer n rn = Some s \<and> \<not> nw_done rn"

fun quiet :: "'n lab_event \<Rightarrow> bool" where
  "quiet (LabOp (OpLongReordering yes)) = True"
| "quiet (LabOp (OpLongDelays yes)) = True"
| "quiet (LabOp op) = False"
| "quiet e = True"

lemma up_step:
  assumes "up endname n s (lab_net w)" and "quiet e" and "lab_step e w = Some w'"
  shows "up endname n s (lab_net w')"
proof (cases e)
  case (LabStep i st)
  with assms(3) obtain rn heap c where "call_step st (lab_net w) (lab_heap w) (lab_calls w ! i) = Some (rn, heap, c)" "lab_net w' = rn"
    by (auto split: if_splits)
  with call_step_net [OF this(1)] assms(1) show ?thesis by (simp add: up_def isEnabled_def theConnection_def theServer_def)
next
  case (LabOp op)
  with assms show ?thesis
    by (cases op) (auto simp: up_def LongReordering_def LongDelays_def isEnabled_def theConnection_def theServer_def split: if_splits)
qed (use assms in \<open>auto simp: up_def network_stop_def split: if_splits\<close>)

definition served :: "'n \<Rightarrow> 'n \<Rightarrow> nat \<Rightarrow> 'n rpc \<Rightarrow> bool" where
  "served endname n s c \<longleftrightarrow> rq_endname (rpc_req c) = endname \<and> (case rpc_phase c of
     Found n' s' rel _ \<Rightarrow> n' = n \<and> s' = s \<and> rel
   | Waiting n' s' rel _ \<Rightarrow> n' = n \<and> s' = s \<and> rel
   | Collected n' s' rel _ r \<Rightarrow> n' = n \<and> s' = s \<and> rel \<and> (\<exists>x. r = Some x \<and> lr_ok x)
   | Replying r \<Rightarrow> lr_ok r
   | Returned ok _ \<Rightarrow> ok
   | Aborted \<Rightarrow> False
   | _ \<Rightarrow> True) \<and>
   (case rpc_handler c of Answered k r \<Rightarrow> k = s \<and> lr_ok r | Received k r \<Rightarrow> k = s | Spawned k \<Rightarrow> k = s | Running k \<Rightarrow> k = s | NotStarted \<Rightarrow> True)"

lemma served_step:
  assumes "up endname n s rn" and served: "served endname n s c" and step: "call_step st rn heap c = Some (rn', heap', c')"
  shows "served endname n s c'"
proof -
  have req: "rq_endname (rpc_req c) = endname" using served by (simp add: served_def)
  have dead: "\<not> isServerDead endname n s rn" using assms(1) by (simp add: up_def isServerDead_def)
  have "c' = c\<lparr>rpc_phase := Found n s True long\<rparr>" if "rpc_phase c = Accepted" "processReq_read rn c = Some c'" "long = nw_longReordering rn" for long
    using that assms(1) req by (simp add: processReq_read_def readEndnameInfo_def up_def)
  note read = this [OF _ _ refl]
  show ?thesis
  proof (cases st)
    case StRead
    then have r: "processReq_read rn c = Some c'" using step by auto
    then have "rpc_phase c = Accepted" by (auto simp: processReq_read_def split: phase.splits)
    with read [OF this r] served show ?thesis by (auto simp: served_def split: handler.splits)
  next
    case (StSend d)
    then have "processReq_send d c = Some c'" using step by auto
    then show ?thesis by (rule processReq_sendD) (use served in \<open>auto simp: served_def\<close>)
  next
    case StCollect
    then have "processReq_collect c = Some c'" using step by auto
    then show ?thesis by (rule processReq_collectD) (use served in \<open>auto simp: served_def\<close>)
  next
    case (StDecide d)
    then have "processReq_decide d rn c = Some c'" using step by auto
    then show ?thesis by (rule processReq_decideD) (use served req dead in \<open>auto simp: served_def\<close>)
  next
    case StTimeout
    then have "processReq_timeout rn c = Some c'" using step by auto
    then show ?thesis by (rule processReq_timeoutD) (use served req dead in \<open>auto simp: served_def\<close>)
  next
    case StReply
    with step served show ?thesis by (auto simp: processReq_reply_def served_def split: phase.splits)
  next
    case StAccept
    with step served show ?thesis by (auto simp: network_accept_def served_def split: phase.splits if_splits)
  next
    case StAbort
    with step assms(1) show ?thesis by (auto simp: Call_abort_def up_def split: phase.splits if_splits)
  next
    case StDispatch
    with step served show ?thesis by (auto simp: handler_dispatch_def served_def bind_eq_Some_conv split: handler.splits)
  next
    case (StHandler b)
    with step served show ?thesis by (auto simp: handler_return_def served_def split: handler.splits)
  next
    case StDrain
    with step obtain k r where "rpc_handler c = Answered k r" "c' = c\<lparr>rpc_handler := Received k r\<rparr>"
      by (auto simp: handler_drain_def split: handler.splits phase.splits)
    with served show ?thesis by (simp add: served_def)
  qed
qed

section \<open>The counters\<close>

definition accepted :: "'n rpc \<Rightarrow> nat" where
  "accepted c = (if rpc_phase c = Sending \<or> rpc_phase c = Aborted then 0 else 1)"

definition sent_bytes :: "'n rpc \<Rightarrow> nat" where
  "sent_bytes c = (if rpc_phase c = Sending \<or> rpc_phase c = Aborted then 0 else length (rq_args (rpc_req c))) +
     (case rpc_phase c of Returned True b \<Rightarrow> length b | _ \<Rightarrow> 0)"

definition ran :: "nat \<Rightarrow> 'n rpc \<Rightarrow> nat" where
  "ran k c = (case rpc_handler c of
     Running s \<Rightarrow> if s = k then 1 else 0 | Answered s _ \<Rightarrow> if s = k then 1 else 0 | Received s _ \<Rightarrow> if s = k then 1 else 0 | _ \<Rightarrow> 0)"

definition total :: "('n rpc \<Rightarrow> nat) \<Rightarrow> 'n lab \<Rightarrow> nat" where
  "total f w = sum_list (map f (lab_calls w))"

definition counts_ok :: "'n lab \<Rightarrow> bool" where
  "counts_ok w \<longleftrightarrow> nw_count (lab_net w) = of_nat (total accepted w) \<and> nw_bytes (lab_net w) = of_nat (total sent_bytes w) \<and>
     (\<forall>k < length (lab_heap w). sv_count (lab_heap w ! k) = int (total (ran k) w))"

lemma sum_list_change:
  fixes f :: "'a \<Rightarrow> nat"
  assumes "i < length xs" and "f y = f (xs ! i) + d"
  shows "sum_list (map f (xs[i := y])) = sum_list (map f xs) + d"
proof -
  have "sum_list (map f xs) = sum_list (map f (take i xs)) + f (xs ! i) + sum_list (map f (drop (Suc i) xs))"
    using arg_cong [OF id_take_nth_drop [OF assms(1)], of "\<lambda>xs. sum_list (map f xs)"] by simp
  moreover have "sum_list (map f (xs[i := y])) = sum_list (map f (take i xs)) + f y + sum_list (map f (drop (Suc i) xs))"
    using assms(1) by (simp add: upd_conv_take_nth_drop)
  ultimately show ?thesis using assms(2) by simp
qed

lemma call_step_counts:
  assumes step: "call_step st rn heap c = Some (rn', heap', c')" and ok: "call_ok (length heap) c"
  shows "\<exists>x y z. accepted c' = accepted c + x \<and> nw_count rn' = nw_count rn + of_nat x \<and>
    sent_bytes c' = sent_bytes c + y \<and> nw_bytes rn' = nw_bytes rn + of_nat y \<and>
    (\<forall>k < length heap. ran k c' = ran k c + z k \<and> sv_count (heap' ! k) = sv_count (heap ! k) + int (z k))"
proof -
  have same: ?thesis if "rn' = rn" "heap' = heap" "accepted c' = accepted c" "sent_bytes c' = sent_bytes c" "\<And>k. ran k c' = ran k c"
    using that by (intro exI [of _ 0] exI [of _ "\<lambda>_. 0"]) simp
  show ?thesis
  proof (cases st)
    case StRead
    then have r: "processReq_read rn c = Some c'" using step by auto
    show ?thesis using r by (cases rule: processReq_readD) (rule same, use step StRead in \<open>auto simp: accepted_def sent_bytes_def ran_def\<close>)+
  next
    case (StSend d)
    then have "processReq_send d c = Some c'" using step by auto
    then show ?thesis
      by (rule processReq_sendD) (rule same, use step StSend ok in \<open>auto simp: accepted_def sent_bytes_def ran_def call_ok_def\<close>)
  next
    case StCollect
    then have "processReq_collect c = Some c'" using step by auto
    then show ?thesis by (rule processReq_collectD) (rule same, use step StCollect in \<open>auto simp: accepted_def sent_bytes_def ran_def\<close>)
  next
    case (StDecide d)
    then have "processReq_decide d rn c = Some c'" using step by auto
    then show ?thesis by (rule processReq_decideD) (rule same, use step StDecide in \<open>auto simp: accepted_def sent_bytes_def ran_def\<close>)
  next
    case StTimeout
    then have "processReq_timeout rn c = Some c'" using step by auto
    then show ?thesis by (rule processReq_timeoutD) (rule same, use step StTimeout in \<open>auto simp: accepted_def sent_bytes_def ran_def\<close>)
  next
    case StReply
    with step obtain r where r: "rpc_phase c = Replying r" "heap' = heap"
        "rn' = (if lr_ok r then rn\<lparr>nw_bytes := nw_bytes rn + word_of_int (int (length (lr_reply r)))\<rparr> else rn)"
        "c' = c\<lparr>rpc_phase := if lr_ok r then Returned True (lr_reply r) else Returned False []\<rparr>"
      by (auto simp: processReq_reply_def split: phase.splits)
    then show ?thesis
      by (intro exI [of _ 0] exI [of _ "if lr_ok r then length (lr_reply r) else 0"] exI [of _ "\<lambda>_. 0"])
        (auto simp: accepted_def sent_bytes_def ran_def split: handler.splits)
  next
    case StAccept
    with step have "rpc_phase c = Sending" "heap' = heap" "c' = c\<lparr>rpc_phase := Accepted\<rparr>"
        "rn' = rn\<lparr>nw_count := nw_count rn + 1, nw_bytes := nw_bytes rn + word_of_int (int (length (rq_args (rpc_req c))))\<rparr>"
      by (auto simp: network_accept_def split: phase.splits if_splits)
    then show ?thesis
      by (intro exI [of _ 1] exI [of _ "length (rq_args (rpc_req c))"] exI [of _ "\<lambda>_. 0"])
        (auto simp: accepted_def sent_bytes_def ran_def split: handler.splits)
  next
    case StAbort
    show ?thesis
      by (rule same) (use step StAbort in \<open>auto simp: Call_abort_def accepted_def sent_bytes_def ran_def split: phase.splits if_splits\<close>)
  next
    case StDispatch
    with step obtain s rs m where s: "rpc_handler c = Spawned s" "rn' = rn" "c' = c\<lparr>rpc_handler := Running s\<rparr>"
        "s < length heap" "Server_dispatch (rpc_req c) (heap ! s) = Some (rs, m)" "heap' = heap[s := rs]"
      by (auto simp: handler_dispatch_def bind_eq_Some_conv update_at_def dest!: idx_SomeD split: handler.splits if_splits)
    have "sv_count rs = sv_count (heap ! s) + 1" using s(5) by (auto simp: Server_dispatch_def Let_def bind_eq_Some_conv)
    with s show ?thesis
      by (intro exI [of _ 0] exI [of _ "\<lambda>k. if k = s then 1 else 0"])
        (auto simp: accepted_def sent_bytes_def ran_def nth_list_update)
  next
    case (StHandler b)
    show ?thesis
      by (rule same) (use step StHandler in \<open>auto simp: handler_return_def accepted_def sent_bytes_def ran_def split: handler.splits\<close>)
  next
    case StDrain
    show ?thesis
      by (rule same) (use step StDrain in \<open>auto simp: handler_drain_def accepted_def sent_bytes_def ran_def split: handler.splits phase.splits\<close>)
  qed
qed

lemma start_counts [simp]: "accepted (Call_start e m a) = 0" "sent_bytes (Call_start e m a) = 0" "ran k (Call_start e m a) = 0"
  by (simp_all add: accepted_def sent_bytes_def ran_def Call_start_def)

lemma ran_fresh: "call_ok n c \<Longrightarrow> ran n c = 0"
  by (auto simp: call_ok_def ran_def split: handler.splits)

lemma counts_step:
  assumes ok: "lab_ok w" and counts: "counts_ok w" and step: "lab_step e w = Some w'"
  shows "counts_ok w'"
proof (cases e)
  case (LabOp op)
  then obtain rn where rn: "net_op op (lab_net w) = Some rn" "w' = w\<lparr>lab_net := rn\<rparr>" using step by (auto split: if_splits)
  with counts net_op_facts [OF rn(1)] show ?thesis by (simp add: counts_ok_def total_def)
next
  case LabServer
  have "total (ran (length (lab_heap w))) w = 0"
    using ok ran_fresh by (auto simp: total_def lab_ok_def)
  then show ?thesis using counts step LabServer by (auto simp: counts_ok_def total_def nth_append less_Suc_eq MakeServer_def)
next
  case (LabService k svc)
  then show ?thesis using counts step by (auto simp: counts_ok_def total_def nth_list_update AddService_def split: if_splits)
next
  case LabStop
  then show ?thesis using counts step by (auto simp: counts_ok_def total_def network_stop_def split: if_splits)
next
  case (LabCall endname svcMeth args)
  then show ?thesis using counts step by (auto simp: counts_ok_def total_def split: if_splits)
next
  case (LabStep i st)
  then obtain rn heap c where s: "i < length (lab_calls w)" "call_step st (lab_net w) (lab_heap w) (lab_calls w ! i) = Some (rn, heap, c)"
      "w' = \<lparr>lab_net = rn, lab_heap = heap, lab_calls = (lab_calls w)[i := c]\<rparr>"
    using step by (auto split: if_splits)
  have "call_ok (length (lab_heap w)) (lab_calls w ! i)" using ok s(1) by (simp add: lab_ok_def)
  from call_step_counts [OF s(2) this] obtain x y z where xyz:
    "accepted c = accepted (lab_calls w ! i) + x" "nw_count rn = nw_count (lab_net w) + of_nat x"
    "sent_bytes c = sent_bytes (lab_calls w ! i) + y" "nw_bytes rn = nw_bytes (lab_net w) + of_nat y"
    "\<forall>k < length (lab_heap w). ran k c = ran k (lab_calls w ! i) + z k \<and> sv_count (heap ! k) = sv_count (lab_heap w ! k) + int (z k)"
    by (elim exE conjE) (rule that)
  have "total accepted w' = total accepted w + x" "total sent_bytes w' = total sent_bytes w + y"
    unfolding total_def s(3) lab.select_convs by (rule sum_list_change [OF s(1)], rule xyz)+
  moreover have "total (ran k) w' = total (ran k) w + z k" if "k < length (lab_heap w)" for k
    unfolding total_def s(3) lab.select_convs by (rule sum_list_change [OF s(1)]) (use xyz(5) that in simp)
  ultimately show ?thesis
    using counts xyz(2,4,5) call_step_heap [OF s(2)] by (simp add: counts_ok_def) (simp add: s(3))
qed

interpretation labrpc_counts: step_machine lab_step "\<lambda>w. lab_ok w \<and> counts_ok w"
  by unfold_locales (use lab_step_ok counts_step in blast)

lemma lab_init_counts: "lab_ok lab_init \<and> counts_ok lab_init"
  using lab_init_ok by (simp add: counts_ok_def total_def lab_init_def MakeNetwork_def)

lemmas lab_run_counts = labrpc_counts.run_inv [OF lab_init_counts]

section \<open>The end of a call\<close>

lemma call_step_services:
  "call_step st rn heap c = Some (rn', heap', c') \<Longrightarrow> sv_services (heap' ! k) = sv_services (heap ! k)"
  by (cases st) (auto simp: handler_dispatch_def Server_dispatch_def Let_def bind_eq_Some_conv update_at_def nth_list_update
      dest!: idx_SomeD split: handler.splits if_splits)

lemma Server_dispatch_services:
  "sv_services rs' = sv_services rs \<Longrightarrow> Server_dispatch req rs \<noteq> None \<Longrightarrow> Server_dispatch req rs' \<noteq> None"
  by (auto simp: Server_dispatch_def Let_def bind_eq_Some_conv)

lemma work_bound: "call_ok n c \<Longrightarrow> work c \<le> 9"
  by (cases "rpc_phase c"; cases "rpc_handler c") (auto simp: work_def call_ok_def split: option.splits if_splits)

lemma returns_within:
  assumes "lab_ok w" and "i < length (lab_calls w)" and "work (lab_calls w ! i) \<le> n"
    and "\<And>k. k < length (lab_heap w) \<Longrightarrow> Server_dispatch (rpc_req (lab_calls w ! i)) (lab_heap w ! k) \<noteq> None"
  shows "\<exists>sts w'. length sts \<le> n \<and> run_steps lab_step (map (LabStep i) sts) w = Some w' \<and> over (lab_calls w' ! i)"
  using assms
proof (induction n arbitrary: w)
  case 0
  then have "phase_work (rpc_phase (lab_calls w ! i)) = 0" by (simp add: work_def)
  then have "over (lab_calls w ! i)" by (cases "rpc_phase (lab_calls w ! i)") (auto simp: over_def)
  then show ?case by (intro exI [of _ "[]"]) auto
next
  case (Suc n)
  show ?case
  proof (cases "over (lab_calls w ! i)")
    case True
    then show ?thesis by (intro exI [of _ "[]"]) auto
  next
    case False
    let ?st = "next_step False [] (lab_net w) (lab_calls w ! i)"
    have ok: "call_ok (length (lab_heap w)) (lab_calls w ! i)" "nw_looping (lab_net w) \<or> nw_done (lab_net w)"
      using Suc.prems(1,2) by (auto simp: lab_ok_def)
    from next_step_possible [OF ok False Suc.prems(4)] obtain rn heap c where
      s: "call_step ?st (lab_net w) (lab_heap w) (lab_calls w ! i) = Some (rn, heap, c)" "work c < work (lab_calls w ! i)" by blast
    define v where "v = \<lparr>lab_net = rn, lab_heap = heap, lab_calls = (lab_calls w)[i := c]\<rparr>"
    have step: "lab_step (LabStep i ?st) w = Some v" using Suc.prems(2) s(1) by (simp add: v_def)
    have "lab_ok v" by (rule lab_step_ok [OF Suc.prems(1) step])
    moreover have "i < length (lab_calls v)" "lab_calls v ! i = c" using Suc.prems(2) by (simp_all add: v_def)
    moreover have "Server_dispatch (rpc_req c) (lab_heap v ! k) \<noteq> None" if "k < length (lab_heap v)" for k
    proof -
      have "k < length (lab_heap w)" using that call_step_heap [OF s(1)] by (simp add: v_def)
      from Server_dispatch_services [OF call_step_services [OF s(1), of k] Suc.prems(4) [OF this]]
      show ?thesis unfolding call_step_req [OF s(1)] by (simp add: v_def)
    qed
    moreover have "work c \<le> n" using s(2) Suc.prems(3) by simp
    ultimately obtain sts w' where "length sts \<le> n" "run_steps lab_step (map (LabStep i) sts) v = Some w'" "over (lab_calls w' ! i)"
      using Suc.IH [of v] by auto
    with step show ?thesis by (intro exI [of _ "?st # sts"] exI [of _ w']) simp
  qed
qed

section \<open>A small network\<close>

lemma run_result: "(case x of None \<Rightarrow> False | Some w \<Rightarrow> P w) \<Longrightarrow> \<exists>w. x = Some w \<and> P w"
  by (cases x) auto

lemma run_then: "run_steps f es s = Some v \<Longrightarrow> run_steps f es' v = Some w \<Longrightarrow> run_steps f (es @ es') s = Some w"
  by (simp add: run_steps_append)

definition ex_service :: RpcService where
  "ex_service = MakeService ''S'' [\<lparr>me_Name = ''M'', me_PkgPath = [], me_In = [Ptr, Ptr, Ptr], me_NumOut = 0\<rparr>]"

abbreviation ex_setup :: "string lab_event list" where
  "ex_setup \<equiv> [LabServer, LabService 0 ex_service, LabOp (OpMakeEnd ''e''), LabOp (OpAddServer ''s'' 0), LabOp (OpConnect ''e'' ''s''),
     LabOp (OpEnable ''e'' True), LabCall ''e'' ''S.M'' ''xy'', LabCall ''e'' ''S.M'' ''xy'']"

abbreviation ex_reply :: "string lab_event list" where
  "ex_reply \<equiv> map (LabStep 0) [StAccept, StRead, StSend False, StTimeout, StDispatch, StHandler ''z'', StCollect, StDecide False, StReply]"

section \<open>Properties\<close>

text \<open>C10: A call runs its handler at most once. If it returns true, the handler ran exactly once, its reply is the
  one returned, and it had returned in a state in which the server was in place and the end enabled: no positive
  reply of a server that was deleted while the handler ran, so none that a restarted server does not know of.\<close>

theorem positive_reply_executed:
  assumes "run_steps lab_step es lab_init = Some w" and "i < length (lab_calls w)"
  shows "dispatches i es \<le> 1 \<and> (\<forall>b. rpc_phase (lab_calls w ! i) = Returned True b \<longrightarrow> dispatches i es = 1 \<and> replies i es = [b] \<and>
    (\<exists>es1 d es2 v n s. es = es1 @ LabStep i (StDecide d) # es2 \<and> run_steps lab_step es1 lab_init = Some v \<and>
       rpc_handler (lab_calls v ! i) = Received s \<lparr>lr_ok = True, lr_reply = b\<rparr> \<and>
       isEnabled (rq_endname (rpc_req (lab_calls w ! i))) (lab_net v) \<and> theServer n (lab_net v) = Some s))"
proof -
  have trace: "dispatches i es = handler_dispatches (rpc_handler (lab_calls w ! i)) \<and> replies i es = handler_replies (rpc_handler (lab_calls w ! i))"
    using traced [OF assms(1), of i] assms(2) by simp
  have "handler_dispatches h \<le> 1" for h by (cases h) auto
  moreover have "dispatches i es = 1 \<and> replies i es = [b] \<and> (\<exists>es1 d es2 v n s. es = es1 @ LabStep i (StDecide d) # es2 \<and>
       run_steps lab_step es1 lab_init = Some v \<and> rpc_handler (lab_calls v ! i) = Received s \<lparr>lr_ok = True, lr_reply = b\<rparr> \<and>
       isEnabled (rq_endname (rpc_req (lab_calls w ! i))) (lab_net v) \<and> theServer n (lab_net v) = Some s)"
    if ret: "rpc_phase (lab_calls w ! i) = Returned True b" for b
  proof -
    have h: "\<exists>s. rpc_handler (lab_calls w ! i) = Received s \<lparr>lr_ok = True, lr_reply = b\<rparr>"
      using lab_run_calls [OF assms] ret by (simp add: call_ok_def)
    have "positive (lab_calls w ! i)" using ret by (simp add: positive_def)
    from decided [OF assms this] obtain es1 d es2 v n s rel long r where v:
      "es = es1 @ LabStep i (StDecide d) # es2" "run_steps lab_step es1 lab_init = Some v" "i < length (lab_calls v)"
      "rpc_req (lab_calls v ! i) = rpc_req (lab_calls w ! i)" "rpc_phase (lab_calls v ! i) = Collected n s rel long (Some r)"
      "\<not> isServerDead (rq_endname (rpc_req (lab_calls v ! i))) n s (lab_net v)" by (elim exE conjE) (rule that)
    have r: "rpc_handler (lab_calls v ! i) = Received s r" "lr_ok r"
      using lab_run_calls [OF v(2,3)] v(5) by (simp_all add: call_ok_def)
    then have "replies i es1 = [lr_reply r]" using traced [OF v(2), of i] v(3) by simp
    moreover have "replies i es = replies i es1 @ replies i (LabStep i (StDecide d) # es2)" by (simp add: v(1) replies_def)
    ultimately have "lr_reply r = b" using trace h by auto
    with r(2) have "r = \<lparr>lr_ok = True, lr_reply = b\<rparr>" by (cases r) simp
    with trace h v r(1) show ?thesis unfolding isServerDead_def by fastforce
  qed
  ultimately show ?thesis using trace by auto
qed

lemma positive_reply_executed_witness:
  "\<exists>w. run_steps lab_step (ex_setup @ ex_reply) lab_init = Some w \<and> rpc_phase (lab_calls w ! 0) = Returned True ''z'' \<and>
     dispatches 0 (ex_setup @ ex_reply) = 1"
proof -
  have "(case run_steps lab_step (ex_setup @ ex_reply) lab_init of None \<Rightarrow> False
      | Some w \<Rightarrow> 0 < length (lab_calls w) \<and> rpc_phase (lab_calls w ! 0) = Returned True ''z'')" by code_simp
  from run_result [OF this] obtain w where w: "run_steps lab_step (ex_setup @ ex_reply) lab_init = Some w" "0 < length (lab_calls w)"
      "rpc_phase (lab_calls w ! 0) = Returned True ''z''"
    by (elim exE conjE) (rule that)
  from positive_reply_executed [OF w(1,2)] w show ?thesis by blast
qed

text \<open>C11: A call always comes to an end if its handler does: whatever steps of a call are taken, every one of them is progress,
  of which there are at most nine, except for a timeout at which the server is still alive; and from every reachable state
  the call can return within nine steps of its own and its handler, if the server knows the method. While it waits
  for a server that is dead, it needs no step of the handler: three of its own and it has failed.\<close>

theorem call_ends:
  assumes "run_steps lab_step es lab_init = Some w" and "i < length (lab_calls w)"
    and "\<And>k. k < length (lab_heap w) \<Longrightarrow> Server_dispatch (rpc_req (lab_calls w ! i)) (lab_heap w ! k) \<noteq> None"
  shows "work (lab_calls w ! i) \<le> 9 \<and>
    (\<forall>st w'. lab_step (LabStep i st) w = Some w' \<longrightarrow> work (lab_calls w' ! i) < work (lab_calls w ! i) \<or> st = StTimeout \<and> w' = w) \<and>
    (\<exists>sts w'. length sts \<le> 9 \<and> run_steps lab_step (map (LabStep i) sts) w = Some w' \<and> over (lab_calls w' ! i)) \<and>
    (\<forall>n s rel long. rpc_phase (lab_calls w ! i) = Waiting n s rel long \<longrightarrow>
       isServerDead (rq_endname (rpc_req (lab_calls w ! i))) n s (lab_net w) \<longrightarrow>
       (\<exists>w'. run_steps lab_step (map (LabStep i) [StTimeout, StDecide d, StReply]) w = Some w' \<and>
          rpc_phase (lab_calls w' ! i) = Returned False []))"
proof (intro conjI allI impI)
  note ok = lab_run_calls [OF assms(1,2)]
  show bound: "work (lab_calls w ! i) \<le> 9" by (rule work_bound [OF ok])
  show "\<exists>sts w'. length sts \<le> 9 \<and> run_steps lab_step (map (LabStep i) sts) w = Some w' \<and> over (lab_calls w' ! i)"
    by (rule returns_within [OF lab_run_ok [OF assms(1)] assms(2) bound assms(3)])
  show "\<exists>w'. run_steps lab_step (map (LabStep i) [StTimeout, StDecide d, StReply]) w = Some w' \<and>
      rpc_phase (lab_calls w' ! i) = Returned False []"
    if "rpc_phase (lab_calls w ! i) = Waiting n s rel long" "isServerDead (rq_endname (rpc_req (lab_calls w ! i))) n s (lab_net w)" for n s rel long
    using that assms(2) by (simp add: processReq_timeout_def processReq_decide_def processReq_reply_def)
  fix st w' assume step: "lab_step (LabStep i st) w = Some w'"
  then obtain rn heap c where s: "call_step st (lab_net w) (lab_heap w) (lab_calls w ! i) = Some (rn, heap, c)"
      "w' = \<lparr>lab_net = rn, lab_heap = heap, lab_calls = (lab_calls w)[i := c]\<rparr>" by (auto split: if_splits)
  from step_work [OF s(1) ok] s(2) assms(2)
  show "work (lab_calls w' ! i) < work (lab_calls w ! i) \<or> st = StTimeout \<and> w' = w" by (cases w) auto
qed

lemma call_ends_witness:
  "\<exists>w sts w'. run_steps lab_step ex_setup lab_init = Some w \<and> length sts \<le> 9 \<and>
     run_steps lab_step (map (LabStep 1) sts) w = Some w' \<and> over (lab_calls w' ! 1)"
proof -
  have "(case run_steps lab_step ex_setup lab_init of None \<Rightarrow> False
      | Some w \<Rightarrow> 1 < length (lab_calls w) \<and> length (lab_heap w) = 1 \<and>
          Server_dispatch (rpc_req (lab_calls w ! 1)) (lab_heap w ! 0) \<noteq> None)" by code_simp
  from run_result [OF this] obtain w where w: "run_steps lab_step ex_setup lab_init = Some w" "1 < length (lab_calls w)" "length (lab_heap w) = 1"
      "Server_dispatch (rpc_req (lab_calls w ! 1)) (lab_heap w ! 0) \<noteq> None"
    by (elim exE conjE) (rule that)
  have "Server_dispatch (rpc_req (lab_calls w ! 1)) (lab_heap w ! k) \<noteq> None" if "k < length (lab_heap w)" for k
    using that w(3,4) by simp
  from call_ends [OF w(1,2) this] w(1) show ?thesis by blast
qed

text \<open>C38: A call whose end is disabled or not connected, or whose server is not there, when \<open>processReq\<close> looks, fails, and
  its handler is never started, whatever happens later.\<close>

theorem unreachable_fails:
  assumes "lab_step (LabStep i StRead) w = Some v" and "endname = rq_endname (rpc_req (lab_calls w ! i))"
    and "\<not> (isEnabled endname (lab_net w) \<and> (\<exists>n. theConnection endname (lab_net w) = Some n \<and> theServer n (lab_net w) \<noteq> None))"
    and "rpc_handler (lab_calls w ! i) = NotStarted" and "run_steps lab_step es v = Some w'" and "over (lab_calls w' ! i)"
  shows "rpc_phase (lab_calls w' ! i) = Returned False [] \<and> rpc_handler (lab_calls w' ! i) = NotStarted"
proof -
  have i: "i < length (lab_calls w)" using assms(1) by (simp split: if_splits)
  from lab_step_call [OF assms(1) i] have r: "i < length (lab_calls v)" "processReq_read (lab_net w) (lab_calls w ! i) = Some (lab_calls v ! i)"
    by auto
  from r(2) have "failing (lab_calls v ! i)"
    by (cases rule: processReq_readD) (use assms(2-4) in \<open>auto simp: failing_def\<close>)
  from run_call_inv [where N = "\<lambda>_. True" and P = failing, OF assms(5) r(1) this] failing_step
  have "failing (lab_calls w' ! i)" by blast
  with assms(6) show ?thesis by (auto simp: failing_def over_def)
qed

lemma unreachable_fails_witness:
  "\<exists>w. run_steps lab_step (ex_setup @ [LabOp (OpDeleteServer ''s''), LabStep 0 StAccept, LabStep 0 StRead, LabStep 0 StReply]) lab_init = Some w \<and>
     rpc_phase (lab_calls w ! 0) = Returned False []"
proof -
  let ?es = "ex_setup @ [LabOp (OpDeleteServer ''s''), LabStep 0 StAccept]"
  have "(case run_steps lab_step ?es lab_init of None \<Rightarrow> False | Some w \<Rightarrow>
      rpc_handler (lab_calls w ! 0) = NotStarted \<and> theConnection (rq_endname (rpc_req (lab_calls w ! 0))) (lab_net w) = Some ''s'' \<and>
      theServer ''s'' (lab_net w) = None \<and> (case lab_step (LabStep 0 StRead) w of None \<Rightarrow> False | Some v \<Rightarrow>
        (case run_steps lab_step [LabStep 0 StReply] v of None \<Rightarrow> False | Some w' \<Rightarrow> phase_work (rpc_phase (lab_calls w' ! 0)) = 0)))"
    by code_simp
  then obtain w v w' where w: "run_steps lab_step ?es lab_init = Some w" "rpc_handler (lab_calls w ! 0) = NotStarted"
      "theConnection (rq_endname (rpc_req (lab_calls w ! 0))) (lab_net w) = Some ''s''" "theServer ''s'' (lab_net w) = None"
      "lab_step (LabStep 0 StRead) w = Some v" "run_steps lab_step [LabStep 0 StReply] v = Some w'"
      and "phase_work (rpc_phase (lab_calls w' ! 0)) = 0"
    by (elim run_result [THEN exE] conjE) (rule that)
  from this(7) have "over (lab_calls w' ! 0)" by (cases "rpc_phase (lab_calls w' ! 0)") (auto simp: over_def)
  with unreachable_fails [OF w(5) refl _ w(2,6)] w(3,4) have "rpc_phase (lab_calls w' ! 0) = Returned False []" by simp
  moreover have "run_steps lab_step (?es @ LabStep 0 StRead # [LabStep 0 StReply]) lab_init = Some w'"
    by (rule run_then [OF w(1)], subst run_steps.simps(2), simp only: w(5) bind.bind_lunit, rule w(6))
  ultimately show ?thesis by (intro exI [of _ w']) (simp only: append_assoc append.simps simp_thms)
qed

text \<open>C39: A network that is up loses nothing: if it is reliable and the end is connected and enabled to a server, and
  stays so, then a call of this end never fails: when it is over, it has returned true with the reply of
  the handler on that server. Long delays and reordering do not matter.\<close>

theorem reliable_delivers:
  assumes "run_steps lab_step es lab_init = Some w" and "i < length (lab_calls w)"
    and "up (rq_endname (rpc_req (lab_calls w ! i))) n s (lab_net w)"
    and "rpc_phase (lab_calls w ! i) = Sending \<or> rpc_phase (lab_calls w ! i) = Accepted"
    and "run_steps lab_step es' w = Some w'" and "list_all quiet es'" and "over (lab_calls w' ! i)"
  shows "\<exists>b. rpc_phase (lab_calls w' ! i) = Returned True b \<and> rpc_handler (lab_calls w' ! i) = Received s \<lparr>lr_ok = True, lr_reply = b\<rparr>"
proof -
  let ?e = "rq_endname (rpc_req (lab_calls w ! i))"
  have "rpc_handler (lab_calls w ! i) = NotStarted" using lab_run_calls [OF assms(1,2)] assms(4) by (auto simp: call_ok_def)
  then have start: "served ?e n s (lab_calls w ! i)" using assms(4) by (auto simp: served_def)
  have quiet: "quiet e" if "e \<in> set es'" for e using assms(6) that by (simp add: list_all_iff)
  have "i < length (lab_calls w') \<and> served ?e n s (lab_calls w' ! i)"
  proof (rule run_call_inv [where N = "up ?e n s" and P = "served ?e n s", OF assms(5,2) start assms(3)])
    show "up ?e n s (lab_net v')" if "e \<in> set es'" "up ?e n s (lab_net v)" "lab_step e v = Some v'" for e v v'
      by (rule up_step [OF that(2) quiet [OF that(1)] that(3)])
  qed (rule served_step)
  moreover have "run_steps lab_step (es @ es') lab_init = Some w'" using assms(1,5) by (simp add: run_steps_append)
  ultimately show ?thesis using lab_run_calls [of "es @ es'" w' i] assms(7)
    by (auto simp: served_def over_def call_ok_def)
qed

lemma reliable_delivers_witness:
  "\<exists>w. run_steps lab_step (ex_setup @ ex_reply) lab_init = Some w \<and> rpc_phase (lab_calls w ! 0) = Returned True ''z''"
proof -
  have "(case run_steps lab_step ex_setup lab_init of None \<Rightarrow> False | Some w \<Rightarrow> 0 < length (lab_calls w) \<and>
      up (rq_endname (rpc_req (lab_calls w ! 0))) ''s'' 0 (lab_net w) \<and> (rpc_phase (lab_calls w ! 0) = Sending \<or> rpc_phase (lab_calls w ! 0) = Accepted) \<and>
      (case run_steps lab_step ex_reply w of None \<Rightarrow> False | Some w' \<Rightarrow> phase_work (rpc_phase (lab_calls w' ! 0)) = 0 \<and>
         handler_replies (rpc_handler (lab_calls w' ! 0)) = [''z'']))" by code_simp
  then obtain w w' where w: "run_steps lab_step ex_setup lab_init = Some w" "0 < length (lab_calls w)"
      "up (rq_endname (rpc_req (lab_calls w ! 0))) ''s'' 0 (lab_net w)"
      "rpc_phase (lab_calls w ! 0) = Sending \<or> rpc_phase (lab_calls w ! 0) = Accepted" "run_steps lab_step ex_reply w = Some w'"
      and w': "phase_work (rpc_phase (lab_calls w' ! 0)) = 0" "handler_replies (rpc_handler (lab_calls w' ! 0)) = [''z'']"
    by (elim run_result [THEN exE] conjE) (rule that)
  have "over (lab_calls w' ! 0)" using w'(1) by (cases "rpc_phase (lab_calls w' ! 0)") (auto simp: over_def)
  moreover have "list_all quiet ex_reply" by simp
  ultimately have "rpc_phase (lab_calls w' ! 0) = Returned True ''z''"
    using reliable_delivers [OF w] w'(2) by fastforce
  moreover have "run_steps lab_step (ex_setup @ ex_reply) lab_init = Some w'"
    by (rule run_then [OF w(1,5)])
  ultimately show ?thesis by blast
qed

text \<open>C40: The counters count: a server's number is that of the calls whose handlers were started on it, and the network's
  are the number of requests it accepted and the bytes of these requests and of the replies delivered, as
  long as they are below the bounds of \<open>int32\<close> and \<open>int64\<close>; beyond, they wrap around.\<close>

theorem counters_exact:
  assumes "run_steps lab_step es lab_init = Some w"
  shows "GetTotalCount (lab_net w) = signed_take_bit 31 (int (total accepted w)) \<and>
    GetTotalBytes (lab_net w) = signed_take_bit 63 (int (total sent_bytes w)) \<and>
    (total accepted w < 2 ^ 31 \<longrightarrow> GetTotalCount (lab_net w) = int (total accepted w)) \<and>
    (total sent_bytes w < 2 ^ 63 \<longrightarrow> GetTotalBytes (lab_net w) = int (total sent_bytes w)) \<and>
    NetworkGetCount n (lab_net w) (lab_heap w) = map_option (\<lambda>s. int (total (ran s) w)) (theServer n (lab_net w))"
proof -
  have counts: "nw_count (lab_net w) = of_nat (total accepted w)" "nw_bytes (lab_net w) = of_nat (total sent_bytes w)"
      "\<And>k. k < length (lab_heap w) \<Longrightarrow> sv_count (lab_heap w ! k) = int (total (ran k) w)"
      "\<And>k. theServer n (lab_net w) = Some k \<Longrightarrow> k < length (lab_heap w)"
    using lab_run_counts [OF assms] by (auto simp: counts_ok_def lab_ok_def)
  have total: "GetTotalCount (lab_net w) = signed_take_bit 31 (int (total accepted w))"
    "GetTotalBytes (lab_net w) = signed_take_bit 63 (int (total sent_bytes w))"
    by (simp_all add: GetTotalCount_def GetTotalBytes_def counts(1,2) sint_uint unsigned_of_nat of_nat_take_bit signed_take_bit_take_bit)
  have small: "signed_take_bit m (int k) = int k" if "k < 2 ^ m" for m k
    using that by (simp add: signed_take_bit_int_eq_self_iff) (meson less_le_trans neg_le_0_iff_le of_nat_0_le_iff order_trans zero_le_numeral zero_le_power)
  have "NetworkGetCount n (lab_net w) (lab_heap w) = map_option (\<lambda>s. int (total (ran s) w)) (theServer n (lab_net w))"
    using counts(3,4) by (cases "theServer n (lab_net w)") (auto simp: NetworkGetCount_def)
  with total small show ?thesis by simp
qed

lemma counters_exact_witness:
  "\<exists>w. run_steps lab_step (ex_setup @ ex_reply) lab_init = Some w \<and> GetTotalCount (lab_net w) = 1 \<and> GetTotalBytes (lab_net w) = 3 \<and>
     NetworkGetCount ''s'' (lab_net w) (lab_heap w) = Some 1"
proof -
  have "(case run_steps lab_step (ex_setup @ ex_reply) lab_init of None \<Rightarrow> False
      | Some w \<Rightarrow> total accepted w = 1 \<and> total sent_bytes w = 3 \<and> total (ran 0) w = 1 \<and> theServer ''s'' (lab_net w) = Some 0)" by code_simp
  from run_result [OF this] obtain w where w: "run_steps lab_step (ex_setup @ ex_reply) lab_init = Some w" "total accepted w = 1" "total sent_bytes w = 3"
      "total (ran 0) w = 1" "theServer ''s'' (lab_net w) = Some 0"
    by (elim exE conjE) (rule that)
  from counters_exact [OF w(1), of "''s''"] w(2-5) have "GetTotalCount (lab_net w) = 1 \<and> GetTotalBytes (lab_net w) = 3 \<and>
      NetworkGetCount ''s'' (lab_net w) (lab_heap w) = Some 1" by simp
  with w(1) show ?thesis by blast
qed

end
